(* ===== verification/Prelude.thy ===== *)
theory Prelude
  imports Main "HOL-Library.Multiset" "HOL-Library.AList" "HOL-Library.Char_ord" "HOL-Library.List_Lexorder"
begin

text \<open>
  Shared vocabulary of the development: the error values and results of the Go code, the loop
  over a list that stops at the first error, association lists as Go maps, and the functions of
  Go's packages \<^verbatim>\<open>strings\<close>, \<^verbatim>\<open>strconv\<close> and \<^verbatim>\<open>fmt\<close> that the sources call.

  Conventions used everywhere. A Go string is a byte list (\<^typ>\<open>string\<close>); case mapping and
  white space are those of ASCII. A Go map is an association list: its order stands for the
  order in which a \<^verbatim>\<open>range\<close> loop happens to visit the keys, so a theorem that holds for
  every list holds for every iteration order.
\<close>

named_theorems go_simps \<open>unfolding rules for the model of Go's standard library\<close>
named_theorems res_simps \<open>case analysis of results\<close>

section \<open>Errors and results\<close>

text \<open>
  \<open>Err f args\<close> is \<^verbatim>\<open>fmt.Errorf(f, args...)\<close>; \<open>Wrap f args e\<close> is the same with
  a \<^verbatim>\<open>%w\<close> operand. The sentinel errors the code compares against are constructors.
\<close>

datatype goerr =
    Err string "string list"
  | Wrap string "string list" goerr
  | EOF
  | UnexpectedEOF
  | Canceled
  | DeadlineExceeded
  | ReloadInProgress

type_synonym 'a res = "goerr + 'a"

text \<open>\<^verbatim>\<open>errors.Is\<close> walks the chain of wrapped errors.\<close>

fun errors_Is :: "goerr \<Rightarrow> goerr \<Rightarrow> bool" where
  "errors_Is (Wrap f args e) target = (Wrap f args e = target \<or> errors_Is e target)"
| "errors_Is e target = (e = target)"

definition is_ok :: "'a res \<Rightarrow> bool" where
  "is_ok r = (case r of Inl _ \<Rightarrow> False | Inr _ \<Rightarrow> True)"

lemma is_ok_simps [simp]: "is_ok (Inl e) = False" "is_ok (Inr x) = True"
  by (simp_all add: is_ok_def)

lemma is_ok_iff: "is_ok r \<longleftrightarrow> (\<exists>x. r = Inr x)"
  by (cases r) auto

text \<open>A loop over a list whose body may return an error.\<close>

fun rfold :: "('s \<Rightarrow> 'a \<Rightarrow> 's res) \<Rightarrow> 's \<Rightarrow> 'a list \<Rightarrow> 's res" where
  "rfold f s [] = Inr s"
| "rfold f s (x # xs) = (case f s x of Inl e \<Rightarrow> Inl e | Inr s' \<Rightarrow> rfold f s' xs)"

lemma rfold_append:
  "rfold f s (xs @ ys) = (case rfold f s xs of Inl e \<Rightarrow> Inl e | Inr s' \<Rightarrow> rfold f s' ys)"
  by (induction xs arbitrary: s) (auto split: sum.splits)

lemma rfold_ok_inv:
  assumes "rfold f s xs = Inr t" and "P s"
    and "\<And>s x s'. x \<in> set xs \<Longrightarrow> P s \<Longrightarrow> f s x = Inr s' \<Longrightarrow> P s'"
  shows "P t"
  using assms
proof (induction xs arbitrary: s)
  case Nil
  then show ?case by simp
next
  case (Cons x xs)
  then obtain s' where s': "f s x = Inr s'" and rest: "rfold f s' xs = Inr t"
    by (auto split: sum.splits)
  have "P s'" using Cons.prems(2,3) s' by auto
  then show ?case using Cons.IH [OF rest] Cons.prems(3) by auto
qed

text \<open>The first error of a checked list, as a loop \<^verbatim>\<open>for ... { if err := ...; return err }\<close>.\<close>

fun first_err :: "('a \<Rightarrow> goerr option) \<Rightarrow> 'a list \<Rightarrow> goerr option" where
  "first_err f [] = None"
| "first_err f (x # xs) = (case f x of Some e \<Rightarrow> Some e | None \<Rightarrow> first_err f xs)"

lemma first_err_None [simp]: "first_err f xs = None \<longleftrightarrow> (\<forall>x \<in> set xs. f x = None)"
  by (induction xs) (auto split: option.splits)

lemma first_err_Some: "first_err f xs = Some e \<Longrightarrow> \<exists>x \<in> set xs. f x = Some e"
  by (induction xs) (auto split: option.splits)

section \<open>Maps\<close>

text \<open>\<^verbatim>\<open>m[k]\<close> on a map of strings: the zero value when the key is missing.\<close>

definition map_str :: "('k \<times> string) list \<Rightarrow> 'k \<Rightarrow> string" where
  "map_str m k = (case map_of m k of None \<Rightarrow> '''' | Some v \<Rightarrow> v)"

lemma map_of_AList_update [simp]:
  "map_of (AList.update k v m) = (map_of m)(k \<mapsto> v)"
  by (rule update_conv')

lemma map_of_AList_delete [simp]:
  "map_of (AList.delete k m) = (map_of m)(k := None)"
  by (rule delete_conv')

lemma distinct_map_fst_mset:
  "mset xs = mset ys \<Longrightarrow> distinct (map fst xs) \<Longrightarrow> map_of xs = map_of ys"
proof -
  assume m: "mset xs = mset ys" and d: "distinct (map fst xs)"
  then have "set xs = set ys" using mset_eq_setD by blast
  moreover have "distinct (map fst ys)"
    using m d by (metis mset_eq_imp_distinct_iff mset_map)
  ultimately show "map_of xs = map_of ys"
    using d map_of_inject_set by blast
qed

section \<open>Strings\<close>

definition lower_char :: "char \<Rightarrow> char" where
  "lower_char c = (if CHR ''A'' \<le> c \<and> c \<le> CHR ''Z'' then char_of (of_char c + (32::nat)) else c)"

text \<open>\<^verbatim>\<open>strings.ToLower\<close> on ASCII.\<close>

definition ToLower :: "string \<Rightarrow> string" where
  "ToLower s = map lower_char s"

definition is_space :: "char \<Rightarrow> bool" where
  "is_space c = (c \<in> {CHR '' '', CHR 0x09, CHR 0x0A, CHR 0x0B, CHR 0x0C, CHR 0x0D})"

text \<open>\<^verbatim>\<open>strings.TrimSpace\<close> on ASCII.\<close>

definition TrimSpace :: "string \<Rightarrow> string" where
  "TrimSpace s = rev (dropWhile is_space (rev (dropWhile is_space s)))"

fun HasPrefix :: "string \<Rightarrow> string \<Rightarrow> bool" where
  "HasPrefix s [] = True"
| "HasPrefix [] (p # ps) = False"
| "HasPrefix (c # s) (p # ps) = (c = p \<and> HasPrefix s ps)"

definition HasSuffix :: "string \<Rightarrow> string \<Rightarrow> bool" where
  "HasSuffix s p = HasPrefix (rev s) (rev p)"

definition TrimPrefix :: "string \<Rightarrow> string \<Rightarrow> string" where
  "TrimPrefix s p = (if HasPrefix s p then drop (length p) s else s)"

definition TrimSuffix :: "string \<Rightarrow> string \<Rightarrow> string" where
  "TrimSuffix s p = (if HasSuffix s p then take (length s - length p) s else s)"

lemma HasPrefix_iff: "HasPrefix s p \<longleftrightarrow> (\<exists>t. s = p @ t)"
  by (induction s p rule: HasPrefix.induct) auto

lemma HasPrefix_append [simp]: "HasPrefix (p @ t) p"
  by (auto simp: HasPrefix_iff)

lemma HasSuffix_iff: "HasSuffix s p \<longleftrightarrow> (\<exists>t. s = t @ p)"
proof -
  have "HasSuffix s p \<longleftrightarrow> (\<exists>t. rev s = rev p @ t)"
    by (simp add: HasSuffix_def HasPrefix_iff)
  also have "\<dots> \<longleftrightarrow> (\<exists>t. s = t @ p)"
    by (metis rev_append rev_rev_ident)
  finally show ?thesis .
qed

lemma HasSuffix_append [simp]: "HasSuffix (t @ p) p"
  by (auto simp: HasSuffix_iff)

lemma TrimPrefix_append [simp]: "TrimPrefix (p @ t) p = t"
  by (simp add: TrimPrefix_def)

lemma TrimSuffix_append [simp]: "TrimSuffix (t @ p) p = t"
  by (simp add: TrimSuffix_def)

text \<open>\<^verbatim>\<open>strings.Split\<close> with a one-byte separator: always at least one part.\<close>

fun split_char :: "char \<Rightarrow> string \<Rightarrow> string list" where
  "split_char c [] = [[]]"
| "split_char c (x # xs) =
     (if x = c then [] # split_char c xs
      else (case split_char c xs of [] \<Rightarrow> [[x]] | p # ps \<Rightarrow> (x # p) # ps))"

lemma split_char_not_Nil [simp]: "split_char c s \<noteq> []"
  by (induction s) (auto split: list.splits)

fun join_with :: "string \<Rightarrow> string list \<Rightarrow> string" where
  "join_with sep [] = []"
| "join_with sep [s] = s"
| "join_with sep (s # t # ss) = s @ sep @ join_with sep (t # ss)"

lemma join_split_char: "join_with [c] (split_char c s) = s"
proof (induction s)
  case Nil
  then show ?case by simp
next
  case (Cons x xs)
  then show ?case
    by (cases "split_char c xs" rule: remdups_adj.cases) (auto split: list.splits)
qed

text \<open>\<^verbatim>\<open>strconv.Itoa\<close> and the decimal verb of \<^verbatim>\<open>fmt\<close>.\<close>

definition digit_char :: "nat \<Rightarrow> char" where
  "digit_char d = char_of (48 + d)"

fun nat_digits :: "nat \<Rightarrow> string" where
  "nat_digits n = (if n < 10 then [digit_char n] else nat_digits (n div 10) @ [digit_char (n mod 10)])"

declare nat_digits.simps [simp del]

definition Itoa :: "int \<Rightarrow> string" where
  "Itoa i = (if i < 0 then CHR ''-'' # nat_digits (nat (- i)) else nat_digits (nat i))"

lemma nat_digits_not_Nil [simp]: "nat_digits n \<noteq> []"
  by (subst nat_digits.simps) simp

section \<open>Transition systems\<close>

text \<open>
  Each concurrent component is a step relation with its reachability relation. What follows from
  that alone is proved once: an invariant of the steps holds in every reachable state, runs can be
  joined, and a relation that the steps of one system keep to the runs of another is kept by its
  runs.
\<close>

locale transition_system =
  fixes step :: "'s \<Rightarrow> 's \<Rightarrow> bool"
    and reach :: "'s \<Rightarrow> 's \<Rightarrow> bool"
  assumes reach_refl: "reach s s"
    and reach_more: "reach s t \<Longrightarrow> step t u \<Longrightarrow> reach s u"
    and reach_induct: "reach s t \<Longrightarrow> P s \<Longrightarrow> (\<And>t u. reach s t \<Longrightarrow> P t \<Longrightarrow> step t u \<Longrightarrow> P u) \<Longrightarrow> P t"
begin

lemma invariant:
  assumes "reach s t" and "I s" and "\<And>t u. step t u \<Longrightarrow> I t \<Longrightarrow> I u"
  shows "I t"
  using reach_induct [of s t I, OF assms(1,2)] assms(3) by blast

lemma reach_trans: "reach t u \<Longrightarrow> reach s t \<Longrightarrow> reach s u"
  by (rule reach_induct [of t u "reach s"]) (auto intro: reach_more)

lemma reach_one: "step s t \<Longrightarrow> reach s t"
  by (rule reach_more [OF reach_refl])

text \<open>A scheduler that only ever takes steps stays within the runs.\<close>

lemma reach_schedule: "(\<And>c t. reach s t \<Longrightarrow> reach s (turn t c)) \<Longrightarrow> reach s (foldl turn s cs)"
  by (induction cs rule: rev_induct) (auto intro: reach_refl)

end

locale simulation =
  low: transition_system step reach + high: transition_system step' reach'
  for step :: "'s \<Rightarrow> 's \<Rightarrow> bool" and reach and step' :: "'t \<Rightarrow> 't \<Rightarrow> bool" and reach' +
  fixes related :: "'s \<Rightarrow> 't \<Rightarrow> bool"
  assumes simulate: "related s t \<Longrightarrow> step s s' \<Longrightarrow> \<exists>t'. reach' t t' \<and> related s' t'"
begin

lemma runs_simulate:
  assumes "reach s s'" and "related s t"
  shows "\<exists>t'. reach' t t' \<and> related s' t'"
proof (rule low.reach_induct [of s s' "\<lambda>s'. \<exists>t'. reach' t t' \<and> related s' t'"])
  show "\<exists>t'. reach' t t' \<and> related s t'" using high.reach_refl assms(2) by blast
  show "\<exists>t'. reach' t t' \<and> related u t'" if "\<exists>t'. reach' t t' \<and> related v t'" "step v u" for v u
    using that simulate high.reach_trans by blast
qed (rule assms(1))

end

end
