(* ===== verification/GoValue.thy ===== *)
theory GoValue
  imports Prelude
begin

text \<open>
  Go's \<^verbatim>\<open>any\<close> as the configuration code uses it: one constructor per dynamic type that a
  type switch of the sources names. A \<^verbatim>\<open>float64\<close> is the dyadic number \<open>m * 2 ^ e\<close>;
  a \<^verbatim>\<open>map[string]any\<close> is an association list (its order is the iteration order).
  The shortest decimal form of a float (\<^verbatim>\<open>strconv.FormatFloat(f, 'g', -1, 64)\<close>) is the only
  piece of \<^verbatim>\<open>fmt\<close> that is left as an argument \<open>ff\<close>.
\<close>

datatype gfloat = Dyadic int int

datatype gval =
    GNil
  | GBool bool
  | GInt int
  | GInt64 int
  | GFloat32 gfloat
  | GFloat64 gfloat
  | GStr string
  | GStrs "string list"
  | GList "gval list"
  | GMap "(string \<times> gval) list"

type_synonym gmap = "(string \<times> gval) list"

text \<open>\<^verbatim>\<open>m[k]\<close> on a \<^verbatim>\<open>map[string]any\<close>: nil when the key is missing.\<close>

definition mget :: "gmap \<Rightarrow> string \<Rightarrow> gval" where
  "mget m k = (case map_of m k of None \<Rightarrow> GNil | Some v \<Rightarrow> v)"

text \<open>\<^verbatim>\<open>cfg[k]\<close> where the map itself may be nil (reading a nil map is allowed).\<close>

definition mget_opt :: "gmap option \<Rightarrow> string \<Rightarrow> gval" where
  "mget_opt m k = (case m of None \<Rightarrow> GNil | Some m \<Rightarrow> mget m k)"

text \<open>
  The conversions \<^verbatim>\<open>int(f)\<close> and \<^verbatim>\<open>int64(f)\<close> truncate toward zero. Out of the range of
  \<^verbatim>\<open>int64\<close> the language leaves the result to the implementation; the model gives the value
  the amd64 instruction gives.
\<close>

definition trunc_float :: "gfloat \<Rightarrow> int" where
  "trunc_float f = (case f of Dyadic m e \<Rightarrow>
     if 0 \<le> e then m * 2 ^ nat e else sgn m * (\<bar>m\<bar> div 2 ^ nat (- e)))"

definition float_to_int64 :: "gfloat \<Rightarrow> int" where
  "float_to_int64 f =
     (let i = trunc_float f in if - (2 ^ 63) \<le> i \<and> i < 2 ^ 63 then i else - (2 ^ 63))"

lemma float_to_int64_range: "- (2 ^ 63) \<le> float_to_int64 f \<and> float_to_int64 f < 2 ^ 63"
  by (simp add: float_to_int64_def Let_def)

lemma trunc_float_integer: "0 \<le> e \<Longrightarrow> trunc_float (Dyadic m e) = m * 2 ^ nat e"
  by (simp add: trunc_float_def)

text \<open>Truncation never moves away from zero and drops less than one.\<close>

lemma trunc_float_abs: "e < 0 \<Longrightarrow> \<bar>trunc_float (Dyadic m e)\<bar> = \<bar>m\<bar> div 2 ^ nat (- e)"
  by (auto simp: trunc_float_def sgn_if pos_imp_zdiv_nonneg_iff)

section \<open>fmt.Sprint\<close>

fun sprint :: "(gfloat \<Rightarrow> string) \<Rightarrow> gval \<Rightarrow> string" where
  "sprint ff GNil = ''<nil>''"
| "sprint ff (GBool b) = (if b then ''true'' else ''false'')"
| "sprint ff (GInt i) = Itoa i"
| "sprint ff (GInt64 i) = Itoa i"
| "sprint ff (GFloat32 f) = ff f"
| "sprint ff (GFloat64 f) = ff f"
| "sprint ff (GStr s) = s"
| "sprint ff (GStrs ss) = ''['' @ join_with '' '' ss @ '']''"
| "sprint ff (GList vs) = ''['' @ join_with '' '' (map (sprint ff) vs) @ '']''"
| "sprint ff (GMap m) =
     ''map['' @ join_with '' ''
       (map (\<lambda>(k, s). k @ '':'' @ s) (sort_key fst (map (\<lambda>(k, v). (k, sprint ff v)) m))) @ '']''"

section \<open>basestage: reading a stage's configuration map\<close>

definition ConfigString :: "gmap option \<Rightarrow> string \<Rightarrow> string" where
  "ConfigString cfg key =
     (case cfg of None \<Rightarrow> ''''
      | Some m \<Rightarrow> (case mget m key of GStr s \<Rightarrow> s | _ \<Rightarrow> ''''))"

definition ConfigStringSlice :: "(gfloat \<Rightarrow> string) \<Rightarrow> gmap option \<Rightarrow> string \<Rightarrow> string list option" where
  "ConfigStringSlice ff cfg key =
     (case cfg of None \<Rightarrow> None
      | Some m \<Rightarrow>
          (case mget m key of
             GStrs v \<Rightarrow> Some v
           | GList v \<Rightarrow> Some (map (sprint ff) v)
           | GStr v \<Rightarrow> if v \<noteq> '''' then Some [v] else None
           | _ \<Rightarrow> None))"

definition ConfigInt :: "gmap option \<Rightarrow> string \<Rightarrow> int \<Rightarrow> int" where
  "ConfigInt cfg key deflt =
     (case cfg of None \<Rightarrow> deflt
      | Some m \<Rightarrow>
          (case mget m key of
             GInt v \<Rightarrow> v
           | GInt64 v \<Rightarrow> v
           | GFloat64 v \<Rightarrow> float_to_int64 v
           | _ \<Rightarrow> deflt))"

end
