(* ===== verification/Config.thy ===== *)
theory Config
  imports GoValue
begin

text \<open>
  The configuration records of \<^verbatim>\<open>internal/config/config.go\<close>, one record per struct, a
  pointer field as an option, and \<^verbatim>\<open>map[string]any\<close> as an optional association list
  (\<^const>\<open>None\<close> is the nil map). Field names carry a prefix for their struct.
\<close>

record engine_config =
  en_MaxWorkers :: int
  en_MaxInflight :: int
  en_ErrorMode :: string
  en_DrainTimeout :: string

record dlq_config =
  dl_Sink :: string
  dl_IncludeCurrentPayload :: bool

record metrics_config =
  mt_Enabled :: bool
  mt_Port :: int
  mt_Path :: string

record health_config =
  hc_Enabled :: bool
  hc_Port :: int
  hc_Liveness :: string
  hc_Readiness :: string

record logging_config =
  lg_Level :: string
  lg_Format :: string

record observability_config =
  ob_Metrics :: metrics_config
  ob_Health :: health_config
  ob_Logging :: logging_config

record codec_config =
  cc_Name :: string
  cc_Type :: string
  cc_Config :: "gmap option"

record codec_ref =
  cr_Type :: string
  cr_Ref :: string
  cr_Config :: "gmap option"

record batch_config =
  bc_Size :: int
  bc_Timeout :: string
  bc_MaxBytes :: int

record edge_buffer_config =
  bf_Type :: string
  bf_Size :: int
  bf_Strategy :: string
  bf_Key :: "string list option"
  bf_DiskPath :: string
  bf_DiskMaxSize :: int
  bf_DiskSyncInterval :: string

record retry_config =
  rt_Max :: int
  rt_Backoff :: string

record delivery_spec =
  dv_Retry :: "retry_config option"
  dv_Timeout :: string
  dv_DLQ :: string

record edge_attrs =
  ea_Condition :: string
  ea_Route :: string
  ea_Buffer :: "edge_buffer_config option"
  ea_Delivery :: "delivery_spec option"
  ea_Required :: "bool option"

record edge_config =
  ec_From :: string
  ec_To :: string
  ec_Condition :: string
  ec_Route :: string
  ec_Buffer :: "edge_buffer_config option"
  ec_Delivery :: "delivery_spec option"
  ec_Required :: "bool option"

record depends_on_entry =
  do_Upstream :: string
  do_Edge :: "edge_attrs option"

record source_block =
  so_Type :: string
  so_Decoder :: "codec_ref option"
  so_Config :: "gmap option"

record transform_block =
  tr_Type :: string
  tr_Predicate :: string
  tr_Workers :: int
  tr_ErrorMode :: string
  tr_Config :: "gmap option"

record sink_block =
  si_Type :: string
  si_Encoder :: "codec_ref option"
  si_Batch :: "batch_config option"
  si_Ordering :: string
  si_MaxInFlight :: int
  si_Config :: "gmap option"

record step_config =
  sp_StepType :: string
  sp_DependsOn :: "depends_on_entry list"
  sp_Source :: "source_block option"
  sp_Transform :: "transform_block option"
  sp_Sink :: "sink_block option"

record stage_config =
  sc_ID :: string
  sc_Kind :: string
  sc_Type :: string
  sc_DependsOn :: "depends_on_entry list"
  sc_Decoder :: "codec_ref option"
  sc_Encoder :: "codec_ref option"
  sc_Workers :: int
  sc_Predicate :: string
  sc_ErrorMode :: string
  sc_Batch :: "batch_config option"
  sc_Ordering :: string
  sc_MaxInFlight :: int
  sc_Config :: "gmap option"

record pipeline_config =
  pc_APIVersion :: string
  pc_Kind :: string
  pc_Metadata :: "(string \<times> string) list option"
  pc_Engine :: engine_config
  pc_Steps :: "(string \<times> step_config) list"
  pc_Pipeline :: "stage_config list"
  pc_Codecs :: "codec_config list"
  pc_EdgeDefaults :: edge_attrs
  pc_DLQ :: "dlq_config option"
  pc_Observability :: observability_config
  pc_Edges :: "edge_config list"

section \<open>Zero values\<close>

text \<open>Go initialises the fields a composite literal leaves out with their zero values.\<close>

definition zero_engine :: engine_config where
  "zero_engine = \<lparr>en_MaxWorkers = 0, en_MaxInflight = 0, en_ErrorMode = '''', en_DrainTimeout = ''''\<rparr>"

definition zero_observability :: observability_config where
  "zero_observability =
     \<lparr>ob_Metrics = \<lparr>mt_Enabled = False, mt_Port = 0, mt_Path = ''''\<rparr>,
      ob_Health = \<lparr>hc_Enabled = False, hc_Port = 0, hc_Liveness = '''', hc_Readiness = ''''\<rparr>,
      ob_Logging = \<lparr>lg_Level = '''', lg_Format = ''''\<rparr>\<rparr>"

definition zero_buffer :: edge_buffer_config where
  "zero_buffer =
     \<lparr>bf_Type = '''', bf_Size = 0, bf_Strategy = '''', bf_Key = None, bf_DiskPath = '''',
      bf_DiskMaxSize = 0, bf_DiskSyncInterval = ''''\<rparr>"

definition zero_edge_attrs :: edge_attrs where
  "zero_edge_attrs =
     \<lparr>ea_Condition = '''', ea_Route = '''', ea_Buffer = None, ea_Delivery = None, ea_Required = None\<rparr>"

definition zero_edge :: edge_config where
  "zero_edge =
     \<lparr>ec_From = '''', ec_To = '''', ec_Condition = '''', ec_Route = '''', ec_Buffer = None,
      ec_Delivery = None, ec_Required = None\<rparr>"

definition zero_step :: step_config where
  "zero_step =
     \<lparr>sp_StepType = '''', sp_DependsOn = [], sp_Source = None, sp_Transform = None, sp_Sink = None\<rparr>"

definition zero_stage :: stage_config where
  "zero_stage =
     \<lparr>sc_ID = '''', sc_Kind = '''', sc_Type = '''', sc_DependsOn = [], sc_Decoder = None,
      sc_Encoder = None, sc_Workers = 0, sc_Predicate = '''', sc_ErrorMode = '''', sc_Batch = None,
      sc_Ordering = '''', sc_MaxInFlight = 0, sc_Config = None\<rparr>"

definition zero_pipeline :: pipeline_config where
  "zero_pipeline =
     \<lparr>pc_APIVersion = '''', pc_Kind = '''', pc_Metadata = None, pc_Engine = zero_engine,
      pc_Steps = [], pc_Pipeline = [], pc_Codecs = [], pc_EdgeDefaults = zero_edge_attrs,
      pc_DLQ = None, pc_Observability = zero_observability, pc_Edges = []\<rparr>"

lemmas zero_defs =
  zero_engine_def zero_observability_def zero_buffer_def zero_edge_attrs_def zero_edge_def
  zero_step_def zero_stage_def zero_pipeline_def

end
