(* ===== verification/Yaml.thy ===== *)
theory Yaml
  imports Config
begin

text \<open>
  The two YAML decoders of \<^verbatim>\<open>internal/config/normalize.go\<close>, for \<^verbatim>\<open>depends_on\<close> and for
  codec references, on the nodes of the YAML library. What the library's \<^verbatim>\<open>Decode\<close> does with
  the node of edge attributes or of a codec reference is an argument.
\<close>

datatype yaml_kind = ScalarNode | SequenceNode | MappingNode | OtherNode

datatype yaml_node = YNode (yn_Kind: yaml_kind) (yn_Value: string) (yn_Content: "yaml_node list")

definition depends_entry :: "string \<Rightarrow> edge_attrs option \<Rightarrow> depends_on_entry" where
  "depends_entry upstream attrs = \<lparr>do_Upstream = upstream, do_Edge = attrs\<rparr>"

text \<open>The two loops.\<close>

definition sequence_item :: "(yaml_node \<Rightarrow> edge_attrs res) \<Rightarrow> depends_on_entry list \<Rightarrow> yaml_node \<Rightarrow> depends_on_entry list res" where
  "sequence_item dec entries item =
     (case yn_Kind item of
        ScalarNode \<Rightarrow> Inr (entries @ [depends_entry (yn_Value item) None])
      | MappingNode \<Rightarrow>
          (case yn_Content item of
             [k, v] \<Rightarrow> map_sum id (\<lambda>attrs. entries @ [depends_entry (yn_Value k) (Some attrs)]) (dec v)
           | _ \<Rightarrow> Inl (Err ''depends_on sequence item must be a single-key object'' []))
      | _ \<Rightarrow> Inl (Err ''unsupported depends_on sequence element'' []))"

fun mapping_pairs :: "(yaml_node \<Rightarrow> edge_attrs res) \<Rightarrow> depends_on_entry list \<Rightarrow> yaml_node list \<Rightarrow> depends_on_entry list res" where
  "mapping_pairs dec entries [] = Inr entries"
| "mapping_pairs dec entries [k] = Inl (Err ''panic: index out of range'' [])"
| "mapping_pairs dec entries (k # v # rest) =
     (case dec v of
        Inl err \<Rightarrow> Inl err
      | Inr attrs \<Rightarrow> mapping_pairs dec (entries @ [depends_entry (yn_Value k) (Some attrs)]) rest)"

text \<open>The list before the call stays for a nil node.\<close>

definition DependsOnList_UnmarshalYAML ::
  "(yaml_node \<Rightarrow> edge_attrs res) \<Rightarrow> depends_on_entry list \<Rightarrow> yaml_node option \<Rightarrow> depends_on_entry list res" where
  "DependsOnList_UnmarshalYAML dec old value =
     (case value of
        None \<Rightarrow> Inr old
      | Some n \<Rightarrow>
          (case yn_Kind n of
             SequenceNode \<Rightarrow> rfold (sequence_item dec) [] (yn_Content n)
           | MappingNode \<Rightarrow> mapping_pairs dec [] (yn_Content n)
           | _ \<Rightarrow> Inl (Err ''depends_on must be a sequence or mapping'' [])))"

definition CodecRef_UnmarshalYAML :: "(yaml_node \<Rightarrow> codec_ref res) \<Rightarrow> codec_ref \<Rightarrow> yaml_node option \<Rightarrow> codec_ref res" where
  "CodecRef_UnmarshalYAML dec c value =
     (case value of
        None \<Rightarrow> Inr c
      | Some n \<Rightarrow> if yn_Kind n = ScalarNode then Inr (c\<lparr>cr_Type := yn_Value n\<rparr>) else dec n)"

section \<open>The notations of depends_on\<close>

text \<open>A list of upstream stages with the nodes of their attributes, in the two notations.\<close>

definition as_mapping :: "(string \<times> yaml_node) list \<Rightarrow> yaml_node" where
  "as_mapping ps = YNode MappingNode '''' (concat (map (\<lambda>(k, v). [YNode ScalarNode k [], v]) ps))"

definition as_sequence :: "(string \<times> yaml_node) list \<Rightarrow> yaml_node" where
  "as_sequence ps = YNode SequenceNode '''' (map (\<lambda>p. as_mapping [p]) ps)"

text \<open>
  A mapping of upstream stages to their attributes and a sequence of mappings with one key each
  are read alike, errors included: as the entries in the order of the text.
\<close>

theorem depends_on_notations:
  "DependsOnList_UnmarshalYAML dec old (Some (as_mapping ps)) = DependsOnList_UnmarshalYAML dec old (Some (as_sequence ps)) \<and>
   DependsOnList_UnmarshalYAML dec old (Some (as_mapping ps))
     = rfold (\<lambda>es (k, v). map_sum id (\<lambda>attrs. es @ [depends_entry k (Some attrs)]) (dec v)) [] ps"
proof -
  let ?body = "\<lambda>es (k, v). map_sum id (\<lambda>attrs. es @ [depends_entry k (Some attrs)]) (dec v)"
  have m: "mapping_pairs dec es (concat (map (\<lambda>(k, v). [YNode ScalarNode k [], v]) ps)) = rfold ?body es ps" for es
    by (induction ps arbitrary: es) (auto split: sum.split)
  have s: "rfold (sequence_item dec) es (map (\<lambda>p. as_mapping [p]) ps) = rfold ?body es ps" for es
    by (induction ps arbitrary: es) (auto simp: sequence_item_def as_mapping_def split: sum.split)
  have "DependsOnList_UnmarshalYAML dec old (Some (as_mapping ps)) = rfold ?body [] ps"
    by (simp add: DependsOnList_UnmarshalYAML_def as_mapping_def m)
  moreover have "DependsOnList_UnmarshalYAML dec old (Some (as_sequence ps)) = rfold ?body [] ps"
    by (simp add: DependsOnList_UnmarshalYAML_def as_sequence_def s)
  ultimately show ?thesis by simp
qed

end
