(* ===== verification/Normalize.thy ===== *)
theory Normalize
  imports Config
begin

text \<open>
  \<^verbatim>\<open>internal/config/normalize.go\<close>: from the two configuration styles (\<^verbatim>\<open>steps\<close> and
  \<^verbatim>\<open>pipeline\<close>) to one list of stages and one list of edges. The steps map is a list of
  pairs in its iteration order.
\<close>

section \<open>Edge attributes\<close>

definition MergeEdgeAttrs :: "edge_attrs option \<Rightarrow> edge_attrs option \<Rightarrow> edge_attrs" where
  "MergeEdgeAttrs base override =
     (let out = (case base of None \<Rightarrow> zero_edge_attrs | Some b \<Rightarrow> b) in
      case override of
        None \<Rightarrow> out
      | Some o' \<Rightarrow>
          \<lparr>ea_Condition = (if ea_Condition o' \<noteq> '''' then ea_Condition o' else ea_Condition out),
           ea_Route = (if ea_Route o' \<noteq> '''' then ea_Route o' else ea_Route out),
           ea_Buffer = (if ea_Buffer o' \<noteq> None then ea_Buffer o' else ea_Buffer out),
           ea_Delivery = (if ea_Delivery o' \<noteq> None then ea_Delivery o' else ea_Delivery out),
           ea_Required = (if ea_Required o' \<noteq> None then ea_Required o' else ea_Required out)\<rparr>)"

text \<open>
  The verb \<^verbatim>\<open>%q\<close> on ASCII text: a double-quoted Go literal. Bytes from 128 on are taken as
  parts of printable UTF-8 runes, which \<^verbatim>\<open>%q\<close> copies.
\<close>

definition hex_digit :: "nat \<Rightarrow> char" where
  "hex_digit d = (if d < 10 then char_of (48 + d) else char_of (87 + d))"

definition quote_char :: "char \<Rightarrow> string" where
  "quote_char c =
     (if c = CHR 0x22 then [CHR 0x5C, CHR 0x22]
      else if c = CHR 0x5C then [CHR 0x5C, CHR 0x5C]
      else if c = CHR 0x07 then [CHR 0x5C, CHR ''a'']
      else if c = CHR 0x08 then [CHR 0x5C, CHR ''b'']
      else if c = CHR 0x0C then [CHR 0x5C, CHR ''f'']
      else if c = CHR 0x0A then [CHR 0x5C, CHR ''n'']
      else if c = CHR 0x0D then [CHR 0x5C, CHR ''r'']
      else if c = CHR 0x09 then [CHR 0x5C, CHR ''t'']
      else if c = CHR 0x0B then [CHR 0x5C, CHR ''v'']
      else if of_char c < (32 :: nat) \<or> c = CHR 0x7F then
        [CHR 0x5C, CHR ''x'', hex_digit (of_char c div 16), hex_digit (of_char c mod 16)]
      else [c])"

definition go_quote :: "string \<Rightarrow> string" where
  "go_quote s = [CHR 0x22] @ concat (map quote_char s) @ [CHR 0x22]"

definition RouteCondition :: "string \<Rightarrow> string" where
  "RouteCondition route = ''metadata['' @ [CHR 0x22] @ ''er-route'' @ [CHR 0x22] @ ''] == '' @ go_quote route"

section \<open>Expanding depends_on\<close>

text \<open>One iteration of the loop of \<^verbatim>\<open>ExpandDependsOn\<close>.\<close>

definition expand_dep :: "string \<Rightarrow> edge_attrs \<Rightarrow> depends_on_entry \<Rightarrow> edge_config res" where
  "expand_dep stepID defaults dep =
     (if do_Upstream dep = '''' then Inl (Err ''step %q: empty depends_on upstream'' [stepID])
      else
        let attrs = MergeEdgeAttrs (Some defaults) (do_Edge dep) in
        if ea_Route attrs \<noteq> '''' \<and> ea_Condition attrs \<noteq> '''' then
          Inl (Err ''step %q edge from %q: route and condition are mutually exclusive''
                 [stepID, do_Upstream dep])
        else
          Inr \<lparr>ec_From = do_Upstream dep,
               ec_To = stepID,
               ec_Condition =
                 (if ea_Route attrs \<noteq> '''' then RouteCondition (ea_Route attrs) else ea_Condition attrs),
               ec_Route = '''',
               ec_Buffer = ea_Buffer attrs,
               ec_Delivery = ea_Delivery attrs,
               ec_Required = Some (case ea_Required attrs of None \<Rightarrow> True | Some r \<Rightarrow> r)\<rparr>)"

fun ExpandDependsOn :: "string \<Rightarrow> depends_on_entry list \<Rightarrow> edge_attrs \<Rightarrow> edge_config list res" where
  "ExpandDependsOn stepID [] defaults = Inr []"
| "ExpandDependsOn stepID (dep # deps) defaults =
     (case expand_dep stepID defaults dep of
        Inl e \<Rightarrow> Inl e
      | Inr edge \<Rightarrow>
          (case ExpandDependsOn stepID deps defaults of
             Inl e \<Rightarrow> Inl e
           | Inr edges \<Rightarrow> Inr (edge # edges)))"

definition PipelineName :: "pipeline_config \<Rightarrow> string" where
  "PipelineName cfg =
     (case pc_Metadata cfg of
        None \<Rightarrow> ''unnamed''
      | Some m \<Rightarrow> if map_str m ''name'' \<noteq> '''' then map_str m ''name'' else ''unnamed'')"

section \<open>The steps style\<close>

definition firstStageID :: "string \<Rightarrow> step_config \<Rightarrow> string" where
  "firstStageID stepName step = (if sp_Source step \<noteq> None then stepName else stepName)"

definition step_source_stage :: "string \<Rightarrow> source_block \<Rightarrow> stage_config" where
  "step_source_stage stepName b =
     zero_stage\<lparr>sc_ID := stepName, sc_Kind := ''source'', sc_Type := so_Type b,
       sc_Decoder := so_Decoder b, sc_Config := so_Config b\<rparr>"

definition step_transform_stage :: "string \<Rightarrow> transform_block \<Rightarrow> stage_config" where
  "step_transform_stage transformID b =
     zero_stage\<lparr>sc_ID := transformID, sc_Kind := ''transform'', sc_Type := tr_Type b,
       sc_Workers := tr_Workers b, sc_Predicate := tr_Predicate b, sc_ErrorMode := tr_ErrorMode b,
       sc_Config := tr_Config b\<rparr>"

definition step_sink_stage :: "string \<Rightarrow> sink_block \<Rightarrow> stage_config" where
  "step_sink_stage sinkID b =
     zero_stage\<lparr>sc_ID := sinkID, sc_Kind := ''sink'', sc_Type := si_Type b,
       sc_Encoder := si_Encoder b, sc_Batch := si_Batch b, sc_Ordering := si_Ordering b,
       sc_MaxInFlight := si_MaxInFlight b, sc_Config := si_Config b\<rparr>"

definition step_sink_id :: "string \<Rightarrow> step_config \<Rightarrow> string" where
  "step_sink_id stepName step =
     (if sp_Transform step \<noteq> None then stepName @ ''-sink'' else stepName)"

text \<open>The stages one step appends, in the order the code appends them.\<close>

definition step_stages :: "string \<Rightarrow> step_config \<Rightarrow> stage_config list" where
  "step_stages stepName step =
     (case sp_Source step of None \<Rightarrow> [] | Some b \<Rightarrow> [step_source_stage stepName b]) @
     (case sp_Transform step of None \<Rightarrow> [] | Some b \<Rightarrow> [step_transform_stage stepName b]) @
     (case sp_Sink step of None \<Rightarrow> [] | Some b \<Rightarrow> [step_sink_stage (step_sink_id stepName step) b])"

text \<open>The edge between the transform and the sink of one step.\<close>

definition step_inner_edges :: "string \<Rightarrow> step_config \<Rightarrow> edge_config list" where
  "step_inner_edges stepName step =
     (if sp_Sink step \<noteq> None \<and> sp_Transform step \<noteq> None
      then [zero_edge\<lparr>ec_From := stepName, ec_To := step_sink_id stepName step\<rparr>] else [])"

fun normalize_steps_loop ::
  "edge_attrs \<Rightarrow> stage_config list \<Rightarrow> edge_config list \<Rightarrow> (string \<times> step_config) list
     \<Rightarrow> (stage_config list \<times> edge_config list) res" where
  "normalize_steps_loop defaults stages edges [] = Inr (stages, edges)"
| "normalize_steps_loop defaults stages edges ((stepName, step) # rest) =
     (case ExpandDependsOn (firstStageID stepName step) (sp_DependsOn step) defaults of
        Inl e \<Rightarrow> Inl e
      | Inr depEdges \<Rightarrow>
          normalize_steps_loop defaults (stages @ step_stages stepName step)
            (edges @ step_inner_edges stepName step @ depEdges) rest)"

definition NormalizeSteps :: "pipeline_config \<Rightarrow> (stage_config list \<times> edge_config list) res" where
  "NormalizeSteps cfg =
     (if pc_Steps cfg = [] then Inl (Err ''steps is empty'' [])
      else if pc_Pipeline cfg \<noteq> [] then Inl (Err ''steps and pipeline are mutually exclusive'' [])
      else normalize_steps_loop (pc_EdgeDefaults cfg) [] [] (pc_Steps cfg))"

section \<open>The flat pipeline style\<close>

fun normalize_pipeline_loop ::
  "edge_attrs \<Rightarrow> edge_config list \<Rightarrow> stage_config list \<Rightarrow> edge_config list res" where
  "normalize_pipeline_loop defaults edges [] = Inr edges"
| "normalize_pipeline_loop defaults edges (st # rest) =
     (case ExpandDependsOn (sc_ID st) (sc_DependsOn st) defaults of
        Inl e \<Rightarrow> Inl e
      | Inr depEdges \<Rightarrow> normalize_pipeline_loop defaults (edges @ depEdges) rest)"

definition NormalizePipeline :: "pipeline_config \<Rightarrow> (stage_config list \<times> edge_config list) res" where
  "NormalizePipeline cfg =
     (if pc_Pipeline cfg = [] then Inl (Err ''pipeline is empty'' [])
      else if pc_Steps cfg \<noteq> [] then Inl (Err ''steps and pipeline are mutually exclusive'' [])
      else case normalize_pipeline_loop (pc_EdgeDefaults cfg) [] (pc_Pipeline cfg) of
             Inl e \<Rightarrow> Inl e
           | Inr edges \<Rightarrow> Inr (pc_Pipeline cfg, edges))"

section \<open>Deprecated top-level edges\<close>

definition edgeKey :: "string \<Rightarrow> string \<Rightarrow> string" where
  "edgeKey from to = from @ ''->'' @ to"

definition ec_key :: "edge_config \<Rightarrow> string" where
  "ec_key e = edgeKey (ec_From e) (ec_To e)"

text \<open>The position index the code builds first: a later edge with the same key overwrites.\<close>

fun edge_index :: "nat \<Rightarrow> (string \<rightharpoonup> nat) \<Rightarrow> edge_config list \<Rightarrow> (string \<rightharpoonup> nat)" where
  "edge_index i index [] = index"
| "edge_index i index (e # es) = edge_index (Suc i) (index(ec_key e \<mapsto> i)) es"

fun merge_edges_loop ::
  "edge_config list \<Rightarrow> (string \<rightharpoonup> nat) \<Rightarrow> edge_config list \<Rightarrow> edge_config list" where
  "merge_edges_loop out index [] = out"
| "merge_edges_loop out index (dep # deps) =
     (case index (ec_key dep) of
        Some idx \<Rightarrow> merge_edges_loop (out[idx := dep]) index deps
      | None \<Rightarrow> merge_edges_loop (out @ [dep]) (index(ec_key dep \<mapsto> length out)) deps)"

definition MergeDeprecatedEdges ::
  "edge_config list \<Rightarrow> edge_config list \<Rightarrow> edge_config list \<times> string list" where
  "MergeDeprecatedEdges edges deprecated =
     (if deprecated = [] then (edges, [])
      else (merge_edges_loop edges (edge_index 0 Map.empty edges) deprecated,
            [''top-level edges: deprecated; use depends_on instead'']))"

section \<open>The build result and the defaults\<close>

record build_result =
  br_Name :: string
  br_Engine :: engine_config
  br_Stages :: "stage_config list"
  br_Edges :: "edge_config list"
  br_Codecs :: "codec_config list"
  br_EdgeDefaults :: edge_attrs
  br_DLQ :: "dlq_config option"
  br_Observability :: observability_config
  br_DeprecationWarnings :: "string list"

definition BuildTopologyIR :: "pipeline_config \<Rightarrow> build_result res" where
  "BuildTopologyIR cfg =
     (case (if pc_Steps cfg \<noteq> [] then NormalizeSteps cfg
            else if pc_Pipeline cfg \<noteq> [] then NormalizePipeline cfg
            else Inl (Err ''config must define steps or pipeline'' [])) of
        Inl e \<Rightarrow> Inl e
      | Inr (stages, edges0) \<Rightarrow>
          (case MergeDeprecatedEdges edges0 (pc_Edges cfg) of
             (edges, warnings) \<Rightarrow>
               Inr \<lparr>br_Name = PipelineName cfg, br_Engine = pc_Engine cfg, br_Stages = stages,
                    br_Edges = edges, br_Codecs = pc_Codecs cfg,
                    br_EdgeDefaults = pc_EdgeDefaults cfg, br_DLQ = pc_DLQ cfg,
                    br_Observability = pc_Observability cfg, br_DeprecationWarnings = warnings\<rparr>))"

definition ApplyObservabilityDefaults :: "observability_config \<Rightarrow> observability_config" where
  "ApplyObservabilityDefaults obs =
     (let m = ob_Metrics obs; h = ob_Health obs; l = ob_Logging obs in
      \<lparr>ob_Metrics = m\<lparr>mt_Port := (if mt_Port m = 0 then 9090 else mt_Port m),
                      mt_Path := (if mt_Path m = '''' then ''/metrics'' else mt_Path m)\<rparr>,
       ob_Health = h\<lparr>hc_Port := (if hc_Port h = 0 then 8080 else hc_Port h),
                     hc_Liveness := (if hc_Liveness h = '''' then ''/live'' else hc_Liveness h),
                     hc_Readiness := (if hc_Readiness h = '''' then ''/ready'' else hc_Readiness h)\<rparr>,
       ob_Logging = l\<lparr>lg_Level := (if lg_Level l = '''' then ''info'' else lg_Level l),
                      lg_Format := (if lg_Format l = '''' then ''json'' else lg_Format l)\<rparr>\<rparr>)"

definition ApplyEngineDefaults :: "engine_config \<Rightarrow> engine_config" where
  "ApplyEngineDefaults en =
     \<lparr>en_MaxWorkers = (if en_MaxWorkers en = 0 then 16 else en_MaxWorkers en),
      en_MaxInflight = (if en_MaxInflight en = 0 then 10000 else en_MaxInflight en),
      en_ErrorMode = (if en_ErrorMode en = '''' then ''propagate'' else en_ErrorMode en),
      en_DrainTimeout = (if en_DrainTimeout en = '''' then ''30s'' else en_DrainTimeout en)\<rparr>"

definition ValidateStageKinds :: "stage_config \<Rightarrow> goerr option" where
  "ValidateStageKinds st =
     (if ToLower (sc_Kind st) \<in> {''source'', ''transform'', ''sink''} then None
      else Some (Err ''stage %q: unknown kind %q'' [sc_ID st, sc_Kind st]))"

definition ResolveType :: "codec_ref \<Rightarrow> string" where
  "ResolveType c = (if cr_Ref c \<noteq> '''' then cr_Ref c else cr_Type c)"

text \<open>\<^verbatim>\<open>IsEmpty\<close> has a pointer receiver: nil is empty.\<close>

definition CodecRef_IsEmpty :: "codec_ref option \<Rightarrow> bool" where
  "CodecRef_IsEmpty c =
     (case c of None \<Rightarrow> True
      | Some c \<Rightarrow> cr_Type c = '''' \<and> cr_Ref c = '''' \<and> (cr_Config c = None \<or> cr_Config c = Some []))"

section \<open>What the expansion of depends_on produces\<close>

lemma ExpandDependsOn_ok_iff:
  "ExpandDependsOn s deps d = Inr es \<longleftrightarrow> list_all2 (\<lambda>dep e. expand_dep s d dep = Inr e) deps es"
proof (induction deps arbitrary: es)
  case Nil
  then show ?case by auto
next
  case (Cons dep deps)
  show ?case
    by (cases es) (auto split: sum.splits simp: list_all2_Cons1 Cons.IH [symmetric])
qed

lemma ExpandDependsOn_fails:
  "ExpandDependsOn s deps d = Inl err \<Longrightarrow> \<exists>dep \<in> set deps. expand_dep s d dep = Inl err"
  by (induction deps) (auto split: sum.splits)

lemma expand_dep_ok:
  assumes "expand_dep s d dep = Inr e"
  shows "ec_From e = do_Upstream dep" "ec_From e \<noteq> ''''" "ec_To e = s" "ec_Route e = ''''"
    "ec_Required e \<noteq> None"
    "ec_Condition e =
       (let a = MergeEdgeAttrs (Some d) (do_Edge dep) in
        if ea_Route a \<noteq> '''' then RouteCondition (ea_Route a) else ea_Condition a)"
  using assms by (auto simp: expand_dep_def Let_def split: if_splits)

lemma ExpandDependsOn_edges:
  assumes "ExpandDependsOn s deps d = Inr es" and "e \<in> set es"
  shows "\<exists>dep \<in> set deps. expand_dep s d dep = Inr e"
proof -
  from assms(2) obtain i where "i < length es" "es ! i = e"
    by (auto simp: in_set_conv_nth)
  with assms(1) show ?thesis
    by (auto simp: ExpandDependsOn_ok_iff list_all2_conv_all_nth intro!: bexI [of _ "deps ! i"])
qed

lemma MergeEdgeAttrs_None [simp]: "MergeEdgeAttrs (Some d) None = d"
  by (simp add: MergeEdgeAttrs_def)

section \<open>The steps loop as a map over the steps\<close>

definition step_edges :: "edge_attrs \<Rightarrow> string \<Rightarrow> step_config \<Rightarrow> edge_config list res" where
  "step_edges d stepName step =
     (case ExpandDependsOn (firstStageID stepName step) (sp_DependsOn step) d of
        Inl e \<Rightarrow> Inl e
      | Inr es \<Rightarrow> Inr (step_inner_edges stepName step @ es))"

definition ok_edges :: "edge_attrs \<Rightarrow> string \<times> step_config \<Rightarrow> edge_config list" where
  "ok_edges d p = (case step_edges d (fst p) (snd p) of Inl e \<Rightarrow> [] | Inr es \<Rightarrow> es)"

lemma normalize_steps_loop_iff:
  "normalize_steps_loop d stages edges steps = Inr (S, E) \<longleftrightarrow>
     (\<forall>p \<in> set steps. is_ok (step_edges d (fst p) (snd p))) \<and>
     S = stages @ concat (map (\<lambda>p. step_stages (fst p) (snd p)) steps) \<and>
     E = edges @ concat (map (ok_edges d) steps)"
proof (induction d stages edges steps rule: normalize_steps_loop.induct)
  case (1 d stages edges)
  then show ?case by auto
next
  case (2 d stages edges n st rest)
  show ?case
  proof (cases "ExpandDependsOn (firstStageID n st) (sp_DependsOn st) d")
    case (Inl e)
    then show ?thesis by (auto simp: step_edges_def)
  next
    case (Inr es)
    with "2.IH" [OF Inr] show ?thesis by (auto simp: step_edges_def ok_edges_def)
  qed
qed

lemma mset_concat_map_cong:
  "mset xs = mset ys \<Longrightarrow> mset (concat (map f xs)) = mset (concat (map f ys))"
  by (simp add: mset_concat) (metis mset_map sum_mset_sum_list)

lemma NormalizeSteps_iff:
  "NormalizeSteps cfg = Inr (S, E) \<longleftrightarrow>
     pc_Steps cfg \<noteq> [] \<and> pc_Pipeline cfg = [] \<and>
     (\<forall>p \<in> set (pc_Steps cfg). is_ok (step_edges (pc_EdgeDefaults cfg) (fst p) (snd p))) \<and>
     S = concat (map (\<lambda>p. step_stages (fst p) (snd p)) (pc_Steps cfg)) \<and>
     E = concat (map (ok_edges (pc_EdgeDefaults cfg)) (pc_Steps cfg))"
  by (auto simp: NormalizeSteps_def normalize_steps_loop_iff)

section \<open>The iteration order of the steps map\<close>

text \<open>C25: Go visits the steps map in a random order. Whether normalisation succeeds does not
  depend on that order, and neither do the stages and the edges it yields, as multisets.\<close>

theorem NormalizeSteps_order:
  assumes "mset steps' = mset (pc_Steps cfg)"
    and "NormalizeSteps cfg = Inr (S, E)"
  shows "\<exists>S' E'. NormalizeSteps (cfg\<lparr>pc_Steps := steps'\<rparr>) = Inr (S', E')
           \<and> mset S' = mset S \<and> mset E' = mset E"
proof -
  have sets: "set steps' = set (pc_Steps cfg)"
    using assms(1) by (rule mset_eq_setD)
  have ne: "steps' = [] \<longleftrightarrow> pc_Steps cfg = []"
    using sets by auto
  show ?thesis
    using assms(2) sets ne
    by (auto simp: NormalizeSteps_iff intro!: mset_concat_map_cong assms(1))
qed

definition demo_source_step :: step_config where
  "demo_source_step = zero_step\<lparr>sp_Source := Some \<lparr>so_Type = ''cron'', so_Decoder = None, so_Config = None\<rparr>\<rparr>"

definition demo_sink_step :: "string \<Rightarrow> step_config" where
  "demo_sink_step up =
     zero_step\<lparr>sp_DependsOn := [\<lparr>do_Upstream = up, do_Edge = None\<rparr>],
       sp_Sink := Some \<lparr>si_Type = ''drop'', si_Encoder = None, si_Batch = None, si_Ordering = '''',
                       si_MaxInFlight = 0, si_Config = None\<rparr>\<rparr>"

definition demo_pipeline :: pipeline_config where
  "demo_pipeline = zero_pipeline\<lparr>pc_Steps := [(''in'', demo_source_step), (''out'', demo_sink_step ''in'')]\<rparr>"

lemmas demo_defs = demo_source_step_def demo_sink_step_def demo_pipeline_def

lemma demo_pipeline_ok: "\<exists>S E. NormalizeSteps demo_pipeline = Inr (S, E)"
  by (simp add: demo_defs zero_defs NormalizeSteps_def firstStageID_def expand_dep_def MergeEdgeAttrs_def)

theorem NormalizeSteps_order_witness:
  "\<exists>S' E'. NormalizeSteps (demo_pipeline\<lparr>pc_Steps :=
       [(''out'', demo_sink_step ''in''), (''in'', demo_source_step)]\<rparr>) = Inr (S', E')"
proof -
  obtain S E where ok: "NormalizeSteps demo_pipeline = Inr (S, E)"
    using demo_pipeline_ok by blast
  have m: "mset [(''out'', demo_sink_step ''in''), (''in'', demo_source_step)] = mset (pc_Steps demo_pipeline)"
    by (simp add: demo_pipeline_def zero_pipeline_def)
  show ?thesis using NormalizeSteps_order [OF m ok] by blast
qed

section \<open>Deprecated edges: the last writer of a key wins\<close>

text \<open>An edge list read as a map from the pair key to the last edge with that key.\<close>

definition edge_view :: "edge_config list \<Rightarrow> string \<rightharpoonup> edge_config" where
  "edge_view es = map_of (rev (map (\<lambda>e. (ec_key e, e)) es))"

definition index_ok :: "edge_config list \<Rightarrow> (string \<rightharpoonup> nat) \<Rightarrow> bool" where
  "index_ok out index \<longleftrightarrow>
     (\<forall>k. index k = None \<longrightarrow> k \<notin> ec_key ` set out) \<and>
     (\<forall>k i. index k = Some i \<longrightarrow> i < length out \<and> ec_key (out ! i) = k \<and>
        (\<forall>j < length out. i < j \<longrightarrow> ec_key (out ! j) \<noteq> k))"

lemma index_ok_SomeD:
  assumes "index_ok out index" and "index k = Some i"
  shows "i < length out" "ec_key (out ! i) = k"
    "\<And>j. i < j \<Longrightarrow> j < length out \<Longrightarrow> ec_key (out ! j) \<noteq> k"
  using assms by (auto simp: index_ok_def)

lemma index_ok_NoneD: "index_ok out index \<Longrightarrow> index k = None \<Longrightarrow> k \<notin> ec_key ` set out"
  by (auto simp: index_ok_def)

lemma edge_view_Nil [simp]: "edge_view [] = Map.empty"
  by (simp add: edge_view_def)

lemma edge_view_snoc: "edge_view (es @ [e]) = (edge_view es)(ec_key e \<mapsto> e)"
  by (simp add: edge_view_def)

lemma index_ok_snoc:
  assumes "index_ok out index"
  shows "index_ok (out @ [e]) (index(ec_key e \<mapsto> length out))"
  unfolding index_ok_def
proof (intro conjI allI impI)
  fix k
  assume "(index(ec_key e \<mapsto> length out)) k = None"
  then have "index k = None" "k \<noteq> ec_key e" by (auto split: if_splits)
  then show "k \<notin> ec_key ` set (out @ [e])" using index_ok_NoneD [OF assms] by auto
next
  fix k i j
  assume "(index(ec_key e \<mapsto> length out)) k = Some i"
  then consider "k = ec_key e" "i = length out" | "k \<noteq> ec_key e" "index k = Some i"
    by (auto split: if_splits)
  note c = this
  from c show "i < length (out @ [e])"
    by cases (use index_ok_SomeD(1) [OF assms] in \<open>auto simp: less_SucI\<close>)
  from c show "ec_key ((out @ [e]) ! i) = k"
    by cases (use index_ok_SomeD(1,2) [OF assms] in \<open>auto simp: nth_append\<close>)
  assume "j < length (out @ [e])" "i < j"
  with c show "ec_key ((out @ [e]) ! j) \<noteq> k"
    by cases (use index_ok_SomeD(3) [OF assms] in \<open>auto simp: nth_append less_Suc_eq\<close>)
qed

lemma edge_index_ok: "index_ok out index \<Longrightarrow> index_ok (out @ es) (edge_index (length out) index es)"
proof (induction es arbitrary: out index)
  case Nil
  then show ?case by simp
next
  case (Cons e es)
  have "index_ok ((out @ [e]) @ es) (edge_index (length (out @ [e])) (index(ec_key e \<mapsto> length out)) es)"
    by (rule Cons.IH, rule index_ok_snoc, rule Cons.prems)
  then show ?case by simp
qed

lemma index_ok_update:
  assumes "index_ok out index" and "index (ec_key e) = Some i"
  shows "index_ok (out[i := e]) index"
proof -
  have i: "i < length out" "ec_key (out ! i) = ec_key e"
    using assms by (auto simp: index_ok_def dest: spec [of _ "ec_key e"])
  have keys: "map ec_key (out[i := e]) = map ec_key out"
    using i by (metis list_update_id map_update)
  then have "ec_key ` set (out[i := e]) = ec_key ` set out"
    by (metis image_set)
  moreover have "ec_key (out[i := e] ! j) = ec_key (out ! j)" if "j < length out" for j
    using keys that by (metis length_list_update nth_map)
  ultimately show ?thesis
    using assms(1) by (auto simp: index_ok_def)
qed

lemma edge_view_nth:
  "i < length es \<Longrightarrow> (\<And>j. i < j \<Longrightarrow> j < length es \<Longrightarrow> ec_key (es ! j) \<noteq> ec_key (es ! i)) \<Longrightarrow>
     edge_view es (ec_key (es ! i)) = Some (es ! i)"
proof (induction es rule: rev_induct)
  case Nil
  then show ?case by simp
next
  case (snoc e es)
  show ?case
  proof (cases "i = length es")
    case True
    then show ?thesis by (simp add: edge_view_snoc)
  next
    case False
    then have i: "i < length es" using snoc.prems(1) by simp
    have "ec_key e \<noteq> ec_key (es ! i)"
      using snoc.prems(2) [of "length es"] i by (simp add: nth_append)
    moreover have "edge_view es (ec_key (es ! i)) = Some (es ! i)"
    proof (rule snoc.IH [OF i])
      fix j assume "i < j" "j < length es"
      then show "ec_key (es ! j) \<noteq> ec_key (es ! i)"
        using snoc.prems(2) [of j] i by (simp add: nth_append)
    qed
    ultimately show ?thesis using i by (simp add: edge_view_snoc nth_append)
  qed
qed

lemma edge_view_None: "k \<notin> ec_key ` set es \<Longrightarrow> edge_view es k = None"
  by (induction es rule: rev_induct) (auto simp: edge_view_snoc)

lemma index_ok_view:
  assumes "index_ok out index"
  shows "edge_view out k = map_option ((!) out) (index k)"
proof (cases "index k")
  case None
  then show ?thesis using index_ok_NoneD [OF assms None] by (simp add: edge_view_None)
next
  case (Some i)
  note s = index_ok_SomeD [OF assms Some]
  show ?thesis using edge_view_nth [of i out] s Some by simp
qed

lemma edge_view_update:
  assumes "index_ok out index" and "index (ec_key e) = Some i"
  shows "edge_view (out[i := e]) = (edge_view out)(ec_key e \<mapsto> e)"
proof
  fix k
  note s = index_ok_SomeD [OF assms]
  note v = index_ok_view [OF index_ok_update [OF assms], of k] index_ok_view [OF assms(1), of k]
  show "edge_view (out[i := e]) k = ((edge_view out)(ec_key e \<mapsto> e)) k"
  proof (cases "index k")
    case None
    then show ?thesis using v assms(2) by auto
  next
    case (Some j)
    show ?thesis
    proof (cases "j = i")
      case True
      then have "k = ec_key e"
        using s(2) index_ok_SomeD(2) [OF assms(1) Some] by simp
      then show ?thesis using v(1) Some True s(1) by simp
    next
      case False
      then have "k \<noteq> ec_key e" using Some assms(2) by auto
      then show ?thesis using v Some False by simp
    qed
  qed
qed

lemma map_add_edge_view_Cons: "m ++ edge_view (e # es) = m(ec_key e \<mapsto> e) ++ edge_view es"
proof (induction es arbitrary: m rule: rev_induct)
  case Nil
  have "edge_view [e] = [ec_key e \<mapsto> e]" using edge_view_snoc [of "[]" e] by simp
  then show ?case by (auto simp: map_add_def fun_eq_iff)
next
  case (snoc x es)
  have "edge_view (e # es @ [x]) = (edge_view (e # es))(ec_key x \<mapsto> x)"
    using edge_view_snoc [of "e # es" x] by simp
  then show ?case
    by (simp only: edge_view_snoc snoc.IH map_add_upd)
qed

lemma merge_edges_loop_view:
  "index_ok out index \<Longrightarrow> edge_view (merge_edges_loop out index deps) = edge_view out ++ edge_view deps"
proof (induction out index deps rule: merge_edges_loop.induct)
  case (1 out index)
  then show ?case by simp
next
  case (2 out index dep deps)
  show ?case
  proof (cases "index (ec_key dep)")
    case None
    have "index_ok (out @ [dep]) (index(ec_key dep \<mapsto> length out))"
      by (rule index_ok_snoc, rule "2.prems")
    then have "edge_view (merge_edges_loop (out @ [dep]) (index(ec_key dep \<mapsto> length out)) deps)
        = edge_view (out @ [dep]) ++ edge_view deps"
      by (rule "2.IH"(1) [OF None])
    then show ?thesis
      by (simp only: merge_edges_loop.simps None option.case edge_view_snoc map_add_edge_view_Cons)
  next
    case (Some i)
    have "index_ok (out[i := dep]) index"
      by (rule index_ok_update [OF "2.prems" Some])
    then have "edge_view (merge_edges_loop (out[i := dep]) index deps)
        = edge_view (out[i := dep]) ++ edge_view deps"
      by (rule "2.IH"(2) [OF Some])
    then show ?thesis
      by (simp only: merge_edges_loop.simps Some option.case
          edge_view_update [OF "2.prems" Some] map_add_edge_view_Cons)
  qed
qed

text \<open>Merging the deprecated top-level edges into the expanded ones is map override by the
  pair (from, to): every key of the deprecated list takes its last deprecated edge, every other
  key keeps the edge it had, and nothing else appears.\<close>

theorem MergeDeprecatedEdges_override:
  "edge_view (fst (MergeDeprecatedEdges edges deprecated)) = edge_view edges ++ edge_view deprecated"
proof -
  have "index_ok [] Map.empty" by (simp add: index_ok_def)
  then have "index_ok edges (edge_index 0 Map.empty edges)"
    using edge_index_ok [of "[]" Map.empty edges] by simp
  then show ?thesis by (simp add: MergeDeprecatedEdges_def merge_edges_loop_view)
qed

section \<open>Edge keys and route conditions as encodings\<close>

fun has_arrow :: "string \<Rightarrow> bool" where
  "has_arrow (a # b # s) = (a = CHR ''-'' \<and> b = CHR ''>'' \<or> has_arrow (b # s))"
| "has_arrow s = False"

lemma has_arrow_append: "has_arrow (s @ CHR ''-'' # CHR ''>'' # t)"
  by (induction s rule: has_arrow.induct) (auto simp: neq_Nil_conv)

lemma arrow_suffix:
  assumes "us @ CHR ''-'' # CHR ''>'' # b = CHR ''-'' # CHR ''>'' # d" and "\<not> has_arrow (c @ us)"
  shows "us = [] \<and> b = d"
proof (cases us)
  case Nil
  then show ?thesis using assms(1) by simp
next
  case (Cons x xs)
  note us = this
  show ?thesis
  proof (cases xs)
    case Nil
    then show ?thesis using assms(1) us by simp
  next
    case (Cons y ys)
    then have "us = CHR ''-'' # CHR ''>'' # ys" using assms(1) us by simp
    then show ?thesis using assms(2) has_arrow_append [of c ys] by simp
  qed
qed

lemma arrow_split_unique:
  assumes eq: "a @ CHR ''-'' # CHR ''>'' # b = c @ CHR ''-'' # CHR ''>'' # d"
    and "\<not> has_arrow a" and "\<not> has_arrow c"
  shows "a = c \<and> b = d"
proof -
  obtain us where "a = c @ us \<and> us @ CHR ''-'' # CHR ''>'' # b = CHR ''-'' # CHR ''>'' # d \<or>
      a @ us = c \<and> CHR ''-'' # CHR ''>'' # b = us @ CHR ''-'' # CHR ''>'' # d"
    using eq unfolding append_eq_append_conv2 by blast
  then show ?thesis
    using arrow_suffix [of us b d c] arrow_suffix [of us d b a] assms(2,3) by force
qed

text \<open>The string key of an edge identifies its end points as long as the upstream ids do not
  contain the separator of the key.\<close>

theorem edgeKey_injective:
  assumes "edgeKey a b = edgeKey c d" and "\<not> has_arrow a" and "\<not> has_arrow c"
  shows "a = c \<and> b = d"
  using arrow_split_unique [of a b c d] assms by (simp add: edgeKey_def)

theorem edgeKey_injective_witness:
  "edgeKey ''a-'' ''>b'' = edgeKey ''a-'' ''>b'' \<and> \<not> has_arrow ''a-'' \<and> (''a-'' = ''a-'' \<and> ''>b'' = ''>b'')"
  using edgeKey_injective [of "''a-''" "''>b''" "''a-''" "''>b''"] by simp

text \<open>Without that restriction two different edges share a key, so the runtime gives them
  one buffer.\<close>

theorem edgeKey_collision:
  "edgeKey ''a'' ''b->c'' = edgeKey ''a->b'' ''c'' \<and> (''a'', ''b->c'') \<noteq> (''a->b'', ''c'')"
  by (simp add: edgeKey_def)

text \<open>A reader for the literals that \<^const>\<open>go_quote\<close> writes.\<close>

definition hex_val :: "char \<Rightarrow> nat" where
  "hex_val c = (if c \<le> CHR ''9'' then of_char c - 48 else of_char c - 87)"

definition unescape :: "char \<Rightarrow> char" where
  "unescape e =
     (if e = CHR ''a'' then CHR 0x07 else if e = CHR ''b'' then CHR 0x08
      else if e = CHR ''f'' then CHR 0x0C else if e = CHR ''n'' then CHR 0x0A
      else if e = CHR ''r'' then CHR 0x0D else if e = CHR ''t'' then CHR 0x09
      else if e = CHR ''v'' then CHR 0x0B else e)"

fun unquote_body :: "string \<Rightarrow> string" where
  "unquote_body [] = []"
| "unquote_body [c] = []"
| "unquote_body (c # e # s) =
     (if c \<noteq> CHR 0x5C then c # unquote_body (e # s)
      else if e \<noteq> CHR ''x'' then unescape e # unquote_body s
      else (case s of h # l # s' \<Rightarrow> char_of (16 * hex_val h + hex_val l) # unquote_body s' | _ \<Rightarrow> []))"

lemma hex_val_digit: "d < 16 \<Longrightarrow> hex_val (hex_digit d) = d"
proof -
  assume "d < 16"
  then have "d \<in> set [0..<16]" by simp
  moreover have "list_all (\<lambda>d. hex_val (hex_digit d) = d) [0..<16]"
    by code_simp
  ultimately show ?thesis by (simp only: list_all_iff)
qed

lemma unquote_quote_char: "s \<noteq> [] \<Longrightarrow> unquote_body (quote_char c @ s) = c # unquote_body s"
proof -
  assume "s \<noteq> []"
  then obtain x xs where s: "s = x # xs" by (cases s) auto
  have hex: "char_of (16 * hex_val (hex_digit (of_char c div 16)) + hex_val (hex_digit (of_char c mod 16))) = c"
    if "of_char c < (256 :: nat)"
  proof -
    have "of_char c div 16 < (16 :: nat)" "of_char c mod 16 < (16 :: nat)"
      using that by (simp_all add: less_mult_imp_div_less)
    then show ?thesis by (simp add: hex_val_digit)
  qed
  have c: "of_char c < (256 :: nat)" by simp
  show ?thesis
    unfolding quote_char_def s using hex [OF c] by (simp add: unescape_def)
qed

lemma unquote_quote: "unquote_body (concat (map quote_char s) @ [CHR 0x22]) = s"
  by (induction s) (simp_all add: unquote_quote_char)

text \<open>Distinct route names give distinct conditions: the quoting of the route name in the
  compiled condition loses nothing, whatever bytes the name holds.\<close>

theorem RouteCondition_injective: "RouteCondition r = RouteCondition r' \<longleftrightarrow> r = r'"
proof
  assume "RouteCondition r = RouteCondition r'"
  then have "concat (map quote_char r) @ [CHR 0x22] = concat (map quote_char r') @ [CHR 0x22]"
    by (simp add: RouteCondition_def go_quote_def)
  then show "r = r'" by (metis unquote_quote)
qed simp

section \<open>The edges of a normalised steps configuration\<close>

definition inner_edge_of :: "string \<Rightarrow> step_config \<Rightarrow> edge_config \<Rightarrow> bool" where
  "inner_edge_of name step e \<longleftrightarrow>
     sp_Transform step \<noteq> None \<and> sp_Sink step \<noteq> None \<and>
     e = zero_edge\<lparr>ec_From := name, ec_To := name @ ''-sink''\<rparr>"

lemma step_inner_edges_iff: "e \<in> set (step_inner_edges name step) \<longleftrightarrow> inner_edge_of name step e"
  by (auto simp: step_inner_edges_def inner_edge_of_def step_sink_id_def)

lemma firstStageID_name [simp]: "firstStageID name step = name"
  by (simp add: firstStageID_def)

lemma ok_edges_cases:
  assumes "e \<in> set (ok_edges d (name, step))"
  shows "inner_edge_of name step e \<or>
    (\<exists>dep \<in> set (sp_DependsOn step). expand_dep name d dep = Inr e)"
  using assms ExpandDependsOn_edges [of name "sp_DependsOn step" d _ e]
  by (auto simp: ok_edges_def step_edges_def step_inner_edges_iff split: sum.splits)

text \<open>Every edge of a normalised steps configuration either joins the transform and the sink
  of one step, or comes from one depends_on entry of the step it leads to: it starts at the named
  upstream, its route has been compiled into its condition, and its required flag is set.\<close>

theorem NormalizeSteps_edges:
  assumes "NormalizeSteps cfg = Inr (S, E)" and "e \<in> set E"
  shows "\<exists>(name, step) \<in> set (pc_Steps cfg). ec_Route e = '''' \<and>
     (inner_edge_of name step e \<or>
      (\<exists>dep \<in> set (sp_DependsOn step).
         ec_From e = do_Upstream dep \<and> ec_From e \<noteq> '''' \<and> ec_To e = name \<and> ec_Required e \<noteq> None \<and>
         (let a = MergeEdgeAttrs (Some (pc_EdgeDefaults cfg)) (do_Edge dep) in
          ec_Condition e = (if ea_Route a \<noteq> '''' then RouteCondition (ea_Route a) else ea_Condition a))))"
proof -
  obtain name step where p: "(name, step) \<in> set (pc_Steps cfg)"
    and e: "e \<in> set (ok_edges (pc_EdgeDefaults cfg) (name, step))"
    using assms by (auto simp: NormalizeSteps_iff)
  show ?thesis
  proof (rule bexI [OF _ p], clarify)
    from ok_edges_cases [OF e] show "ec_Route e = '''' \<and>
     (inner_edge_of name step e \<or>
      (\<exists>dep \<in> set (sp_DependsOn step).
         ec_From e = do_Upstream dep \<and> ec_From e \<noteq> '''' \<and> ec_To e = name \<and> ec_Required e \<noteq> None \<and>
         (let a = MergeEdgeAttrs (Some (pc_EdgeDefaults cfg)) (do_Edge dep) in
          ec_Condition e = (if ea_Route a \<noteq> '''' then RouteCondition (ea_Route a) else ea_Condition a))))"
    proof
      assume i: "inner_edge_of name step e"
      then have "ec_Route e = ''''" by (simp add: inner_edge_of_def zero_edge_def)
      with i show ?thesis by blast
    next
      assume "\<exists>dep \<in> set (sp_DependsOn step). expand_dep name (pc_EdgeDefaults cfg) dep = Inr e"
      then obtain dep where d: "dep \<in> set (sp_DependsOn step)"
        and x: "expand_dep name (pc_EdgeDefaults cfg) dep = Inr e" by blast
      from expand_dep_ok [OF x] d show ?thesis by (auto simp: Let_def)
    qed
  qed
qed

theorem NormalizeSteps_edges_witness:
  "\<exists>S E. NormalizeSteps demo_pipeline = Inr (S, E) \<and>
     (\<forall>e \<in> set E. \<exists>(name, step) \<in> set (pc_Steps demo_pipeline). ec_Route e = '''')"
proof -
  obtain S E where ok: "NormalizeSteps demo_pipeline = Inr (S, E)"
    using demo_pipeline_ok by blast
  then show ?thesis using NormalizeSteps_edges [OF ok] by fastforce
qed

end
