(* ===== verification/TopologyIR.thy ===== *)
theory TopologyIR
  imports Normalize
begin

text \<open>
  \<^verbatim>\<open>internal/topology/ir.go\<close> and the graph algorithms of
  \<^verbatim>\<open>internal/topology/validate.go\<close>: the intermediate representation, the buffer defaults, the
  three-colour depth-first search that looks for a cycle and the breadth-first search that looks
  for a path from a source to a sink, each with its correctness against the edge relation.
\<close>

record stage_ir =
  st_ID :: string
  st_Kind :: string
  st_Type :: string
  st_Workers :: int
  st_Predicate :: string
  st_ErrorMode :: string
  st_Decoder :: "codec_ref option"
  st_Encoder :: "codec_ref option"
  st_Batch :: "batch_config option"
  st_Ordering :: string
  st_MaxInFlight :: int
  st_Config :: "gmap option"

record codec_ir =
  ci_Name :: string
  ci_Type :: string
  ci_Config :: "gmap option"

record edge_ir =
  ei_From :: string
  ei_To :: string
  ei_Condition :: string
  ei_Route :: string
  ei_Buffer :: edge_buffer_config
  ei_Delivery :: "delivery_spec option"
  ei_Required :: bool

record topology_ir =
  ir_Name :: string
  ir_Engine :: engine_config
  ir_Stages :: "stage_ir list"
  ir_Edges :: "edge_ir list"
  ir_Codecs :: "(string \<times> codec_ir) list"
  ir_EdgeDefaults :: edge_attrs
  ir_DLQ :: "dlq_config option"
  ir_Observability :: observability_config
  ir_DeprecationWarnings :: "string list"

section \<open>Defaults\<close>

definition DefaultBuffer :: "edge_buffer_config \<Rightarrow> edge_buffer_config" where
  "DefaultBuffer cfg =
     cfg\<lparr>bf_Type := (if bf_Type cfg = '''' then ''memory'' else bf_Type cfg),
         bf_Size := (if bf_Size cfg = 0 then 64 else bf_Size cfg),
         bf_Strategy := (if bf_Strategy cfg = '''' then ''block'' else bf_Strategy cfg),
         bf_DiskSyncInterval :=
           (if bf_DiskSyncInterval cfg = '''' then ''500ms'' else bf_DiskSyncInterval cfg),
         bf_DiskMaxSize := (if bf_DiskMaxSize cfg = 0 then 2 ^ 30 else bf_DiskMaxSize cfg)\<rparr>"

definition BufferSize :: "edge_ir \<Rightarrow> int" where
  "BufferSize e = bf_Size (DefaultBuffer (ei_Buffer e))"

definition BufferStrategy :: "edge_ir \<Rightarrow> string" where
  "BufferStrategy e = bf_Strategy (DefaultBuffer (ei_Buffer e))"

definition BatchSize :: "stage_ir \<Rightarrow> int" where
  "BatchSize s =
     (case st_Batch s of None \<Rightarrow> 1 | Some b \<Rightarrow> if bc_Size b = 0 then 1 else bc_Size b)"

lemma DefaultBuffer_idem [simp]: "DefaultBuffer (DefaultBuffer cfg) = DefaultBuffer cfg"
  by (simp add: DefaultBuffer_def)

section \<open>The edge relation\<close>

definition targets :: "edge_ir list \<Rightarrow> string \<Rightarrow> string list" where
  "targets edges from = map ei_To (filter (\<lambda>e. ei_From e = from) edges)"

definition edge_rel :: "edge_ir list \<Rightarrow> (string \<times> string) set" where
  "edge_rel edges = (\<lambda>e. (ei_From e, ei_To e)) ` set edges"

lemma finite_edge_rel [simp]: "finite (edge_rel edges)"
  by (simp add: edge_rel_def)

lemma in_targets: "y \<in> set (targets edges x) \<longleftrightarrow> (x, y) \<in> edge_rel edges"
  by (auto simp: targets_def edge_rel_def)

section \<open>Cycle detection\<close>

text \<open>
  \<^verbatim>\<open>detectCycle\<close>: \<open>visited\<close> holds 0 (unseen), 1 (on the stack) or 2 (done). The recursion of
  the closure \<^verbatim>\<open>visit\<close> is bounded by fuel: a call that runs out gives \<^const>\<open>None\<close>. One unit
  per stage and edge is enough (\<open>detect_fuel\<close> below), since every nested call colours an unseen node.
\<close>

fun visit :: "nat \<Rightarrow> (string \<Rightarrow> string list) \<Rightarrow> (string \<Rightarrow> nat) \<Rightarrow> string \<Rightarrow> (string \<Rightarrow> nat) res option"
  and visit_all :: "nat \<Rightarrow> (string \<Rightarrow> string list) \<Rightarrow> (string \<Rightarrow> nat) \<Rightarrow> string list \<Rightarrow> (string \<Rightarrow> nat) res option"
where
  "visit 0 adj visited node = None"
| "visit (Suc n) adj visited node =
     (if visited node = 1 then Some (Inl (Err ''cycle detected involving stage %q'' [node]))
      else if visited node = 2 then Some (Inr visited)
      else (case visit_all n adj (visited(node := 1)) (adj node) of
              None \<Rightarrow> None
            | Some (Inl e) \<Rightarrow> Some (Inl e)
            | Some (Inr visited') \<Rightarrow> Some (Inr (visited'(node := 2)))))"
| "visit_all n adj visited [] = Some (Inr visited)"
| "visit_all n adj visited (x # xs) =
     (case visit n adj visited x of
        None \<Rightarrow> None
      | Some (Inl e) \<Rightarrow> Some (Inl e)
      | Some (Inr visited') \<Rightarrow> visit_all n adj visited' xs)"

definition detect_fuel :: "stage_ir list \<Rightarrow> edge_ir list \<Rightarrow> nat" where
  "detect_fuel stages edges = Suc (length stages + length edges)"

definition detectCycle :: "stage_ir list \<Rightarrow> edge_ir list \<Rightarrow> goerr option" where
  "detectCycle stages edges =
     (case visit_all (detect_fuel stages edges) (targets edges) (\<lambda>_. 0) (map st_ID stages) of
        None \<Rightarrow> Some (Err ''out of fuel'' [])
      | Some (Inl e) \<Rightarrow> Some e
      | Some (Inr _) \<Rightarrow> None)"

section \<open>Reachability\<close>

text \<open>The inner loop of \<^verbatim>\<open>hasSourceToSinkPath\<close>: unseen successors are marked and queued.\<close>

fun bfs_push :: "string list \<Rightarrow> string list \<Rightarrow> string list \<Rightarrow> string list \<times> string list" where
  "bfs_push seen queue [] = (seen, queue)"
| "bfs_push seen queue (next # rest) =
     (if next \<in> set seen then bfs_push seen queue rest
      else bfs_push (next # seen) (queue @ [next]) rest)"

lemma bfs_push_measure:
  assumes "finite U" and "set ns \<subseteq> U" and "bfs_push seen queue ns = (seen', queue')"
  shows "length queue' + 2 * card (U - set seen') \<le> length queue + 2 * card (U - set seen)"
  using assms(2,3)
proof (induction seen queue ns rule: bfs_push.induct)
  case (1 seen queue)
  then show ?case by simp
next
  case (2 seen queue x rest)
  show ?case
  proof (cases "x \<in> set seen")
    case True
    then show ?thesis using 2 by simp
  next
    case False
    then have "x \<in> U - set seen" using "2.prems"(1) by simp
    moreover have "U - set (x # seen) = (U - set seen) - {x}" by auto
    ultimately have "card (U - set seen) = Suc (card (U - set (x # seen)))"
      using assms(1) by (metis card_Suc_Diff1 finite_Diff)
    moreover have "length queue' + 2 * card (U - set seen')
        \<le> length (queue @ [x]) + 2 * card (U - set (x # seen))"
      by (rule "2.IH"(2)) (use False "2.prems" in auto)
    ultimately show ?thesis by simp
  qed
qed

function bfs :: "edge_ir list \<Rightarrow> string list \<Rightarrow> string list \<Rightarrow> string list \<Rightarrow> bool" where
  "bfs edges sinks seen [] = False"
| "bfs edges sinks seen (cur # queue) =
     (if cur \<in> set sinks then True
      else (case bfs_push seen queue (targets edges cur) of
              (seen', queue') \<Rightarrow> bfs edges sinks seen' queue'))"
  by pat_completeness auto
termination
proof (relation "measure (\<lambda>(edges, sinks, seen, queue).
    length queue + 2 * card (ei_To ` set edges - set seen))", goal_cases)
  case 1
  then show ?case by simp
next
  case (2 edges sinks seen cur queue seen' queue')
  have "set (targets edges cur) \<subseteq> ei_To ` set edges" by (auto simp: targets_def)
  from bfs_push_measure [OF _ this, of seen queue seen' queue'] show ?case
    by (auto simp: 2(2) [symmetric])
qed

definition hasSourceToSinkPath ::
  "(string list \<Rightarrow> string list) \<Rightarrow> stage_ir list \<Rightarrow> edge_ir list \<Rightarrow> bool" where
  "hasSourceToSinkPath order stages edges =
     list_ex (\<lambda>src. bfs edges (map st_ID (filter (\<lambda>s. st_Kind s = ''sink'') stages)) [src] [src])
       (order (map st_ID (filter (\<lambda>s. st_Kind s = ''source'') stages)))"

section \<open>Depth-first search: enough fuel\<close>

definition unseen :: "string set \<Rightarrow> (string \<Rightarrow> nat) \<Rightarrow> string set" where
  "unseen U visited = {x \<in> U. visited x \<noteq> 1 \<and> visited x \<noteq> 2}"

text \<open>The nodes on the stack are the same after a successful call, finished nodes stay finished,
  and the node of the call is finished.\<close>

lemma visit_frame:
  "visit n adj v node = Some (Inr v') \<Longrightarrow>
     (\<forall>x. v' x = 1 \<longleftrightarrow> v x = 1) \<and> (\<forall>x. v x = 2 \<longrightarrow> v' x = 2) \<and> v' node = 2"
  "visit_all n adj v xs = Some (Inr v') \<Longrightarrow>
     (\<forall>x. v' x = 1 \<longleftrightarrow> v x = 1) \<and> (\<forall>x. v x = 2 \<longrightarrow> v' x = 2) \<and> (\<forall>x \<in> set xs. v' x = 2)"
proof (induction n adj v node and n adj v xs arbitrary: v' and v' rule: visit_visit_all.induct)
  case (1 adj v node)
  then show ?case by simp
next
  case (2 n adj v node)
  show ?case
  proof (cases "v node = 1 \<or> v node = 2")
    case True
    then show ?thesis using "2.prems" by (auto split: if_splits)
  next
    case False
    then obtain w where w: "visit_all n adj (v(node := 1)) (adj node) = Some (Inr w)"
      and v': "v' = w(node := 2)"
      using "2.prems" by (auto split: option.splits sum.splits)
    from "2.IH" [OF _ _ w] False have "(\<forall>x. w x = 1 \<longleftrightarrow> (v(node := 1)) x = 1)
        \<and> (\<forall>x. (v(node := 1)) x = 2 \<longrightarrow> w x = 2)" by blast
    then show ?thesis unfolding v' using False by (auto simp: fun_upd_apply)
  qed
next
  case (3 n adj v)
  then show ?case by simp
next
  case (4 n adj v x xs)
  then obtain w where w: "visit n adj v x = Some (Inr w)" and rest: "visit_all n adj w xs = Some (Inr v')"
    by (auto split: option.splits sum.splits)
  from "4.IH"(1) [OF w] "4.IH"(2) [OF w _ rest] show ?case by auto
qed

lemmas visit_frameD = visit_frame(1) [THEN conjunct1, rule_format] visit_frame(1) [THEN conjunct2]
lemmas visit_all_frameD = visit_frame(2) [THEN conjunct1, rule_format] visit_frame(2) [THEN conjunct2]

lemma unseen_mono:
  assumes "\<And>x. v' x = 1 \<longleftrightarrow> v x = 1" and "\<And>x. v x = 2 \<Longrightarrow> v' x = 2"
  shows "unseen U v' \<subseteq> unseen U v"
  using assms by (auto simp: unseen_def)

lemma visit_enough:
  assumes "finite U" and adj: "\<And>x. x \<in> U \<Longrightarrow> set (adj x) \<subseteq> U"
  shows "node \<in> U \<Longrightarrow> card (unseen U v) < n \<Longrightarrow> visit n adj v node \<noteq> None"
    and "set xs \<subseteq> U \<Longrightarrow> card (unseen U v) < n \<Longrightarrow> visit_all n adj v xs \<noteq> None"
  using assms
proof (induction n adj v node and n adj v xs rule: visit_visit_all.induct)
  case (1 adj v node)
  then show ?case by simp
next
  case (2 n adj v node)
  show ?case
  proof (cases "v node = 1 \<or> v node = 2")
    case True
    then show ?thesis by auto
  next
    case False
    have "unseen U (v(node := 1)) = unseen U v - {node}" "node \<in> unseen U v"
      using False "2.prems"(1) by (auto simp: unseen_def)
    then have "card (unseen U v) = Suc (card (unseen U (v(node := 1))))"
      using assms(1) by (metis (no_types, lifting) card_Suc_Diff1 finite_subset mem_Collect_eq subsetI unseen_def)
    then have "card (unseen U (v(node := 1))) < n"
      using "2.prems"(2) by simp
    moreover have "v node \<noteq> 1" "v node \<noteq> 2" using False by auto
    ultimately have "visit_all n adj (v(node := 1)) (adj node) \<noteq> None"
      using "2.IH" "2.prems"(1,3,4) by blast
    then show ?thesis using False by (auto split: sum.splits)
  qed
next
  case (3 n adj v)
  then show ?case by simp
next
  case (4 n adj v x xs)
  have "visit n adj v x \<noteq> None" using "4.IH"(1) "4.prems" by auto
  then consider (err) e where "visit n adj v x = Some (Inl e)"
    | (ok) w where "visit n adj v x = Some (Inr w)"
    by (cases "visit n adj v x") (auto split: sum.splits, metis sum.exhaust)
  then show ?case
  proof cases
    case err
    then show ?thesis by simp
  next
    case ok
    have "unseen U w \<subseteq> unseen U v"
      by (rule unseen_mono) (use visit_frame(1) [OF ok] in auto)
    then have "card (unseen U w) < n"
      using "4.prems"(2) assms(1) by (metis (no_types, lifting) card_mono finite_subset le_less_trans mem_Collect_eq subsetI unseen_def)
    then show ?thesis using "4.IH"(2) [OF ok] "4.prems" ok by auto
  qed
qed

section \<open>Depth-first search: an error exactly when there is a cycle\<close>

definition done_ok :: "(string \<times> string) set \<Rightarrow> (string \<Rightarrow> nat) \<Rightarrow> bool" where
  "done_ok E v \<longleftrightarrow> (\<forall>x. v x = 2 \<longrightarrow> (\<forall>y. (x, y) \<in> E \<longrightarrow> v y = 2) \<and> (x, x) \<notin> E\<^sup>+)"

lemma done_reach: "(x, y) \<in> E\<^sup>* \<Longrightarrow> done_ok E v \<Longrightarrow> v x = 2 \<Longrightarrow> v y = 2"
  by (induction rule: rtrancl_induct) (auto simp: done_ok_def)

lemma done_ok_finish:
  assumes ok: "done_ok E w" and gray: "w node = 1" and succs: "\<And>y. (node, y) \<in> E \<Longrightarrow> w y = 2"
  shows "done_ok E (w(node := 2))"
proof -
  have "(node, node) \<notin> E\<^sup>+"
  proof
    assume "(node, node) \<in> E\<^sup>+"
    then obtain y where "(node, y) \<in> E" "(y, node) \<in> E\<^sup>*"
      by (meson tranclD)
    then have "w node = 2" using done_reach [OF _ ok] succs by blast
    then show False using gray by simp
  qed
  then show ?thesis using ok succs unfolding done_ok_def by auto
qed

lemma visit_done_ok:
  assumes adj: "\<And>x y. y \<in> set (adj x) \<longleftrightarrow> (x, y) \<in> E"
  shows "visit n adj v node = Some (Inr v') \<Longrightarrow> done_ok E v \<Longrightarrow> done_ok E v'"
    and "visit_all n adj v xs = Some (Inr v') \<Longrightarrow> done_ok E v \<Longrightarrow> done_ok E v'"
  using adj
proof (induction n adj v node and n adj v xs arbitrary: v' and v' rule: visit_visit_all.induct)
  case (1 adj v node)
  then show ?case by simp
next
  case (2 n adj v node)
  show ?case
  proof (cases "v node = 1 \<or> v node = 2")
    case True
    then show ?thesis using "2.prems" by (auto split: if_splits)
  next
    case False
    then obtain w where w: "visit_all n adj (v(node := 1)) (adj node) = Some (Inr w)"
      and v': "v' = w(node := 2)"
      using "2.prems" by (auto split: option.splits sum.splits)
    have "done_ok E (v(node := 1))"
      using "2.prems"(2) False by (auto simp: done_ok_def)
    then have ok: "done_ok E w"
      using "2.IH" [OF _ _ w] False "2.prems"(3) by blast
    have gray: "w node = 1" and succs: "\<And>y. (node, y) \<in> E \<Longrightarrow> w y = 2"
      using visit_frame(2) [OF w] "2.prems"(3) by auto
    show ?thesis unfolding v' by (rule done_ok_finish [OF ok gray succs])
  qed
next
  case (3 n adj v)
  then show ?case by simp
next
  case (4 n adj v x xs)
  then obtain w where w: "visit n adj v x = Some (Inr w)" and rest: "visit_all n adj w xs = Some (Inr v')"
    by (auto split: option.splits sum.splits)
  show ?case
    by (rule "4.IH"(2) [OF w _ rest "4.IH"(1) [OF w "4.prems"(2)]]) (use "4.prems"(3) in auto)
qed

lemma visit_error_cycle:
  assumes adj: "\<And>x y. y \<in> set (adj x) \<longleftrightarrow> (x, y) \<in> E"
  shows "visit n adj v node = Some (Inl e) \<Longrightarrow> (\<And>g. v g = 1 \<Longrightarrow> (g, node) \<in> E\<^sup>+) \<Longrightarrow>
           \<exists>x. (x, x) \<in> E\<^sup>+"
    and "visit_all n adj v xs = Some (Inl e) \<Longrightarrow>
           (\<And>g x. v g = 1 \<Longrightarrow> x \<in> set xs \<Longrightarrow> (g, x) \<in> E\<^sup>+) \<Longrightarrow> \<exists>x. (x, x) \<in> E\<^sup>+"
  using adj
proof (induction n adj v node and n adj v xs rule: visit_visit_all.induct)
  case (1 adj v node)
  then show ?case by simp
next
  case (2 n adj v node)
  consider "v node = 1" | "v node = 2" | "v node \<noteq> 1" "v node \<noteq> 2" by blast
  then show ?case
  proof cases
    case 1
    then show ?thesis using "2.prems"(2) by blast
  next
    case 2
    then show ?thesis using "2.prems"(1) by simp
  next
    case 3
    then have err: "visit_all n adj (v(node := 1)) (adj node) = Some (Inl e)"
      using "2.prems"(1) by (auto split: option.splits sum.splits)
    have "(g, x) \<in> E\<^sup>+" if "(v(node := 1)) g = 1" "x \<in> set (adj node)" for g x
    proof -
      have x: "(node, x) \<in> E" using that(2) "2.prems"(3) by blast
      show ?thesis
      proof (cases "g = node")
        case True
        then show ?thesis using x by blast
      next
        case False
        then have "(g, node) \<in> E\<^sup>+" using that(1) "2.prems"(2) by simp
        then show ?thesis using x by (rule trancl_into_trancl)
      qed
    qed
    then show ?thesis using "2.IH" [OF 3 err] "2.prems"(3) by blast
  qed
next
  case (3 n adj v)
  then show ?case by simp
next
  case (4 n adj v x xs)
  show ?case
  proof (cases "visit n adj v x = Some (Inl e)")
    case True
    then show ?thesis using "4.IH"(1) [OF True] "4.prems"(2,3) by simp
  next
    case False
    then obtain w where w: "visit n adj v x = Some (Inr w)" and rest: "visit_all n adj w xs = Some (Inl e)"
      using "4.prems"(1) by (auto split: option.splits sum.splits)
    have "(g, y) \<in> E\<^sup>+" if "w g = 1" "y \<in> set xs" for g y
      using that visit_frame(1) [OF w] "4.prems"(2) by simp
    then show ?thesis using "4.IH"(2) [OF w _ rest] "4.prems"(3) by blast
  qed
qed

lemma visit_all_detect_fuel:
  "visit_all (detect_fuel stages edges) (targets edges) (\<lambda>_. 0) (map st_ID stages) \<noteq> None"
proof (rule visit_enough(2))
  let ?U = "st_ID ` set stages \<union> ei_To ` set edges"
  show "finite ?U" by simp
  show "set (targets edges x) \<subseteq> ?U" if "x \<in> ?U" for x by (auto simp: targets_def)
  show "set (map st_ID stages) \<subseteq> ?U" by auto
  have "unseen ?U (\<lambda>_. 0) = ?U" unfolding unseen_def by auto
  then have "card (unseen ?U (\<lambda>_. 0)) = card ?U" by simp
  also have "\<dots> \<le> card (st_ID ` set stages) + card (ei_To ` set edges)"
    by (rule card_Un_le)
  also have "\<dots> \<le> length stages + length edges"
    by (meson add_mono card_image_le card_length finite_set le_trans)
  finally show "card (unseen ?U (\<lambda>_. 0)) < detect_fuel stages edges"
    by (simp add: detect_fuel_def)
qed

lemma detectCycle_cases:
  obtains (err) e where "detectCycle stages edges = Some e"
      "visit_all (detect_fuel stages edges) (targets edges) (\<lambda>_. 0) (map st_ID stages) = Some (Inl e)"
    | (ok) v where "detectCycle stages edges = None"
      "visit_all (detect_fuel stages edges) (targets edges) (\<lambda>_. 0) (map st_ID stages) = Some (Inr v)"
proof -
  obtain r where r: "visit_all (detect_fuel stages edges) (targets edges) (\<lambda>_. 0) (map st_ID stages) = Some r"
    using visit_all_detect_fuel by blast
  then show ?thesis by (cases r) (auto simp: detectCycle_def intro: err ok)
qed

lemma detectCycle_sound: "detectCycle stages edges = Some e \<Longrightarrow> \<not> acyclic (edge_rel edges)"
proof (cases rule: detectCycle_cases [of stages edges])
  case (err e')
  have "\<exists>x. (x, x) \<in> (edge_rel edges)\<^sup>+"
    by (rule visit_error_cycle(2) [OF _ err(2)]) (auto simp: in_targets)
  then show ?thesis by (auto simp: acyclic_def)
next
  case (ok v)
  assume "detectCycle stages edges = Some e"
  then show ?thesis using ok(1) by simp
qed

lemma detectCycle_complete:
  assumes "ei_From ` set edges \<subseteq> st_ID ` set stages" and "detectCycle stages edges = None"
  shows "acyclic (edge_rel edges)"
proof (cases rule: detectCycle_cases [of stages edges])
  case (err e)
  then show ?thesis using assms(2) by simp
next
  case (ok v)
  have d: "done_ok (edge_rel edges) v"
    by (rule visit_done_ok(2) [OF _ ok(2)]) (auto simp: in_targets done_ok_def)
  have two: "v x = 2" if "x \<in> st_ID ` set stages" for x
    using visit_frame(2) [OF ok(2)] that by auto
  have "(x, x) \<notin> (edge_rel edges)\<^sup>+" for x
  proof
    assume c: "(x, x) \<in> (edge_rel edges)\<^sup>+"
    then obtain y where "(x, y) \<in> edge_rel edges" by (meson tranclD)
    then have "x \<in> st_ID ` set stages" using assms(1) by (auto simp: edge_rel_def)
    then show False using two d c unfolding done_ok_def by blast
  qed
  then show ?thesis by (simp add: acyclic_def)
qed

text \<open>C17: Cycle detection is exact: on a graph whose edges start at declared stages, the
  depth-first search accepts if and only if the edge relation is acyclic, and the fuel of the
  model never runs out, so the recursion of the code terminates on every graph.\<close>

theorem detectCycle_exact:
  assumes "ei_From ` set edges \<subseteq> st_ID ` set stages"
  shows "(detectCycle stages edges = None \<longleftrightarrow> acyclic (edge_rel edges)) \<and>
    visit_all (detect_fuel stages edges) (targets edges) (\<lambda>_. 0) (map st_ID stages) \<noteq> None"
proof
  show "detectCycle stages edges = None \<longleftrightarrow> acyclic (edge_rel edges)"
    using detectCycle_sound detectCycle_complete [OF assms]
    by (cases "detectCycle stages edges") auto
  show "visit_all (detect_fuel stages edges) (targets edges) (\<lambda>_. 0) (map st_ID stages) \<noteq> None"
    by (rule visit_all_detect_fuel)
qed

definition demo_stage :: "string \<Rightarrow> string \<Rightarrow> stage_ir" where
  "demo_stage n k =
     \<lparr>st_ID = n, st_Kind = k, st_Type = ''drop'', st_Workers = 0, st_Predicate = '''', st_ErrorMode = '''',
      st_Decoder = None, st_Encoder = None, st_Batch = None, st_Ordering = '''', st_MaxInFlight = 0,
      st_Config = None\<rparr>"

definition demo_edge :: "string \<Rightarrow> string \<Rightarrow> edge_ir" where
  "demo_edge a b =
     \<lparr>ei_From = a, ei_To = b, ei_Condition = '''', ei_Route = '''', ei_Buffer = zero_buffer,
      ei_Delivery = None, ei_Required = True\<rparr>"

theorem detectCycle_exact_witness:
  "detectCycle [demo_stage ''a'' ''transform'', demo_stage ''b'' ''transform'']
     [demo_edge ''a'' ''b'', demo_edge ''b'' ''a''] \<noteq> None \<and>
   \<not> acyclic (edge_rel [demo_edge ''a'' ''b'', demo_edge ''b'' ''a''])"
proof -
  let ?st = "[demo_stage ''a'' ''transform'', demo_stage ''b'' ''transform'']"
  let ?es = "[demo_edge ''a'' ''b'', demo_edge ''b'' ''a'']"
  have sub: "ei_From ` set ?es \<subseteq> st_ID ` set ?st" by (simp add: demo_stage_def demo_edge_def)
  have "detectCycle ?st ?es \<noteq> None"
    by (simp add: detectCycle_def detect_fuel_def targets_def demo_stage_def demo_edge_def
        eval_nat_numeral)
  then show ?thesis using detectCycle_exact [OF sub] by simp
qed

section \<open>Breadth-first search\<close>

lemma bfs_push_facts:
  "bfs_push seen queue ns = (seen', queue') \<Longrightarrow>
     set seen' = set seen \<union> set ns \<and>
     set queue' = set queue \<union> (set ns - set seen)"
  by (induction seen queue ns rule: bfs_push.induct) (auto split: if_splits)

lemma bfs_sound:
  "bfs edges sinks seen queue \<Longrightarrow> \<exists>x \<in> set queue. \<exists>t \<in> set sinks. (x, t) \<in> (edge_rel edges)\<^sup>*"
proof (induction edges sinks seen queue rule: bfs.induct)
  case (1 edges sinks seen)
  then show ?case by simp
next
  case (2 edges sinks seen cur queue)
  show ?case
  proof (cases "cur \<in> set sinks")
    case True
    then show ?thesis by auto
  next
    case False
    obtain seen' queue' where p: "bfs_push seen queue (targets edges cur) = (seen', queue')"
      by (cases "bfs_push seen queue (targets edges cur)")
    then have "bfs edges sinks seen' queue'" using "2.prems" False by simp
    from "2.IH" [OF False p [symmetric] this]
    obtain x t where x: "x \<in> set queue'" and t: "t \<in> set sinks" "(x, t) \<in> (edge_rel edges)\<^sup>*"
      by blast
    show ?thesis
    proof (cases "x \<in> set queue")
      case True
      then show ?thesis using t by auto
    next
      case False
      then have "(cur, x) \<in> edge_rel edges"
        using x bfs_push_facts [OF p] by (simp add: in_targets)
      then have "(cur, t) \<in> (edge_rel edges)\<^sup>*"
        using t(2) by (rule converse_rtrancl_into_rtrancl)
      then show ?thesis using t(1) by auto
    qed
  qed
qed

definition bfs_inv :: "edge_ir list \<Rightarrow> string list \<Rightarrow> string list \<Rightarrow> string list \<Rightarrow> bool" where
  "bfs_inv edges sinks seen queue \<longleftrightarrow>
     (\<forall>x \<in> set seen - set queue. x \<notin> set sinks \<and> (\<forall>y. (x, y) \<in> edge_rel edges \<longrightarrow> y \<in> set seen))"

lemma bfs_closed:
  "\<not> bfs edges sinks seen queue \<Longrightarrow> bfs_inv edges sinks seen queue \<Longrightarrow>
     \<exists>S. set seen \<subseteq> S \<and> S \<inter> set sinks = {} \<and> (\<forall>x \<in> S. \<forall>y. (x, y) \<in> edge_rel edges \<longrightarrow> y \<in> S)"
proof (induction edges sinks seen queue rule: bfs.induct)
  case (1 edges sinks seen)
  then show ?case by (auto simp: bfs_inv_def intro!: exI [of _ "set seen"])
next
  case (2 edges sinks seen cur queue)
  then have notsink: "cur \<notin> set sinks" by auto
  obtain seen' queue' where p: "bfs_push seen queue (targets edges cur) = (seen', queue')"
    by (cases "bfs_push seen queue (targets edges cur)")
  have run: "\<not> bfs edges sinks seen' queue'" using "2.prems"(1) notsink p by simp
  note f = bfs_push_facts [OF p]
  have "bfs_inv edges sinks seen' queue'"
    unfolding bfs_inv_def
  proof
    fix x assume "x \<in> set seen' - set queue'"
    then have x: "x \<in> set seen" "x \<notin> set queue" using f by auto
    show "x \<notin> set sinks \<and> (\<forall>y. (x, y) \<in> edge_rel edges \<longrightarrow> y \<in> set seen')"
    proof (cases "x = cur")
      case True
      then show ?thesis using notsink f by (simp add: in_targets)
    next
      case False
      then have "x \<in> set seen - set (cur # queue)" using x by simp
      with "2.prems"(2) have "x \<notin> set sinks \<and> (\<forall>y. (x, y) \<in> edge_rel edges \<longrightarrow> y \<in> set seen)"
        unfolding bfs_inv_def by (rule bspec)
      moreover have "set seen \<subseteq> set seen'" using f by simp
      ultimately show ?thesis by (meson subsetD)
    qed
  qed
  from "2.IH" [OF notsink p [symmetric] run this]
  obtain S where "set seen' \<subseteq> S \<and> S \<inter> set sinks = {} \<and>
      (\<forall>x \<in> S. \<forall>y. (x, y) \<in> edge_rel edges \<longrightarrow> y \<in> S)" ..
  then show ?case using f by (intro exI [of _ S]) simp
qed

lemma closed_rtrancl:
  "(x, y) \<in> E\<^sup>* \<Longrightarrow> x \<in> S \<Longrightarrow> (\<And>x y. x \<in> S \<Longrightarrow> (x, y) \<in> E \<Longrightarrow> y \<in> S) \<Longrightarrow> y \<in> S"
  by (induction rule: rtrancl_induct) blast+

lemma bfs_iff: "bfs edges sinks [src] [src] \<longleftrightarrow> (\<exists>t \<in> set sinks. (src, t) \<in> (edge_rel edges)\<^sup>*)"
proof
  assume "bfs edges sinks [src] [src]"
  then show "\<exists>t \<in> set sinks. (src, t) \<in> (edge_rel edges)\<^sup>*"
    using bfs_sound by fastforce
next
  assume "\<exists>t \<in> set sinks. (src, t) \<in> (edge_rel edges)\<^sup>*"
  then obtain t where t: "t \<in> set sinks" "(src, t) \<in> (edge_rel edges)\<^sup>*" by blast
  show "bfs edges sinks [src] [src]"
  proof (rule ccontr)
    assume "\<not> bfs edges sinks [src] [src]"
    then obtain S where "src \<in> S" "S \<inter> set sinks = {}"
      "\<And>x y. x \<in> S \<Longrightarrow> (x, y) \<in> edge_rel edges \<Longrightarrow> y \<in> S"
      using bfs_closed [of edges sinks "[src]" "[src]"] by (auto simp: bfs_inv_def)
    then show False using closed_rtrancl [OF t(2), of S] t(1) by blast
  qed
qed

lemma hasSourceToSinkPath_iff:
  assumes "\<And>xs. set (order xs) = set xs"
  shows "hasSourceToSinkPath order stages edges \<longleftrightarrow>
    (\<exists>a \<in> set stages. \<exists>b \<in> set stages. st_Kind a = ''source'' \<and> st_Kind b = ''sink'' \<and>
       (st_ID a, st_ID b) \<in> (edge_rel edges)\<^sup>*)"
  unfolding hasSourceToSinkPath_def list_ex_iff assms bfs_iff by auto

end
