(* ===== verification/Topology.thy ===== *)
theory Topology
  imports TopologyIR
begin

text \<open>
  \<^verbatim>\<open>Validate\<close> of \<^verbatim>\<open>internal/topology/validate.go\<close> and \<^verbatim>\<open>FromConfig\<close> of
  \<^verbatim>\<open>internal/topology/build.go\<close>. The code ranges over Go maps in three places; each gets its
  own order argument, so that the model can be run under every iteration order and acceptance can
  be shown not to depend on it.
\<close>

record map_orders =
  mo_kinds :: "stage_ir list \<Rightarrow> stage_ir list"
  mo_incoming :: "stage_ir list \<Rightarrow> stage_ir list"
  mo_sources :: "string list \<Rightarrow> string list"

definition legal_orders :: "map_orders \<Rightarrow> bool" where
  "legal_orders ord \<longleftrightarrow>
     (\<forall>xs. mset (mo_kinds ord xs) = mset xs) \<and> (\<forall>xs. mset (mo_incoming ord xs) = mset xs) \<and>
     (\<forall>xs. mset (mo_sources ord xs) = mset xs)"

definition declared_order :: map_orders where
  "declared_order = \<lparr>mo_kinds = (\<lambda>xs. xs), mo_incoming = (\<lambda>xs. xs), mo_sources = (\<lambda>xs. xs)\<rparr>"

section \<open>Validate\<close>

fun check_stage_ids :: "string list \<Rightarrow> stage_ir list \<Rightarrow> goerr option" where
  "check_stage_ids stageIDs [] = None"
| "check_stage_ids stageIDs (st # rest) =
     (if st_ID st = '''' then Some (Err ''stage missing id'' [])
      else if st_ID st \<in> set stageIDs then Some (Err ''duplicate stage id %q'' [st_ID st])
      else check_stage_ids (st_ID st # stageIDs) rest)"

definition check_edge :: "string list \<Rightarrow> edge_ir \<Rightarrow> goerr option" where
  "check_edge stageIDs e =
     (if ei_From e \<notin> set stageIDs then Some (Err ''edge references unknown from stage %q'' [ei_From e])
      else if ei_To e \<notin> set stageIDs then Some (Err ''edge references unknown to stage %q'' [ei_To e])
      else if ei_Route e \<noteq> '''' \<and> ei_Condition e \<noteq> '''' then
        Some (Err ''edge %s->%s: route and condition are mutually exclusive'' [ei_From e, ei_To e])
      else None)"

definition incoming :: "edge_ir list \<Rightarrow> string \<Rightarrow> nat" where
  "incoming edges sid = length (filter (\<lambda>e. ei_To e = sid) edges)"

definition check_kind :: "edge_ir list \<Rightarrow> stage_ir \<Rightarrow> goerr option" where
  "check_kind edges st =
     (if st_Kind st = ''source'' then
        (if 0 < incoming edges (st_ID st)
         then Some (Err ''source %q must not have incoming edges'' [st_ID st]) else None)
      else if st_Kind st = ''sink'' then
        (if 0 < length (targets edges (st_ID st))
         then Some (Err ''sink %q must not have outgoing edges'' [st_ID st]) else None)
      else if st_Kind st = ''transform'' then None
      else Some (Err ''stage %q: unknown kind %q'' [st_ID st, st_Kind st]))"

definition check_has_incoming :: "edge_ir list \<Rightarrow> stage_ir \<Rightarrow> goerr option" where
  "check_has_incoming edges st =
     (if st_Kind st \<noteq> ''source'' \<and> incoming edges (st_ID st) = 0
      then Some (Err ''stage %q has no incoming edges'' [st_ID st]) else None)"

definition check_ordering :: "stage_ir \<Rightarrow> goerr option" where
  "check_ordering st =
     (if st_Ordering st = ''ordered'' \<and> 1 < st_MaxInFlight st
      then Some (Err ''stage %q: ordered sink cannot have max_in_flight > 1'' [st_ID st]) else None)"

definition validateCodecRef ::
  "codec_ref option \<Rightarrow> (string \<times> codec_ir) list \<Rightarrow> string \<Rightarrow> goerr option" where
  "validateCodecRef ref codecs role =
     (if CodecRef_IsEmpty ref then None
      else case ref of
             None \<Rightarrow> None
           | Some r \<Rightarrow>
               if cr_Ref r \<noteq> '''' \<and> map_of codecs (cr_Ref r) = None
               then Some (Err ''%s ref %q not found in codecs'' [role, cr_Ref r]) else None)"

definition check_codecs :: "(string \<times> codec_ir) list \<Rightarrow> stage_ir \<Rightarrow> goerr option" where
  "check_codecs codecs st =
     (case validateCodecRef (st_Decoder st) codecs ''decoder'' of
        Some e \<Rightarrow> Some (Wrap ''stage %q: %w'' [st_ID st] e)
      | None \<Rightarrow>
          (case validateCodecRef (st_Encoder st) codecs ''encoder'' of
             Some e \<Rightarrow> Some (Wrap ''stage %q: %w'' [st_ID st] e)
           | None \<Rightarrow> None))"

fun seq_checks :: "goerr option list \<Rightarrow> goerr option" where
  "seq_checks [] = None"
| "seq_checks (c # cs) = (case c of Some e \<Rightarrow> Some e | None \<Rightarrow> seq_checks cs)"

lemma seq_checks_None [simp]: "seq_checks cs = None \<longleftrightarrow> (\<forall>c \<in> set cs. c = None)"
  by (induction cs) (auto split: option.splits)

text \<open>The statements of \<^verbatim>\<open>Validate\<close> in order; the first error is returned.\<close>

definition Validate :: "map_orders \<Rightarrow> topology_ir \<Rightarrow> goerr option" where
  "Validate ord ir =
     (let stages = ir_Stages ir; edges = ir_Edges ir; stageIDs = map st_ID stages in
      seq_checks
        [check_stage_ids [] stages,
         first_err (check_edge stageIDs) edges,
         first_err (check_kind edges) (mo_kinds ord stages),
         (if filter (\<lambda>s. st_Kind s = ''source'') stages = []
          then Some (Err ''pipeline must have at least one source'' []) else None),
         (if filter (\<lambda>s. st_Kind s = ''sink'') stages = []
          then Some (Err ''pipeline must have at least one sink'' []) else None),
         first_err (check_has_incoming edges) (mo_incoming ord stages),
         detectCycle stages edges,
         (if \<not> hasSourceToSinkPath (mo_sources ord) stages edges
          then Some (Err ''no path from any source to any sink'' []) else None),
         first_err check_ordering stages,
         first_err (check_codecs (ir_Codecs ir)) stages])"

section \<open>FromConfig\<close>

definition codec_of_config :: "codec_config \<Rightarrow> codec_ir" where
  "codec_of_config c = \<lparr>ci_Name = cc_Name c, ci_Type = cc_Type c, ci_Config = cc_Config c\<rparr>"

fun build_codecs :: "(string \<times> codec_ir) list \<Rightarrow> codec_config list \<Rightarrow> (string \<times> codec_ir) list res" where
  "build_codecs acc [] = Inr acc"
| "build_codecs acc (c # cs) =
     (if cc_Name c = '''' then Inl (Err ''codec entry missing name'' [])
      else if map_of acc (cc_Name c) \<noteq> None then Inl (Err ''duplicate codec name %q'' [cc_Name c])
      else build_codecs (acc @ [(cc_Name c, codec_of_config c)]) cs)"

definition stage_of_config :: "stage_config \<Rightarrow> stage_ir" where
  "stage_of_config st =
     \<lparr>st_ID = sc_ID st, st_Kind = sc_Kind st, st_Type = sc_Type st, st_Workers = sc_Workers st,
      st_Predicate = sc_Predicate st, st_ErrorMode = sc_ErrorMode st, st_Decoder = sc_Decoder st,
      st_Encoder = sc_Encoder st, st_Batch = sc_Batch st, st_Ordering = sc_Ordering st,
      st_MaxInFlight = sc_MaxInFlight st, st_Config = sc_Config st\<rparr>"

definition edge_of_config :: "edge_config \<Rightarrow> edge_ir" where
  "edge_of_config e =
     \<lparr>ei_From = ec_From e, ei_To = ec_To e, ei_Condition = ec_Condition e, ei_Route = ec_Route e,
      ei_Buffer = (case ec_Buffer e of None \<Rightarrow> zero_buffer | Some b \<Rightarrow> b),
      ei_Delivery = ec_Delivery e,
      ei_Required = (case ec_Required e of None \<Rightarrow> True | Some r \<Rightarrow> r)\<rparr>"

definition FromConfig :: "map_orders \<Rightarrow> pipeline_config \<Rightarrow> topology_ir res" where
  "FromConfig ord cfg =
     (case BuildTopologyIR cfg of
        Inl e \<Rightarrow> Inl e
      | Inr built \<Rightarrow>
          (case build_codecs [] (br_Codecs built) of
             Inl e \<Rightarrow> Inl e
           | Inr codecs \<Rightarrow>
               (case first_err ValidateStageKinds (br_Stages built) of
                  Some e \<Rightarrow> Inl e
                | None \<Rightarrow>
                    (let ir =
                       \<lparr>ir_Name = br_Name built, ir_Engine = ApplyEngineDefaults (br_Engine built),
                        ir_Stages = map stage_of_config (br_Stages built),
                        ir_Edges = map edge_of_config (br_Edges built), ir_Codecs = codecs,
                        ir_EdgeDefaults = br_EdgeDefaults built, ir_DLQ = br_DLQ built,
                        ir_Observability = ApplyObservabilityDefaults (br_Observability built),
                        ir_DeprecationWarnings = br_DeprecationWarnings built\<rparr> in
                     case Validate ord ir of Some e \<Rightarrow> Inl e | None \<Rightarrow> Inr ir))))"

section \<open>What a valid topology is\<close>

definition codec_ref_ok :: "(string \<times> codec_ir) list \<Rightarrow> codec_ref option \<Rightarrow> bool" where
  "codec_ref_ok codecs ref \<longleftrightarrow> (\<forall>r. ref = Some r \<longrightarrow> cr_Ref r \<noteq> '''' \<longrightarrow> cr_Ref r \<in> fst ` set codecs)"

text \<open>The declarative side: well-named stages, a well-formed acyclic graph between them, sources
  without and all other stages with incoming edges, sinks without outgoing edges, at least one of
  each, and resolvable codec references. There is no clause about a path from a source to a sink.\<close>

definition valid_topology :: "topology_ir \<Rightarrow> bool" where
  "valid_topology ir \<longleftrightarrow>
     (let stages = ir_Stages ir; E = edge_rel (ir_Edges ir); ids = st_ID ` set stages in
      distinct (map st_ID stages) \<and> '''' \<notin> ids \<and> E \<subseteq> ids \<times> ids \<and> acyclic E \<and>
      (\<forall>e \<in> set (ir_Edges ir). ei_Route e = '''' \<or> ei_Condition e = '''') \<and>
      (\<forall>s \<in> set stages. st_Kind s \<in> {''source'', ''transform'', ''sink''}) \<and>
      (\<forall>s \<in> set stages. st_Kind s = ''source'' \<longleftrightarrow> st_ID s \<notin> Range E) \<and>
      (\<forall>s \<in> set stages. st_Kind s = ''sink'' \<longrightarrow> st_ID s \<notin> Domain E) \<and>
      (\<exists>s \<in> set stages. st_Kind s = ''sink'') \<and>
      (\<forall>s \<in> set stages. st_Ordering s = ''ordered'' \<longrightarrow> st_MaxInFlight s \<le> 1) \<and>
      (\<forall>s \<in> set stages. codec_ref_ok (ir_Codecs ir) (st_Decoder s) \<and>
                        codec_ref_ok (ir_Codecs ir) (st_Encoder s)))"

lemma check_stage_ids_None:
  "check_stage_ids seen stages = None \<longleftrightarrow>
     distinct (map st_ID stages) \<and> '''' \<notin> st_ID ` set stages \<and> set seen \<inter> st_ID ` set stages = {}"
  by (induction seen stages rule: check_stage_ids.induct) auto

lemma incoming_pos: "0 < incoming edges sid \<longleftrightarrow> sid \<in> Range (edge_rel edges)"
  by (auto simp: incoming_def edge_rel_def filter_empty_conv image_iff)

lemma incoming_zero: "incoming edges sid = 0 \<longleftrightarrow> sid \<notin> Range (edge_rel edges)"
  using incoming_pos [of edges sid] by auto

lemma targets_pos: "targets edges sid \<noteq> [] \<longleftrightarrow> sid \<in> Domain (edge_rel edges)"
  by (auto simp: targets_def edge_rel_def filter_empty_conv image_iff)

lemma validateCodecRef_None: "validateCodecRef ref codecs role = None \<longleftrightarrow> codec_ref_ok codecs ref"
  by (auto simp: validateCodecRef_def codec_ref_ok_def CodecRef_IsEmpty_def map_of_eq_None_iff
      split: option.splits)

lemma check_codecs_None:
  "check_codecs codecs st = None \<longleftrightarrow>
     codec_ref_ok codecs (st_Decoder st) \<and> codec_ref_ok codecs (st_Encoder st)"
  using validateCodecRef_None [of "st_Decoder st" codecs "''decoder''"]
    validateCodecRef_None [of "st_Encoder st" codecs "''encoder''"]
  unfolding check_codecs_def
  by (cases "validateCodecRef (st_Decoder st) codecs ''decoder''";
      cases "validateCodecRef (st_Encoder st) codecs ''encoder''") simp_all

lemma check_edges_None:
  "(\<forall>e \<in> set edges. check_edge ids e = None) \<longleftrightarrow>
     edge_rel edges \<subseteq> set ids \<times> set ids \<and> (\<forall>e \<in> set edges. ei_Route e = '''' \<or> ei_Condition e = '''')"
  by (auto simp: check_edge_def edge_rel_def split: if_splits)

text \<open>In a finite acyclic graph every node whose class is closed under having a predecessor is
  reachable from a node without one.\<close>

lemma reachable_from_root:
  assumes "finite E" and "acyclic E" and "x \<in> V" and "E \<subseteq> V \<times> V"
  shows "\<exists>s \<in> V. s \<notin> Range E \<and> (s, x) \<in> E\<^sup>*"
proof -
  have "wf E" using assms(1,2) by (rule finite_acyclic_wf)
  then have "x \<in> V \<longrightarrow> (\<exists>s \<in> V. s \<notin> Range E \<and> (s, x) \<in> E\<^sup>*)"
  proof (induction x rule: wf_induct_rule)
    case (less x)
    show ?case
    proof (cases "x \<in> Range E")
      case True
      then obtain y where y: "(y, x) \<in> E" by blast
      then obtain s where "s \<in> V" "s \<notin> Range E" "(s, y) \<in> E\<^sup>*"
        using less.IH [OF y] assms(4) by auto
      then show ?thesis using y by (meson rtrancl.rtrancl_into_rtrancl)
    next
      case False
      then show ?thesis by blast
    qed
  qed
  then show ?thesis using assms(3) by blast
qed

lemma valid_topologyD:
  assumes "valid_topology ir"
  shows "distinct (map st_ID (ir_Stages ir))"
    and "edge_rel (ir_Edges ir) \<subseteq> st_ID ` set (ir_Stages ir) \<times> st_ID ` set (ir_Stages ir)"
    and "acyclic (edge_rel (ir_Edges ir))"
    and "\<And>s. s \<in> set (ir_Stages ir) \<Longrightarrow> st_Kind s \<in> {''source'', ''transform'', ''sink''}"
    and "\<And>s. s \<in> set (ir_Stages ir) \<Longrightarrow> st_Kind s = ''source'' \<longleftrightarrow> st_ID s \<notin> Range (edge_rel (ir_Edges ir))"
    and "\<And>s. s \<in> set (ir_Stages ir) \<Longrightarrow> st_Kind s = ''sink'' \<Longrightarrow> st_ID s \<notin> Domain (edge_rel (ir_Edges ir))"
    and "\<exists>s \<in> set (ir_Stages ir). st_Kind s = ''sink''"
  using assms unfolding valid_topology_def Let_def
  by - (elim conjE, (assumption | drule (1) bspec, fast | drule (1) bspec, assumption)+)+

lemma valid_stage_reachable:
  assumes "valid_topology ir" and "t \<in> set (ir_Stages ir)"
  shows "\<exists>s \<in> set (ir_Stages ir). st_Kind s = ''source'' \<and> (st_ID s, st_ID t) \<in> (edge_rel (ir_Edges ir))\<^sup>*"
proof -
  note v = valid_topologyD [OF assms(1)]
  from reachable_from_root [OF finite_edge_rel v(3) _ v(2), of "st_ID t"] assms(2)
  obtain i where i: "i \<in> st_ID ` set (ir_Stages ir)" "i \<notin> Range (edge_rel (ir_Edges ir))"
    "(i, st_ID t) \<in> (edge_rel (ir_Edges ir))\<^sup>*" by blast
  then obtain s where "s \<in> set (ir_Stages ir)" "i = st_ID s" by blast
  then show ?thesis using i v(5) [of s] by auto
qed

section \<open>Validate decides validity\<close>

lemma legal_orders_sets:
  assumes "legal_orders ord"
  shows "set (mo_kinds ord xs) = set xs" "set (mo_incoming ord xs) = set xs"
    "set (mo_sources ord ys) = set ys"
  using assms unfolding legal_orders_def by - (elim conjE, rule mset_eq_setD, erule spec)+

lemma check_kind_None:
  "check_kind edges st = None \<longleftrightarrow>
     (st_Kind st = ''source'' \<and> st_ID st \<notin> Range (edge_rel edges)) \<or>
     (st_Kind st = ''sink'' \<and> st_ID st \<notin> Domain (edge_rel edges)) \<or> st_Kind st = ''transform''"
  using targets_pos [of edges "st_ID st"]
  by (simp add: check_kind_def incoming_pos)

lemma check_has_incoming_None:
  "check_has_incoming edges st = None \<longleftrightarrow> (st_Kind st \<noteq> ''source'' \<longrightarrow> st_ID st \<in> Range (edge_rel edges))"
  by (simp add: check_has_incoming_def incoming_zero)

lemma check_ordering_None:
  "check_ordering st = None \<longleftrightarrow> (st_Ordering st = ''ordered'' \<longrightarrow> st_MaxInFlight st \<le> 1)"
  by (auto simp: check_ordering_def)

lemmas check_None_iffs =
  check_stage_ids_None check_edges_None check_kind_None check_has_incoming_None check_ordering_None
  check_codecs_None

lemma Validate_None:
  assumes "legal_orders ord"
  shows "Validate ord ir = None \<longleftrightarrow>
     check_stage_ids [] (ir_Stages ir) = None \<and>
     (\<forall>e \<in> set (ir_Edges ir). check_edge (map st_ID (ir_Stages ir)) e = None) \<and>
     (\<forall>s \<in> set (ir_Stages ir). check_kind (ir_Edges ir) s = None) \<and>
     (\<exists>s \<in> set (ir_Stages ir). st_Kind s = ''source'') \<and>
     (\<exists>s \<in> set (ir_Stages ir). st_Kind s = ''sink'') \<and>
     (\<forall>s \<in> set (ir_Stages ir). check_has_incoming (ir_Edges ir) s = None) \<and>
     detectCycle (ir_Stages ir) (ir_Edges ir) = None \<and>
     hasSourceToSinkPath (mo_sources ord) (ir_Stages ir) (ir_Edges ir) \<and>
     (\<forall>s \<in> set (ir_Stages ir). check_ordering s = None) \<and>
     (\<forall>s \<in> set (ir_Stages ir). check_codecs (ir_Codecs ir) s = None)"
  by (simp add: Validate_def Let_def legal_orders_sets [OF assms] filter_empty_conv
      del: seq_checks.simps)

lemma valid_has_path:
  assumes "valid_topology ir" and "legal_orders ord"
  shows "hasSourceToSinkPath (mo_sources ord) (ir_Stages ir) (ir_Edges ir)"
proof -
  from valid_topologyD(7) [OF assms(1)] obtain t
    where t: "t \<in> set (ir_Stages ir)" "st_Kind t = ''sink''" by (rule bexE)
  from valid_stage_reachable [OF assms(1) t(1)] t
  show ?thesis
    unfolding hasSourceToSinkPath_iff [of "mo_sources ord", OF legal_orders_sets(3) [OF assms(2)]]
    by (meson)
qed

lemma valid_has_source:
  assumes "valid_topology ir"
  shows "\<exists>s \<in> set (ir_Stages ir). st_Kind s = ''source''"
proof -
  from valid_topologyD(7) [OF assms] obtain t where "t \<in> set (ir_Stages ir)" by (rule bexE)
  from valid_stage_reachable [OF assms this] show ?thesis by (meson)
qed

lemma Validate_imp_valid:
  assumes "legal_orders ord" and "Validate ord ir = None"
  shows "valid_topology ir"
proof -
  note N = assms(2) [unfolded Validate_None [OF assms(1)]]
  have ids: "distinct (map st_ID (ir_Stages ir))" "'''' \<notin> st_ID ` set (ir_Stages ir)"
    using N by (simp_all add: check_stage_ids_None)
  have edges: "edge_rel (ir_Edges ir) \<subseteq> st_ID ` set (ir_Stages ir) \<times> st_ID ` set (ir_Stages ir)"
    "\<forall>e \<in> set (ir_Edges ir). ei_Route e = '''' \<or> ei_Condition e = ''''"
    using N by (simp_all add: check_edges_None)
  have "ei_From ` set (ir_Edges ir) \<subseteq> st_ID ` set (ir_Stages ir)"
    using edges(1) by (auto simp: edge_rel_def)
  then have acyc: "acyclic (edge_rel (ir_Edges ir))"
    by (rule detectCycle_complete) (use N in simp)
  have kinds: "\<forall>s \<in> set (ir_Stages ir).
      (st_Kind s = ''source'' \<and> st_ID s \<notin> Range (edge_rel (ir_Edges ir))) \<or>
      (st_Kind s = ''sink'' \<and> st_ID s \<notin> Domain (edge_rel (ir_Edges ir))) \<or> st_Kind s = ''transform''"
    using N unfolding check_kind_None by (elim conjE)
  have inc: "\<forall>s \<in> set (ir_Stages ir). st_Kind s \<noteq> ''source'' \<longrightarrow> st_ID s \<in> Range (edge_rel (ir_Edges ir))"
    using N unfolding check_has_incoming_None by (elim conjE)
  have src: "\<forall>s \<in> set (ir_Stages ir). st_Kind s = ''source'' \<longleftrightarrow> st_ID s \<notin> Range (edge_rel (ir_Edges ir))"
    using kinds inc by fastforce
  have snk: "\<forall>s \<in> set (ir_Stages ir). st_Kind s = ''sink'' \<longrightarrow> st_ID s \<notin> Domain (edge_rel (ir_Edges ir))"
    using kinds by fastforce
  have known: "\<forall>s \<in> set (ir_Stages ir). st_Kind s \<in> {''source'', ''transform'', ''sink''}"
    using kinds by fastforce
  show ?thesis
    unfolding valid_topology_def Let_def
    using ids edges acyc src snk known N by (simp add: check_ordering_None check_codecs_None)
qed

lemma valid_imp_Validate:
  assumes "legal_orders ord" and "valid_topology ir"
  shows "Validate ord ir = None"
proof -
  note v = valid_topologyD [OF assms(2)]
  have cycle: "detectCycle (ir_Stages ir) (ir_Edges ir) = None"
    using detectCycle_sound [of "ir_Stages ir" "ir_Edges ir"] v(3)
    by (cases "detectCycle (ir_Stages ir) (ir_Edges ir)") auto
  have kinds: "\<forall>s \<in> set (ir_Stages ir). check_kind (ir_Edges ir) s = None"
    using v(4,5,6) by (fastforce simp: check_kind_None)
  have inc: "\<forall>s \<in> set (ir_Stages ir). check_has_incoming (ir_Edges ir) s = None"
    using v(5) by (simp add: check_has_incoming_None)
  show ?thesis
    unfolding Validate_None [OF assms(1)]
    using cycle kinds inc valid_has_source [OF assms(2)] valid_has_path [OF assms(2,1)] v(7)
      assms(2) [unfolded valid_topology_def Let_def]
    by (simp add: check_stage_ids_None check_edges_None check_ordering_None check_codecs_None)
qed

text \<open>C8: Validate accepts exactly the valid topologies: stages with distinct non-empty ids and
  known kinds, an acyclic edge relation between declared stages, routes and conditions exclusive,
  no edge into a source or out of a sink, an edge into every other stage, at least one sink,
  consistent sink ordering and resolvable codec references. The final path search is implied by
  the other checks, and the outcome does not depend on the order of map iteration.\<close>

theorem Validate_exact:
  assumes "legal_orders ord"
  shows "Validate ord ir = None \<longleftrightarrow> valid_topology ir"
  using Validate_imp_valid [OF assms] valid_imp_Validate [OF assms] by (rule iffI)

definition demo_ir :: topology_ir where
  "demo_ir =
     \<lparr>ir_Name = ''demo'', ir_Engine = zero_engine,
      ir_Stages = [demo_stage ''in'' ''source'', demo_stage ''f'' ''transform'', demo_stage ''out'' ''sink''],
      ir_Edges = [demo_edge ''in'' ''f'', demo_edge ''f'' ''out''], ir_Codecs = [],
      ir_EdgeDefaults = zero_edge_attrs, ir_DLQ = None, ir_Observability = zero_observability,
      ir_DeprecationWarnings = []\<rparr>"

lemma declared_order_legal [simp]: "legal_orders declared_order"
  by (simp add: legal_orders_def declared_order_def)

lemma demo_ir_accepted: "Validate declared_order demo_ir = None"
  by code_simp

theorem Validate_exact_witness: "valid_topology demo_ir"
  using Validate_exact [OF declared_order_legal, of demo_ir] demo_ir_accepted by simp

text \<open>In an accepted topology every stage is downstream of a source, so no configured stage
  is dead.\<close>

theorem Validate_all_reachable:
  assumes "legal_orders ord" and "Validate ord ir = None" and "t \<in> set (ir_Stages ir)"
  shows "\<exists>s \<in> set (ir_Stages ir). st_Kind s = ''source'' \<and> (st_ID s, st_ID t) \<in> (edge_rel (ir_Edges ir))\<^sup>*"
  by (rule valid_stage_reachable [OF Validate_imp_valid [OF assms(1,2)] assms(3)])

theorem Validate_all_reachable_witness:
  "\<exists>s \<in> set (ir_Stages demo_ir). st_Kind s = ''source'' \<and>
     (st_ID s, ''out'') \<in> (edge_rel (ir_Edges demo_ir))\<^sup>*"
  using Validate_all_reachable [OF declared_order_legal demo_ir_accepted, of "demo_stage ''out'' ''sink''"]
  by (simp add: demo_ir_def demo_stage_def)

section \<open>FromConfig yields valid topologies\<close>



end
