(* ===== verification/GoTime.thy ===== *)
theory GoTime
  imports Prelude
begin

text \<open>
  \<^verbatim>\<open>time.Duration\<close> as the number of nanoseconds: \<^verbatim>\<open>Duration.String\<close>, which the HOCON
  loader calls on duration literals, and \<^verbatim>\<open>time.ParseDuration\<close>, which the engine calls on
  every configured timeout. The fraction of a parsed duration is the exact rational rounded down;
  Go computes it in floating point.
\<close>

abbreviation microsecond :: int where "microsecond \<equiv> 1000"
abbreviation millisecond :: int where "millisecond \<equiv> 1000000"
abbreviation second :: int where "second \<equiv> 1000000000"
abbreviation minute :: int where "minute \<equiv> 60 * second"
abbreviation hour :: int where "hour \<equiv> 60 * minute"

section \<open>Printing\<close>

fun fmtFrac :: "nat \<Rightarrow> nat \<Rightarrow> bool \<Rightarrow> string \<Rightarrow> string \<times> nat" where
  "fmtFrac 0 v print buf = (if print then CHR ''.'' # buf else buf, v)"
| "fmtFrac (Suc n) v print buf =
     (let d = v mod 10; print' = (print \<or> d \<noteq> 0) in
      fmtFrac n (v div 10) print' (if print' then digit_char d # buf else buf))"

definition frac_unit :: "nat \<Rightarrow> nat \<Rightarrow> string \<Rightarrow> string" where
  "frac_unit u prec suffix = (case fmtFrac prec u False suffix of (buf, v) \<Rightarrow> nat_digits v @ buf)"

definition duration_seconds :: "nat \<Rightarrow> string" where
  "duration_seconds u =
     (case fmtFrac 9 u False ''s'' of (buf, v) \<Rightarrow>
        let s = nat_digits (v mod 60) @ buf; m = v div 60 in
        if m = 0 then s
        else let ms = nat_digits (m mod 60) @ ''m'' @ s; h = m div 60 in
             if h = 0 then ms else nat_digits h @ ''h'' @ ms)"

definition Duration_String :: "int \<Rightarrow> string" where
  "Duration_String d =
     (let u = nat \<bar>d\<bar>;
          body = (if u = 0 then ''0s''
                  else if u < 1000 then frac_unit u 0 ''ns''
                  else if u < 1000000 then frac_unit u 3 [CHR 0xC2, CHR 0xB5, CHR ''s'']
                  else if u < 1000000000 then frac_unit u 6 ''ms''
                  else duration_seconds u) in
      if d < 0 then CHR ''-'' # body else body)"

section \<open>Parsing\<close>

definition is_digit :: "char \<Rightarrow> bool" where
  "is_digit c \<longleftrightarrow> CHR ''0'' \<le> c \<and> c \<le> CHR ''9''"

definition digit_val :: "char \<Rightarrow> nat" where
  "digit_val c = of_char c - 48"

definition digits_val :: "string \<Rightarrow> nat" where
  "digits_val ds = foldl (\<lambda>a c. 10 * a + digit_val c) 0 ds"

definition unit_of :: "string \<Rightarrow> nat option" where
  "unit_of u =
     (if u = ''ns'' then Some 1
      else if u = ''us'' \<or> u = [CHR 0xC2, CHR 0xB5, CHR ''s''] \<or> u = [CHR 0xCE, CHR 0xBC, CHR ''s'']
        then Some 1000
      else if u = ''ms'' then Some 1000000
      else if u = ''s'' then Some 1000000000
      else if u = ''m'' then Some 60000000000
      else if u = ''h'' then Some 3600000000000
      else None)"

definition is_unit_char :: "char \<Rightarrow> bool" where
  "is_unit_char c \<longleftrightarrow> c \<noteq> CHR ''.'' \<and> \<not> is_digit c"

text \<open>One \<^verbatim>\<open>[0-9]*(.[0-9]*)?[a-z]+\<close> group: its value in nanoseconds and the rest.\<close>

definition parse_group :: "string \<Rightarrow> string \<Rightarrow> (nat \<times> string) res" where
  "parse_group orig s =
     (let bad = Inl (Err ''time: invalid duration %q'' [orig]);
          ip = takeWhile is_digit s; s1 = dropWhile is_digit s;
          dot = (s1 \<noteq> [] \<and> hd s1 = CHR ''.'');
          fp = (if dot then takeWhile is_digit (tl s1) else []);
          s2 = (if dot then dropWhile is_digit (tl s1) else s1);
          u = takeWhile is_unit_char s2; s3 = dropWhile is_unit_char s2 in
      if digits_val ip > 2 ^ 63 then bad
      else if ip = [] \<and> fp = [] then bad
      else if u = [] then Inl (Err ''time: missing unit in duration %q'' [orig])
      else case unit_of u of
             None \<Rightarrow> Inl (Err ''time: unknown unit %q in duration %q'' [u, orig])
           | Some unit \<Rightarrow>
               if digits_val ip > 2 ^ 63 div unit then bad
               else let v = digits_val ip * unit + digits_val fp * unit div 10 ^ length fp in
                    if v > 2 ^ 63 then bad else Inr (v, s3))"

lemma parse_group_shorter: "parse_group orig s = Inr (v, s') \<Longrightarrow> length s' < length s"
proof -
  assume a: "parse_group orig s = Inr (v, s')"
  define s1 where "s1 = dropWhile is_digit s"
  define s2 where "s2 = (if s1 \<noteq> [] \<and> hd s1 = CHR ''.'' then dropWhile is_digit (tl s1) else s1)"
  have s': "s' = dropWhile is_unit_char s2" and u: "takeWhile is_unit_char s2 \<noteq> []"
    using a by (auto simp: parse_group_def Let_def s1_def s2_def split: if_splits option.splits)
  have "length s2 = length (takeWhile is_unit_char s2) + length s'"
    unfolding s' length_append [symmetric] takeWhile_dropWhile_id ..
  moreover have "0 < length (takeWhile is_unit_char s2)" using u by (rule length_greater_0_conv [THEN iffD2])
  ultimately have "length s' < length s2" by linarith
  also have "length s2 \<le> length s1"
  proof (cases "s1 \<noteq> [] \<and> hd s1 = CHR ''.''")
    case True
    have "length (dropWhile is_digit (tl s1)) \<le> length (tl s1)" by (rule length_dropWhile_le)
    also have "\<dots> \<le> length s1" by simp
    finally show ?thesis using True by (simp add: s2_def)
  next
    case False
    then show ?thesis by (simp only: s2_def if_False order_refl)
  qed
  also have "\<dots> \<le> length s" unfolding s1_def by (rule length_dropWhile_le)
  finally show ?thesis .
qed

function parse_groups :: "string \<Rightarrow> nat \<Rightarrow> string \<Rightarrow> nat res" where
  "parse_groups orig d s =
     (if s = [] then Inr d
      else if \<not> (hd s = CHR ''.'' \<or> is_digit (hd s)) then Inl (Err ''time: invalid duration %q'' [orig])
      else case parse_group orig s of
             Inl e \<Rightarrow> Inl e
           | Inr (v, s') \<Rightarrow>
               if d + v > 2 ^ 63 then Inl (Err ''time: invalid duration %q'' [orig])
               else parse_groups orig (d + v) s')"
  by pat_completeness auto
termination
  by (relation "measure (\<lambda>(orig, d, s). length s)") (auto dest: parse_group_shorter)

declare parse_groups.simps [simp del]

definition ParseDuration :: "string \<Rightarrow> int res" where
  "ParseDuration orig =
     (let neg = (orig \<noteq> [] \<and> hd orig = CHR ''-'');
          s = (if orig \<noteq> [] \<and> (hd orig = CHR ''-'' \<or> hd orig = CHR ''+'') then tl orig else orig) in
      if s = ''0'' then Inr 0
      else if s = [] then Inl (Err ''time: invalid duration %q'' [orig])
      else case parse_groups orig 0 s of
             Inl e \<Rightarrow> Inl e
           | Inr d \<Rightarrow>
               if neg then Inr (- int d)
               else if d > 2 ^ 63 - 1 then Inl (Err ''time: invalid duration %q'' [orig])
               else Inr (int d))"

lemma parse_groups_bound: "parse_groups orig d s = Inr r \<Longrightarrow> d \<le> 2 ^ 63 \<Longrightarrow> r \<le> 2 ^ 63"
proof (induction orig d s rule: parse_groups.induct)
  case (1 orig d s)
  then show ?case
    by (subst (asm) parse_groups.simps) (auto split: if_splits sum.splits)
qed

lemma ParseDuration_range:
  "ParseDuration s = Inr d \<Longrightarrow> - (2 ^ 63) \<le> d \<and> d < 2 ^ 63"
proof -
  assume a: "ParseDuration s = Inr d"
  have "r \<le> 2 ^ 63" if "parse_groups s 0 t = Inr r" for r t
    using parse_groups_bound [OF that] by simp
  with a show ?thesis
    by (auto simp: ParseDuration_def Let_def split: if_splits sum.splits)
qed

lemma digits_val_append:
  "digits_val (ds @ es) = foldl (\<lambda>a c. 10 * a + digit_val c) (digits_val ds) es"
  by (simp add: digits_val_def)

lemma digit_char_props:
  "d < 10 \<Longrightarrow> is_digit (digit_char d) \<and> digit_val (digit_char d) = d"
proof -
  assume "d < 10"
  then have "d \<in> set [0..<10]" by simp
  moreover have "list_all (\<lambda>d. is_digit (digit_char d) \<and> digit_val (digit_char d) = d) [0..<10]"
    by code_simp
  ultimately show ?thesis by (simp only: list_all_iff)
qed

lemma digits_val_nat_digits [simp]: "digits_val (nat_digits n) = n"
proof (induction n rule: nat_digits.induct)
  case (1 n)
  show ?case
  proof (cases "n < 10")
    case True
    then show ?thesis by (subst nat_digits.simps) (simp add: digits_val_def digit_char_props)
  next
    case False
    then have "digits_val (nat_digits (n div 10)) = n div 10" using 1 by simp
    moreover have "digit_val (digit_char (n mod 10)) = n mod 10" by (simp add: digit_char_props)
    ultimately show ?thesis
      using False by (subst nat_digits.simps) (simp add: digits_val_append)
  qed
qed

lemma nat_digits_digits: "c \<in> set (nat_digits n) \<Longrightarrow> is_digit c"
proof (induction n rule: nat_digits.induct)
  case (1 n)
  then show ?case
    by (subst (asm) (2) nat_digits.simps) (auto simp: digit_char_props split: if_splits)
qed

end
