(* ===== verification/Hocon.thy ===== *)
theory Hocon
  imports Config GoTime
begin

text \<open>
  \<^verbatim>\<open>internal/config/hocon.go\<close>: from the parsed HOCON tree to a
  \<^typ>\<open>pipeline_config\<close>. The parser itself is a library; its values are the datatype
  \<open>hval\<close>, one constructor per answer of \<^verbatim>\<open>Type()\<close> and dynamic type that
  \<^verbatim>\<open>valueToAny\<close> tells apart (\<open>HNumOther\<close> and \<open>HOther\<close> carry the result of
  their \<^verbatim>\<open>String()\<close>). Maps are association lists in iteration order.
\<close>

section \<open>Values of the HOCON library\<close>

datatype hval =
    HNil
  | HObject "(string \<times> hval) list"
  | HArray "hval list"
  | HString string
  | HDuration int
  | HBoolean bool
  | HInt int
  | HFloat32 gfloat
  | HFloat64 gfloat
  | HNumOther string
  | HNull
  | HOther string

fun valueToAny :: "hval \<Rightarrow> gval" where
  "valueToAny HNil = GNil"
| "valueToAny (HObject obj) = GMap (map (\<lambda>(k, child). (k, valueToAny child)) obj)"
| "valueToAny (HArray arr) = GList (map valueToAny arr)"
| "valueToAny (HString s) = GStr s"
| "valueToAny (HDuration d) = GStr (Duration_String d)"
| "valueToAny (HBoolean b) = GBool b"
| "valueToAny (HInt n) = GInt n"
| "valueToAny (HFloat32 n) = GFloat32 n"
| "valueToAny (HFloat64 n) = GFloat64 n"
| "valueToAny (HNumOther s) = GStr s"
| "valueToAny HNull = GNil"
| "valueToAny (HOther s) = GStr s"

text \<open>The argument is the result of \<^verbatim>\<open>conf.GetRoot()\<close>.\<close>

definition ConfigToMap :: "hval \<Rightarrow> gmap res" where
  "ConfigToMap root =
     (if root = HNil then Inl (Err ''empty config root'' [])
      else case valueToAny root of
             GMap out \<Rightarrow> Inr out
           | _ \<Rightarrow> Inl (Err ''root is not an object'' []))"

section \<open>Scalars\<close>

definition strVal :: "(gfloat \<Rightarrow> string) \<Rightarrow> gval \<Rightarrow> string" where
  "strVal ff v = (case v of GNil \<Rightarrow> '''' | GStr t \<Rightarrow> t | _ \<Rightarrow> sprint ff v)"

definition intVal :: "gval \<Rightarrow> int" where
  "intVal v =
     (case v of GInt t \<Rightarrow> t | GInt64 t \<Rightarrow> t | GFloat64 t \<Rightarrow> float_to_int64 t | _ \<Rightarrow> 0)"

definition int64Val :: "gval \<Rightarrow> int" where
  "int64Val v =
     (case v of GInt64 t \<Rightarrow> t | GInt t \<Rightarrow> t | GFloat64 t \<Rightarrow> float_to_int64 t | _ \<Rightarrow> 0)"

definition boolVal :: "gval \<Rightarrow> bool" where
  "boolVal v = (case v of GBool b \<Rightarrow> b | _ \<Rightarrow> False)"

definition stringSlice :: "(gfloat \<Rightarrow> string) \<Rightarrow> gval \<Rightarrow> string list option" where
  "stringSlice ff v =
     (case v of
        GList arr \<Rightarrow> Some (map (strVal ff) arr)
      | GStr s \<Rightarrow> if s \<noteq> '''' then Some (split_char (CHR '','') s) else None
      | _ \<Rightarrow> None)"

definition mapAny :: "gval \<Rightarrow> gmap option" where
  "mapAny m = (case m of GMap src \<Rightarrow> Some src | _ \<Rightarrow> None)"

definition stringMap :: "(gfloat \<Rightarrow> string) \<Rightarrow> gmap \<Rightarrow> (string \<times> string) list" where
  "stringMap ff m = map (\<lambda>(k, v). (k, sprint ff v)) m"

text \<open>\<^verbatim>\<open>if v, ok := m["required"].(bool); ok { required = &v }\<close>\<close>

definition requiredVal :: "gval \<Rightarrow> bool option" where
  "requiredVal v = (case v of GBool b \<Rightarrow> Some b | _ \<Rightarrow> None)"

section \<open>The blocks of a configuration\<close>


definition mapEngine :: "(gfloat \<Rightarrow> string) \<Rightarrow> gmap \<Rightarrow> engine_config" where
  "mapEngine ff m =
     \<lparr>en_MaxWorkers = intVal (mget m ''max_workers''),
      en_MaxInflight = intVal (mget m ''max_inflight''),
      en_ErrorMode = strVal ff (mget m ''error_mode''),
      en_DrainTimeout = strVal ff (mget m ''drain_timeout'')\<rparr>"

definition mapDLQ :: "(gfloat \<Rightarrow> string) \<Rightarrow> gmap \<Rightarrow> dlq_config" where
  "mapDLQ ff m =
     \<lparr>dl_Sink = strVal ff (mget m ''sink''),
      dl_IncludeCurrentPayload = boolVal (mget m ''include_current_payload'')\<rparr>"

definition mapObservability :: "(gfloat \<Rightarrow> string) \<Rightarrow> gmap \<Rightarrow> observability_config" where
  "mapObservability ff m =
     \<lparr>ob_Metrics =
        (case mget m ''metrics'' of
           GMap metrics \<Rightarrow>
             \<lparr>mt_Enabled = boolVal (mget metrics ''enabled''),
              mt_Port = intVal (mget metrics ''port''),
              mt_Path = strVal ff (mget metrics ''path'')\<rparr>
         | _ \<Rightarrow> ob_Metrics zero_observability),
      ob_Health =
        (case mget m ''health'' of
           GMap health \<Rightarrow>
             \<lparr>hc_Enabled = boolVal (mget health ''enabled''),
              hc_Port = intVal (mget health ''port''),
              hc_Liveness = strVal ff (mget health ''liveness''),
              hc_Readiness = strVal ff (mget health ''readiness'')\<rparr>
         | _ \<Rightarrow> ob_Health zero_observability),
      ob_Logging =
        (case mget m ''logging'' of
           GMap logging \<Rightarrow>
             \<lparr>lg_Level = strVal ff (mget logging ''level''),
              lg_Format = strVal ff (mget logging ''format'')\<rparr>
         | _ \<Rightarrow> ob_Logging zero_observability)\<rparr>"

definition mapEdgeBuffer :: "(gfloat \<Rightarrow> string) \<Rightarrow> gval \<Rightarrow> edge_buffer_config option" where
  "mapEdgeBuffer ff raw =
     (case raw of
        GMap m \<Rightarrow>
          Some \<lparr>bf_Type = strVal ff (mget m ''type''),
                bf_Size = intVal (mget m ''size''),
                bf_Strategy = strVal ff (mget m ''strategy''),
                bf_Key = stringSlice ff (mget m ''key''),
                bf_DiskPath = strVal ff (mget m ''disk_path''),
                bf_DiskMaxSize = int64Val (mget m ''disk_max_size''),
                bf_DiskSyncInterval = strVal ff (mget m ''disk_sync_interval'')\<rparr>
      | _ \<Rightarrow> None)"

definition mapDelivery :: "(gfloat \<Rightarrow> string) \<Rightarrow> gval \<Rightarrow> delivery_spec option" where
  "mapDelivery ff raw =
     (case raw of
        GMap m \<Rightarrow>
          Some \<lparr>dv_Retry =
                  (case mget m ''retry'' of
                     GMap r \<Rightarrow> Some \<lparr>rt_Max = intVal (mget r ''max''),
                                      rt_Backoff = strVal ff (mget r ''backoff'')\<rparr>
                   | _ \<Rightarrow> None),
                dv_Timeout = strVal ff (mget m ''timeout''),
                dv_DLQ = strVal ff (mget m ''dlq'')\<rparr>
      | _ \<Rightarrow> None)"

text \<open>The argument is \<^const>\<open>None\<close> for a nil map.\<close>

definition mapEdgeAttrs :: "(gfloat \<Rightarrow> string) \<Rightarrow> gmap option \<Rightarrow> edge_attrs" where
  "mapEdgeAttrs ff m =
     (case m of
        None \<Rightarrow> zero_edge_attrs
      | Some m \<Rightarrow>
          \<lparr>ea_Condition = strVal ff (mget m ''condition''),
           ea_Route = strVal ff (mget m ''route''),
           ea_Buffer = mapEdgeBuffer ff (mget m ''buffer''),
           ea_Delivery = mapDelivery ff (mget m ''delivery''),
           ea_Required = requiredVal (mget m ''required'')\<rparr>)"

definition mapCodecRef :: "(gfloat \<Rightarrow> string) \<Rightarrow> gval \<Rightarrow> codec_ref option" where
  "mapCodecRef ff raw =
     (case raw of
        GStr v \<Rightarrow> Some \<lparr>cr_Type = v, cr_Ref = '''', cr_Config = None\<rparr>
      | GMap v \<Rightarrow>
          Some \<lparr>cr_Type = strVal ff (mget v ''type''),
                cr_Ref = strVal ff (mget v ''ref''),
                cr_Config = mapAny (mget v ''config'')\<rparr>
      | _ \<Rightarrow> None)"

definition mapBatch :: "(gfloat \<Rightarrow> string) \<Rightarrow> gval \<Rightarrow> batch_config option" where
  "mapBatch ff raw =
     (case raw of
        GMap m \<Rightarrow>
          Some \<lparr>bc_Size = intVal (mget m ''size''),
                bc_Timeout = strVal ff (mget m ''timeout''),
                bc_MaxBytes = intVal (mget m ''max_bytes'')\<rparr>
      | _ \<Rightarrow> None)"

definition mapSourceBlock :: "(gfloat \<Rightarrow> string) \<Rightarrow> gmap \<Rightarrow> source_block" where
  "mapSourceBlock ff m =
     \<lparr>so_Type = strVal ff (mget m ''type''),
      so_Decoder = mapCodecRef ff (mget m ''decoder''),
      so_Config = mapAny (mget m ''config'')\<rparr>"

definition mapTransformBlock :: "(gfloat \<Rightarrow> string) \<Rightarrow> gmap \<Rightarrow> transform_block" where
  "mapTransformBlock ff m =
     \<lparr>tr_Type = strVal ff (mget m ''type''),
      tr_Predicate = strVal ff (mget m ''predicate''),
      tr_Workers = intVal (mget m ''workers''),
      tr_ErrorMode = strVal ff (mget m ''error_mode''),
      tr_Config = mapAny (mget m ''config'')\<rparr>"

definition mapSinkBlock :: "(gfloat \<Rightarrow> string) \<Rightarrow> gmap \<Rightarrow> sink_block" where
  "mapSinkBlock ff m =
     \<lparr>si_Type = strVal ff (mget m ''type''),
      si_Encoder = mapCodecRef ff (mget m ''encoder''),
      si_Batch = mapBatch ff (mget m ''batch''),
      si_Ordering = strVal ff (mget m ''ordering''),
      si_MaxInFlight = intVal (mget m ''max_in_flight''),
      si_Config = mapAny (mget m ''config'')\<rparr>"

section \<open>depends_on\<close>

text \<open>The name the verb \<^verbatim>\<open>%T\<close> prints.\<close>

definition type_name :: "gval \<Rightarrow> string" where
  "type_name v =
     (case v of GNil \<Rightarrow> ''<nil>'' | GBool _ \<Rightarrow> ''bool'' | GInt _ \<Rightarrow> ''int'' | GInt64 _ \<Rightarrow> ''int64''
      | GFloat32 _ \<Rightarrow> ''float32'' | GFloat64 _ \<Rightarrow> ''float64'' | GStr _ \<Rightarrow> ''string''
      | GStrs _ \<Rightarrow> ''[]string'' | GList _ \<Rightarrow> ''[]interface {}''
      | GMap _ \<Rightarrow> ''map[string]interface {}'')"

definition dep_entry :: "(gfloat \<Rightarrow> string) \<Rightarrow> string \<times> gval \<Rightarrow> depends_on_entry" where
  "dep_entry ff p =
     \<lparr>do_Upstream = fst p,
      do_Edge = Some (mapEdgeAttrs ff (case snd p of GMap m \<Rightarrow> Some m | _ \<Rightarrow> None))\<rparr>"

definition dep_item :: "(gfloat \<Rightarrow> string) \<Rightarrow> gval \<Rightarrow> depends_on_entry list res" where
  "dep_item ff item =
     (case item of
        GStr t \<Rightarrow> Inr [\<lparr>do_Upstream = t, do_Edge = None\<rparr>]
      | GMap t \<Rightarrow>
          if length t \<noteq> 1 then Inl (Err ''depends_on sequence item must be single-key object'' [])
          else Inr (map (dep_entry ff) t)
      | _ \<Rightarrow> Inl (Err ''unsupported depends_on list element %T'' [type_name item]))"

definition parseDependsOn :: "(gfloat \<Rightarrow> string) \<Rightarrow> gval \<Rightarrow> depends_on_entry list res" where
  "parseDependsOn ff raw =
     (case raw of
        GList v \<Rightarrow>
          rfold (\<lambda>out item. case dep_item ff item of Inl e \<Rightarrow> Inl e | Inr ds \<Rightarrow> Inr (out @ ds)) [] v
      | GMap v \<Rightarrow> Inr (map (dep_entry ff) v)
      | _ \<Rightarrow> Inl (Err ''depends_on must be list or map, got %T'' [type_name raw]))"

text \<open>\<^verbatim>\<open>if deps, ok := m["depends_on"]; ok\<close>: the key may be present with a nil value.\<close>

definition dependsOn_field :: "(gfloat \<Rightarrow> string) \<Rightarrow> gmap \<Rightarrow> depends_on_entry list res" where
  "dependsOn_field ff m =
     (case map_of m ''depends_on'' of None \<Rightarrow> Inr [] | Some deps \<Rightarrow> parseDependsOn ff deps)"

section \<open>Steps, stages, codecs and edges\<close>

definition mapStep :: "(gfloat \<Rightarrow> string) \<Rightarrow> gmap \<Rightarrow> step_config res" where
  "mapStep ff m =
     (case dependsOn_field ff m of
        Inl e \<Rightarrow> Inl e
      | Inr deps \<Rightarrow>
          Inr \<lparr>sp_StepType = strVal ff (mget m ''step_type''),
               sp_DependsOn = deps,
               sp_Source = map_option (mapSourceBlock ff) (mapAny (mget m ''source'')),
               sp_Transform = map_option (mapTransformBlock ff) (mapAny (mget m ''transform'')),
               sp_Sink = map_option (mapSinkBlock ff) (mapAny (mget m ''sink''))\<rparr>)"

definition mapSteps_item ::
  "(gfloat \<Rightarrow> string) \<Rightarrow> (string \<times> step_config) list \<Rightarrow> string \<times> gval \<Rightarrow> (string \<times> step_config) list res" where
  "mapSteps_item ff out p =
     (case p of (name, raw) \<Rightarrow>
        (case raw of
           GMap stepMap \<Rightarrow>
             (case mapStep ff stepMap of
                Inl err \<Rightarrow> Inl (Wrap ''step %q: %w'' [name] err)
              | Inr step \<Rightarrow> Inr (out @ [(name, step)]))
         | _ \<Rightarrow> Inl (Err ''step %q is not an object'' [name])))"

definition mapSteps :: "(gfloat \<Rightarrow> string) \<Rightarrow> gmap \<Rightarrow> (string \<times> step_config) list res" where
  "mapSteps ff steps = rfold (mapSteps_item ff) [] steps"

definition mapStage :: "(gfloat \<Rightarrow> string) \<Rightarrow> gmap \<Rightarrow> stage_config res" where
  "mapStage ff m =
     (case dependsOn_field ff m of
        Inl e \<Rightarrow> Inl e
      | Inr deps \<Rightarrow>
          Inr \<lparr>sc_ID = strVal ff (mget m ''id''),
               sc_Kind = strVal ff (mget m ''kind''),
               sc_Type = strVal ff (mget m ''type''),
               sc_DependsOn = deps,
               sc_Decoder = mapCodecRef ff (mget m ''decoder''),
               sc_Encoder = mapCodecRef ff (mget m ''encoder''),
               sc_Workers = intVal (mget m ''workers''),
               sc_Predicate = strVal ff (mget m ''predicate''),
               sc_ErrorMode = strVal ff (mget m ''error_mode''),
               sc_Batch = mapBatch ff (mget m ''batch''),
               sc_Ordering = strVal ff (mget m ''ordering''),
               sc_MaxInFlight = intVal (mget m ''max_in_flight''),
               sc_Config = mapAny (mget m ''config'')\<rparr>)"

definition mapPipelineStages_item ::
  "(gfloat \<Rightarrow> string) \<Rightarrow> stage_config list \<Rightarrow> gval \<Rightarrow> stage_config list res" where
  "mapPipelineStages_item ff out raw =
     (case raw of
        GMap m \<Rightarrow> (case mapStage ff m of Inl e \<Rightarrow> Inl e | Inr st \<Rightarrow> Inr (out @ [st]))
      | _ \<Rightarrow> Inl (Err ''pipeline[%d] is not an object'' [Itoa (int (length out))]))"

definition mapPipelineStages :: "(gfloat \<Rightarrow> string) \<Rightarrow> gval list \<Rightarrow> stage_config list res" where
  "mapPipelineStages ff items = rfold (mapPipelineStages_item ff) [] items"

fun mapCodecs :: "(gfloat \<Rightarrow> string) \<Rightarrow> gval list \<Rightarrow> codec_config list" where
  "mapCodecs ff [] = []"
| "mapCodecs ff (raw # items) =
     (case raw of
        GMap m \<Rightarrow>
          \<lparr>cc_Name = strVal ff (mget m ''name''),
           cc_Type = strVal ff (mget m ''type''),
           cc_Config = mapAny (mget m ''config'')\<rparr> # mapCodecs ff items
      | _ \<Rightarrow> mapCodecs ff items)"

fun mapEdges :: "(gfloat \<Rightarrow> string) \<Rightarrow> gval list \<Rightarrow> edge_config list" where
  "mapEdges ff [] = []"
| "mapEdges ff (raw # items) =
     (case raw of
        GMap m \<Rightarrow>
          \<lparr>ec_From = strVal ff (mget m ''from''),
           ec_To = strVal ff (mget m ''to''),
           ec_Condition = strVal ff (mget m ''condition''),
           ec_Route = strVal ff (mget m ''route''),
           ec_Buffer = mapEdgeBuffer ff (mget m ''buffer''),
           ec_Delivery = mapDelivery ff (mget m ''delivery''),
           ec_Required = requiredVal (mget m ''required'')\<rparr> # mapEdges ff items
      | _ \<Rightarrow> mapEdges ff items)"

section \<open>The whole configuration\<close>

text \<open>\<^verbatim>\<open>tree[key].(string)\<close> with its zero value.\<close>

definition str_field :: "gmap \<Rightarrow> string \<Rightarrow> string" where
  "str_field tree key = (case mget tree key of GStr v \<Rightarrow> v | _ \<Rightarrow> '''')"

definition list_field :: "gmap \<Rightarrow> string \<Rightarrow> gval list" where
  "list_field tree key = (case mget tree key of GList v \<Rightarrow> v | _ \<Rightarrow> [])"

definition mapToPipelineConfig :: "(gfloat \<Rightarrow> string) \<Rightarrow> gmap \<Rightarrow> pipeline_config res" where
  "mapToPipelineConfig ff tree =
     (case (case mget tree ''steps'' of GMap v \<Rightarrow> mapSteps ff v | _ \<Rightarrow> Inr []) of
        Inl e \<Rightarrow> Inl e
      | Inr steps \<Rightarrow>
          (case mapPipelineStages ff (list_field tree ''pipeline'') of
             Inl e \<Rightarrow> Inl e
           | Inr stages \<Rightarrow>
               Inr \<lparr>pc_APIVersion = str_field tree ''apiVersion'',
                    pc_Kind = str_field tree ''kind'',
                    pc_Metadata = map_option (stringMap ff) (mapAny (mget tree ''metadata'')),
                    pc_Engine =
                      (case mget tree ''engine'' of GMap v \<Rightarrow> mapEngine ff v | _ \<Rightarrow> zero_engine),
                    pc_Steps = steps,
                    pc_Pipeline = stages,
                    pc_Codecs = mapCodecs ff (list_field tree ''codecs''),
                    pc_EdgeDefaults = mapEdgeAttrs ff (mapAny (mget tree ''edgeDefaults'')),
                    pc_DLQ = map_option (mapDLQ ff) (mapAny (mget tree ''dlq'')),
                    pc_Observability =
                      (case mget tree ''observability'' of
                         GMap v \<Rightarrow> mapObservability ff v | _ \<Rightarrow> zero_observability),
                    pc_Edges = mapEdges ff (list_field tree ''edges'')\<rparr>))"

definition LoadHOCON :: "(gfloat \<Rightarrow> string) \<Rightarrow> hval res \<Rightarrow> pipeline_config res" where
  "LoadHOCON ff parsed =
     (case parsed of
        Inl err \<Rightarrow> Inl (Wrap ''hocon parse: %w'' [] err)
      | Inr root \<Rightarrow>
          (case ConfigToMap root of
             Inl err \<Rightarrow> Inl err
           | Inr tree \<Rightarrow> mapToPipelineConfig ff tree))"

section \<open>Configurations as trees\<close>

text \<open>
  The converse direction, a reference printer: the tree a user would write for a configuration.
  A field that is absent is a null value.
\<close>

definition opt_gval :: "('a \<Rightarrow> gmap) \<Rightarrow> 'a option \<Rightarrow> gval" where
  "opt_gval f x = (case x of None \<Rightarrow> GNil | Some a \<Rightarrow> GMap (f a))"

definition bool_gval :: "bool option \<Rightarrow> gval" where
  "bool_gval x = (case x of None \<Rightarrow> GNil | Some b \<Rightarrow> GBool b)"

definition strs_gval :: "string list option \<Rightarrow> gval" where
  "strs_gval x = (case x of None \<Rightarrow> GNil | Some ss \<Rightarrow> GList (map GStr ss))"

definition tree_engine :: "engine_config \<Rightarrow> gmap" where
  "tree_engine c =
     [(''max_workers'', GInt (en_MaxWorkers c)), (''max_inflight'', GInt (en_MaxInflight c)),
      (''error_mode'', GStr (en_ErrorMode c)), (''drain_timeout'', GStr (en_DrainTimeout c))]"

definition tree_dlq :: "dlq_config \<Rightarrow> gmap" where
  "tree_dlq c = [(''sink'', GStr (dl_Sink c)),
     (''include_current_payload'', GBool (dl_IncludeCurrentPayload c))]"

definition tree_observability :: "observability_config \<Rightarrow> gmap" where
  "tree_observability c =
     [(''metrics'', GMap [(''enabled'', GBool (mt_Enabled (ob_Metrics c))),
        (''port'', GInt (mt_Port (ob_Metrics c))), (''path'', GStr (mt_Path (ob_Metrics c)))]),
      (''health'', GMap [(''enabled'', GBool (hc_Enabled (ob_Health c))),
        (''port'', GInt (hc_Port (ob_Health c))), (''liveness'', GStr (hc_Liveness (ob_Health c))),
        (''readiness'', GStr (hc_Readiness (ob_Health c)))]),
      (''logging'', GMap [(''level'', GStr (lg_Level (ob_Logging c))),
        (''format'', GStr (lg_Format (ob_Logging c)))])]"

definition tree_buffer :: "edge_buffer_config \<Rightarrow> gmap" where
  "tree_buffer b =
     [(''type'', GStr (bf_Type b)), (''size'', GInt (bf_Size b)), (''strategy'', GStr (bf_Strategy b)),
      (''key'', strs_gval (bf_Key b)), (''disk_path'', GStr (bf_DiskPath b)),
      (''disk_max_size'', GInt (bf_DiskMaxSize b)),
      (''disk_sync_interval'', GStr (bf_DiskSyncInterval b))]"

definition tree_retry :: "retry_config \<Rightarrow> gmap" where
  "tree_retry r = [(''max'', GInt (rt_Max r)), (''backoff'', GStr (rt_Backoff r))]"

definition tree_delivery :: "delivery_spec \<Rightarrow> gmap" where
  "tree_delivery d =
     [(''retry'', opt_gval tree_retry (dv_Retry d)), (''timeout'', GStr (dv_Timeout d)),
      (''dlq'', GStr (dv_DLQ d))]"

definition tree_attrs :: "edge_attrs \<Rightarrow> gmap" where
  "tree_attrs a =
     [(''condition'', GStr (ea_Condition a)), (''route'', GStr (ea_Route a)),
      (''buffer'', opt_gval tree_buffer (ea_Buffer a)),
      (''delivery'', opt_gval tree_delivery (ea_Delivery a)),
      (''required'', bool_gval (ea_Required a))]"

definition tree_edge :: "edge_config \<Rightarrow> gmap" where
  "tree_edge e =
     [(''from'', GStr (ec_From e)), (''to'', GStr (ec_To e)), (''condition'', GStr (ec_Condition e)),
      (''route'', GStr (ec_Route e)), (''buffer'', opt_gval tree_buffer (ec_Buffer e)),
      (''delivery'', opt_gval tree_delivery (ec_Delivery e)),
      (''required'', bool_gval (ec_Required e))]"

definition tree_codec_ref :: "codec_ref \<Rightarrow> gmap" where
  "tree_codec_ref c = [(''type'', GStr (cr_Type c)), (''ref'', GStr (cr_Ref c)),
     (''config'', opt_gval id (cr_Config c))]"

definition tree_codec :: "codec_config \<Rightarrow> gmap" where
  "tree_codec c = [(''name'', GStr (cc_Name c)), (''type'', GStr (cc_Type c)),
     (''config'', opt_gval id (cc_Config c))]"

definition tree_batch :: "batch_config \<Rightarrow> gmap" where
  "tree_batch b = [(''size'', GInt (bc_Size b)), (''timeout'', GStr (bc_Timeout b)),
     (''max_bytes'', GInt (bc_MaxBytes b))]"

definition tree_dep :: "depends_on_entry \<Rightarrow> gval" where
  "tree_dep d = (case do_Edge d of None \<Rightarrow> GStr (do_Upstream d)
     | Some a \<Rightarrow> GMap [(do_Upstream d, GMap (tree_attrs a))])"

definition tree_source :: "source_block \<Rightarrow> gmap" where
  "tree_source b = [(''type'', GStr (so_Type b)), (''decoder'', opt_gval tree_codec_ref (so_Decoder b)),
     (''config'', opt_gval id (so_Config b))]"

definition tree_transform :: "transform_block \<Rightarrow> gmap" where
  "tree_transform b = [(''type'', GStr (tr_Type b)), (''predicate'', GStr (tr_Predicate b)),
     (''workers'', GInt (tr_Workers b)), (''error_mode'', GStr (tr_ErrorMode b)),
     (''config'', opt_gval id (tr_Config b))]"

definition tree_sink :: "sink_block \<Rightarrow> gmap" where
  "tree_sink b = [(''type'', GStr (si_Type b)), (''encoder'', opt_gval tree_codec_ref (si_Encoder b)),
     (''batch'', opt_gval tree_batch (si_Batch b)), (''ordering'', GStr (si_Ordering b)),
     (''max_in_flight'', GInt (si_MaxInFlight b)), (''config'', opt_gval id (si_Config b))]"

definition tree_step :: "step_config \<Rightarrow> gmap" where
  "tree_step s = [(''step_type'', GStr (sp_StepType s)),
     (''depends_on'', GList (map tree_dep (sp_DependsOn s))),
     (''source'', opt_gval tree_source (sp_Source s)),
     (''transform'', opt_gval tree_transform (sp_Transform s)),
     (''sink'', opt_gval tree_sink (sp_Sink s))]"

definition tree_stage :: "stage_config \<Rightarrow> gmap" where
  "tree_stage s = [(''id'', GStr (sc_ID s)), (''kind'', GStr (sc_Kind s)), (''type'', GStr (sc_Type s)),
     (''workers'', GInt (sc_Workers s)), (''predicate'', GStr (sc_Predicate s)),
     (''error_mode'', GStr (sc_ErrorMode s)), (''ordering'', GStr (sc_Ordering s)),
     (''max_in_flight'', GInt (sc_MaxInFlight s)),
     (''decoder'', opt_gval tree_codec_ref (sc_Decoder s)),
     (''encoder'', opt_gval tree_codec_ref (sc_Encoder s)),
     (''batch'', opt_gval tree_batch (sc_Batch s)), (''config'', opt_gval id (sc_Config s)),
     (''depends_on'', GList (map tree_dep (sc_DependsOn s)))]"

definition tree_of_config :: "pipeline_config \<Rightarrow> gmap" where
  "tree_of_config c =
     [(''apiVersion'', GStr (pc_APIVersion c)), (''kind'', GStr (pc_Kind c)),
      (''metadata'', opt_gval (map (\<lambda>(k, v). (k, GStr v))) (pc_Metadata c)),
      (''engine'', GMap (tree_engine (pc_Engine c))),
      (''edgeDefaults'', GMap (tree_attrs (pc_EdgeDefaults c))),
      (''dlq'', opt_gval tree_dlq (pc_DLQ c)),
      (''observability'', GMap (tree_observability (pc_Observability c))),
      (''steps'', GMap (map (\<lambda>(k, s). (k, GMap (tree_step s))) (pc_Steps c))),
      (''pipeline'', GList (map (GMap \<circ> tree_stage) (pc_Pipeline c))),
      (''codecs'', GList (map (GMap \<circ> tree_codec) (pc_Codecs c))),
      (''edges'', GList (map (GMap \<circ> tree_edge) (pc_Edges c)))]"

section \<open>Reading back a printed configuration\<close>

named_theorems hocon_rt \<open>each block's reader inverts its printer\<close>

lemma strVal_GStr [hocon_rt]: "strVal ff (GStr s) = s"
  by (simp add: strVal_def)

lemma intVal_GInt [hocon_rt]: "intVal (GInt i) = i" "int64Val (GInt i) = i"
  by (simp_all add: intVal_def int64Val_def)

lemma boolVal_GBool [hocon_rt]: "boolVal (GBool b) = b"
  by (simp add: boolVal_def)

lemma requiredVal_gval [hocon_rt]: "requiredVal (bool_gval b) = b"
  by (simp add: requiredVal_def bool_gval_def split: option.splits)

lemma stringSlice_gval [hocon_rt]: "stringSlice ff (strs_gval ss) = ss"
  by (auto simp: stringSlice_def strs_gval_def strVal_def comp_def split: option.splits)

lemma mapAny_opt [hocon_rt]: "mapAny (opt_gval f x) = map_option f x"
  by (simp add: mapAny_def opt_gval_def split: option.splits)

lemma mget_Cons [hocon_rt]: "mget ((k', v) # m) k = (if k' = k then v else mget m k)"
  by (simp add: mget_def)

lemma mapEngine_tree [hocon_rt]: "mapEngine ff (tree_engine c) = c"
  by (simp add: mapEngine_def tree_engine_def hocon_rt)

lemma mapDLQ_tree [hocon_rt]: "mapDLQ ff (tree_dlq c) = c"
  by (simp add: mapDLQ_def tree_dlq_def hocon_rt)

lemma mapObservability_tree [hocon_rt]: "mapObservability ff (tree_observability c) = c"
  by (simp add: mapObservability_def tree_observability_def hocon_rt)

lemma mapEdgeBuffer_tree [hocon_rt]: "mapEdgeBuffer ff (opt_gval tree_buffer b) = b"
  by (cases b) (simp_all add: mapEdgeBuffer_def opt_gval_def tree_buffer_def hocon_rt)

lemma mapDelivery_tree [hocon_rt]: "mapDelivery ff (opt_gval tree_delivery d) = d"
proof (cases d)
  case (Some a)
  then show ?thesis
    by (cases "dv_Retry a") (simp_all add: mapDelivery_def opt_gval_def tree_delivery_def tree_retry_def hocon_rt)
qed (simp add: mapDelivery_def opt_gval_def)

lemma mapEdgeAttrs_tree [hocon_rt]: "mapEdgeAttrs ff (Some (tree_attrs a)) = a"
  by (simp add: mapEdgeAttrs_def tree_attrs_def hocon_rt)

lemma mapCodecRef_tree [hocon_rt]: "mapCodecRef ff (opt_gval tree_codec_ref c) = c"
  by (cases c) (simp_all add: mapCodecRef_def opt_gval_def [of tree_codec_ref] tree_codec_ref_def
      hocon_rt option.map_id)

lemma mapBatch_tree [hocon_rt]: "mapBatch ff (opt_gval tree_batch b) = b"
  by (cases b) (simp_all add: mapBatch_def opt_gval_def tree_batch_def hocon_rt)

lemma mapSourceBlock_tree [hocon_rt]: "mapSourceBlock ff (tree_source b) = b"
  by (simp add: mapSourceBlock_def tree_source_def hocon_rt option.map_id)

lemma mapTransformBlock_tree [hocon_rt]: "mapTransformBlock ff (tree_transform b) = b"
  by (simp add: mapTransformBlock_def tree_transform_def hocon_rt option.map_id)

lemma mapSinkBlock_tree [hocon_rt]: "mapSinkBlock ff (tree_sink b) = b"
  by (simp add: mapSinkBlock_def tree_sink_def hocon_rt option.map_id)

lemma dep_item_tree: "dep_item ff (tree_dep d) = Inr [d]"
  by (cases "do_Edge d") (simp_all add: dep_item_def tree_dep_def dep_entry_def hocon_rt)

lemma rfold_snoc:
  assumes "\<And>out x. x \<in> set xs \<Longrightarrow> f out (g x) = Inr (out @ [h x])"
  shows "rfold f out (map g xs) = Inr (out @ map h xs)"
  using assms by (induction xs arbitrary: out) simp_all

lemma parseDependsOn_tree [hocon_rt]: "parseDependsOn ff (GList (map tree_dep ds)) = Inr ds"
  unfolding parseDependsOn_def gval.case
  by (subst rfold_snoc [where h = "\<lambda>d. d"]) (simp_all add: dep_item_tree)

lemma mapStep_tree [hocon_rt]: "mapStep ff (tree_step s) = Inr s"
  by (simp add: mapStep_def dependsOn_field_def tree_step_def hocon_rt option.map_comp comp_def option.map_ident)

lemma mapStage_tree [hocon_rt]: "mapStage ff (tree_stage s) = Inr s"
  by (simp add: mapStage_def dependsOn_field_def tree_stage_def hocon_rt option.map_id)

lemma mapSteps_tree [hocon_rt]:
  "mapSteps ff (map (\<lambda>(k, s). (k, GMap (tree_step s))) steps) = Inr steps"
  unfolding mapSteps_def
  by (subst rfold_snoc [where h = "\<lambda>p. p"]) (auto simp: mapSteps_item_def hocon_rt)

lemma mapPipelineStages_tree [hocon_rt]:
  "mapPipelineStages ff (map (GMap \<circ> tree_stage) stages) = Inr stages"
  unfolding mapPipelineStages_def
  by (subst rfold_snoc [where h = "\<lambda>p. p"]) (auto simp: mapPipelineStages_item_def hocon_rt)

lemma mapCodecs_tree [hocon_rt]: "mapCodecs ff (map (GMap \<circ> tree_codec) cs) = cs"
  by (induction cs) (simp_all add: tree_codec_def hocon_rt option.map_id)

lemma mapEdges_tree [hocon_rt]: "mapEdges ff (map (GMap \<circ> tree_edge) es) = es"
  by (induction es) (simp_all add: tree_edge_def hocon_rt)

lemma stringMap_tree [hocon_rt]: "stringMap ff (map (\<lambda>(k, v). (k, GStr v)) m) = m"
  by (induction m) (auto simp: stringMap_def)

lemma map_option_inverse [hocon_rt]:
  "map_option (stringMap ff) (map_option (map (\<lambda>(k, v). (k, GStr v))) m) = m"
  "map_option (mapDLQ ff) (map_option tree_dlq d) = d"
  by (cases m; simp add: stringMap_tree) (cases d; simp add: mapDLQ_tree)

text \<open>
  C24: every configuration has a HOCON form. Printing a configuration as a tree and reading the
  tree with \<^verbatim>\<open>mapToPipelineConfig\<close> gives the configuration back, for every field of
  every block.
\<close>

theorem mapToPipelineConfig_roundtrip:
  "mapToPipelineConfig ff (tree_of_config cfg) = Inr cfg"
  by (simp add: mapToPipelineConfig_def tree_of_config_def str_field_def list_field_def hocon_rt
      mapAny_def [of "GMap m" for m])

section \<open>When reading fails\<close>

definition dep_item_ok :: "gval \<Rightarrow> bool" where
  "dep_item_ok item = (case item of GStr _ \<Rightarrow> True | GMap t \<Rightarrow> length t = 1 | _ \<Rightarrow> False)"

definition depends_ok :: "gmap \<Rightarrow> bool" where
  "depends_ok m =
     (case map_of m ''depends_on'' of
        None \<Rightarrow> True
      | Some (GList v) \<Rightarrow> list_all dep_item_ok v
      | Some (GMap _) \<Rightarrow> True
      | Some _ \<Rightarrow> False)"

definition block_ok :: "gval \<Rightarrow> bool" where
  "block_ok raw = (case raw of GMap m \<Rightarrow> depends_ok m | _ \<Rightarrow> False)"

definition tree_ok :: "gmap \<Rightarrow> bool" where
  "tree_ok tree =
     ((case mget tree ''steps'' of GMap v \<Rightarrow> list_all (block_ok \<circ> snd) v | _ \<Rightarrow> True) \<and>
      list_all block_ok (list_field tree ''pipeline''))"

lemma rfold_ok_iff:
  assumes "\<And>s x. is_ok (f s x) \<longleftrightarrow> P x"
  shows "is_ok (rfold f s xs) \<longleftrightarrow> list_all P xs"
proof (induction xs arbitrary: s)
  case Nil
  then show ?case by simp
next
  case (Cons x xs)
  then show ?case using assms [of s x] by (cases "f s x") simp_all
qed

lemma dep_item_ok_iff: "is_ok (dep_item ff item) \<longleftrightarrow> dep_item_ok item"
  by (cases item) (simp_all add: dep_item_def dep_item_ok_def)

lemma dependsOn_field_ok: "is_ok (dependsOn_field ff m) \<longleftrightarrow> depends_ok m"
proof (cases "map_of m ''depends_on''")
  case None
  then show ?thesis by (simp add: dependsOn_field_def depends_ok_def)
next
  case (Some d)
  have "is_ok (rfold (\<lambda>out item. case dep_item ff item of Inl e \<Rightarrow> Inl e | Inr ds \<Rightarrow> Inr (out @ ds)) [] v)
        \<longleftrightarrow> list_all dep_item_ok v" for v
    by (rule rfold_ok_iff) (simp add: dep_item_ok_iff [of ff, symmetric] split: sum.splits)
  with Some show ?thesis
    by (cases d) (simp_all add: dependsOn_field_def parseDependsOn_def depends_ok_def)
qed

lemma mapStep_ok: "is_ok (mapStep ff m) \<longleftrightarrow> depends_ok m"
  by (simp add: dependsOn_field_ok [of ff, symmetric] mapStep_def split: sum.splits)

lemma mapStage_ok: "is_ok (mapStage ff m) \<longleftrightarrow> depends_ok m"
  by (simp add: dependsOn_field_ok [of ff, symmetric] mapStage_def split: sum.splits)

lemma mapSteps_ok: "is_ok (mapSteps ff v) \<longleftrightarrow> list_all (block_ok \<circ> snd) v"
  unfolding mapSteps_def
  by (rule rfold_ok_iff)
    (auto simp: mapSteps_item_def block_ok_def mapStep_ok [of ff, symmetric] split: gval.splits sum.splits)

lemma mapPipelineStages_ok: "is_ok (mapPipelineStages ff v) \<longleftrightarrow> list_all block_ok v"
  unfolding mapPipelineStages_def
  by (rule rfold_ok_iff)
    (auto simp: mapPipelineStages_item_def block_ok_def mapStage_ok [of ff, symmetric]
      split: gval.splits sum.splits)

text \<open>
  Reading a tree fails exactly for a step or pipeline entry that is not an object or whose
  \<^verbatim>\<open>depends_on\<close> is malformed (neither a map nor a list of names and single-key objects).
  Every other field of the wrong type is read as its zero value or printed.
\<close>

theorem mapToPipelineConfig_errors: "is_ok (mapToPipelineConfig ff tree) \<longleftrightarrow> tree_ok tree"
proof -
  have "is_ok (case mget tree ''steps'' of GMap v \<Rightarrow> mapSteps ff v | _ \<Rightarrow> Inr []) \<longleftrightarrow>
      (case mget tree ''steps'' of GMap v \<Rightarrow> list_all (block_ok \<circ> snd) v | _ \<Rightarrow> True)"
    by (cases "mget tree ''steps''") (simp_all add: mapSteps_ok)
  then show ?thesis
    unfolding tree_ok_def mapPipelineStages_ok [of ff, symmetric]
    by (auto simp: mapToPipelineConfig_def is_ok_iff split: sum.splits)
qed

end
