(* ===== verification/Loader.thy ===== *)
theory Loader
  imports Hocon
begin

text \<open>
  \<^verbatim>\<open>internal/config/loader.go\<close>: the choice of a format, the substitution of environment
  variables in YAML configurations and the loading of a directory. The environment is a function
  from names to optional values; reading files, the YAML decoder and the HOCON parser are arguments.
\<close>

section \<open>Formats\<close>

datatype format = FormatYAML | FormatHOCON

text \<open>\<^verbatim>\<open>filepath.Ext\<close>: from the last dot of the last path element.\<close>

fun ext_rev :: "string \<Rightarrow> string \<Rightarrow> string" where
  "ext_rev [] acc = ''''"
| "ext_rev (c # cs) acc =
     (if c = CHR ''/'' then '''' else if c = CHR ''.'' then c # acc else ext_rev cs (c # acc))"

definition Ext :: "string \<Rightarrow> string" where
  "Ext path = ext_rev (rev path) ''''"

definition DetectFormat :: "string \<Rightarrow> string \<Rightarrow> format res" where
  "DetectFormat path explicit =
     (if explicit \<noteq> '''' then
        (if ToLower explicit = ''yaml'' \<or> ToLower explicit = ''yml'' then Inr FormatYAML
         else if ToLower explicit = ''hocon'' \<or> ToLower explicit = ''conf'' then Inr FormatHOCON
         else Inl (Err ''unknown format %q'' [explicit]))
      else
        let ext = ToLower (Ext path) in
        if ext = ''.yaml'' \<or> ext = ''.yml'' then Inr FormatYAML
        else if ext = ''.conf'' \<or> ext = ''.hocon'' then Inr FormatHOCON
        else Inl (Err ''cannot detect format from extension %q; use --format'' [ext]))"

section \<open>Environment variables\<close>

definition ident_start :: "char \<Rightarrow> bool" where
  "ident_start c \<longleftrightarrow> CHR ''A'' \<le> c \<and> c \<le> CHR ''Z'' \<or> CHR ''a'' \<le> c \<and> c \<le> CHR ''z'' \<or> c = CHR ''_''"

definition ident_char :: "char \<Rightarrow> bool" where
  "ident_char c \<longleftrightarrow> ident_start c \<or> CHR ''0'' \<le> c \<and> c \<le> CHR ''9''"

text \<open>
  One match of the expression \<^verbatim>\<open>\$\{(\??[A-Za-z_][A-Za-z0-9_]*)\}\<close> at the start of a
  string: whether the name is optional, the name, and the rest.
\<close>

definition match_name :: "bool \<Rightarrow> string \<Rightarrow> (bool \<times> string \<times> string) option" where
  "match_name opt s =
     (let name = takeWhile ident_char s; rest = dropWhile ident_char s in
      if name \<noteq> [] \<and> ident_start (hd name) \<and> rest \<noteq> [] \<and> hd rest = CHR ''}''
      then Some (opt, name, tl rest) else None)"

fun match_env :: "string \<Rightarrow> (bool \<times> string \<times> string) option" where
  "match_env (a # b # s) =
     (if a = CHR ''$'' \<and> b = CHR ''{'' then
        (case s of
           c # s' \<Rightarrow> if c = CHR ''?'' then match_name True s' else match_name False s
         | [] \<Rightarrow> None)
      else None)"
| "match_env s = None"

definition env_ref :: "bool \<Rightarrow> string \<Rightarrow> string" where
  "env_ref opt name = ''${'' @ (if opt then ''?'' else '''') @ name @ ''}''"

text \<open>The replacement function; its last case returns the match itself.\<close>

definition env_replace :: "(string \<Rightarrow> string option) \<Rightarrow> bool \<Rightarrow> string \<Rightarrow> string" where
  "env_replace env opt name =
     (case env name of
        Some val \<Rightarrow> val
      | None \<Rightarrow> if opt then '''' else env_ref opt name)"

lemma match_name_shorter: "match_name opt s = Some (p, n, r) \<Longrightarrow> length r < length s"
proof -
  assume "match_name opt s = Some (p, n, r)"
  then have "dropWhile ident_char s \<noteq> []" "r = tl (dropWhile ident_char s)"
    by (auto simp: match_name_def Let_def split: if_splits)
  then have "length r < length (dropWhile ident_char s)" by (cases "dropWhile ident_char s") auto
  also have "\<dots> \<le> length s" by (rule length_dropWhile_le)
  finally show ?thesis .
qed

lemma match_env_shorter: "match_env s = Some (p, n, r) \<Longrightarrow> length r < length s"
  by (cases s rule: match_env.cases)
    (auto dest!: match_name_shorter split: if_splits list.splits)

function SubstituteEnv :: "(string \<Rightarrow> string option) \<Rightarrow> string \<Rightarrow> string" where
  "SubstituteEnv env s =
     (case match_env s of
        Some (opt, name, rest) \<Rightarrow> env_replace env opt name @ SubstituteEnv env rest
      | None \<Rightarrow> (case s of [] \<Rightarrow> [] | c # cs \<Rightarrow> c # SubstituteEnv env cs))"
  by pat_completeness auto
termination
  by (relation "measure (\<lambda>(env, s). length s)") (auto dest: match_env_shorter)

declare SubstituteEnv.simps [simp del]

section \<open>Substitution in a configuration\<close>

text \<open>
  \<^verbatim>\<open>substituteMap\<close> and \<^verbatim>\<open>substituteSlice\<close> call each other on nested values;
  \<open>substitute_value\<close> is the type switch they share.
\<close>

fun substitute_value :: "(string \<Rightarrow> string option) \<Rightarrow> gval \<Rightarrow> gval" where
  "substitute_value env (GStr t) = GStr (SubstituteEnv env t)"
| "substitute_value env (GList t) = GList (map (substitute_value env) t)"
| "substitute_value env (GMap t) = GMap (map (\<lambda>(k, v). (k, substitute_value env v)) t)"
| "substitute_value env v = v"

definition substituteMap :: "(string \<Rightarrow> string option) \<Rightarrow> gmap option \<Rightarrow> gmap option" where
  "substituteMap env m = map_option (map (\<lambda>(k, v). (k, substitute_value env v))) m"

definition substituteStep :: "(string \<Rightarrow> string option) \<Rightarrow> step_config \<Rightarrow> step_config" where
  "substituteStep env s =
     s\<lparr>sp_Source := map_option (\<lambda>b. b\<lparr>so_Config := substituteMap env (so_Config b)\<rparr>) (sp_Source s),
       sp_Transform :=
         map_option (\<lambda>b. b\<lparr>tr_Config := substituteMap env (tr_Config b)\<rparr>) (sp_Transform s),
       sp_Sink := map_option (\<lambda>b. b\<lparr>si_Config := substituteMap env (si_Config b)\<rparr>) (sp_Sink s)\<rparr>"

definition substituteStage :: "(string \<Rightarrow> string option) \<Rightarrow> stage_config \<Rightarrow> stage_config" where
  "substituteStage env s = s\<lparr>sc_Config := substituteMap env (sc_Config s)\<rparr>"

definition substituteInConfig :: "(string \<Rightarrow> string option) \<Rightarrow> pipeline_config \<Rightarrow> pipeline_config" where
  "substituteInConfig env cfg =
     cfg\<lparr>pc_Metadata := map_option (map (\<lambda>(k, v). (k, SubstituteEnv env v))) (pc_Metadata cfg),
         pc_Steps := map (\<lambda>(name, step). (name, substituteStep env step)) (pc_Steps cfg),
         pc_Pipeline := map (substituteStage env) (pc_Pipeline cfg)\<rparr>"

section \<open>Loading\<close>

record loader_env =
  le_ReadFile :: "string \<Rightarrow> string res"
  le_DecodeYAML :: "string \<Rightarrow> pipeline_config res"
  le_ParseHOCON :: "string \<Rightarrow> hval res"
  le_FormatFloat :: "gfloat \<Rightarrow> string"
  le_LookupEnv :: "string \<Rightarrow> string option"

definition LoadYAML :: "loader_env \<Rightarrow> string \<Rightarrow> pipeline_config res" where
  "LoadYAML le path =
     (case le_ReadFile le path of
        Inl err \<Rightarrow> Inl err
      | Inr data \<Rightarrow>
          (case le_DecodeYAML le data of
             Inl err \<Rightarrow> Inl (Wrap ''yaml decode: %w'' [] err)
           | Inr cfg \<Rightarrow> Inr (substituteInConfig (le_LookupEnv le) cfg)))"

text \<open>\<^verbatim>\<open>filepath.Join\<close> of a directory path in its clean form and a file name.\<close>

definition Join :: "string \<Rightarrow> string \<Rightarrow> string" where
  "Join dir name = (if dir = '''' then name else dir @ ''/'' @ name)"

definition LoadFile :: "loader_env \<Rightarrow> string \<Rightarrow> pipeline_config res" where
  "LoadFile le path =
     (case DetectFormat path '''' of
        Inl err \<Rightarrow> Inl err
      | Inr FormatYAML \<Rightarrow> LoadYAML le path
      | Inr FormatHOCON \<Rightarrow> LoadHOCON (le_FormatFloat le) (le_ParseHOCON le path))"

text \<open>A directory entry is its name and whether it is a directory itself.\<close>

fun load_entries ::
  "loader_env \<Rightarrow> string \<Rightarrow> (string \<times> bool) list \<Rightarrow> pipeline_config list res" where
  "load_entries le dir [] = Inr []"
| "load_entries le dir ((name, is_dir) # entries) =
     (if is_dir then load_entries le dir entries
      else if ToLower (Ext name) \<notin> {''.yaml'', ''.yml'', ''.conf'', ''.hocon''} then
        load_entries le dir entries
      else case LoadFile le (Join dir name) of
             Inl err \<Rightarrow> Inl (Wrap ''%s: %w'' [name] err)
           | Inr cfg \<Rightarrow>
               (case load_entries le dir entries of
                  Inl err \<Rightarrow> Inl err
                | Inr cfgs \<Rightarrow> Inr (cfg # cfgs)))"

definition LoadDir ::
  "loader_env \<Rightarrow> string \<Rightarrow> (string \<times> bool) list res \<Rightarrow> pipeline_config list res" where
  "LoadDir le dir listing =
     (case listing of
        Inl err \<Rightarrow> Inl err
      | Inr entries \<Rightarrow>
          (case load_entries le dir entries of
             Inl err \<Rightarrow> Inl err
           | Inr [] \<Rightarrow> Inl (Err ''no pipeline configs found in %s'' [dir])
           | Inr cfgs \<Rightarrow> Inr cfgs))"

section \<open>Substitution is one pass over the text\<close>

datatype segment = Lit string | Ref bool string

fun seg_ok :: "segment \<Rightarrow> bool" where
  "seg_ok (Lit s) = (CHR ''$'' \<notin> set s)"
| "seg_ok (Ref opt name) = (name \<noteq> [] \<and> ident_start (hd name) \<and> list_all ident_char name)"

fun seg_text :: "segment \<Rightarrow> string" where
  "seg_text (Lit s) = s"
| "seg_text (Ref opt name) = env_ref opt name"

fun seg_subst :: "(string \<Rightarrow> string option) \<Rightarrow> segment \<Rightarrow> string" where
  "seg_subst env (Lit s) = s"
| "seg_subst env (Ref opt name) = env_replace env opt name"

lemma match_env_not_dollar: "c \<noteq> CHR ''$'' \<Longrightarrow> match_env (c # s) = None"
  by (cases s) simp_all

lemma SubstituteEnv_Nil [simp]: "SubstituteEnv env [] = []"
  by (simp add: SubstituteEnv.simps)

lemma SubstituteEnv_Lit:
  "CHR ''$'' \<notin> set l \<Longrightarrow> SubstituteEnv env (l @ t) = l @ SubstituteEnv env t"
proof (induction l)
  case Nil
  then show ?case by simp
next
  case (Cons c l)
  then show ?case
    by (simp add: SubstituteEnv.simps [of env "c # l @ t"] match_env_not_dollar [of c] not_sym)
qed

lemma match_env_Ref:
  assumes "name \<noteq> []" and "ident_start (hd name)" and "list_all ident_char name"
  shows "match_env (env_ref opt name @ t) = Some (opt, name, t)"
proof -
  have "\<not> ident_char (CHR ''}'')" by (simp add: ident_char_def ident_start_def)
  moreover have "\<forall>c \<in> set name. ident_char c" using assms(3) by (simp add: list_all_iff)
  ultimately have "takeWhile ident_char (name @ CHR ''}'' # t) = name"
      "dropWhile ident_char (name @ CHR ''}'' # t) = CHR ''}'' # t"
    by (simp_all add: takeWhile_append2 dropWhile_append2)
  then have m: "match_name opt (name @ CHR ''}'' # t) = Some (opt, name, t)"
    using assms by (simp add: match_name_def)
  obtain c cs where name: "name = c # cs" using assms(1) by (cases name) auto
  then have "c \<noteq> CHR ''?''" using assms(2) by (auto simp: ident_start_def)
  then show ?thesis using m name by (cases opt) (simp_all add: env_ref_def)
qed

lemma SubstituteEnv_Ref:
  assumes "name \<noteq> []" and "ident_start (hd name)" and "list_all ident_char name"
  shows "SubstituteEnv env (env_ref opt name @ t) = env_replace env opt name @ SubstituteEnv env t"
  by (subst SubstituteEnv.simps) (simp add: match_env_Ref [OF assms])

text \<open>
  C26: \<^verbatim>\<open>SubstituteEnv\<close> replaces every reference of a text exactly once: for a text made
  of literals without a dollar sign and of well-formed references, the result is the literals
  unchanged with each reference's replacement between them. The inserted values are not scanned
  again, so a value that holds a reference is copied as it is.
\<close>

theorem SubstituteEnv_segments:
  assumes "list_all seg_ok segs"
  shows "SubstituteEnv env (concat (map seg_text segs)) = concat (map (seg_subst env) segs)"
  using assms
proof (induction segs)
  case Nil
  then show ?case by simp
next
  case (Cons g segs)
  then show ?case by (cases g) (simp_all add: SubstituteEnv_Lit SubstituteEnv_Ref)
qed

theorem SubstituteEnv_segments_witness:
  "SubstituteEnv [''A'' \<mapsto> ''${B}''] ''x=${A},${?B};${B}'' = ''x=${B},;${B}''"
  using SubstituteEnv_segments
      [of "[Lit ''x='', Ref False ''A'', Lit '','', Ref True ''B'', Lit '';'', Ref False ''B'']"
          "[''A'' \<mapsto> ''${B}'']"]
  by (simp add: env_ref_def env_replace_def ident_char_def ident_start_def)

text \<open>
  A required variable that is not set stays in the text as it was written; the comment above
  the function says it is replaced by the empty string. Only the optional form is removed.
\<close>

theorem SubstituteEnv_unset:
  assumes "seg_ok (Ref opt name)" and "env name = None"
  shows "SubstituteEnv env (env_ref opt name) = (if opt then '''' else env_ref opt name)"
  using SubstituteEnv_Ref [of name env opt "[]"] assms by (simp add: env_replace_def)

theorem SubstituteEnv_unset_witness: "SubstituteEnv Map.empty ''${HOME}'' = ''${HOME}''"
  using SubstituteEnv_unset [of False "''HOME''" Map.empty]
  by (simp add: env_ref_def ident_char_def ident_start_def)

section \<open>What substitution leaves alone\<close>

lemma SubstituteEnv_plain: "CHR ''$'' \<notin> set s \<Longrightarrow> SubstituteEnv env s = s"
  using SubstituteEnv_Lit [of s env "[]"] by simp

fun plain_value :: "gval \<Rightarrow> bool" where
  "plain_value (GStr t) = (CHR ''$'' \<notin> set t)"
| "plain_value (GList t) = list_all plain_value t"
| "plain_value (GMap t) = list_all (\<lambda>(k, v). plain_value v) t"
| "plain_value v = True"

lemma substitute_value_plain: "plain_value v \<Longrightarrow> substitute_value env v = v"
proof (induction env v rule: substitute_value.induct)
  case (2 env t)
  then show ?case by (simp add: list_all_iff map_idI)
next
  case (3 env t)
  then show ?case by (auto simp: list_all_iff intro!: map_idI)
qed (simp_all add: SubstituteEnv_plain)

text \<open>
  Only the metadata and the \<^verbatim>\<open>config\<close> maps of steps and stages are substituted;
  every other string of the configuration (engine, edges, delivery, predicates, codecs, dlq,
  observability, types) keeps its references, although the comment says all string values are
  substituted. Stage identities and the number and names of the steps never change.
\<close>

theorem substituteInConfig_frame:
  "substituteInConfig env cfg
     = cfg\<lparr>pc_Metadata := pc_Metadata (substituteInConfig env cfg),
           pc_Steps := pc_Steps (substituteInConfig env cfg),
           pc_Pipeline := pc_Pipeline (substituteInConfig env cfg)\<rparr>
   \<and> map (\<lambda>s. s\<lparr>sc_Config := None\<rparr>) (pc_Pipeline (substituteInConfig env cfg))
     = map (\<lambda>s. s\<lparr>sc_Config := None\<rparr>) (pc_Pipeline cfg)
   \<and> map (\<lambda>(k, s). (k, sp_StepType s, sp_DependsOn s, map_option so_Type (sp_Source s),
          map_option tr_Predicate (sp_Transform s), map_option si_Type (sp_Sink s)))
       (pc_Steps (substituteInConfig env cfg))
     = map (\<lambda>(k, s). (k, sp_StepType s, sp_DependsOn s, map_option so_Type (sp_Source s),
          map_option tr_Predicate (sp_Transform s), map_option si_Type (sp_Sink s)))
       (pc_Steps cfg)"
  by (auto simp: substituteInConfig_def substituteStage_def substituteStep_def option.map_comp
      comp_def)

section \<open>Loading a directory\<close>

lemma load_entries_ok:
  "load_entries le dir entries = Inr cfgs \<Longrightarrow>
     map Inr cfgs = map (\<lambda>(name, _). LoadFile le (Join dir name))
       (filter (\<lambda>(name, is_dir). \<not> is_dir \<and> is_ok (DetectFormat name '''')) entries)"
proof (induction le dir entries arbitrary: cfgs rule: load_entries.induct)
  case (1 le dir)
  then show ?case by simp
next
  case (2 le dir name is_dir entries)
  then show ?case
    by (auto simp: DetectFormat_def Let_def split: if_splits sum.splits)
qed

text \<open>
  A directory that loads gives the configurations of exactly those files whose extension
  \<^verbatim>\<open>DetectFormat\<close> accepts, in directory order, and there is at least one of them.
\<close>

theorem LoadDir_files:
  assumes "LoadDir le dir (Inr entries) = Inr cfgs"
  shows "cfgs \<noteq> [] \<and>
    map Inr cfgs = map (\<lambda>(name, _). LoadFile le (Join dir name))
       (filter (\<lambda>(name, is_dir). \<not> is_dir \<and> is_ok (DetectFormat name '''')) entries)"
proof -
  have "load_entries le dir entries = Inr cfgs" and "cfgs \<noteq> []"
    using assms by (auto simp: LoadDir_def split: sum.splits list.splits)
  then show ?thesis using load_entries_ok by blast
qed

definition demo_loader :: loader_env where
  "demo_loader =
     \<lparr>le_ReadFile = (\<lambda>path. Inr path), le_DecodeYAML = (\<lambda>s. Inr zero_pipeline),
      le_ParseHOCON = (\<lambda>p. Inl EOF), le_FormatFloat = (\<lambda>f. ''0''), le_LookupEnv = Map.empty\<rparr>"

theorem LoadDir_files_witness:
  "\<exists>cfgs. LoadDir demo_loader ''d'' (Inr [(''a.yaml'', False), (''b.txt'', False), (''c.yml'', True)]) = Inr cfgs
     \<and> length cfgs = 1"
proof -
  let ?es = "[(''a.yaml'', False), (''b.txt'', False), (''c.yml'', True)]"
  obtain cfgs where ok: "LoadDir demo_loader ''d'' (Inr ?es) = Inr cfgs"
    by (simp add: LoadDir_def LoadFile_def LoadYAML_def DetectFormat_def Ext_def ToLower_def
        lower_char_def demo_loader_def Join_def Let_def)
  have "map Inr cfgs = map (\<lambda>(name, _). LoadFile demo_loader (Join ''d'' name))
      (filter (\<lambda>(name, is_dir). \<not> is_dir \<and> is_ok (DetectFormat name '''')) ?es)"
    using LoadDir_files [OF ok] by blast
  then have "length cfgs = 1"
    by (auto dest!: arg_cong [where f = length]
        simp: DetectFormat_def Ext_def ToLower_def lower_char_def)
  with ok show ?thesis by blast
qed

end
