(* ===== verification/Message.thy ===== *)
theory Message
  imports GoValue
begin

text \<open>
  \<^verbatim>\<open>internal/message/message.go\<close>. Messages are shared by pointer, so a pointer is a number
  (\<open>mref\<close>) into a store; parsed payloads live in a heap of maps and slices. The ack callback
  of a message is data: the list of the handlers it calls, outermost first.
\<close>

type_synonym mref = nat

section \<open>Parsed payloads\<close>

text \<open>A dynamic value of a parsed payload; maps and slices are addresses.\<close>

datatype jv =
    JNil
  | JBool bool
  | JInt int
  | JFloat gfloat
  | JStr string
  | JBytes string
  | JMap nat
  | JList nat

datatype gobj = OMap "(string \<times> jv) list" | OList "jv list"

record goheap =
  hp_objs :: "nat \<Rightarrow> gobj option"
  hp_next :: nat

definition halloc :: "gobj \<Rightarrow> goheap \<Rightarrow> nat \<times> goheap" where
  "halloc obj h = (hp_next h, h\<lparr>hp_objs := (hp_objs h)(hp_next h \<mapsto> obj), hp_next := Suc (hp_next h)\<rparr>)"

definition hwrite :: "nat \<Rightarrow> gobj \<Rightarrow> goheap \<Rightarrow> goheap" where
  "hwrite a obj h = h\<lparr>hp_objs := (hp_objs h)(a \<mapsto> obj)\<rparr>"

text \<open>
  \<^verbatim>\<open>deepCopyValue\<close>. The first argument bounds the depth: the recursion of the code ends
  only for values without cycles, and \<^const>\<open>None\<close> stands for running past the bound.
\<close>

fun deepCopyValue :: "nat \<Rightarrow> jv \<Rightarrow> goheap \<Rightarrow> (jv \<times> goheap) option"
and deepCopy_entries ::
  "nat \<Rightarrow> (string \<times> jv) list \<Rightarrow> goheap \<Rightarrow> ((string \<times> jv) list \<times> goheap) option"
and deepCopy_items :: "nat \<Rightarrow> jv list \<Rightarrow> goheap \<Rightarrow> (jv list \<times> goheap) option" where
  "deepCopyValue 0 v h = None"
| "deepCopyValue (Suc n) v h =
     (case v of
        JMap a \<Rightarrow>
          (case hp_objs h a of
             Some (OMap t) \<Rightarrow>
               (case deepCopy_entries n t h of
                  None \<Rightarrow> None
                | Some (cp, h') \<Rightarrow> (case halloc (OMap cp) h' of (b, h'') \<Rightarrow> Some (JMap b, h'')))
           | _ \<Rightarrow> None)
      | JList a \<Rightarrow>
          (case hp_objs h a of
             Some (OList t) \<Rightarrow>
               (case deepCopy_items n t h of
                  None \<Rightarrow> None
                | Some (cp, h') \<Rightarrow> (case halloc (OList cp) h' of (b, h'') \<Rightarrow> Some (JList b, h'')))
           | _ \<Rightarrow> None)
      | _ \<Rightarrow> Some (v, h))"
| "deepCopy_entries n [] h = Some ([], h)"
| "deepCopy_entries n ((k, val) # t) h =
     (case deepCopyValue n val h of
        None \<Rightarrow> None
      | Some (v', h') \<Rightarrow>
          (case deepCopy_entries n t h' of
             None \<Rightarrow> None
           | Some (t', h'') \<Rightarrow> Some ((k, v') # t', h'')))"
| "deepCopy_items n [] h = Some ([], h)"
| "deepCopy_items n (val # t) h =
     (case deepCopyValue n val h of
        None \<Rightarrow> None
      | Some (v', h') \<Rightarrow>
          (case deepCopy_items n t h' of
             None \<Rightarrow> None
           | Some (t', h'') \<Rightarrow> Some (v' # t', h'')))"

section \<open>Messages\<close>

text \<open>
  The handlers the code installs: a source's \<^verbatim>\<open>OnAck\<close> for a message, the release of an
  inflight slot, and the branch of a fan-out that reports to its aggregation cell.
\<close>

datatype ack_handler =
    HOnAck string mref
  | HRelease
  | HChild nat

record message =
  ms_ID :: string
  ms_Payload :: string
  ms_Metadata :: gmap
  ms_parsedData :: jv
  ms_parsedDirty :: bool
  ms_parsedCodec :: string
  ms_decoderStageID :: string
  ms_readOnly :: bool
  ms_originalPayload :: "string option"
  ms_ackFn :: "ack_handler list"
  ms_errCount :: int

definition message_New :: "string \<Rightarrow> gmap option \<Rightarrow> message" where
  "message_New payload metadata =
     \<lparr>ms_ID = '''', ms_Payload = payload,
      ms_Metadata = (case metadata of None \<Rightarrow> [] | Some m \<Rightarrow> m),
      ms_parsedData = JNil, ms_parsedDirty = False, ms_parsedCodec = '''', ms_decoderStageID = '''',
      ms_readOnly = False, ms_originalPayload = None, ms_ackFn = [], ms_errCount = 0\<rparr>"

definition SetAckFn :: "ack_handler list \<Rightarrow> message \<Rightarrow> message" where
  "SetAckFn fn m = m\<lparr>ms_ackFn := fn\<rparr>"

text \<open>The extra handler runs first, then the handlers installed before.\<close>

definition WrapAckFn :: "ack_handler \<Rightarrow> message \<Rightarrow> message" where
  "WrapAckFn extra m = m\<lparr>ms_ackFn := extra # ms_ackFn m\<rparr>"

text \<open>The copy has no ack callback, shares the parsed value and is read-only.\<close>

definition ShallowCopy :: "message \<Rightarrow> message" where
  "ShallowCopy m =
     \<lparr>ms_ID = ms_ID m, ms_Payload = ms_Payload m, ms_Metadata = ms_Metadata m,
      ms_parsedData = ms_parsedData m, ms_parsedDirty = ms_parsedDirty m,
      ms_parsedCodec = ms_parsedCodec m, ms_decoderStageID = ms_decoderStageID m,
      ms_readOnly = True, ms_originalPayload = ms_originalPayload m, ms_ackFn = [],
      ms_errCount = ms_errCount m\<rparr>"

definition SetParsedData :: "jv \<Rightarrow> message \<Rightarrow> message" where
  "SetParsedData data m = m\<lparr>ms_parsedData := data, ms_parsedDirty := True, ms_readOnly := False\<rparr>"

definition EnsureWritable :: "nat \<Rightarrow> message \<Rightarrow> goheap \<Rightarrow> (message \<times> goheap) option" where
  "EnsureWritable fuel m h =
     (if ms_readOnly m \<and> ms_parsedData m \<noteq> JNil then
        (case deepCopyValue fuel (ms_parsedData m) h of
           None \<Rightarrow> None
         | Some (v, h') \<Rightarrow> Some (m\<lparr>ms_parsedData := v, ms_readOnly := False\<rparr>, h'))
      else Some (m, h))"

definition BackupOriginalPayload :: "message \<Rightarrow> message" where
  "BackupOriginalPayload m =
     (if ms_originalPayload m = None then m\<lparr>ms_originalPayload := Some (ms_Payload m)\<rparr> else m)"

definition OriginalPayload :: "message \<Rightarrow> string" where
  "OriginalPayload m = (case ms_originalPayload m of Some p \<Rightarrow> p | None \<Rightarrow> ms_Payload m)"

text \<open>The payload a DLQ sees survives any number of re-serialisations.\<close>

lemma OriginalPayload_backup:
  "OriginalPayload ((BackupOriginalPayload m)\<lparr>ms_Payload := p\<rparr>) = OriginalPayload m"
  by (simp add: OriginalPayload_def BackupOriginalPayload_def split: option.splits)

section \<open>A deep copy is the same value in fresh memory\<close>

text \<open>The value an address stands for, as a tree; the bound is the depth.\<close>

fun jv_tree :: "nat \<Rightarrow> goheap \<Rightarrow> jv \<Rightarrow> gval option"
and jv_trees :: "nat \<Rightarrow> goheap \<Rightarrow> (string \<times> jv) list \<Rightarrow> gmap option"
and jv_tree_list :: "nat \<Rightarrow> goheap \<Rightarrow> jv list \<Rightarrow> gval list option" where
  "jv_tree 0 h v = None"
| "jv_tree (Suc n) h v =
     (case v of
        JNil \<Rightarrow> Some GNil
      | JBool b \<Rightarrow> Some (GBool b)
      | JInt i \<Rightarrow> Some (GInt i)
      | JFloat f \<Rightarrow> Some (GFloat64 f)
      | JStr s \<Rightarrow> Some (GStr s)
      | JBytes s \<Rightarrow> Some (GStr s)
      | JMap a \<Rightarrow>
          (case hp_objs h a of Some (OMap t) \<Rightarrow> map_option GMap (jv_trees n h t) | _ \<Rightarrow> None)
      | JList a \<Rightarrow>
          (case hp_objs h a of Some (OList t) \<Rightarrow> map_option GList (jv_tree_list n h t) | _ \<Rightarrow> None))"
| "jv_trees n h [] = Some []"
| "jv_trees n h ((k, v) # t) =
     (case jv_tree n h v of
        None \<Rightarrow> None
      | Some x \<Rightarrow> (case jv_trees n h t of None \<Rightarrow> None | Some xs \<Rightarrow> Some ((k, x) # xs)))"
| "jv_tree_list n h [] = Some []"
| "jv_tree_list n h (v # t) =
     (case jv_tree n h v of
        None \<Rightarrow> None
      | Some x \<Rightarrow> (case jv_tree_list n h t of None \<Rightarrow> None | Some xs \<Rightarrow> Some (x # xs)))"

text \<open>Nothing is allocated at or above the next address.\<close>

definition heap_ok :: "goheap \<Rightarrow> bool" where
  "heap_ok h \<longleftrightarrow> (\<forall>a. hp_next h \<le> a \<longrightarrow> hp_objs h a = None)"

text \<open>The heap grew: old objects are where they were.\<close>

definition heap_le :: "goheap \<Rightarrow> goheap \<Rightarrow> bool" where
  "heap_le h h' \<longleftrightarrow> hp_next h \<le> hp_next h' \<and> (\<forall>a < hp_next h. hp_objs h' a = hp_objs h a)"

lemma heap_le_refl [simp]: "heap_le h h"
  by (simp add: heap_le_def)

lemma heap_le_trans: "heap_le h1 h2 \<Longrightarrow> heap_le h2 h3 \<Longrightarrow> heap_le h1 h3"
  by (auto simp: heap_le_def)

lemma halloc_le: "halloc obj h = (a, h') \<Longrightarrow> heap_ok h \<Longrightarrow>
   heap_le h h' \<and> heap_ok h' \<and> a = hp_next h \<and> hp_next h' = Suc a \<and> hp_objs h' a = Some obj"
  by (auto simp: halloc_def heap_le_def heap_ok_def)

lemma heap_le_obj: "heap_le h h' \<Longrightarrow> heap_ok h \<Longrightarrow> hp_objs h a = Some obj \<Longrightarrow> hp_objs h' a = Some obj"
  by (metis heap_le_def heap_ok_def not_le option.distinct(1))

lemma jv_tree_mono_all:
  assumes "heap_le h h'" and "heap_ok h"
  shows "\<forall>x. jv_tree n h v = Some x \<longrightarrow> jv_tree n h' v = Some x"
    and "\<forall>xs. jv_trees n h t = Some xs \<longrightarrow> jv_trees n h' t = Some xs"
    and "\<forall>ys. jv_tree_list n h l = Some ys \<longrightarrow> jv_tree_list n h' l = Some ys"
  using assms
proof (induction n h v and n h t and n h l rule: jv_tree_jv_trees_jv_tree_list.induct)
  case (2 n h v)
  then show ?case
    using heap_le_obj [OF 2(3,4)] by (auto split: jv.splits option.splits gobj.splits)
qed (auto split: option.splits)

lemmas jv_tree_mono = jv_tree_mono_all(1) [rule_format]

text \<open>Every address of a value satisfies a predicate.\<close>

fun jv_all :: "(nat \<Rightarrow> bool) \<Rightarrow> nat \<Rightarrow> goheap \<Rightarrow> jv \<Rightarrow> bool"
and jv_alls :: "(nat \<Rightarrow> bool) \<Rightarrow> nat \<Rightarrow> goheap \<Rightarrow> (string \<times> jv) list \<Rightarrow> bool"
and jv_all_list :: "(nat \<Rightarrow> bool) \<Rightarrow> nat \<Rightarrow> goheap \<Rightarrow> jv list \<Rightarrow> bool" where
  "jv_all P 0 h v = True"
| "jv_all P (Suc n) h v =
     (case v of
        JMap a \<Rightarrow> P a \<and> (case hp_objs h a of Some (OMap t) \<Rightarrow> jv_alls P n h t | _ \<Rightarrow> True)
      | JList a \<Rightarrow> P a \<and> (case hp_objs h a of Some (OList t) \<Rightarrow> jv_all_list P n h t | _ \<Rightarrow> True)
      | _ \<Rightarrow> True)"
| "jv_alls P n h [] = True"
| "jv_alls P n h ((k, v) # t) = (jv_all P n h v \<and> jv_alls P n h t)"
| "jv_all_list P n h [] = True"
| "jv_all_list P n h (v # t) = (jv_all P n h v \<and> jv_all_list P n h t)"

lemma jv_all_mono_heap:
  assumes "heap_le h h'" and "heap_ok h" and "\<And>a. P a \<Longrightarrow> Q a"
  shows "jv_tree n h v \<noteq> None \<Longrightarrow> jv_all P n h v \<Longrightarrow> jv_all Q n h' v"
    and "jv_trees n h t \<noteq> None \<Longrightarrow> jv_alls P n h t \<Longrightarrow> jv_alls Q n h' t"
    and "jv_tree_list n h l \<noteq> None \<Longrightarrow> jv_all_list P n h l \<Longrightarrow> jv_all_list Q n h' l"
  using assms
proof (induction P n h v and P n h t and P n h l rule: jv_all_jv_alls_jv_all_list.induct)
  case (2 P n h v)
  then show ?case
    using heap_le_obj [OF 2(5,6)] by (auto split: jv.splits option.splits gobj.splits)
qed (auto split: option.splits)

text \<open>What \<^const>\<open>deepCopyValue\<close> promises.\<close>

definition copy_ok :: "goheap \<Rightarrow> goheap \<Rightarrow> bool" where
  "copy_ok h h' \<longleftrightarrow> heap_le h h' \<and> heap_ok h'"

lemma copy_ok_trans: "copy_ok h1 h2 \<Longrightarrow> copy_ok h2 h3 \<Longrightarrow> copy_ok h1 h3"
  by (auto simp: copy_ok_def intro: heap_le_trans)

lemma deepCopy_all:
  shows "heap_ok h \<Longrightarrow> jv_tree n h v = Some x \<Longrightarrow>
      \<exists>v' h'. deepCopyValue n v h = Some (v', h') \<and> copy_ok h h' \<and>
        jv_tree n h' v' = Some x \<and> jv_all (\<lambda>a. hp_next h \<le> a) n h' v'"
    and "heap_ok h \<Longrightarrow> jv_trees n h t = Some xs \<Longrightarrow>
      \<exists>t' h'. deepCopy_entries n t h = Some (t', h') \<and> copy_ok h h' \<and>
        jv_trees n h' t' = Some xs \<and> jv_alls (\<lambda>a. hp_next h \<le> a) n h' t'"
    and "heap_ok h \<Longrightarrow> jv_tree_list n h l = Some ys \<Longrightarrow>
      \<exists>l' h'. deepCopy_items n l h = Some (l', h') \<and> copy_ok h h' \<and>
        jv_tree_list n h' l' = Some ys \<and> jv_all_list (\<lambda>a. hp_next h \<le> a) n h' l'"
proof (induction n v h and n t h and n l h arbitrary: x and xs and ys
    rule: deepCopyValue_deepCopy_entries_deepCopy_items.induct)
  case (1 v h)
  then show ?case by simp
next
  case (2 n v h)
  show ?case
  proof (cases v)
    case (JMap a)
    obtain t xs where t: "hp_objs h a = Some (OMap t)" and xs: "jv_trees n h t = Some xs" "x = GMap xs"
      using 2(4) JMap by (auto split: option.splits gobj.splits)
    obtain t' h1 where c: "deepCopy_entries n t h = Some (t', h1)" "copy_ok h h1"
      "jv_trees n h1 t' = Some xs" "jv_alls (\<lambda>a. hp_next h \<le> a) n h1 t'"
      using 2(1) [OF JMap t refl 2(3) xs(1)] by blast
    obtain b h2 where b: "halloc (OMap t') h1 = (b, h2)" by (cases "halloc (OMap t') h1")
    have h1: "heap_ok h1" using c(2) by (simp add: copy_ok_def)
    note A = halloc_le [OF b h1]
    have "jv_trees n h2 t' = Some xs" using jv_tree_mono_all(2) A h1 c(3) by blast
    moreover have "jv_alls (\<lambda>a. hp_next h \<le> a) n h2 t'"
      using jv_all_mono_heap(2) [of h1 h2] A h1 c(3,4) by simp
    moreover have "copy_ok h h2" "hp_next h \<le> b"
      using c(2) A by (auto simp: copy_ok_def heap_le_def)
    moreover have "hp_objs h2 b = Some (OMap t')" using A by blast
    ultimately show ?thesis using JMap t c(1) b xs(2) by simp
  next
    case (JList a)
    obtain t xs where t: "hp_objs h a = Some (OList t)" and xs: "jv_tree_list n h t = Some xs" "x = GList xs"
      using 2(4) JList by (auto split: option.splits gobj.splits)
    obtain t' h1 where c: "deepCopy_items n t h = Some (t', h1)" "copy_ok h h1"
      "jv_tree_list n h1 t' = Some xs" "jv_all_list (\<lambda>a. hp_next h \<le> a) n h1 t'"
      using 2(2) [OF JList t refl 2(3) xs(1)] by blast
    obtain b h2 where b: "halloc (OList t') h1 = (b, h2)" by (cases "halloc (OList t') h1")
    have h1: "heap_ok h1" using c(2) by (simp add: copy_ok_def)
    note A = halloc_le [OF b h1]
    have "jv_tree_list n h2 t' = Some xs" using jv_tree_mono_all(3) A h1 c(3) by blast
    moreover have "jv_all_list (\<lambda>a. hp_next h \<le> a) n h2 t'"
      using jv_all_mono_heap(3) [of h1 h2] A h1 c(3,4) by simp
    moreover have "copy_ok h h2" "hp_next h \<le> b"
      using c(2) A by (auto simp: copy_ok_def heap_le_def)
    moreover have "hp_objs h2 b = Some (OList t')" using A by blast
    ultimately show ?thesis using JList t c(1) b xs(2) by simp
  qed (use 2 in \<open>auto simp: copy_ok_def\<close>)
next
  case (3 n h)
  then show ?case by (simp add: copy_ok_def)
next
  case (4 n k val t h)
  obtain y ys where y: "jv_tree n h val = Some y" "jv_trees n h t = Some ys" "xs = (k, y) # ys"
    using 4(4) by (auto split: option.splits)
  obtain v' h1 where c: "deepCopyValue n val h = Some (v', h1)" "copy_ok h h1"
    "jv_tree n h1 v' = Some y" "jv_all (\<lambda>a. hp_next h \<le> a) n h1 v'"
    using 4(1) [OF 4(3) y(1)] by blast
  have h1: "heap_ok h1" and le1: "heap_le h h1" using c(2) by (simp_all add: copy_ok_def)
  have "jv_trees n h1 t = Some ys" using jv_tree_mono_all(2) [OF le1 4(3)] y(2) by blast
  from 4(2) [OF c(1) refl h1 this] obtain t' h2 where d: "deepCopy_entries n t h1 = Some (t', h2)"
    "copy_ok h1 h2" "jv_trees n h2 t' = Some ys" "jv_alls (\<lambda>a. hp_next h1 \<le> a) n h2 t'" by blast
  have le2: "heap_le h1 h2" and h2: "heap_ok h2" using d(2) by (simp_all add: copy_ok_def)
  have "jv_tree n h2 v' = Some y" using jv_tree_mono [OF le2 h1 c(3)] .
  moreover have "jv_all (\<lambda>a. hp_next h \<le> a) n h2 v'"
    using jv_all_mono_heap(1) [OF le2 h1] c(3,4) by simp
  moreover have "hp_next h \<le> hp_next h1" using le1 by (simp add: heap_le_def)
  then have "jv_alls (\<lambda>a. hp_next h \<le> a) n h2 t'"
    using jv_all_mono_heap(2) [OF heap_le_refl h2, of "\<lambda>a. hp_next h1 \<le> a" "\<lambda>a. hp_next h \<le> a" n t'] d(3,4)
    by simp
  ultimately show ?case using c(1) d(1,3) copy_ok_trans [OF c(2) d(2)] y(3) by simp
next
  case (5 n h)
  then show ?case by (simp add: copy_ok_def)
next
  case (6 n val t h)
  obtain y zs where y: "jv_tree n h val = Some y" "jv_tree_list n h t = Some zs" "ys = y # zs"
    using 6(4) by (auto split: option.splits)
  obtain v' h1 where c: "deepCopyValue n val h = Some (v', h1)" "copy_ok h h1"
    "jv_tree n h1 v' = Some y" "jv_all (\<lambda>a. hp_next h \<le> a) n h1 v'"
    using 6(1) [OF 6(3) y(1)] by blast
  have h1: "heap_ok h1" and le1: "heap_le h h1" using c(2) by (simp_all add: copy_ok_def)
  have "jv_tree_list n h1 t = Some zs" using jv_tree_mono_all(3) [OF le1 6(3)] y(2) by blast
  from 6(2) [OF c(1) refl h1 this] obtain t' h2 where d: "deepCopy_items n t h1 = Some (t', h2)"
    "copy_ok h1 h2" "jv_tree_list n h2 t' = Some zs" "jv_all_list (\<lambda>a. hp_next h1 \<le> a) n h2 t'" by blast
  have le2: "heap_le h1 h2" and h2: "heap_ok h2" using d(2) by (simp_all add: copy_ok_def)
  have "jv_tree n h2 v' = Some y" using jv_tree_mono [OF le2 h1 c(3)] .
  moreover have "jv_all (\<lambda>a. hp_next h \<le> a) n h2 v'"
    using jv_all_mono_heap(1) [OF le2 h1] c(3,4) by simp
  moreover have "hp_next h \<le> hp_next h1" using le1 by (simp add: heap_le_def)
  then have "jv_all_list (\<lambda>a. hp_next h \<le> a) n h2 t'"
    using jv_all_mono_heap(3) [OF heap_le_refl h2, of "\<lambda>a. hp_next h1 \<le> a" "\<lambda>a. hp_next h \<le> a" n t'] d(3,4)
    by simp
  ultimately show ?case using c(1) d(1,3) copy_ok_trans [OF c(2) d(2)] y(3) by simp
qed

text \<open>
  C27: copy on write. For a read-only message whose parsed value has at most the given depth,
  \<^verbatim>\<open>EnsureWritable\<close> succeeds, the message holds the same value at addresses no older
  object has, and no write at those addresses changes any value that existed before.
\<close>

theorem EnsureWritable_copies:
  assumes "heap_ok h" and "ms_readOnly m" and "ms_parsedData m \<noteq> JNil"
    and "jv_tree n h (ms_parsedData m) = Some x"
  shows "\<exists>m' h'. EnsureWritable n m h = Some (m', h')
     \<and> jv_tree n h' (ms_parsedData m') = Some x
     \<and> jv_all (\<lambda>a. hp_next h \<le> a) n h' (ms_parsedData m')
     \<and> \<not> ms_readOnly m'
     \<and> (\<forall>a obj v y. hp_next h \<le> a \<longrightarrow> jv_tree n h v = Some y \<longrightarrow>
          jv_tree n (hwrite a obj h') v = Some y)"
proof -
  obtain v' h' where c: "deepCopyValue n (ms_parsedData m) h = Some (v', h')" "copy_ok h h'"
    "jv_tree n h' v' = Some x" "jv_all (\<lambda>a. hp_next h \<le> a) n h' v'"
    using deepCopy_all(1) [OF assms(1,4)] by blast
  have "jv_tree n (hwrite a obj h') v = Some y"
    if "hp_next h \<le> a" and "jv_tree n h v = Some y" for a obj v y
  proof (rule jv_tree_mono [OF _ assms(1) that(2)])
    show "heap_le h (hwrite a obj h')"
      using c(2) that(1) by (auto simp: heap_le_def hwrite_def copy_ok_def)
  qed
  then show ?thesis using c(1,3,4) assms(2,3) by (simp add: EnsureWritable_def)
qed

definition demo_heap :: goheap where
  "demo_heap = \<lparr>hp_objs = [0 \<mapsto> OMap [(''a'', JInt 1), (''l'', JList 1)], 1 \<mapsto> OList [JStr ''x'']], hp_next = 2\<rparr>"

definition demo_msg :: message where
  "demo_msg = (message_New ''{}'' None)\<lparr>ms_parsedData := JMap 0, ms_readOnly := True\<rparr>"

theorem EnsureWritable_copies_witness:
  "\<exists>m' h'. EnsureWritable 5 demo_msg demo_heap = Some (m', h') \<and> \<not> ms_readOnly m'"
proof -
  have h: "heap_ok demo_heap" by (simp add: heap_ok_def demo_heap_def)
  have t: "jv_tree 5 demo_heap (ms_parsedData demo_msg)
      = Some (GMap [(''a'', GInt 1), (''l'', GList [GStr ''x''])])"
    by (simp add: demo_heap_def demo_msg_def eval_nat_numeral)
  have r: "ms_readOnly demo_msg" "ms_parsedData demo_msg \<noteq> JNil" by (simp_all add: demo_msg_def)
  show ?thesis using EnsureWritable_copies [OF h r t] by blast
qed

end
