(* ===== verification/Ack.thy ===== *)
theory Ack
  imports Message "HOL-Library.Word"
begin

text \<open>
  Acknowledgements: the callbacks that \<^verbatim>\<open>internal/engine\<close> chains on messages
  (\<^verbatim>\<open>beginMessageLifecycle\<close>, \<^verbatim>\<open>dispatchFrom\<close>,
  \<^verbatim>\<open>dispatchTransformOutputs\<close>) and what calling one does. A fan-out has a cell that
  counts its open branches and keeps the first error; the last branch acknowledges the parent.
  The state is a store of messages by pointer, the cells, the inflight counter and the log of what
  the sources were told.
\<close>

section \<open>State\<close>

record ack_cell =
  ce_pending :: int
  ce_errStored :: bool
  ce_firstErr :: "goerr option"
  ce_parent :: mref

record world =
  wd_msgs :: "mref \<Rightarrow> message"
  wd_next :: mref
  wd_cells :: "ack_cell list"
  wd_inflight :: "32 word"
  wd_onacks :: "(string \<times> mref \<times> goerr option) list"
  wd_released :: "goerr option list"
  wd_heap :: goheap

definition upd_msg :: "mref \<Rightarrow> (message \<Rightarrow> message) \<Rightarrow> world \<Rightarrow> world" where
  "upd_msg m f w = w\<lparr>wd_msgs := (wd_msgs w)(m := f (wd_msgs w m))\<rparr>"

definition new_msg :: "message \<Rightarrow> world \<Rightarrow> mref \<times> world" where
  "new_msg msg w = (wd_next w, w\<lparr>wd_msgs := (wd_msgs w)(wd_next w := msg), wd_next := Suc (wd_next w)\<rparr>)"

definition new_cell :: "int \<Rightarrow> mref \<Rightarrow> world \<Rightarrow> nat \<times> world" where
  "new_cell n parent w =
     (length (wd_cells w),
      w\<lparr>wd_cells := wd_cells w @
          [\<lparr>ce_pending = n, ce_errStored = False, ce_firstErr = None, ce_parent = parent\<rparr>]\<rparr>)"

section \<open>Calling ack handlers\<close>

text \<open>\<^verbatim>\<open>releaseInflight\<close>: the counter wraps at 32 bits as \<^verbatim>\<open>atomic.Int32\<close> does.\<close>

definition releaseInflight :: "goerr option \<Rightarrow> world \<Rightarrow> world" where
  "releaseInflight err w =
     w\<lparr>wd_inflight := wd_inflight w - 1, wd_released := wd_released w @ [err]\<rparr>"

text \<open>
  The closure of a branch: remember the first error, count down, and when the count is exactly
  zero give the parent's acknowledgement.
\<close>

definition child_done :: "nat \<Rightarrow> goerr option \<Rightarrow> world \<Rightarrow> (mref \<times> goerr option) option \<times> world" where
  "child_done c err w =
     (if c < length (wd_cells w) then
        let ce = wd_cells w ! c;
            ce1 = (if err \<noteq> None \<and> \<not> ce_errStored ce
                   then ce\<lparr>ce_errStored := True, ce_firstErr := err\<rparr> else ce);
            ce2 = ce1\<lparr>ce_pending := ce_pending ce1 - 1\<rparr>;
            w' = w\<lparr>wd_cells := (wd_cells w)[c := ce2]\<rparr> in
        (if ce_pending ce2 = 0 then Some (ce_parent ce2, ce_firstErr ce2) else None, w')
      else (None, w))"

definition open_cells :: "world \<Rightarrow> nat" where
  "open_cells w = length (filter (\<lambda>ce. 0 < ce_pending ce) (wd_cells w))"

lemma filter_update_le:
  "c < length xs \<Longrightarrow> (P y \<longrightarrow> P (xs ! c)) \<Longrightarrow> length (filter P (xs[c := y])) \<le> length (filter P xs)"
proof (induction xs arbitrary: c)
  case (Cons x xs)
  then show ?case by (cases c) (auto simp: less_Suc_eq_0_disj)
qed simp

lemma filter_update_less:
  "c < length xs \<Longrightarrow> \<not> P y \<Longrightarrow> P (xs ! c) \<Longrightarrow> length (filter P (xs[c := y])) < length (filter P xs)"
proof (induction xs arbitrary: c)
  case (Cons x xs)
  then show ?case by (cases c) auto
qed simp

lemma child_done_open:
  assumes "child_done c err w = (fire, w')"
  shows "open_cells w' \<le> open_cells w" and "fire \<noteq> None \<Longrightarrow> open_cells w' < open_cells w"
proof -
  show "open_cells w' \<le> open_cells w"
    using assms
    by (auto simp: child_done_def open_cells_def Let_def split: if_splits intro!: filter_update_le)
  show "fire \<noteq> None \<Longrightarrow> open_cells w' < open_cells w"
    using assms
    by (auto simp: child_done_def open_cells_def Let_def split: if_splits intro!: filter_update_less)
qed

text \<open>
  The handlers still to be called, each with its error, in the order of the nested calls: a branch
  that completes its cell puts the parent's handlers in front.
\<close>

function (sequential) run_acks :: "(ack_handler \<times> goerr option) list \<Rightarrow> world \<Rightarrow> world" where
  "run_acks [] w = w"
| "run_acks ((HRelease, err) # hs) w = run_acks hs (releaseInflight err w)"
| "run_acks ((HOnAck src m, err) # hs) w = run_acks hs (w\<lparr>wd_onacks := wd_onacks w @ [(src, m, err)]\<rparr>)"
| "run_acks ((HChild c, err) # hs) w =
     (case child_done c err w of
        (None, w') \<Rightarrow> run_acks hs w'
      | (Some (parent, ackErr), w') \<Rightarrow>
          run_acks (map (\<lambda>h. (h, ackErr)) (ms_ackFn (wd_msgs w' parent)) @ hs) w')"
  by pat_completeness auto
termination
proof (relation "measures [\<lambda>(hs, w). open_cells w, \<lambda>(hs, w). length hs]", goal_cases)
  case (4 c err hs w x w')
  then have "child_done c err w = (None, w')" by simp
  from child_done_open(1) [OF this] show ?case by (simp add: le_less)
next
  case (5 c err hs w x w' p parent ackErr)
  then have "child_done c err w = (Some (parent, ackErr), w')" by simp
  from child_done_open(2) [OF this] show ?case by simp
qed (auto simp: open_cells_def releaseInflight_def)

text \<open>\<^verbatim>\<open>msg.Ack(err)\<close>; a message without a callback ignores it.\<close>

definition Ack :: "mref \<Rightarrow> goerr option \<Rightarrow> world \<Rightarrow> world" where
  "Ack m err w = run_acks (map (\<lambda>h. (h, err)) (ms_ackFn (wd_msgs w m))) w"

section \<open>Installing callbacks\<close>

text \<open>
  A source message: the callback of an acknowledging source, then
  \<^verbatim>\<open>beginMessageLifecycle\<close> once a slot is acquired.
\<close>

definition begin_lifecycle :: "mref \<Rightarrow> world \<Rightarrow> world" where
  "begin_lifecycle m w = upd_msg m (WrapAckFn HRelease) (w\<lparr>wd_inflight := wd_inflight w + 1\<rparr>)"

text \<open>One branch of \<^verbatim>\<open>dispatchFrom\<close>: a shallow copy that reports to the cell.\<close>

definition fan_child :: "nat \<Rightarrow> mref \<Rightarrow> world \<Rightarrow> mref \<times> world" where
  "fan_child c m w = new_msg (SetAckFn [HChild c] (ShallowCopy (wd_msgs w m))) w"

section \<open>Accounting\<close>

text \<open>
  Ghost state: the pointers of the messages somebody still has to acknowledge (\<open>live\<close>) and the
  branches a fan-out has counted but not created yet (\<open>tokens\<close>). A message is held when it is
  live or the parent of an open cell. The list \<open>hs\<close> holds the handlers that are being called.
\<close>

definition open_cell :: "world \<Rightarrow> nat \<Rightarrow> bool" where
  "open_cell w c \<longleftrightarrow> c < length (wd_cells w) \<and> 0 < ce_pending (wd_cells w ! c)"

definition held :: "world \<Rightarrow> mref list \<Rightarrow> mref list" where
  "held w live = live @ map ce_parent (filter (\<lambda>ce. 0 < ce_pending ce) (wd_cells w))"

text \<open>The handlers that will be called, once each, on the way to completion.\<close>

definition owed :: "world \<Rightarrow> mref list \<Rightarrow> ack_handler list \<Rightarrow> ack_handler multiset" where
  "owed w live hs = mset (concat (map (\<lambda>m. ms_ackFn (wd_msgs w m)) (held w live))) + mset hs"

definition ack_ok :: "world \<Rightarrow> mref list \<Rightarrow> nat list \<Rightarrow> ack_handler list \<Rightarrow> bool" where
  "ack_ok w live tokens hs \<longleftrightarrow>
     (\<forall>c. int (count (owed w live hs) (HChild c) + count (mset tokens) c) =
        (if open_cell w c then ce_pending (wd_cells w ! c) else 0)) \<and>
     (\<forall>ce \<in> set (wd_cells w). 0 \<le> ce_pending ce)"

definition is_onack :: "ack_handler \<Rightarrow> bool" where
  "is_onack h = (case h of HOnAck _ _ \<Rightarrow> True | _ \<Rightarrow> False)"

text \<open>
  What the sources will have been told when everything owed is done: the log so far and the
  callbacks that are owed or being called.
\<close>

definition source_acks :: "world \<Rightarrow> mref list \<Rightarrow> ack_handler list \<Rightarrow> ack_handler multiset" where
  "source_acks w live hs =
     image_mset (\<lambda>(src, m, e). HOnAck src m) (mset (wd_onacks w)) + filter_mset is_onack (owed w live hs)"

definition releases :: "world \<Rightarrow> mref list \<Rightarrow> ack_handler list \<Rightarrow> nat" where
  "releases w live hs = length (wd_released w) + count (owed w live hs) HRelease"

lemma owed_Cons: "owed w live (h # hs) = add_mset h (owed w live hs)"
  by (simp add: owed_def)

lemma owed_append: "owed w live (hs @ hs') = owed w live hs' + mset hs"
  by (simp add: owed_def)

lemma mset_filter_update:
  assumes "c < length xs"
  shows "mset (filter P (xs[c := y])) = mset (filter P xs) - (if P (xs ! c) then {#xs ! c#} else {#})
     + (if P y then {#y#} else {#})"
proof -
  have "xs ! c \<in># mset xs" using assms by simp
  then show ?thesis by (simp add: mset_update assms)
qed

text \<open>A cell that stays open keeps its parent held; a cell that closes lets go of it.\<close>

lemma owed_cell:
  assumes c: "c < length (wd_cells w)" and op: "0 < ce_pending (wd_cells w ! c)"
    and par: "ce_parent ce = ce_parent (wd_cells w ! c)"
    and w': "w' = w\<lparr>wd_cells := (wd_cells w)[c := ce]\<rparr>"
  shows "0 < ce_pending ce \<Longrightarrow> owed w' live hs = owed w live hs"
    and "ce_pending ce = 0 \<Longrightarrow>
      owed w live hs = owed w' live hs + mset (ms_ackFn (wd_msgs w (ce_parent (wd_cells w ! c))))"
proof -
  let ?P = "\<lambda>ce. 0 < ce_pending ce"
  let ?A = "\<lambda>m. mset (ms_ackFn (wd_msgs w m))"
  have conc: "mset (concat (map (\<lambda>m. ms_ackFn (wd_msgs w m)) xs)) = \<Sum>\<^sub># (image_mset ?A (mset xs))" for xs
    by (induction xs) simp_all
  have o: "owed v live hs = \<Sum>\<^sub># (image_mset ?A (mset live)) +
      \<Sum>\<^sub># (image_mset ?A (image_mset ce_parent (mset (filter ?P (wd_cells v))))) + mset hs"
    if "wd_msgs v = wd_msgs w" for v
    unfolding owed_def held_def that conc by simp
  have mem: "wd_cells w ! c \<in># mset (filter ?P (wd_cells w))" using c op by simp
  note upd = mset_filter_update [OF c, of ?P ce]
  have base: "mset (filter ?P (wd_cells w)) = add_mset (wd_cells w ! c) (mset (filter ?P (wd_cells w)) - {#wd_cells w ! c#})"
    using mem by simp
  {
    assume "0 < ce_pending ce"
    then have "mset (filter ?P (wd_cells w')) = add_mset ce (mset (filter ?P (wd_cells w)) - {#wd_cells w ! c#})"
      using upd op by (simp add: w')
    then have "image_mset ce_parent (mset (filter ?P (wd_cells w'))) = image_mset ce_parent (mset (filter ?P (wd_cells w)))"
      using base par by (metis image_mset_add_mset)
    then show "owed w' live hs = owed w live hs" using o [of w'] o [of w] by (simp add: w')
  }
  {
    assume "ce_pending ce = 0"
    then have "mset (filter ?P (wd_cells w')) = mset (filter ?P (wd_cells w)) - {#wd_cells w ! c#}"
      using upd op by (simp add: w')
    then have "image_mset ce_parent (mset (filter ?P (wd_cells w)))
        = add_mset (ce_parent (wd_cells w ! c)) (image_mset ce_parent (mset (filter ?P (wd_cells w'))))"
      using base by (metis image_mset_add_mset)
    then show "owed w live hs = owed w' live hs + ?A (ce_parent (wd_cells w ! c))"
      using o [of w'] o [of w] by (simp add: w')
  }
qed

text \<open>What one call of the branch closure does to the accounts.\<close>

lemma child_done_ok:
  assumes ok: "ack_ok w live tokens (HChild c # hs)" and cd: "child_done c err w = (fire, w')"
  defines "hs' \<equiv> (case fire of None \<Rightarrow> hs | Some (p, e) \<Rightarrow> ms_ackFn (wd_msgs w p) @ hs)"
  shows "ack_ok w' live tokens hs'" and "owed w live (HChild c # hs) = add_mset (HChild c) (owed w' live hs')"
    and "wd_msgs w' = wd_msgs w" "wd_onacks w' = wd_onacks w" "wd_released w' = wd_released w"
      "wd_inflight w' = wd_inflight w" "wd_next w' = wd_next w" "wd_heap w' = wd_heap w"
proof -
  have "0 < count (owed w live (HChild c # hs)) (HChild c)" by (simp add: owed_Cons)
  then have oc: "open_cell w c" using ok unfolding ack_ok_def by (metis add_is_0 less_numeral_extra(3) of_nat_eq_0_iff)
  then have c: "c < length (wd_cells w)" and op: "0 < ce_pending (wd_cells w ! c)"
    by (simp_all add: open_cell_def)
  define ce where "ce = (let ce0 = wd_cells w ! c;
      ce1 = (if err \<noteq> None \<and> \<not> ce_errStored ce0 then ce0\<lparr>ce_errStored := True, ce_firstErr := err\<rparr> else ce0) in
      ce1\<lparr>ce_pending := ce_pending ce1 - 1\<rparr>)"
  have ce: "ce_pending ce = ce_pending (wd_cells w ! c) - 1" "ce_parent ce = ce_parent (wd_cells w ! c)"
    by (simp_all add: ce_def Let_def)
  have w': "w' = w\<lparr>wd_cells := (wd_cells w)[c := ce]\<rparr>"
    and fire: "fire = (if ce_pending ce = 0 then Some (ce_parent ce, ce_firstErr ce) else None)"
  proof -
    have "child_done c err w = (if ce_pending ce = 0 then Some (ce_parent ce, ce_firstErr ce) else None,
        w\<lparr>wd_cells := (wd_cells w)[c := ce]\<rparr>)"
      unfolding child_done_def ce_def Let_def using c by (simp only: if_True)
    with cd show "w' = w\<lparr>wd_cells := (wd_cells w)[c := ce]\<rparr>"
      "fire = (if ce_pending ce = 0 then Some (ce_parent ce, ce_firstErr ce) else None)" by simp_all
  qed
  show fields: "wd_msgs w' = wd_msgs w" "wd_onacks w' = wd_onacks w" "wd_released w' = wd_released w"
      "wd_inflight w' = wd_inflight w" "wd_next w' = wd_next w" "wd_heap w' = wd_heap w"
    by (simp_all add: w')
  note C = owed_cell [OF c op ce(2) w']
  show ow: "owed w live (HChild c # hs) = add_mset (HChild c) (owed w' live hs')"
  proof (cases "ce_pending ce = 0")
    case True
    then show ?thesis
      using C(2) [of live hs] ce(2) by (simp add: owed_Cons hs'_def fire owed_append)
  next
    case False
    then have "0 < ce_pending ce" using ce(1) op by linarith
    then show ?thesis using C(1) [of live hs] False by (simp add: owed_Cons hs'_def fire)
  qed
  show "ack_ok w' live tokens hs'"
    unfolding ack_ok_def
  proof (intro conjI allI ballI)
    fix d
    have cnt: "int (count (owed w live (HChild c # hs)) (HChild d) + count (mset tokens) d)
        = (if open_cell w d then ce_pending (wd_cells w ! d) else 0)"
      using ok by (simp only: ack_ok_def)
    show "int (count (owed w' live hs') (HChild d) + count (mset tokens) d)
        = (if open_cell w' d then ce_pending (wd_cells w' ! d) else 0)"
    proof (cases "d = c")
      case True
      then show ?thesis using cnt [unfolded ow] oc ce(1) c by (simp add: open_cell_def w')
    next
      case False
      then show ?thesis using cnt [unfolded ow] by (simp add: open_cell_def w')
    qed
  next
    fix x assume "x \<in> set (wd_cells w')"
    then have "x = ce \<or> x \<in> set (wd_cells w)" using set_update_subset_insert unfolding w' by fastforce
    then show "0 \<le> ce_pending x" using ok ce(1) op by (auto simp: ack_ok_def)
  qed
qed

lemma run_acks_ok:
  "ack_ok w live tokens (map fst hs) \<Longrightarrow>
     ack_ok (run_acks hs w) live tokens [] \<and>
     source_acks (run_acks hs w) live [] = source_acks w live (map fst hs) \<and>
     releases (run_acks hs w) live [] = releases w live (map fst hs) \<and>
     wd_inflight (run_acks hs w) + of_nat (length (wd_released (run_acks hs w)))
       = wd_inflight w + of_nat (length (wd_released w)) \<and>
     wd_msgs (run_acks hs w) = wd_msgs w \<and> wd_next (run_acks hs w) = wd_next w"
proof (induction hs w rule: run_acks.induct)
  case (1 w)
  then show ?case by simp
next
  case (2 err hs w)
  let ?w = "releaseInflight err w"
  have o: "owed ?w live hs' = owed w live hs'" for hs'
    by (simp add: owed_def held_def releaseInflight_def)
  have "ack_ok ?w live tokens (map fst hs)"
  proof -
    have "wd_cells ?w = wd_cells w" by (simp add: releaseInflight_def)
    then show ?thesis using 2(2) by (simp add: ack_ok_def owed_Cons o open_cell_def)
  qed
  from 2(1) [OF this] show ?case
    by (simp add: source_acks_def releases_def owed_Cons o is_onack_def)
      (simp add: releaseInflight_def algebra_simps)
next
  case (3 src m err hs w)
  let ?w = "w\<lparr>wd_onacks := wd_onacks w @ [(src, m, err)]\<rparr>"
  have o: "owed ?w live hs' = owed w live hs'" for hs' by (simp add: owed_def held_def)
  have "ack_ok ?w live tokens (map fst hs)"
    using 3(2) by (simp add: ack_ok_def owed_Cons o open_cell_def)
  from 3(1) [OF this] show ?case
    by (simp add: source_acks_def releases_def owed_Cons o is_onack_def)
next
  case (4 c err hs w)
  obtain fire w' where cd: "child_done c err w = (fire, w')" by (cases "child_done c err w")
  have ok: "ack_ok w live tokens (HChild c # map fst hs)" using 4(3) by simp
  note D = child_done_ok [OF ok cd]
  show ?case
  proof (cases fire)
    case None
    with 4(1) [OF cd [symmetric] None] D(1) show ?thesis
      using D(2-8) cd None by (simp add: source_acks_def releases_def is_onack_def)
  next
    case (Some pe)
    obtain p e where pe: "pe = (p, e)" by (cases pe)
    have hs': "map fst (map (\<lambda>h. (h, e)) (ms_ackFn (wd_msgs w' p)) @ hs) = ms_ackFn (wd_msgs w p) @ map fst hs"
      using D(3) by (simp add: comp_def)
    have "ack_ok w' live tokens (map fst (map (\<lambda>h. (h, e)) (ms_ackFn (wd_msgs w' p)) @ hs))"
      using D(1) Some pe unfolding hs' by simp
    note IH = 4(2) [OF cd [symmetric] Some pe [symmetric] this]
    show ?thesis
      using IH D(2-8) cd Some pe unfolding hs' by (simp add: source_acks_def releases_def is_onack_def)
  qed
qed

text \<open>Acknowledging a live message, as the code does it, settles exactly its own obligations.\<close>

lemma Ack_live:
  assumes "ack_ok w (m # live) tokens []"
  shows "ack_ok (Ack m err w) live tokens []"
    and "source_acks (Ack m err w) live [] = source_acks w (m # live) []"
    and "releases (Ack m err w) live [] = releases w (m # live) []"
    and "wd_inflight (Ack m err w) + of_nat (length (wd_released (Ack m err w)))
       = wd_inflight w + of_nat (length (wd_released w))"
    and "wd_msgs (Ack m err w) = wd_msgs w" "wd_next (Ack m err w) = wd_next w"
proof -
  let ?hs = "map (\<lambda>h. (h, err)) (ms_ackFn (wd_msgs w m))"
  have f: "map fst ?hs = ms_ackFn (wd_msgs w m)" by (simp add: comp_def)
  have o: "owed w (m # live) [] = owed w live (map fst ?hs)"
    unfolding f by (simp add: owed_def held_def)
  have "ack_ok w live tokens (map fst ?hs)" using assms unfolding ack_ok_def o .
  note R = run_acks_ok [OF this]
  show "ack_ok (Ack m err w) live tokens []" "source_acks (Ack m err w) live [] = source_acks w (m # live) []"
    "releases (Ack m err w) live [] = releases w (m # live) []"
    "wd_inflight (Ack m err w) + of_nat (length (wd_released (Ack m err w)))
       = wd_inflight w + of_nat (length (wd_released w))"
    "wd_msgs (Ack m err w) = wd_msgs w" "wd_next (Ack m err w) = wd_next w"
    using R by (simp_all add: Ack_def source_acks_def releases_def o)
qed

section \<open>A run of the engine, seen by its acknowledgements\<close>

text \<open>
  The ghost state also lists the source messages, in order. Every live message, open cell and
  callback was allocated, and a callback of a cell's parent refers to an earlier cell.
\<close>

record ack_run =
  ar_world :: world
  ar_live :: "mref list"
  ar_tokens :: "nat list"
  ar_sources :: "(string \<times> mref \<times> bool) list"

text \<open>The acknowledgements that acknowledging sources expect.\<close>

definition expected_acks :: "(string \<times> mref \<times> bool) list \<Rightarrow> ack_handler multiset" where
  "expected_acks sources = mset (map (\<lambda>(s, m, acking). HOnAck s m) (filter (\<lambda>(s, m, acking). acking) sources))"

lemma expected_acks_snoc:
  "expected_acks (sources @ [(s, m, acking)]) = expected_acks sources + (if acking then {#HOnAck s m#} else {#})"
  by (simp add: expected_acks_def)

definition parents_ok :: "world \<Rightarrow> mref list \<Rightarrow> bool" where
  "parents_ok w live \<longleftrightarrow>
     (\<forall>m \<in> set (held w live). m < wd_next w) \<and>
     (\<forall>c d. open_cell w c \<longrightarrow>
        HChild d \<in> set (ms_ackFn (wd_msgs w (ce_parent (wd_cells w ! c)))) \<longrightarrow> d < c)"

lemma set_held: "set (held w live) = set live \<union> (\<lambda>c. ce_parent (wd_cells w ! c)) ` {c. open_cell w c}"
  by (auto simp: held_def open_cell_def in_set_conv_nth image_iff)

text \<open>
  A step that only changes the content of messages or allocates new ones: what the transforms, the
  codecs and the DLQ do.
\<close>

definition data_step :: "world \<Rightarrow> world \<Rightarrow> bool" where
  "data_step w w' \<longleftrightarrow>
     wd_cells w' = wd_cells w \<and> wd_inflight w' = wd_inflight w \<and> wd_onacks w' = wd_onacks w \<and>
     wd_released w' = wd_released w \<and> wd_next w \<le> wd_next w' \<and>
     (\<forall>m < wd_next w. ms_ackFn (wd_msgs w' m) = ms_ackFn (wd_msgs w m) \<and> ms_ID (wd_msgs w' m) = ms_ID (wd_msgs w m))"

text \<open>
  The operations of the engine on messages that somebody owns: a source emits a message with its
  callback and acquires a slot; a message is acknowledged; a fan-out over \<open>n\<close> edges gives up
  its message for \<open>n\<close> branches; a branch is created, as a copy of the parent or from a message
  that nobody holds; messages change or are allocated; a message without a callback is taken over.
\<close>

definition emit_source :: "string \<Rightarrow> bool \<Rightarrow> message \<Rightarrow> world \<Rightarrow> mref \<times> world" where
  "emit_source src acking msg w =
     (case new_msg (msg\<lparr>ms_ackFn := []\<rparr>) w of (m, w1) \<Rightarrow>
        (m, begin_lifecycle m (if acking then upd_msg m (SetAckFn [HOnAck src m]) w1 else w1)))"

inductive ack_step :: "ack_run \<Rightarrow> ack_run \<Rightarrow> bool" where
  as_emit: "emit_source src acking msg (ar_world r) = (m, w) \<Longrightarrow>
     ack_step r (r\<lparr>ar_world := w, ar_live := m # ar_live r, ar_sources := ar_sources r @ [(src, m, acking)]\<rparr>)"
| as_ack: "ar_live r = us @ m # vs \<Longrightarrow>
     ack_step r (r\<lparr>ar_world := Ack m err (ar_world r), ar_live := us @ vs\<rparr>)"
| as_fan: "ar_live r = us @ m # vs \<Longrightarrow> 0 < n \<Longrightarrow> new_cell (int n) m (ar_world r) = (c, w) \<Longrightarrow>
     ack_step r (r\<lparr>ar_world := w, ar_live := us @ vs, ar_tokens := replicate n c @ ar_tokens r\<rparr>)"
| as_child: "ar_tokens r = us @ c # vs \<Longrightarrow> fan_child c (ce_parent (wd_cells (ar_world r) ! c)) (ar_world r) = (m, w) \<Longrightarrow>
     ack_step r (r\<lparr>ar_world := w, ar_live := m # ar_live r, ar_tokens := us @ vs\<rparr>)"
| as_adopt: "ar_tokens r = us @ c # vs \<Longrightarrow> m < wd_next (ar_world r) \<Longrightarrow> m \<notin> set (held (ar_world r) (ar_live r)) \<Longrightarrow>
     ack_step r (r\<lparr>ar_world := upd_msg m (SetAckFn [HChild c]) (ar_world r), ar_live := m # ar_live r,
       ar_tokens := us @ vs\<rparr>)"
| as_data: "data_step (ar_world r) w \<Longrightarrow> ack_step r (r\<lparr>ar_world := w\<rparr>)"
| as_own: "m < wd_next (ar_world r) \<Longrightarrow> ms_ackFn (wd_msgs (ar_world r) m) = [] \<Longrightarrow>
     ack_step r (r\<lparr>ar_live := m # ar_live r\<rparr>)"

inductive ack_reach :: "ack_run \<Rightarrow> ack_run \<Rightarrow> bool" for r0 where
  ar_refl: "ack_reach r0 r0"
| ar_step: "ack_reach r0 r \<Longrightarrow> ack_step r r' \<Longrightarrow> ack_reach r0 r'"

interpretation acking: transition_system "ack_step" "ack_reach"
  by unfold_locales (rule ar_refl, erule (1) ar_step, erule ack_reach.induct, assumption, blast)

definition acks_inv :: "32 word \<Rightarrow> ack_run \<Rightarrow> bool" where
  "acks_inv i0 r \<longleftrightarrow>
     ack_ok (ar_world r) (ar_live r) (ar_tokens r) [] \<and>
     parents_ok (ar_world r) (ar_live r) \<and>
     source_acks (ar_world r) (ar_live r) [] = expected_acks (ar_sources r) \<and>
     releases (ar_world r) (ar_live r) [] = length (ar_sources r) \<and>
     wd_inflight (ar_world r) + of_nat (length (wd_released (ar_world r)))
       = i0 + of_nat (length (ar_sources r))"

lemma held_perm: "held w (us @ m # vs) = us @ m # vs @ map ce_parent (filter (\<lambda>ce. 0 < ce_pending ce) (wd_cells w))"
  by (simp add: held_def)

lemma owed_perm: "owed w (us @ m # vs) hs = owed w (m # us @ vs) hs"
  by (simp add: owed_def held_def)

lemma live_perm:
  "ack_ok w (us @ m # vs) tokens hs = ack_ok w (m # us @ vs) tokens hs"
  "source_acks w (us @ m # vs) hs = source_acks w (m # us @ vs) hs"
  "releases w (us @ m # vs) hs = releases w (m # us @ vs) hs"
  "parents_ok w (us @ m # vs) = parents_ok w (m # us @ vs)"
  by (auto simp: ack_ok_def source_acks_def releases_def parents_ok_def owed_perm held_def)

text \<open>A new message at the next pointer changes no callback of a held message.\<close>

lemma held_cong: "wd_cells w' = wd_cells w \<Longrightarrow> held w' live = held w live"
  by (simp add: held_def)

lemma open_cell_cong: "wd_cells w' = wd_cells w \<Longrightarrow> open_cell w' c = open_cell w c"
  by (simp add: open_cell_def)

lemma owed_cong:
  assumes "wd_cells w' = wd_cells w"
    and "\<And>m. m \<in> set (held w live) \<Longrightarrow> ms_ackFn (wd_msgs w' m) = ms_ackFn (wd_msgs w m)"
  shows "owed w' live hs = owed w live hs"
proof -
  have "map (\<lambda>m. ms_ackFn (wd_msgs w' m)) (held w live) = map (\<lambda>m. ms_ackFn (wd_msgs w m)) (held w live)"
    using assms(2) by simp
  then show ?thesis unfolding owed_def held_cong [OF assms(1)] by (simp only:)
qed

lemma owed_new_msg:
  assumes "parents_ok w live" and "\<And>m. m < wd_next w \<Longrightarrow> wd_msgs w' m = wd_msgs w m"
    and "wd_cells w' = wd_cells w"
  shows "owed w' live hs = owed w live hs"
  by (rule owed_cong) (use assms in \<open>auto simp: parents_ok_def\<close>)

lemma owed_live_Cons: "owed w (m # live) hs = mset (ms_ackFn (wd_msgs w m)) + owed w live hs"
  by (simp add: owed_def held_def)

lemma parents_ok_new:
  assumes p: "parents_ok w live" and same: "\<And>m. m < wd_next w \<Longrightarrow> wd_msgs w' m = wd_msgs w m"
    and cells: "wd_cells w' = wd_cells w" and nxt: "wd_next w' = Suc (wd_next w)"
  shows "parents_ok w' (wd_next w # live)"
  unfolding parents_ok_def
proof (intro conjI ballI allI impI)
  fix m assume "m \<in> set (held w' (wd_next w # live))"
  then have "m = wd_next w \<or> m \<in> set (held w live)" by (auto simp: held_def cells)
  then show "m < wd_next w'" using p nxt by (auto simp: parents_ok_def less_Suc_eq)
next
  fix c d assume c: "open_cell w' c" "HChild d \<in> set (ms_ackFn (wd_msgs w' (ce_parent (wd_cells w' ! c))))"
  then have o: "open_cell w c" using open_cell_cong [OF cells] by simp
  then have "ce_parent (wd_cells w ! c) \<in> set (held w live)" by (auto simp: set_held)
  then have "wd_msgs w' (ce_parent (wd_cells w ! c)) = wd_msgs w (ce_parent (wd_cells w ! c))"
    using p by (intro same) (auto simp: parents_ok_def)
  then show "d < c" using p c o by (simp add: parents_ok_def cells)
qed

lemma run_acks_parents: "map ce_parent (wd_cells (run_acks hs w)) = map ce_parent (wd_cells w)"
proof (induction hs w rule: run_acks.induct)
  case (2 err hs w)
  then show ?case by (simp add: releaseInflight_def)
next
  case (4 c err hs w)
  have cd: "map ce_parent (wd_cells (snd (child_done c err w))) = map ce_parent (wd_cells w)"
    by (simp add: child_done_def Let_def map_update list_update_same_conv)
  show ?case
  proof (cases "child_done c err w")
    case (Pair fire w')
    then show ?thesis using 4(1) [OF Pair [symmetric]] 4(2) [OF Pair [symmetric]] cd
      by (cases fire) auto
  qed
qed simp_all

text \<open>No call of a callback opens a cell.\<close>

lemma run_acks_open: "open_cell (run_acks hs w) c \<Longrightarrow> open_cell w c"
proof (induction hs w rule: run_acks.induct)
  case (2 err hs w)
  then show ?case by (simp add: releaseInflight_def open_cell_def)
next
  case (3 src m err hs w)
  then show ?case by (simp add: open_cell_def)
next
  case (4 ca err hs w)
  have cd: "open_cell w c" if "open_cell (snd (child_done ca err w)) c"
    using that by (auto simp: child_done_def Let_def open_cell_def nth_list_update split: if_splits)
  show ?case
  proof (cases "child_done ca err w")
    case (Pair fire w')
    then show ?thesis using 4(1) [OF Pair [symmetric]] 4(2) [OF Pair [symmetric]] cd 4(3)
      by (cases fire) auto
  qed
qed simp

lemma Ack_held: "set (held (Ack m err w) live) \<subseteq> set (held w live)"
proof -
  have par: "map ce_parent (wd_cells (Ack m err w)) = map ce_parent (wd_cells w)"
    by (simp add: Ack_def run_acks_parents)
  have "ce_parent (wd_cells (Ack m err w) ! c) = ce_parent (wd_cells w ! c)" if "open_cell (Ack m err w) c" for c
    using arg_cong [OF par, of "\<lambda>xs. xs ! c"] arg_cong [OF par, of length] that by (simp add: open_cell_def)
  moreover have "open_cell (Ack m err w) c \<Longrightarrow> open_cell w c" for c by (simp add: Ack_def run_acks_open)
  ultimately show ?thesis by (auto simp: set_held)
qed

lemma Ack_parent: "ce_parent (wd_cells (Ack m err w) ! c) = ce_parent (wd_cells w ! c)" if "open_cell w c"
proof -
  have par: "map ce_parent (wd_cells (Ack m err w)) = map ce_parent (wd_cells w)"
    by (simp add: Ack_def run_acks_parents)
  show ?thesis
    using arg_cong [OF par, of "\<lambda>xs. xs ! c"] arg_cong [OF par, of length] that by (simp add: open_cell_def)
qed

lemma parents_ok_Ack:
  assumes p: "parents_ok w live" and same: "wd_msgs (Ack m err w) = wd_msgs w" "wd_next (Ack m err w) = wd_next w"
    and "set live' \<subseteq> set live"
  shows "parents_ok (Ack m err w) live'"
  unfolding parents_ok_def
proof (intro conjI ballI allI impI)
  fix k assume "k \<in> set (held (Ack m err w) live')"
  then have "k \<in> set (held w live')" using Ack_held by blast
  then have "k \<in> set (held w live)" using assms(4) by (auto simp: held_def)
  then show "k < wd_next (Ack m err w)" using p by (simp add: parents_ok_def same)
next
  fix c d assume c: "open_cell (Ack m err w) c"
    "HChild d \<in> set (ms_ackFn (wd_msgs (Ack m err w) (ce_parent (wd_cells (Ack m err w) ! c))))"
  then have "open_cell w c" by (simp add: Ack_def run_acks_open)
  then show "d < c" using c p by (simp add: parents_ok_def same Ack_parent)
qed

lemma as_emit_inv:
  assumes inv: "acks_inv i0 r" and e: "emit_source src acking msg (ar_world r) = (m, w')"
  shows "acks_inv i0 (r\<lparr>ar_world := w', ar_live := m # ar_live r, ar_sources := ar_sources r @ [(src, m, acking)]\<rparr>)"
proof -
  let ?w = "ar_world r"
  have m: "m = wd_next ?w" and msgs: "\<And>k. k < wd_next ?w \<Longrightarrow> wd_msgs w' k = wd_msgs ?w k"
    and ackm: "ms_ackFn (wd_msgs w' m) = HRelease # (if acking then [HOnAck src m] else [])"
    and cells: "wd_cells w' = wd_cells ?w" and nxt: "wd_next w' = Suc (wd_next ?w)"
    and infl: "wd_inflight w' = wd_inflight ?w + 1" and onacks: "wd_onacks w' = wd_onacks ?w"
    and rel: "wd_released w' = wd_released ?w"
    using e by (auto simp: emit_source_def new_msg_def begin_lifecycle_def upd_msg_def SetAckFn_def WrapAckFn_def
        split: if_splits)
  note I = inv [unfolded acks_inv_def]
  have p: "parents_ok ?w (ar_live r)" using I by blast
  have o: "owed w' (m # ar_live r) hs
      = add_mset HRelease (if acking then {#HOnAck src m#} else {#}) + owed ?w (ar_live r) hs" for hs
    unfolding owed_live_Cons ackm using owed_new_msg [OF p msgs cells, of hs] by simp
  have "parents_ok w' (m # ar_live r)"
    unfolding m using parents_ok_new [OF p msgs cells nxt] by simp
  moreover have "ack_ok w' (m # ar_live r) (ar_tokens r) []"
    using I by (simp add: ack_ok_def o open_cell_def cells)
  ultimately show ?thesis
    using I by (simp add: acks_inv_def source_acks_def releases_def o onacks rel infl is_onack_def
        expected_acks_snoc algebra_simps)
qed

lemma as_ack_inv:
  assumes inv: "acks_inv i0 r" and l: "ar_live r = us @ m # vs"
  shows "acks_inv i0 (r\<lparr>ar_world := Ack m err (ar_world r), ar_live := us @ vs\<rparr>)"
proof -
  note I = inv [unfolded acks_inv_def l live_perm]
  have "ack_ok (ar_world r) (m # us @ vs) (ar_tokens r) []" using I by blast
  note A = Ack_live [OF this, of err]
  have p: "parents_ok (ar_world r) (m # us @ vs)" using I by blast
  have "parents_ok (Ack m err (ar_world r)) (us @ vs)"
    by (rule parents_ok_Ack [OF p A(5,6)]) auto
  then show ?thesis using I A(1-4) by (simp add: acks_inv_def)
qed

lemma as_fan_inv:
  assumes inv: "acks_inv i0 r" and l: "ar_live r = us @ m # vs" and n: "0 < n"
    and c: "new_cell (int n) m (ar_world r) = (c, w')"
  shows "acks_inv i0 (r\<lparr>ar_world := w', ar_live := us @ vs, ar_tokens := replicate n c @ ar_tokens r\<rparr>)"
proof -
  let ?w = "ar_world r"
  let ?ce = "\<lparr>ce_pending = int n, ce_errStored = False, ce_firstErr = None, ce_parent = m\<rparr>"
  have cc: "c = length (wd_cells ?w)" and w': "w' = ?w\<lparr>wd_cells := wd_cells ?w @ [?ce]\<rparr>"
    using c by (auto simp: new_cell_def)
  note I = inv [unfolded acks_inv_def l live_perm]
  have ok: "ack_ok ?w (m # us @ vs) (ar_tokens r) []" and p: "parents_ok ?w (m # us @ vs)"
    using I by blast+
  have o: "owed w' (us @ vs) hs = owed ?w (m # us @ vs) hs" for hs
    using n by (simp add: owed_def held_def w')
  have zero: "count (owed ?w (m # us @ vs) []) (HChild c) = 0 \<and> count (mset (ar_tokens r)) c = 0"
  proof -
    have "int (count (owed ?w (m # us @ vs) []) (HChild c) + count (mset (ar_tokens r)) c) = 0"
      using ok unfolding ack_ok_def by (metis cc less_irrefl open_cell_def)
    then show ?thesis by (simp only: of_nat_eq_0_iff add_is_0)
  qed
  have "ack_ok w' (us @ vs) (replicate n c @ ar_tokens r) []"
    unfolding ack_ok_def o
  proof (intro conjI allI ballI)
    fix d
    show "int (count (owed ?w (m # us @ vs) []) (HChild d) + count (mset (replicate n c @ ar_tokens r)) d)
        = (if open_cell w' d then ce_pending (wd_cells w' ! d) else 0)"
    proof (cases "d = c")
      case True
      then show ?thesis using zero n by (simp add: open_cell_def w' cc)
    next
      case False
      have "open_cell w' d = open_cell ?w d" "d < length (wd_cells ?w) \<Longrightarrow> wd_cells w' ! d = wd_cells ?w ! d"
        using False by (auto simp: open_cell_def w' cc nth_append)
      then show ?thesis using ok False by (auto simp: ack_ok_def open_cell_def)
    qed
  next
    fix ce assume "ce \<in> set (wd_cells w')"
    then show "0 \<le> ce_pending ce" using ok by (auto simp: ack_ok_def w')
  qed
  moreover have "parents_ok w' (us @ vs)"
  proof -
    have "d < length (wd_cells ?w)" if "HChild d \<in> set (ms_ackFn (wd_msgs ?w m))" for d
    proof (rule ccontr)
      assume "\<not> d < length (wd_cells ?w)"
      then have "int (count (owed ?w (m # us @ vs) []) (HChild d) + count (mset (ar_tokens r)) d) = 0"
        using ok unfolding ack_ok_def open_cell_def by metis
      moreover have "0 < count (owed ?w (m # us @ vs) []) (HChild d)"
        using that by (simp add: owed_live_Cons)
      ultimately show False by simp
    qed
    moreover have "set (held w' (us @ vs)) = set (held ?w (m # us @ vs))"
      using n by (auto simp: held_def w')
    moreover have "open_cell w' d \<Longrightarrow> d = c \<or> open_cell ?w d" for d
      by (auto simp: open_cell_def w' cc nth_append split: if_splits)
    ultimately show ?thesis using p by (fastforce simp: parents_ok_def w' nth_append cc open_cell_def)
  qed
  ultimately show ?thesis
    using I by (simp add: acks_inv_def source_acks_def releases_def o) (simp add: w')
qed

text \<open>A branch that is created spends the token of its cell.\<close>

lemma ack_ok_spend:
  assumes ok: "ack_ok w live tokens []" and t: "tokens = us @ c # vs"
    and o: "\<And>hs. owed w' live' hs = add_mset (HChild c) (owed w live hs)" and cells: "wd_cells w' = wd_cells w"
  shows "ack_ok w' live' (us @ vs) []"
  unfolding ack_ok_def
proof (intro conjI allI ballI)
  fix d
  have "int (count (owed w live []) (HChild d) + count (mset tokens) d)
      = (if open_cell w d then ce_pending (wd_cells w ! d) else 0)"
    using ok unfolding ack_ok_def by blast
  moreover have "count (owed w' live' []) (HChild d) + count (mset (us @ vs)) d
      = count (owed w live []) (HChild d) + count (mset tokens) d"
    unfolding o t by simp
  ultimately show "int (count (owed w' live' []) (HChild d) + count (mset (us @ vs)) d)
      = (if open_cell w' d then ce_pending (wd_cells w' ! d) else 0)"
    by (simp only: cells open_cell_cong [OF cells])
next
  fix ce assume "ce \<in> set (wd_cells w')"
  then show "0 \<le> ce_pending ce" using ok by (auto simp: ack_ok_def cells)
qed

lemma as_child_inv:
  assumes inv: "acks_inv i0 r" and t: "ar_tokens r = us @ c # vs"
    and f: "fan_child c parent (ar_world r) = (m, w')"
  shows "acks_inv i0 (r\<lparr>ar_world := w', ar_live := m # ar_live r, ar_tokens := us @ vs\<rparr>)"
proof -
  let ?w = "ar_world r"
  have m: "m = wd_next ?w" and msgs: "\<And>k. k < wd_next ?w \<Longrightarrow> wd_msgs w' k = wd_msgs ?w k"
    and ackm: "ms_ackFn (wd_msgs w' m) = [HChild c]"
    and cells: "wd_cells w' = wd_cells ?w" and nxt: "wd_next w' = Suc (wd_next ?w)"
    and rest: "wd_inflight w' = wd_inflight ?w" "wd_onacks w' = wd_onacks ?w" "wd_released w' = wd_released ?w"
    using f by (auto simp: fan_child_def new_msg_def SetAckFn_def)
  note I = inv [unfolded acks_inv_def]
  have p: "parents_ok ?w (ar_live r)" using I by blast
  have o: "owed w' (m # ar_live r) hs = add_mset (HChild c) (owed ?w (ar_live r) hs)" for hs
    unfolding owed_live_Cons ackm using owed_new_msg [OF p msgs cells, of hs] by simp
  have "parents_ok w' (m # ar_live r)"
    unfolding m using parents_ok_new [OF p msgs cells nxt] by simp
  moreover have "ack_ok w' (m # ar_live r) (us @ vs) []"
    by (rule ack_ok_spend [OF _ t o cells]) (use I in blast)
  ultimately show ?thesis
    using I by (simp add: acks_inv_def source_acks_def releases_def o rest is_onack_def)
qed

lemma as_adopt_inv:
  assumes inv: "acks_inv i0 r" and t: "ar_tokens r = us @ c # vs"
    and m: "m < wd_next (ar_world r)" "m \<notin> set (held (ar_world r) (ar_live r))"
  shows "acks_inv i0 (r\<lparr>ar_world := upd_msg m (SetAckFn [HChild c]) (ar_world r), ar_live := m # ar_live r,
    ar_tokens := us @ vs\<rparr>)"
proof -
  let ?w = "ar_world r" and ?w' = "upd_msg m (SetAckFn [HChild c]) (ar_world r)"
  have cells: "wd_cells ?w' = wd_cells ?w" and ackm: "ms_ackFn (wd_msgs ?w' m) = [HChild c]"
    and rest: "wd_inflight ?w' = wd_inflight ?w" "wd_onacks ?w' = wd_onacks ?w"
      "wd_released ?w' = wd_released ?w" "wd_next ?w' = wd_next ?w"
    by (simp_all add: upd_msg_def SetAckFn_def)
  have msgs: "wd_msgs ?w' k = wd_msgs ?w k" if "k \<in> set (held ?w (ar_live r))" for k
    using that m(2) by (auto simp: upd_msg_def)
  note I = inv [unfolded acks_inv_def]
  have p: "parents_ok ?w (ar_live r)" using I by blast
  have o: "owed ?w' (m # ar_live r) hs = add_mset (HChild c) (owed ?w (ar_live r) hs)" for hs
    unfolding owed_live_Cons ackm using owed_cong [OF cells, of "ar_live r" hs] msgs by simp
  have "parents_ok ?w' (m # ar_live r)"
    unfolding parents_ok_def
  proof (intro conjI ballI allI impI)
    fix k assume "k \<in> set (held ?w' (m # ar_live r))"
    then have "k = m \<or> k \<in> set (held ?w (ar_live r))" by (auto simp: held_def cells)
    then show "k < wd_next ?w'" using p m(1) by (auto simp: parents_ok_def rest)
  next
    fix d e assume d: "open_cell ?w' d" "HChild e \<in> set (ms_ackFn (wd_msgs ?w' (ce_parent (wd_cells ?w' ! d))))"
    then have o: "open_cell ?w d" using open_cell_cong [OF cells] by simp
    then have "ce_parent (wd_cells ?w ! d) \<in> set (held ?w (ar_live r))" by (auto simp: set_held)
    from msgs [OF this] show "e < d" using p d(2) o by (simp add: parents_ok_def cells)
  qed
  moreover have "ack_ok ?w' (m # ar_live r) (us @ vs) []"
    by (rule ack_ok_spend [OF _ t o cells]) (use I in blast)
  ultimately show ?thesis
    using I by (simp add: acks_inv_def source_acks_def releases_def o rest is_onack_def)
qed

lemma as_data_inv:
  assumes inv: "acks_inv i0 r" and d: "data_step (ar_world r) w'"
  shows "acks_inv i0 (r\<lparr>ar_world := w'\<rparr>)"
proof -
  let ?w = "ar_world r"
  have cells: "wd_cells w' = wd_cells ?w" and rest: "wd_inflight w' = wd_inflight ?w" "wd_onacks w' = wd_onacks ?w"
      "wd_released w' = wd_released ?w" and nxt: "wd_next ?w \<le> wd_next w'"
    and fn: "\<And>k. k < wd_next ?w \<Longrightarrow> ms_ackFn (wd_msgs w' k) = ms_ackFn (wd_msgs ?w k)"
    using d by (simp_all add: data_step_def)
  note I = inv [unfolded acks_inv_def]
  have p: "parents_ok ?w (ar_live r)" using I by blast
  have fnh: "ms_ackFn (wd_msgs w' k) = ms_ackFn (wd_msgs ?w k)" if "k \<in> set (held ?w (ar_live r))" for k
    using p that by (intro fn) (simp add: parents_ok_def)
  have o: "owed w' (ar_live r) hs = owed ?w (ar_live r) hs" for hs by (rule owed_cong [OF cells fnh])
  have "parents_ok w' (ar_live r)"
    unfolding parents_ok_def
  proof (intro conjI ballI allI impI)
    fix k assume "k \<in> set (held w' (ar_live r))"
    then show "k < wd_next w'" using p nxt by (auto simp: parents_ok_def held_cong [OF cells])
  next
    fix c e assume c: "open_cell w' c" "HChild e \<in> set (ms_ackFn (wd_msgs w' (ce_parent (wd_cells w' ! c))))"
    then have oc: "open_cell ?w c" using open_cell_cong [OF cells] by simp
    then have "ce_parent (wd_cells ?w ! c) \<in> set (held ?w (ar_live r))" by (auto simp: set_held)
    from fnh [OF this] show "e < c" using p c(2) oc by (simp add: parents_ok_def cells)
  qed
  moreover have "ack_ok w' (ar_live r) (ar_tokens r) []"
    using I by (simp add: ack_ok_def o open_cell_cong [OF cells]) (simp add: cells)
  ultimately show ?thesis
    using I by (simp add: acks_inv_def source_acks_def releases_def o rest)
qed

lemma as_own_inv:
  assumes inv: "acks_inv i0 r" and m: "m < wd_next (ar_world r)" "ms_ackFn (wd_msgs (ar_world r) m) = []"
  shows "acks_inv i0 (r\<lparr>ar_live := m # ar_live r\<rparr>)"
proof -
  have o: "owed (ar_world r) (m # ar_live r) hs = owed (ar_world r) (ar_live r) hs" for hs
    by (simp add: owed_live_Cons m(2))
  have "parents_ok (ar_world r) (m # ar_live r)"
    using inv m by (auto simp: acks_inv_def parents_ok_def held_def)
  then show ?thesis
    using inv by (simp add: acks_inv_def ack_ok_def source_acks_def releases_def o)
qed

lemma acks_inv_step: "ack_step r r' \<Longrightarrow> acks_inv i0 r \<Longrightarrow> acks_inv i0 r'"
  by (induction rule: ack_step.induct)
    (auto intro: as_emit_inv as_ack_inv as_fan_inv as_child_inv as_adopt_inv as_data_inv as_own_inv)

lemma acks_inv_reach: "ack_reach r0 r \<Longrightarrow> acks_inv i0 r0 \<Longrightarrow> acks_inv i0 r"
  by (rule acking.invariant) (auto intro: acks_inv_step)

text \<open>With no live message and no branch to create, no cell is open.\<close>

lemma quiet_no_open:
  assumes "ack_ok w [] [] []" and "parents_ok w []"
  shows "\<not> open_cell w c"
proof
  assume "open_cell w c"
  then have "finite {c. open_cell w c}" "{c. open_cell w c} \<noteq> {}"
    by (auto intro: finite_subset [of _ "{..<length (wd_cells w)}"] simp: open_cell_def)
  define t where "t = Max {c. open_cell w c}"
  have t: "open_cell w t" and top: "\<And>d. open_cell w d \<Longrightarrow> d \<le> t"
    using Max_in [OF \<open>finite _\<close> \<open>_ \<noteq> {}\<close>] Max_ge [OF \<open>finite _\<close>] by (auto simp: t_def)
  have "0 < ce_pending (wd_cells w ! t)" using t by (simp add: open_cell_def)
  then have "int (count (owed w [] []) (HChild t)) = ce_pending (wd_cells w ! t)"
    using assms(1) t by (auto simp: ack_ok_def dest: spec [of _ t])
  with \<open>0 < ce_pending (wd_cells w ! t)\<close> have "HChild t \<in># owed w [] []"
    by (metis count_greater_zero_iff of_nat_0_less_iff)
  then obtain ce where ce: "ce \<in> set (wd_cells w)" "0 < ce_pending ce"
    "HChild t \<in> set (ms_ackFn (wd_msgs w (ce_parent ce)))"
    by (auto simp: owed_def held_def)
  then obtain d where d: "d < length (wd_cells w)" "wd_cells w ! d = ce" by (auto simp: in_set_conv_nth)
  have od: "open_cell w d" using d ce(2) by (simp add: open_cell_def)
  then have "t < d" using assms(2) ce(3) d by (auto simp: parents_ok_def)
  moreover have "open_cell w d" by (rule od)
  ultimately show False using top by fastforce
qed

definition world_start :: "world \<Rightarrow> bool" where
  "world_start w \<longleftrightarrow> wd_cells w = [] \<and> wd_onacks w = [] \<and> wd_released w = []"

definition ack_start :: "world \<Rightarrow> ack_run" where
  "ack_start w = \<lparr>ar_world = w, ar_live = [], ar_tokens = [], ar_sources = []\<rparr>"

lemma acks_inv_start: "world_start w \<Longrightarrow> acks_inv (wd_inflight w) (ack_start w)"
  by (simp add: acks_inv_def ack_start_def world_start_def ack_ok_def parents_ok_def source_acks_def expected_acks_def
      releases_def owed_def held_def open_cell_def)

text \<open>
  No message is acknowledged to its source twice, and none is forgotten. In every state the
  engine reaches by emitting source messages, fanning messages out, creating branches and
  acknowledging messages it owns, in any order and with any errors, each source message has been
  acknowledged at most once, and the inflight counter is the number of source messages that are
  not yet acknowledged (modulo \<open>2 ^ 32\<close>).
\<close>

theorem acks_at_most_once:
  assumes "world_start w0" and "ack_reach (ack_start w0) r"
  shows "image_mset (\<lambda>(src, m, e). HOnAck src m) (mset (wd_onacks (ar_world r)))
      \<subseteq># expected_acks (ar_sources r)
    \<and> (\<exists>n. wd_inflight (ar_world r) = wd_inflight w0 + of_nat n
         \<and> n + length (wd_released (ar_world r)) = length (ar_sources r))"
proof -
  have I: "acks_inv (wd_inflight w0) r"
    using acks_inv_reach [OF assms(2) acks_inv_start [OF assms(1)]] .
  let ?n = "count (owed (ar_world r) (ar_live r) []) HRelease"
  have rel: "length (wd_released (ar_world r)) + ?n = length (ar_sources r)"
    using I by (simp add: acks_inv_def releases_def)
  have "wd_inflight (ar_world r) + of_nat (length (wd_released (ar_world r)))
      = wd_inflight w0 + of_nat (length (wd_released (ar_world r)) + ?n)"
    unfolding rel using I by (simp add: acks_inv_def)
  then have "wd_inflight (ar_world r) = wd_inflight w0 + of_nat ?n" by (simp add: algebra_simps)
  moreover have "image_mset (\<lambda>(src, m, e). HOnAck src m) (mset (wd_onacks (ar_world r)))
      \<subseteq># expected_acks (ar_sources r)"
    using I unfolding acks_inv_def source_acks_def by (metis mset_subset_eq_add_left)
  ultimately show ?thesis using rel by (metis add.commute)
qed

text \<open>
  When no message is owned by anybody and no branch is left to create, every source message
  has been acknowledged exactly once and every inflight slot has been released: no fan-out can
  keep a message back.
\<close>

theorem acks_exactly_once:
  assumes "world_start w0" and "ack_reach (ack_start w0) r" and "ar_live r = []" and "ar_tokens r = []"
  shows "image_mset (\<lambda>(src, m, e). HOnAck src m) (mset (wd_onacks (ar_world r)))
      = expected_acks (ar_sources r)
    \<and> length (wd_released (ar_world r)) = length (ar_sources r)
    \<and> wd_inflight (ar_world r) = wd_inflight w0"
proof -
  have I: "acks_inv (wd_inflight w0) r"
    using acks_inv_reach [OF assms(2) acks_inv_start [OF assms(1)]] .
  have "\<not> open_cell (ar_world r) c" for c
    using I assms(3,4) by (intro quiet_no_open) (simp_all add: acks_inv_def)
  then have "filter (\<lambda>ce. 0 < ce_pending ce) (wd_cells (ar_world r)) = []"
    by (auto simp: filter_empty_conv open_cell_def in_set_conv_nth)
  then have "owed (ar_world r) [] [] = {#}" by (simp add: owed_def held_def)
  note owed0 = this
  have len: "length (wd_released (ar_world r)) = length (ar_sources r)"
    using I assms(3) by (simp add: acks_inv_def releases_def owed0)
  have "wd_inflight (ar_world r) + of_nat (length (wd_released (ar_world r)))
      = wd_inflight w0 + of_nat (length (ar_sources r))"
    using I unfolding acks_inv_def by blast
  then have "wd_inflight (ar_world r) = wd_inflight w0" by (simp only: len add_right_cancel)
  moreover have "source_acks (ar_world r) [] [] = expected_acks (ar_sources r)"
    using I assms(3) unfolding acks_inv_def by simp
  ultimately show ?thesis using len by (simp add: source_acks_def owed0)
qed


section \<open>Content and callbacks\<close>

lemma data_step_refl [simp]: "data_step w w"
  by (simp add: data_step_def)

lemma data_step_trans: "data_step u v \<Longrightarrow> data_step v w \<Longrightarrow> data_step u w"
  by (auto simp: data_step_def)

lemma data_step_upd: "(\<And>x. ms_ackFn (f x) = ms_ackFn x \<and> ms_ID (f x) = ms_ID x) \<Longrightarrow> data_step w (upd_msg m f w)"
  by (auto simp: data_step_def upd_msg_def)

lemma data_step_new_msg: "new_msg msg w = (m, w') \<Longrightarrow> data_step w w'"
  by (auto simp: new_msg_def data_step_def)

lemma run_acks_msgs: "wd_msgs (run_acks hs w) = wd_msgs w \<and> wd_next (run_acks hs w) = wd_next w"
proof (induction hs w rule: run_acks.induct)
  case (2 err hs w)
  then show ?case by (simp add: releaseInflight_def)
next
  case (4 c err hs w)
  have "wd_msgs (snd (child_done c err w)) = wd_msgs w \<and> wd_next (snd (child_done c err w)) = wd_next w"
    by (simp add: child_done_def Let_def)
  then show ?case using 4 by (auto split: prod.splits option.splits)
qed simp_all

lemma Ack_msgs [simp]: "wd_msgs (Ack m err w) = wd_msgs w" "wd_next (Ack m err w) = wd_next w"
  by (simp_all add: Ack_def run_acks_msgs)

section \<open>Witnesses\<close>

text \<open>One message over a fan-out of two, of which the first branch fails.\<close>

definition demo_world :: world where
  "demo_world = \<lparr>wd_msgs = (\<lambda>_. message_New '''' None), wd_next = 0, wd_cells = [], wd_inflight = 0,
     wd_onacks = [], wd_released = [], wd_heap = \<lparr>hp_objs = (\<lambda>_. None), hp_next = 0\<rparr>\<rparr>"

definition run_emit :: "string \<Rightarrow> message \<Rightarrow> ack_run \<Rightarrow> ack_run" where
  "run_emit src msg r =
     (case emit_source src True msg (ar_world r) of (m, w) \<Rightarrow>
        r\<lparr>ar_world := w, ar_live := m # ar_live r, ar_sources := ar_sources r @ [(src, m, True)]\<rparr>)"

definition run_fan :: "nat \<Rightarrow> ack_run \<Rightarrow> ack_run" where
  "run_fan n r =
     (case new_cell (int n) (hd (ar_live r)) (ar_world r) of (c, w) \<Rightarrow>
        r\<lparr>ar_world := w, ar_live := tl (ar_live r), ar_tokens := replicate n c @ ar_tokens r\<rparr>)"

definition run_child :: "ack_run \<Rightarrow> ack_run" where
  "run_child r =
     (case fan_child (hd (ar_tokens r)) (ce_parent (wd_cells (ar_world r) ! hd (ar_tokens r))) (ar_world r) of
        (m, w) \<Rightarrow> r\<lparr>ar_world := w, ar_live := m # ar_live r, ar_tokens := tl (ar_tokens r)\<rparr>)"

definition run_ack :: "goerr option \<Rightarrow> ack_run \<Rightarrow> ack_run" where
  "run_ack err r = r\<lparr>ar_world := Ack (hd (ar_live r)) err (ar_world r), ar_live := tl (ar_live r)\<rparr>"

lemma run_steps:
  "ack_step r (run_emit src msg r)"
  "ar_live r \<noteq> [] \<Longrightarrow> 0 < n \<Longrightarrow> ack_step r (run_fan n r)"
  "ar_tokens r \<noteq> [] \<Longrightarrow> ack_step r (run_child r)"
  "ar_live r \<noteq> [] \<Longrightarrow> ack_step r (run_ack err r)"
proof -
  show "ack_step r (run_emit src msg r)"
    by (cases "emit_source src True msg (ar_world r)") (simp add: run_emit_def as_emit)
  show "ack_step r (run_fan n r)" if "ar_live r \<noteq> []" "0 < n"
  proof -
    have "ar_live r = [] @ hd (ar_live r) # tl (ar_live r)" using that by simp
    from as_fan [OF this that(2)] show ?thesis
      by (cases "new_cell (int n) (hd (ar_live r)) (ar_world r)") (simp add: run_fan_def)
  qed
  show "ack_step r (run_child r)" if "ar_tokens r \<noteq> []"
  proof -
    have "ar_tokens r = [] @ hd (ar_tokens r) # tl (ar_tokens r)" using that by simp
    from as_child [OF this] show ?thesis
      by (cases "fan_child (hd (ar_tokens r)) (ce_parent (wd_cells (ar_world r) ! hd (ar_tokens r))) (ar_world r)")
        (simp add: run_child_def)
  qed
  show "ack_step r (run_ack err r)" if "ar_live r \<noteq> []"
  proof -
    have "ar_live r = [] @ hd (ar_live r) # tl (ar_live r)" using that by simp
    from as_ack [OF this] show ?thesis by (simp add: run_ack_def)
  qed
qed

definition demo_failed :: goerr where "demo_failed = Err ''sink'' []"

definition demo_run :: ack_run where
  "demo_run = run_ack (Some demo_failed) (run_child (run_child (run_fan 2
     (run_emit ''kafka'' (message_New ''payload'' None) (ack_start demo_world)))))"

lemmas run_defs = run_emit_def run_fan_def run_child_def run_ack_def emit_source_def new_msg_def
  begin_lifecycle_def upd_msg_def new_cell_def fan_child_def SetAckFn_def WrapAckFn_def Ack_def
  ShallowCopy_def message_New_def child_done_def releaseInflight_def ack_start_def

lemma demo_run_fields:
  "ar_live demo_run = [1]" "ar_tokens demo_run = []" "ar_sources demo_run = [(''kafka'', 0, True)]"
  "wd_onacks (ar_world demo_run) = []" "wd_onacks (ar_world (run_ack None demo_run)) = [(''kafka'', 0, Some demo_failed)]"
  by (simp_all add: demo_run_def demo_world_def run_defs eval_nat_numeral)

lemma demo_reach: "ack_reach (ack_start demo_world) demo_run"
  unfolding demo_run_def
  by (intro ar_step [OF _ run_steps(1)] ar_step [OF _ run_steps(2)] ar_step [OF _ run_steps(3)]
      ar_step [OF _ run_steps(4)] ar_refl) (simp_all add: run_defs demo_world_def eval_nat_numeral)

lemma demo_reach_end: "ack_reach (ack_start demo_world) (run_ack None demo_run)"
  by (rule ar_step [OF demo_reach run_steps(4)]) (simp add: demo_run_fields)

lemma demo_world_start: "world_start demo_world"
  by (simp add: world_start_def demo_world_def)

lemma acks_at_most_once_witness:
  "image_mset (\<lambda>(src, m, e). HOnAck src m) (mset (wd_onacks (ar_world demo_run)))
      \<subseteq># expected_acks (ar_sources demo_run)"
  using acks_at_most_once [OF demo_world_start demo_reach] by blast

lemma acks_exactly_once_witness:
  "wd_onacks (ar_world (run_ack None demo_run)) = [(''kafka'', 0, Some demo_failed)]
   \<and> wd_inflight (ar_world (run_ack None demo_run)) = 0"
proof -
  have "wd_inflight demo_world = 0" by (simp add: demo_world_def)
  then show ?thesis
    using acks_exactly_once [OF demo_world_start demo_reach_end] demo_run_fields
    by (simp add: run_ack_def)
qed

end
