(* ===== verification/Inflight.thy ===== *)
theory Inflight
  imports Ack
begin

text \<open>
  \<^verbatim>\<open>internal/engine/inflight.go\<close>: the limit on the messages in flight. Source goroutines
  acquire a slot with a load and a compare-and-swap on one 32-bit counter; every step of a
  goroutine on that counter is atomic, and the steps of different goroutines interleave.
\<close>

section \<open>The goroutines that acquire a slot\<close>

text \<open>
  Where a goroutine is in \<^verbatim>\<open>acquireInflight\<close> or after it: before the load, between the load
  and the compare-and-swap with the value it loaded, in the \<^verbatim>\<open>select\<close>, holding its slot,
  returned with the error of the context, or past the release.
\<close>

datatype acquirer = AcqLoad | AcqSwap "32 word" | AcqWait | AcqHolds | AcqCancelled | AcqReleased

record inflight_state =
  in_count :: "32 word"
  in_threads :: "acquirer list"

text \<open>The test \<^verbatim>\<open>max <= 0 || cur < int32(max)\<close>: the limit is cut to 32 bits.\<close>

definition may_acquire :: "int \<Rightarrow> 32 word \<Rightarrow> bool" where
  "may_acquire lim cur \<longleftrightarrow> lim \<le> 0 \<or> sint cur < sint (word_of_int lim :: 32 word)"

text \<open>
  One atomic step of goroutine state \<open>a\<close> on counter \<open>n\<close>: the possible new states and counters.
  The flag says whether the context is done.
\<close>

definition acquire_step :: "int \<Rightarrow> bool \<Rightarrow> acquirer \<Rightarrow> 32 word \<Rightarrow> (acquirer \<times> 32 word) list" where
  "acquire_step lim ctxDone a n =
     (case a of
        AcqLoad \<Rightarrow> [(if may_acquire lim n then AcqSwap n else AcqWait, n)]
      | AcqSwap cur \<Rightarrow> [if n = cur then (AcqHolds, n + 1) else (AcqLoad, n)]
      | AcqWait \<Rightarrow> (AcqLoad, n) # (if ctxDone then [(AcqCancelled, n)] else [])
      | AcqHolds \<Rightarrow> [(AcqReleased, n - 1)]
      | AcqCancelled \<Rightarrow> []
      | AcqReleased \<Rightarrow> [])"

inductive inflight_step :: "int \<Rightarrow> inflight_state \<Rightarrow> inflight_state \<Rightarrow> bool" for lim where
  thread_step: "i < length (in_threads s) \<Longrightarrow>
     (a', n') \<in> set (acquire_step lim ctxDone (in_threads s ! i) (in_count s)) \<Longrightarrow>
     inflight_step lim s (s\<lparr>in_count := n', in_threads := (in_threads s)[i := a']\<rparr>)"

inductive inflight_reach :: "int \<Rightarrow> inflight_state \<Rightarrow> inflight_state \<Rightarrow> bool" for lim s0 where
  inflight_refl: "inflight_reach lim s0 s0"
| inflight_trans: "inflight_reach lim s0 s \<Longrightarrow> inflight_step lim s s' \<Longrightarrow> inflight_reach lim s0 s'"

interpretation slots: transition_system "inflight_step lim" "inflight_reach lim" for lim
  by unfold_locales (rule inflight_refl, erule (1) inflight_trans, erule inflight_reach.induct, assumption, blast)

inductive_cases inflight_stepE: "inflight_step lim s s'"

definition inflight_start :: "nat \<Rightarrow> inflight_state" where
  "inflight_start k = \<lparr>in_count = 0, in_threads = replicate k AcqLoad\<rparr>"

definition holders :: "inflight_state \<Rightarrow> nat" where
  "holders s = length (filter (\<lambda>a. a = AcqHolds) (in_threads s))"

section \<open>The limit\<close>

lemma length_filter_update:
  "i < length xs \<Longrightarrow>
     length (filter P (xs[i := y])) + (if P (xs ! i) then 1 else 0) = length (filter P xs) + (if P y then 1 else 0)"
proof (induction xs arbitrary: i)
  case (Cons x xs)
  then show ?case by (cases i) auto
qed simp

text \<open>The counter counts the holders, and a goroutine about to swap loaded a value below the limit.\<close>

definition limit_inv :: "int \<Rightarrow> inflight_state \<Rightarrow> bool" where
  "limit_inv lim s \<longleftrightarrow> in_count s = of_nat (holders s) \<and> int (holders s) \<le> lim \<and>
     (\<forall>cur. AcqSwap cur \<in> set (in_threads s) \<longrightarrow> sint cur < lim)"

lemma sint_small: "0 \<le> i \<Longrightarrow> i < 2 ^ 31 \<Longrightarrow> sint (word_of_int i :: 32 word) = i"
  by (simp add: sint_uint uint_word_of_int_eq signed_take_bit_int_eq_self take_bit_int_eq_self)

lemma limit_inv_step:
  assumes lim: "0 < lim" "lim < 2 ^ 31" and step: "inflight_step lim s s'" and inv: "limit_inv lim s"
  shows "limit_inv lim s'"
proof -
  obtain i a' n' ctxDone where 1: "s' = s\<lparr>in_count := n', in_threads := (in_threads s)[i := a']\<rparr>"
    "i < length (in_threads s)" "(a', n') \<in> set (acquire_step lim ctxDone (in_threads s ! i) (in_count s))"
    using step by (rule inflight_stepE)
  let ?a = "in_threads s ! i"
  have l: "length (filter (\<lambda>a. a = AcqHolds) ((in_threads s)[i := a'])) + (if ?a = AcqHolds then 1 else 0)
      = holders s + (if a' = AcqHolds then 1 else 0)"
    unfolding holders_def by (rule length_filter_update) (rule 1(2))
  have h: "holders s' + (if ?a = AcqHolds then 1 else 0) = holders s + (if a' = AcqHolds then 1 else 0)"
    using l by (simp add: 1(1) holders_def)
  have mem: "?a \<in> set (in_threads s)" using 1(2) by simp
  have cnt: "sint (in_count s) = int (holders s)"
    using inv lim sint_small [of "int (holders s)"] by (simp add: limit_inv_def)
  have may: "may_acquire lim cur \<longleftrightarrow> sint cur < lim" for cur
    using lim sint_small [of lim] by (simp add: may_acquire_def)
  have old: "sint cur < lim" if "AcqSwap cur \<in> set (in_threads s)" for cur
    using inv that by (simp add: limit_inv_def)
  have c': "in_count s' = n'" by (simp add: 1(1))
  have sub: "set (in_threads s') \<subseteq> insert a' (set (in_threads s))"
    unfolding 1(1) by (simp add: set_update_subset_insert)
  have swap: "sint cur < lim" if "AcqSwap cur \<in> set (in_threads s')" for cur
  proof (cases "AcqSwap cur = a'")
    case True
    then have "?a = AcqLoad \<and> cur = in_count s \<and> may_acquire lim cur"
      using 1(3) by (auto simp: acquire_step_def split: acquirer.splits if_splits)
    then show ?thesis using may by blast
  next
    case False
    then show ?thesis using sub that old by blast
  qed
  show ?thesis
  proof (cases "?a")
    case (AcqSwap cur)
    then have "(a' = AcqHolds \<and> in_count s = cur \<and> n' = in_count s + 1) \<or> (a' = AcqLoad \<and> n' = in_count s)"
      using 1(3) by (auto simp: acquire_step_def split: if_splits)
    then show ?thesis
    proof
      assume A: "a' = AcqHolds \<and> in_count s = cur \<and> n' = in_count s + 1"
      then have "int (holders s) < lim" using old [of cur] mem AcqSwap cnt by simp
      moreover have "holders s' = Suc (holders s)" using h A AcqSwap by simp
      ultimately show ?thesis using inv A swap by (simp add: limit_inv_def c')
    next
      assume "a' = AcqLoad \<and> n' = in_count s"
      then show ?thesis using h inv swap AcqSwap by (simp add: limit_inv_def c')
    qed
  next
    case AcqHolds
    then have A: "a' = AcqReleased" "n' = in_count s - 1" using 1(3) by (simp_all add: acquire_step_def)
    then have hs: "holders s = Suc (holders s')" using h AcqHolds by simp
    show ?thesis using inv A swap unfolding limit_inv_def hs by (simp add: c')
  next
    case AcqLoad
    then have "n' = in_count s" "a' \<noteq> AcqHolds" using 1(3) by (auto simp: acquire_step_def split: if_splits)
    then show ?thesis using h inv swap AcqLoad by (simp add: limit_inv_def c')
  next
    case AcqWait
    then have "n' = in_count s" "a' \<noteq> AcqHolds" using 1(3) by (auto simp: acquire_step_def split: if_splits)
    then show ?thesis using h inv swap AcqWait by (simp add: limit_inv_def c')
  next
    case AcqCancelled
    then show ?thesis using 1(3) by (simp add: acquire_step_def)
  next
    case AcqReleased
    then show ?thesis using 1(3) by (simp add: acquire_step_def)
  qed
qed

lemma limit_inv_reach:
  "inflight_reach lim s0 s \<Longrightarrow> 0 < lim \<Longrightarrow> lim < 2 ^ 31 \<Longrightarrow> limit_inv lim s0 \<Longrightarrow> limit_inv lim s"
  by (rule slots.invariant) (auto intro: limit_inv_step)

lemma holders_start: "holders (inflight_start k) = 0"
  by (simp add: holders_def inflight_start_def filter_empty_conv)

text \<open>
  C16: the limit on messages in flight holds under every interleaving of any number of sources:
  with a limit between 1 and \<open>2 ^ 31 - 1\<close> there are never more slots held than the limit, and
  the counter is exactly the number of slots held. Each holder releases its slot once.
\<close>

theorem inflight_limit:
  assumes "0 < lim" and "lim < 2 ^ 31" and "inflight_reach lim (inflight_start k) s"
  shows "int (holders s) \<le> lim \<and> in_count s = of_nat (holders s)"
proof -
  have "limit_inv lim (inflight_start k)"
    using assms(1) by (simp add: limit_inv_def holders_start) (simp add: inflight_start_def)
  from limit_inv_reach [OF assms(3,1,2) this] show ?thesis by (simp add: limit_inv_def)
qed

text \<open>
  A limit is cut to 32 bits, so one whose low 32 bits read as a number below 1, such as
  \<open>2 ^ 31\<close>, admits no message at all: no source ever gets a slot and the pipeline stands still.
\<close>

theorem inflight_limit_overflow:
  assumes "0 < lim" and "sint (word_of_int lim :: 32 word) \<le> 0"
    and "inflight_reach lim (inflight_start k) s"
  shows "holders s = 0"
proof -
  define ok where "ok t \<longleftrightarrow> in_count t = 0 \<and>
    (\<forall>a \<in> set (in_threads t). a \<in> {AcqLoad, AcqWait, AcqCancelled})" for t :: inflight_state
  have start: "ok (inflight_start k)" by (simp add: ok_def inflight_start_def)
  have "ok s"
    using assms(3) start
  proof (induction rule: inflight_reach.induct)
    case inflight_refl
    then show ?case .
  next
    case (inflight_trans t t')
    have ok: "ok t" using inflight_trans by blast
    obtain i a' n' ctxDone where 1: "t' = t\<lparr>in_count := n', in_threads := (in_threads t)[i := a']\<rparr>"
      "i < length (in_threads t)" "(a', n') \<in> set (acquire_step lim ctxDone (in_threads t ! i) (in_count t))"
      using inflight_trans.hyps(2) by (rule inflight_stepE)
    show ?case
    proof -
      have "in_threads t ! i \<in> {AcqLoad, AcqWait, AcqCancelled}" and n: "in_count t = 0"
        using ok 1(2) by (simp_all add: ok_def)
      moreover have "\<not> may_acquire lim 0" using assms(1,2) by (simp add: may_acquire_def)
      ultimately have "n' = 0" "a' \<in> {AcqLoad, AcqWait, AcqCancelled}"
        using 1(3) by (auto simp: acquire_step_def split: if_splits)
      moreover have "set ((in_threads t)[i := a']) \<subseteq> insert a' (set (in_threads t))"
        by (rule set_update_subset_insert)
      ultimately show ?thesis using ok unfolding ok_def 1(1) by auto
    qed
  qed
  then show ?thesis by (auto simp: ok_def holders_def filter_empty_conv)
qed

section \<open>Witnesses\<close>

text \<open>Two sources under a limit of one: both load, the first swaps, the second must load again.\<close>

definition one_slot :: inflight_state where
  "one_slot = \<lparr>in_count = 1, in_threads = [AcqHolds, AcqLoad]\<rparr>"

lemma one_slot_reach: "inflight_reach 1 (inflight_start 2) one_slot"
proof -
  have load: "may_acquire 1 0" by (simp add: may_acquire_def)
  have 1: "inflight_reach 1 (inflight_start 2) \<lparr>in_count = 0, in_threads = [AcqSwap 0, AcqLoad]\<rparr>"
    by (rule inflight_trans [OF inflight_refl])
      (use thread_step [of 0 "inflight_start 2" "AcqSwap 0" 0 1 False] load in
        \<open>simp add: inflight_start_def acquire_step_def numeral_2_eq_2\<close>)
  have 2: "inflight_reach 1 (inflight_start 2) \<lparr>in_count = 0, in_threads = [AcqSwap 0, AcqSwap 0]\<rparr>"
    by (rule inflight_trans [OF 1])
      (use thread_step [of 1 "\<lparr>in_count = 0, in_threads = [AcqSwap 0, AcqLoad]\<rparr>" "AcqSwap 0" 0 1 False] load in
        \<open>simp add: acquire_step_def\<close>)
  have 3: "inflight_reach 1 (inflight_start 2) \<lparr>in_count = 1, in_threads = [AcqHolds, AcqSwap 0]\<rparr>"
    by (rule inflight_trans [OF 2])
      (use thread_step [of 0 "\<lparr>in_count = 0, in_threads = [AcqSwap 0, AcqSwap 0]\<rparr>" AcqHolds 1 1 False] in
        \<open>simp add: acquire_step_def\<close>)
  show ?thesis
    by (rule inflight_trans [OF 3])
      (use thread_step [of 1 "\<lparr>in_count = 1, in_threads = [AcqHolds, AcqSwap 0]\<rparr>" AcqLoad 1 1 False] in
        \<open>simp add: acquire_step_def one_slot_def\<close>)
qed

theorem inflight_limit_witness: "int (holders one_slot) \<le> 1 \<and> holders one_slot = 1"
  using inflight_limit [OF _ _ one_slot_reach] by (simp add: one_slot_def holders_def)

theorem inflight_limit_overflow_witness:
  "holders \<lparr>in_count = 0, in_threads = [AcqWait]\<rparr> = 0"
proof -
  have "\<not> may_acquire (2 ^ 31) 0" by (simp add: may_acquire_def)
  then have "inflight_step (2 ^ 31) (inflight_start 1) \<lparr>in_count = 0, in_threads = [AcqWait]\<rparr>"
    using thread_step [of 0 "inflight_start 1" AcqWait 0 "2 ^ 31" False]
    by (simp add: inflight_start_def acquire_step_def)
  from inflight_limit_overflow [OF _ _ inflight_trans [OF inflight_refl this]] show ?thesis by simp
qed

end
