(* ===== verification/Json.thy ===== *)
theory Json
  imports Normalize GoTime
begin

text \<open>
  The part of Go's \<^verbatim>\<open>encoding/json\<close> that the write-ahead log and the JSON codec call:
  \<^verbatim>\<open>json.Marshal\<close> of a dynamic value and \<^verbatim>\<open>json.Unmarshal\<close> into
  \<^verbatim>\<open>any\<close> or a map. Text is a byte list; bytes from 128 on are taken as parts of valid
  UTF-8. Integers of at most 53 bits are computed here; the text of any other number goes through
  the arguments \<open>ff\<close> (formatting) and \<open>pf\<close> (parsing) of floats.
\<close>

section \<open>Marshal\<close>

definition u_escape :: "char \<Rightarrow> string" where
  "u_escape c = [CHR 0x5C, CHR ''u'', CHR ''0'', CHR ''0'',
     hex_digit (of_char c div 16), hex_digit (of_char c mod 16)]"

definition json_char :: "char \<Rightarrow> string" where
  "json_char c =
     (if c = CHR 0x22 \<or> c = CHR 0x5C then [CHR 0x5C, c]
      else if c = CHR 0x08 then [CHR 0x5C, CHR ''b'']
      else if c = CHR 0x0C then [CHR 0x5C, CHR ''f'']
      else if c = CHR 0x0A then [CHR 0x5C, CHR ''n'']
      else if c = CHR 0x0D then [CHR 0x5C, CHR ''r'']
      else if c = CHR 0x09 then [CHR 0x5C, CHR ''t'']
      else if of_char c < (32 :: nat) \<or> c = CHR ''<'' \<or> c = CHR ''>'' \<or> c = CHR ''&'' then u_escape c
      else [c])"

definition json_string :: "string \<Rightarrow> string" where
  "json_string s = CHR 0x22 # concat (map json_char s) @ [CHR 0x22]"

fun marshal :: "(gfloat \<Rightarrow> string) \<Rightarrow> gval \<Rightarrow> string" where
  "marshal ff GNil = ''null''"
| "marshal ff (GBool b) = (if b then ''true'' else ''false'')"
| "marshal ff (GInt i) = Itoa i"
| "marshal ff (GInt64 i) = Itoa i"
| "marshal ff (GFloat32 f) = ff f"
| "marshal ff (GFloat64 f) = ff f"
| "marshal ff (GStr s) = json_string s"
| "marshal ff (GStrs ss) = ''['' @ join_with '','' (map json_string ss) @ '']''"
| "marshal ff (GList vs) = ''['' @ join_with '','' (map (marshal ff) vs) @ '']''"
| "marshal ff (GMap m) =
     ''{'' @ join_with '','' (map (\<lambda>(k, s). json_string k @ '':'' @ s)
       (sort_key fst (map (\<lambda>(k, v). (k, marshal ff v)) m))) @ ''}''"

section \<open>Unmarshal\<close>

abbreviation json_err :: goerr where "json_err \<equiv> Err ''invalid JSON'' []"

fun skip_ws :: "string \<Rightarrow> string" where
  "skip_ws [] = []"
| "skip_ws (c # s) =
     (if c \<in> {CHR '' '', CHR 0x09, CHR 0x0A, CHR 0x0D} then skip_ws s else c # s)"

definition hex_value :: "char \<Rightarrow> nat option" where
  "hex_value c =
     (if CHR ''0'' \<le> c \<and> c \<le> CHR ''9'' then Some (of_char c - 48)
      else if CHR ''a'' \<le> c \<and> c \<le> CHR ''f'' then Some (of_char c - 87)
      else if CHR ''A'' \<le> c \<and> c \<le> CHR ''F'' then Some (of_char c - 55)
      else None)"

fun getu4 :: "string \<Rightarrow> (nat \<times> string) option" where
  "getu4 (a # b # c # d # s) =
     (case (hex_value a, hex_value b, hex_value c, hex_value d) of
        (Some w, Some x, Some y, Some z) \<Rightarrow> Some (4096 * w + 256 * x + 16 * y + z, s)
      | _ \<Rightarrow> None)"
| "getu4 s = None"

definition utf8 :: "nat \<Rightarrow> string" where
  "utf8 u =
     (if u < 128 then [char_of u]
      else if u < 2048 then [char_of (192 + u div 64), char_of (128 + u mod 64)]
      else if u < 65536 then
        [char_of (224 + u div 4096), char_of (128 + u div 64 mod 64), char_of (128 + u mod 64)]
      else
        [char_of (240 + u div 262144), char_of (128 + u div 4096 mod 64),
         char_of (128 + u div 64 mod 64), char_of (128 + u mod 64)])"

text \<open>A \<^verbatim>\<open>\u\<close> escape; a surrogate pair is one rune, a lone surrogate is U+FFFD.\<close>

definition unescape_u :: "string \<Rightarrow> (string \<times> string) option" where
  "unescape_u s =
     (case getu4 s of
        None \<Rightarrow> None
      | Some (u, r) \<Rightarrow>
          if 0xD800 \<le> u \<and> u < 0xE000 then
            (case (if u < 0xDC00 \<and> take 2 r = [CHR 0x5C, CHR ''u''] then getu4 (drop 2 r) else None) of
               Some (l, r') \<Rightarrow>
                 if 0xDC00 \<le> l \<and> l < 0xE000
                 then Some (utf8 (65536 + 1024 * (u - 0xD800) + (l - 0xDC00)), r')
                 else Some (utf8 0xFFFD, r)
             | None \<Rightarrow> Some (utf8 0xFFFD, r))
          else Some (utf8 u, r))"

definition unescape_json :: "char \<Rightarrow> char option" where
  "unescape_json e =
     (if e \<in> {CHR 0x22, CHR 0x5C, CHR ''/''} then Some e
      else if e = CHR ''b'' then Some (CHR 0x08)
      else if e = CHR ''f'' then Some (CHR 0x0C)
      else if e = CHR ''n'' then Some (CHR 0x0A)
      else if e = CHR ''r'' then Some (CHR 0x0D)
      else if e = CHR ''t'' then Some (CHR 0x09)
      else None)"

text \<open>One character of a string literal, as the bytes it stands for and the rest.\<close>

fun read_char :: "string \<Rightarrow> (string \<times> string) option" where
  "read_char [] = None"
| "read_char (c # s) =
     (if c = CHR 0x5C then
        (case s of
           [] \<Rightarrow> None
         | e # s' \<Rightarrow>
             if e = CHR ''u'' then unescape_u s'
             else (case unescape_json e of None \<Rightarrow> None | Some c' \<Rightarrow> Some ([c'], s')))
      else if of_char c < (32 :: nat) then None
      else Some ([c], s))"

text \<open>The rest of a string literal after its opening quote, with one unit of fuel per character.\<close>

fun parse_str :: "nat \<Rightarrow> string \<Rightarrow> (string \<times> string) res" where
  "parse_str 0 s = Inl json_err"
| "parse_str (Suc n) s =
     (if s \<noteq> [] \<and> hd s = CHR 0x22 then Inr ([], tl s)
      else case read_char s of
             None \<Rightarrow> Inl json_err
           | Some (cs, r) \<Rightarrow>
               (case parse_str n r of Inl e \<Rightarrow> Inl e | Inr (t, r') \<Rightarrow> Inr (cs @ t, r')))"

definition is_num_char :: "char \<Rightarrow> bool" where
  "is_num_char c \<longleftrightarrow> is_digit c \<or> c \<in> {CHR ''-'', CHR ''+'', CHR ''.'', CHR ''e'', CHR ''E''}"

definition int_of_text :: "string \<Rightarrow> int option" where
  "int_of_text t =
     (let i = (if t \<noteq> [] \<and> hd t = CHR ''-'' then - int (digits_val (tl t)) else int (digits_val t)) in
      if Itoa i = t \<and> \<bar>i\<bar> \<le> 2 ^ 53 then Some i else None)"

definition parse_number :: "(string \<Rightarrow> gfloat option) \<Rightarrow> string \<Rightarrow> (gval \<times> string) res" where
  "parse_number pf s =
     (let t = takeWhile is_num_char s; r = dropWhile is_num_char s in
      case int_of_text t of
        Some i \<Rightarrow> Inr (GFloat64 (Dyadic i 0), r)
      | None \<Rightarrow> (case pf t of Some f \<Rightarrow> Inr (GFloat64 f, r) | None \<Rightarrow> Inl json_err))"

definition expect :: "string \<Rightarrow> gval \<Rightarrow> string \<Rightarrow> (gval \<times> string) res" where
  "expect lit v s = (if HasPrefix s lit then Inr (v, drop (length lit) s) else Inl json_err)"

text \<open>
  The parser: a value, the rest of an array after \<^verbatim>\<open>[\<close> or a comma, and the rest of an
  object. A duplicate key replaces the earlier value. The first argument bounds the nesting and
  the number of elements; the length of the text is enough.
\<close>

fun parse_value :: "(string \<Rightarrow> gfloat option) \<Rightarrow> nat \<Rightarrow> string \<Rightarrow> (gval \<times> string) res"
and parse_elems ::
  "(string \<Rightarrow> gfloat option) \<Rightarrow> nat \<Rightarrow> gval list \<Rightarrow> string \<Rightarrow> (gval \<times> string) res"
and parse_members :: "(string \<Rightarrow> gfloat option) \<Rightarrow> nat \<Rightarrow> gmap \<Rightarrow> string \<Rightarrow> (gval \<times> string) res" where
  "parse_value pf 0 s = Inl json_err"
| "parse_value pf (Suc n) s0 =
     (let s = skip_ws s0 in
      case s of
        [] \<Rightarrow> Inl json_err
      | c # r \<Rightarrow>
          if c = CHR 0x22 then
            (case parse_str (length r) r of Inl e \<Rightarrow> Inl e | Inr (t, r') \<Rightarrow> Inr (GStr t, r'))
          else if c = CHR ''['' then
            (case skip_ws r of
               d # r' \<Rightarrow> if d = CHR '']'' then Inr (GList [], r') else parse_elems pf n [] r
             | [] \<Rightarrow> Inl json_err)
          else if c = CHR ''{'' then
            (case skip_ws r of
               d # r' \<Rightarrow> if d = CHR ''}'' then Inr (GMap [], r') else parse_members pf n [] r
             | [] \<Rightarrow> Inl json_err)
          else if c = CHR ''n'' then expect ''null'' GNil s
          else if c = CHR ''t'' then expect ''true'' (GBool True) s
          else if c = CHR ''f'' then expect ''false'' (GBool False) s
          else if c = CHR ''-'' \<or> is_digit c then parse_number pf s
          else Inl json_err)"
| "parse_elems pf 0 acc s = Inl json_err"
| "parse_elems pf (Suc n) acc s =
     (case parse_value pf n s of
        Inl e \<Rightarrow> Inl e
      | Inr (v, r) \<Rightarrow>
          (case skip_ws r of
             c # r' \<Rightarrow>
               if c = CHR '','' then parse_elems pf n (acc @ [v]) r'
               else if c = CHR '']'' then Inr (GList (acc @ [v]), r')
               else Inl json_err
           | [] \<Rightarrow> Inl json_err))"
| "parse_members pf 0 acc s = Inl json_err"
| "parse_members pf (Suc n) acc s =
     (case skip_ws s of
        [] \<Rightarrow> Inl json_err
      | q # r0 \<Rightarrow>
          if q \<noteq> CHR 0x22 then Inl json_err
          else case parse_str (length r0) r0 of
                 Inl e \<Rightarrow> Inl e
               | Inr (k, r1) \<Rightarrow>
                   (case skip_ws r1 of
                      [] \<Rightarrow> Inl json_err
                    | d # r2 \<Rightarrow>
                        if d \<noteq> CHR '':'' then Inl json_err
                        else case parse_value pf n r2 of
                               Inl e \<Rightarrow> Inl e
                             | Inr (v, r) \<Rightarrow>
                                 (case skip_ws r of
                                    c # r' \<Rightarrow>
                                      if c = CHR '','' then parse_members pf n (AList.update k v acc) r'
                                      else if c = CHR ''}'' then Inr (GMap (AList.update k v acc), r')
                                      else Inl json_err
                                  | [] \<Rightarrow> Inl json_err)))"

definition unmarshal :: "(string \<Rightarrow> gfloat option) \<Rightarrow> string \<Rightarrow> gval res" where
  "unmarshal pf s =
     (case parse_value pf (Suc (length s)) s of
        Inl e \<Rightarrow> Inl e
      | Inr (v, r) \<Rightarrow> if skip_ws r = [] then Inr v else Inl json_err)"

text \<open>\<^verbatim>\<open>json.Unmarshal\<close> into a nil \<^verbatim>\<open>map[string]any\<close>.\<close>

definition unmarshal_map :: "(string \<Rightarrow> gfloat option) \<Rightarrow> string \<Rightarrow> gmap option res" where
  "unmarshal_map pf s =
     (case unmarshal pf s of
        Inl e \<Rightarrow> Inl e
      | Inr GNil \<Rightarrow> Inr None
      | Inr (GMap m) \<Rightarrow> Inr (Some m)
      | Inr _ \<Rightarrow> Inl (Err ''json: cannot unmarshal into Go value of type map[string]interface {}'' []))"

section \<open>Marshal and unmarshal\<close>

text \<open>What a value looks like after a round trip: numbers are floats, keys are sorted.\<close>

fun json_norm :: "gval \<Rightarrow> gval" where
  "json_norm (GInt i) = GFloat64 (Dyadic i 0)"
| "json_norm (GInt64 i) = GFloat64 (Dyadic i 0)"
| "json_norm (GFloat32 f) = GFloat64 f"
| "json_norm (GStrs ss) = GList (map GStr ss)"
| "json_norm (GList vs) = GList (map json_norm vs)"
| "json_norm (GMap m) = GMap (sort_key fst (map (\<lambda>(k, v). (k, json_norm v)) m))"
| "json_norm v = v"

text \<open>The texts of floats are read back (the property of Go's shortest decimal form).\<close>

definition float_ok :: "(gfloat \<Rightarrow> string) \<Rightarrow> (string \<Rightarrow> gfloat option) \<Rightarrow> gfloat \<Rightarrow> bool" where
  "float_ok ff pf f \<longleftrightarrow>
     ff f \<noteq> [] \<and> list_all is_num_char (ff f) \<and> (hd (ff f) = CHR ''-'' \<or> is_digit (hd (ff f))) \<and>
     (case int_of_text (ff f) of Some i \<Rightarrow> Dyadic i 0 = f | None \<Rightarrow> pf (ff f) = Some f)"

fun json_ok :: "(gfloat \<Rightarrow> string) \<Rightarrow> (string \<Rightarrow> gfloat option) \<Rightarrow> gval \<Rightarrow> bool" where
  "json_ok ff pf (GInt i) = (\<bar>i\<bar> \<le> 2 ^ 53)"
| "json_ok ff pf (GInt64 i) = (\<bar>i\<bar> \<le> 2 ^ 53)"
| "json_ok ff pf (GFloat32 f) = float_ok ff pf f"
| "json_ok ff pf (GFloat64 f) = float_ok ff pf f"
| "json_ok ff pf (GList vs) = list_all (json_ok ff pf) vs"
| "json_ok ff pf (GMap m) = (distinct (map fst m) \<and> list_all (\<lambda>(k, v). json_ok ff pf v) m)"
| "json_ok ff pf v = True"

lemma hex_value_digit: "d < 16 \<Longrightarrow> hex_value (hex_digit d) = Some d"
proof -
  assume "d < 16"
  then have "d \<in> set [0..<16]" by simp
  moreover have "list_all (\<lambda>d. hex_value (hex_digit d) = Some d) [0..<16]"
    by code_simp
  ultimately show ?thesis by (simp only: list_all_iff)
qed

lemma read_char_u: "of_char c < (128 :: nat) \<Longrightarrow> read_char (u_escape c @ t) = Some ([c], t)"
proof -
  assume c: "of_char c < (128 :: nat)"
  then have "of_char c div 16 < (16 :: nat)" "of_char c mod 16 < (16 :: nat)"
    by (simp_all add: less_mult_imp_div_less)
  moreover have "hex_value (CHR ''0'') = Some 0" by (simp add: hex_value_def)
  ultimately have "getu4 (CHR ''0'' # CHR ''0'' # hex_digit (of_char c div 16)
      # hex_digit (of_char c mod 16) # t) = Some (of_char c, t)"
    by (simp add: hex_value_digit)
  then show ?thesis using c by (simp add: u_escape_def unescape_u_def utf8_def)
qed

lemma read_char_json: "read_char (json_char c @ t) = Some ([c], t)"
proof -
  have "of_char c < (128 :: nat)"
    if "of_char c < (32 :: nat) \<or> c = CHR ''<'' \<or> c = CHR ''>'' \<or> c = CHR ''&''"
    using that by auto
  then show ?thesis
    by (cases "of_char c < (32 :: nat) \<or> c = CHR ''<'' \<or> c = CHR ''>'' \<or> c = CHR ''&''")
      (auto simp: json_char_def unescape_json_def read_char_u)
qed

lemma json_char_start: "json_char c \<noteq> [] \<and> hd (json_char c @ t) \<noteq> CHR 0x22"
  by (simp add: json_char_def u_escape_def)

lemma parse_str_json:
  "length s < n \<Longrightarrow> parse_str n (concat (map json_char s) @ CHR 0x22 # t) = Inr (s, t)"
proof (induction s arbitrary: n)
  case Nil
  then show ?case by (cases n) simp_all
next
  case (Cons c s)
  then obtain m where n: "n = Suc m" and m: "length s < m" by (cases n) auto
  show ?case
    using json_char_start [of c "[]"] Cons.IH [OF m] by (simp add: n read_char_json)
qed

lemma json_chars_length: "length s \<le> length (concat (map json_char s))"
proof (induction s)
  case (Cons c s)
  have "1 \<le> length (json_char c)" using json_char_start [of c] by (cases "json_char c") auto
  with Cons show ?case by simp
qed simp

lemma parse_str_json_tl:
  "r = concat (map json_char s) @ CHR 0x22 # t \<Longrightarrow> parse_str (length r) r = Inr (s, t)"
  using parse_str_json [of s "length r" t] json_chars_length [of s] by simp

subsection \<open>Numbers\<close>

definition tail_ok :: "string \<Rightarrow> bool" where
  "tail_ok t \<longleftrightarrow> t = [] \<or> \<not> is_num_char (hd t)"

lemma takeWhile_tail:
  assumes "list_all P s" and "t = [] \<or> \<not> P (hd t)"
  shows "takeWhile P (s @ t) = s" "dropWhile P (s @ t) = t"
  using assms by (induction s; cases t; simp)+

lemma Itoa_num: "list_all is_num_char (Itoa i)" "Itoa i \<noteq> []"
    "hd (Itoa i) = CHR ''-'' \<or> is_digit (hd (Itoa i))"
proof -
  show "list_all is_num_char (Itoa i)"
    by (auto simp: Itoa_def list_all_iff is_num_char_def dest: nat_digits_digits)
  show "Itoa i \<noteq> []" by (simp add: Itoa_def)
  show "hd (Itoa i) = CHR ''-'' \<or> is_digit (hd (Itoa i))"
    using nat_digits_digits [OF hd_in_set [OF nat_digits_not_Nil], of "nat i"]
    by (simp add: Itoa_def)
qed

lemma hd_nat_digits: "hd (nat_digits n) \<noteq> CHR ''-''"
  using nat_digits_digits [of "hd (nat_digits n)" n] by (auto simp: is_digit_def)

lemma int_of_text_Itoa: "\<bar>i\<bar> \<le> 2 ^ 53 \<Longrightarrow> int_of_text (Itoa i) = Some i"
  by (cases "i < 0") (simp_all add: int_of_text_def Let_def Itoa_def hd_nat_digits)

lemma parse_number_Itoa:
  "\<bar>i\<bar> \<le> 2 ^ 53 \<Longrightarrow> tail_ok t \<Longrightarrow>
     parse_number pf (Itoa i @ t) = Inr (GFloat64 (Dyadic i 0), t)"
  using takeWhile_tail [OF Itoa_num(1), of t i]
  by (simp add: parse_number_def tail_ok_def int_of_text_Itoa)

lemma parse_number_float:
  "float_ok ff pf f \<Longrightarrow> tail_ok t \<Longrightarrow> parse_number pf (ff f @ t) = Inr (GFloat64 f, t)"
  using takeWhile_tail [of is_num_char "ff f" t]
  by (auto simp: parse_number_def tail_ok_def float_ok_def split: option.splits)

subsection \<open>Values\<close>

text \<open>The first character of a value's text decides how it is read.\<close>

definition start_ok :: "string \<Rightarrow> bool" where
  "start_ok s \<longleftrightarrow> s \<noteq> [] \<and>
     hd s \<notin> {CHR '' '', CHR 0x09, CHR 0x0A, CHR 0x0D, CHR '']'', CHR ''}'', CHR '',''}"

lemma start_num: "s \<noteq> [] \<Longrightarrow> hd s = CHR ''-'' \<or> is_digit (hd s) \<Longrightarrow> start_ok s"
  by (auto simp: start_ok_def is_digit_def)

lemma start_marshal: "json_ok ff pf v \<Longrightarrow> start_ok (marshal ff v)"
proof (cases v)
  case (GFloat64 f)
  then show "json_ok ff pf v \<Longrightarrow> ?thesis" by (auto simp: float_ok_def intro: start_num)
next
  case (GFloat32 f)
  then show "json_ok ff pf v \<Longrightarrow> ?thesis" by (auto simp: float_ok_def intro: start_num)
next
  case (GInt i)
  then show ?thesis using start_num [OF Itoa_num(2,3)] by simp
next
  case (GInt64 i)
  then show ?thesis using start_num [OF Itoa_num(2,3)] by simp
qed (auto simp: start_ok_def json_string_def)

lemma skip_ws_start: "start_ok s \<Longrightarrow> skip_ws (s @ t) = s @ t"
  by (cases s) (simp_all add: start_ok_def)

text \<open>The contract between a value's text and the parser, for every nesting level below it.\<close>

definition parses :: "(string \<Rightarrow> gfloat option) \<Rightarrow> string \<Rightarrow> gval \<Rightarrow> bool" where
  "parses pf s v \<longleftrightarrow> start_ok s \<and>
     (\<forall>n t. length s < n \<longrightarrow> tail_ok t \<longrightarrow> parse_value pf n (s @ t) = Inr (v, t))"

lemma parsesI:
  assumes "start_ok s"
    and "\<And>n t. length s \<le> n \<Longrightarrow> tail_ok t \<Longrightarrow> parse_value pf (Suc n) (s @ t) = Inr (v, t)"
  shows "parses pf s v"
  unfolding parses_def
proof (intro conjI allI impI)
  fix n t assume n: "length s < n" and t: "tail_ok t"
  obtain m where "n = Suc m" using n by (cases n) auto
  then show "parse_value pf n (s @ t) = Inr (v, t)" using assms(2) n t by simp
qed (rule assms(1))

lemma parses_value: "parses pf s v \<Longrightarrow> length s < n \<Longrightarrow> tail_ok t \<Longrightarrow> parse_value pf n (s @ t) = Inr (v, t)"
  by (simp add: parses_def)

lemma parses_start: "parses pf s v \<Longrightarrow> start_ok s"
  by (simp add: parses_def)

lemma parses_string: "parses pf (json_string s) (GStr s)"
proof (rule parsesI)
  show "start_ok (json_string s)" by (simp add: start_ok_def json_string_def)
next
  fix n t assume "length (json_string s) \<le> n"
  show "parse_value pf (Suc n) (json_string s @ t) = Inr (GStr s, t)"
    using parse_str_json_tl [OF refl, of s t] by (simp add: json_string_def)
qed

lemma parses_number:
  assumes "s \<noteq> []" "hd s = CHR ''-'' \<or> is_digit (hd s)"
    and "\<And>t. tail_ok t \<Longrightarrow> parse_number pf (s @ t) = Inr (v, t)"
  shows "parses pf s v"
proof (rule parsesI)
  show start: "start_ok s" using assms(1,2) by (rule start_num)
  fix n t assume "length s \<le> n" and t: "tail_ok t"
  obtain c r where s: "s = c # r" using assms(1) by (cases s) auto
  with assms(2) have c: "c = CHR ''-'' \<or> is_digit c" by simp
  then have "c \<noteq> CHR 0x22 \<and> c \<noteq> CHR ''['' \<and> c \<noteq> CHR ''{'' \<and> c \<noteq> CHR ''n'' \<and> c \<noteq> CHR ''t'' \<and> c \<noteq> CHR ''f''"
    by (auto simp: is_digit_def)
  then show "parse_value pf (Suc n) (s @ t) = Inr (v, t)"
    using assms(3) [OF t] skip_ws_start [OF start, of t] c by (auto simp: s Let_def)
qed


lemma tail_ok_sep [simp]: "tail_ok (CHR '','' # t)" "tail_ok (CHR '']'' # t)" "tail_ok (CHR ''}'' # t)" "tail_ok []"
  by (simp_all add: tail_ok_def is_num_char_def is_digit_def)

lemma parse_elems_join:
  assumes "vs \<noteq> []" and "\<forall>v \<in> set vs. parses pf (g v) (h v)"
    and "length (join_with '','' (map g vs)) + 1 < n"
  shows "parse_elems pf n acc (join_with '','' (map g vs) @ CHR '']'' # t)
     = Inr (GList (acc @ map h vs), t)"
  using assms
proof (induction vs arbitrary: n acc rule: remdups_adj.induct)
  case 1
  then show ?case by simp
next
  case (2 v)
  then obtain m where n: "n = Suc m" by (cases n) auto
  have "parse_value pf m (g v @ CHR '']'' # t) = Inr (h v, CHR '']'' # t)"
    by (rule parses_value) (use 2 n in auto)
  then show ?case by (simp add: n)
next
  case (3 v w vs)
  let ?rest = "join_with '','' (map g (w # vs)) @ CHR '']'' # t"
  from 3(5) obtain m where n: "n = Suc m" by (cases n) auto
  have pv: "parse_value pf m (g v @ CHR '','' # ?rest) = Inr (h v, CHR '','' # ?rest)"
    by (rule parses_value) (use 3(4,5) n in auto)
  have "parse_elems pf m (acc @ [h v]) ?rest = Inr (GList ((acc @ [h v]) @ map h (w # vs)), t)"
    if "P" for P :: bool
  proof (cases "v = w")
    case True
    show ?thesis using 3(1) [OF True] 3(4,5) True n by simp
  next
    case False
    show ?thesis using 3(2) [OF False] 3(4,5) n by simp
  qed
  then show ?case using pv by (simp add: n)
qed

lemma parses_list:
  assumes "\<forall>v \<in> set vs. parses pf (g v) (h v)"
  shows "parses pf (''['' @ join_with '','' (map g vs) @ '']'') (GList (map h vs))"
proof (rule parsesI)
  show "start_ok (''['' @ join_with '','' (map g vs) @ '']'')" by (simp add: start_ok_def)
  fix n t assume n: "length (''['' @ join_with '','' (map g vs) @ '']'') \<le> n"
  show "parse_value pf (Suc n) ((''['' @ join_with '','' (map g vs) @ '']'') @ t)
      = Inr (GList (map h vs), t)"
  proof (cases vs)
    case Nil
    then show ?thesis by simp
  next
    case (Cons v ws)
    let ?J = "join_with '','' (map g vs) @ CHR '']'' # t"
    have start: "start_ok (g v)" using assms Cons parses_start by auto
    have "\<exists>r. ?J = g v @ r" by (cases ws) (simp_all add: Cons)
    then have J: "skip_ws ?J = ?J" "?J \<noteq> []" "hd ?J \<noteq> CHR '']''"
      using skip_ws_start [OF start] start by (auto simp: start_ok_def)
    then obtain d r' where d: "?J = d # r'" by (cases ?J) auto
    have "parse_elems pf n [] ?J = Inr (GList ([] @ map h vs), t)"
      by (rule parse_elems_join) (use assms Cons n in auto)
    then show ?thesis using J d by simp
  qed
qed

definition member_text :: "('v \<Rightarrow> string) \<Rightarrow> string \<times> 'v \<Rightarrow> string" where
  "member_text g p = json_string (fst p) @ '':'' @ g (snd p)"

lemma parse_member_key:
  assumes "parses pf s v" and "length (json_string k @ '':'' @ s) \<le> n" and "tail_ok t"
    and "n = Suc m"
  shows "parse_members pf (Suc n) acc ((json_string k @ '':'' @ s) @ t) =
     (case skip_ws t of
        c # r' \<Rightarrow>
          if c = CHR '','' then parse_members pf n (AList.update k v acc) r'
          else if c = CHR ''}'' then Inr (GMap (AList.update k v acc), r')
          else Inl json_err
      | [] \<Rightarrow> Inl json_err)"
proof -
  have "parse_value pf n (s @ t) = Inr (v, t)"
    by (rule parses_value [OF assms(1)]) (use assms(2,3) in \<open>auto simp: json_string_def\<close>)
  then show ?thesis
    using parse_str_json_tl [OF refl, of k "CHR '':'' # s @ t"] by (simp add: json_string_def)
qed

lemma parse_members_join:
  assumes "m \<noteq> []" and "\<forall>p \<in> set m. parses pf (g (snd p)) (h (snd p))"
    and "length (join_with '','' (map (member_text g) m)) + 1 < n"
    and "distinct (map fst acc @ map fst m)"
  shows "parse_members pf n acc (join_with '','' (map (member_text g) m) @ CHR ''}'' # t)
     = Inr (GMap (acc @ map (\<lambda>(k, v). (k, h v)) m), t)"
  using assms
proof (induction m arbitrary: n acc)
  case Nil
  then show ?case by simp
next
  case (Cons p m)
  obtain k v where p: "p = (k, v)" by (cases p)
  have upd: "AList.update k (h v) acc = acc @ [(k, h v)]"
    using Cons.prems(4) p by (induction acc) auto
  have v: "parses pf (g v) (h v)" using Cons.prems(2) p by auto
  from Cons.prems(3) obtain n' where n: "n = Suc (Suc n')" by (cases n; cases "n - 1") auto
  show ?case
  proof (cases m)
    case Nil
    have len: "length (json_string k @ '':'' @ g v) \<le> Suc n'"
      using Cons.prems(3) by (simp add: n Nil p member_text_def)
    show ?thesis
      using parse_member_key [OF v len tail_ok_sep(3) refl, of acc t] upd
      by (simp add: n Nil p member_text_def)
  next
    case (Cons q m')
    let ?rest = "join_with '','' (map (member_text g) m) @ CHR ''}'' # t"
    have len: "length (json_string k @ '':'' @ g v) \<le> Suc n'"
      using Cons.prems(3) by (simp add: n Cons p member_text_def)
    have rec: "parse_members pf (Suc n') (acc @ [(k, h v)]) ?rest
        = Inr (GMap ((acc @ [(k, h v)]) @ map (\<lambda>(k, v). (k, h v)) m), t)"
      by (rule Cons.IH) (use Cons.prems Cons p n in \<open>auto simp: member_text_def\<close>)
    have eq: "join_with '','' (map (member_text g) (p # m)) @ CHR ''}'' # t
        = (json_string k @ '':'' @ g v) @ CHR '','' # ?rest"
      by (simp add: p Cons member_text_def)
    have sep: "skip_ws (CHR '','' # ?rest) = CHR '','' # ?rest" by simp
    show ?thesis
      unfolding n eq parse_member_key [OF v len tail_ok_sep(1) refl] sep
      using upd p rec by (simp del: parse_members.simps)
  qed
qed

lemma parses_map:
  assumes "\<forall>p \<in> set m. parses pf (g (snd p)) (h (snd p))" and "distinct (map fst m)"
  shows "parses pf (''{'' @ join_with '','' (map (member_text g) m) @ ''}'')
     (GMap (map (\<lambda>(k, v). (k, h v)) m))"
proof (rule parsesI)
  show "start_ok (''{'' @ join_with '','' (map (member_text g) m) @ ''}'')"
    by (simp add: start_ok_def)
  fix n t assume n: "length (''{'' @ join_with '','' (map (member_text g) m) @ ''}'') \<le> n"
  show "parse_value pf (Suc n) ((''{'' @ join_with '','' (map (member_text g) m) @ ''}'') @ t)
      = Inr (GMap (map (\<lambda>(k, v). (k, h v)) m), t)"
  proof (cases m)
    case Nil
    then show ?thesis by simp
  next
    case (Cons p m')
    let ?J = "join_with '','' (map (member_text g) m) @ CHR ''}'' # t"
    obtain r' where r': "?J = CHR 0x22 # r'"
      by (cases m') (simp_all add: Cons member_text_def json_string_def)
    have "parse_members pf n [] ?J = Inr (GMap ([] @ map (\<lambda>(k, v). (k, h v)) m), t)"
      by (rule parse_members_join) (use assms Cons n in auto)
    then show ?thesis using r' by simp
  qed
qed

lemma insort_key_map:
  "insort_key fst (k, g v) (map (\<lambda>(k, v). (k, g v)) m) = map (\<lambda>(k, v). (k, g v)) (insort_key fst (k, v) m)"
  by (induction m) auto

lemma sort_key_map_snd:
  "sort_key fst (map (\<lambda>(k, v). (k, g v)) m) = map (\<lambda>(k, v). (k, g v)) (sort_key fst m)"
  by (induction m) (auto simp: insort_key_map)

lemma marshal_parses: "json_ok ff pf v \<Longrightarrow> parses pf (marshal ff v) (json_norm v)"
proof (induction v)
  case GNil
  show ?case by (rule parsesI) (simp_all add: start_ok_def expect_def)
next
  case (GBool b)
  show ?case by (rule parsesI) (simp_all add: start_ok_def expect_def)
next
  case (GInt i)
  then show ?case using Itoa_num(2,3) [of i] by (auto intro!: parses_number parse_number_Itoa)
next
  case (GInt64 i)
  then show ?case using Itoa_num(2,3) [of i] by (auto intro!: parses_number parse_number_Itoa)
next
  case (GFloat32 f)
  then show ?case by (auto simp: float_ok_def intro!: parses_number parse_number_float)
next
  case (GFloat64 f)
  then show ?case by (auto simp: float_ok_def intro!: parses_number parse_number_float)
next
  case (GStr s)
  show ?case by (simp add: parses_string)
next
  case (GStrs ss)
  show ?case using parses_list [of ss pf json_string GStr] parses_string by simp
next
  case (GList vs)
  then show ?case using parses_list [of vs pf "marshal ff" json_norm] by (simp add: list_all_iff)
next
  case (GMap m)
  have "\<forall>p \<in> set (sort_key fst m). parses pf (marshal ff (snd p)) (json_norm (snd p))"
    using GMap by (auto simp: list_all_iff)
  moreover have "distinct (map fst (sort_key fst m))"
    using GMap.prems by (simp add: distinct_map)
  ultimately have "parses pf (''{'' @ join_with '','' (map (member_text (marshal ff)) (sort_key fst m)) @ ''}'')
      (GMap (map (\<lambda>(k, v). (k, json_norm v)) (sort_key fst m)))"
    by (rule parses_map)
  moreover have "(\<lambda>(k, s). json_string k @ '':'' @ s) \<circ> (\<lambda>(k, v). (k, marshal ff v))
      = member_text (marshal ff)"
    by (auto simp: member_text_def fun_eq_iff)
  ultimately show ?case by (simp only: marshal.simps json_norm.simps sort_key_map_snd map_map)
qed

text \<open>Marshalling and unmarshalling normalises a value and loses nothing else.\<close>

lemma unmarshal_marshal: "json_ok ff pf v \<Longrightarrow> unmarshal pf (marshal ff v) = Inr (json_norm v)"
  using parses_value [OF marshal_parses, of ff pf v "Suc (length (marshal ff v))" "[]"]
  by (simp add: unmarshal_def)

lemma json_norm_idem: "json_norm (json_norm v) = json_norm v"
proof (induction v)
  case (GMap m)
  have "map (\<lambda>(k, v). (k, json_norm (json_norm v))) m = map (\<lambda>(k, v). (k, json_norm v)) m"
    using GMap by auto
  then show ?case
    by (simp add: sort_key_map_snd comp_def case_prod_beta sort_key_id_if_sorted)
qed simp_all

text \<open>On maps whose values are strings the only change is the order of the keys.\<close>

lemma json_norm_strings:
  "list_all (\<lambda>(k, v). case v of GStr s \<Rightarrow> True | _ \<Rightarrow> False) m \<Longrightarrow>
     json_norm (GMap m) = GMap (sort_key fst m)"
proof -
  assume "list_all (\<lambda>(k, v). case v of GStr s \<Rightarrow> True | _ \<Rightarrow> False) m"
  then have "map (\<lambda>(k, v). (k, json_norm v)) m = m"
    by (induction m) (auto split: gval.splits)
  then show ?thesis by simp
qed

end
