(* ===== verification/WalRecord.thy ===== *)
theory WalRecord
  imports Message Json "HOL-Library.Word"
begin

unbundle bit_operations_syntax

text \<open>
  \<^verbatim>\<open>internal/buffer/wal.go\<close>: the binary record of the write-ahead log. Bytes are
  characters. A writer is the list of chunks handed to \<^verbatim>\<open>w.Write\<close>; a reader is the
  text that is left, and every read returns what it left behind, also when it fails.
\<close>

record float_format =
  nf_format :: "gfloat \<Rightarrow> string"
  nf_parse :: "string \<Rightarrow> gfloat option"

section \<open>Big-endian words\<close>

definition byte_at :: "nat \<Rightarrow> 32 word \<Rightarrow> char" where
  "byte_at n w = char_of (unat (drop_bit n w))"

definition PutUint32 :: "32 word \<Rightarrow> string" where
  "PutUint32 w = [byte_at 24 w, byte_at 16 w, byte_at 8 w, byte_at 0 w]"

definition byte_word :: "char \<Rightarrow> 32 word" where
  "byte_word c = word_of_nat (of_char c)"

fun Uint32 :: "string \<Rightarrow> 32 word" where
  "Uint32 [a, b, c, d] =
     byte_word d OR push_bit 8 (byte_word c) OR push_bit 16 (byte_word b) OR push_bit 24 (byte_word a)"
| "Uint32 s = 0"

lemma byte_word_at: "byte_word (byte_at n w) = take_bit 8 (drop_bit n w)"
proof -
  have "of_char (byte_at n w) = take_bit 8 (unat (drop_bit n w))"
    by (simp add: byte_at_def take_bit_eq_mod)
  then show ?thesis by (simp add: byte_word_def of_nat_take_bit)
qed

lemma Uint32_Put [simp]: "Uint32 (PutUint32 w) = w"
proof -
  have "Uint32 (PutUint32 w) = take_bit 8 w OR push_bit 8 (take_bit 8 (drop_bit 8 w))
      OR push_bit 16 (take_bit 8 (drop_bit 16 w)) OR push_bit 24 (take_bit 8 (drop_bit 24 w))"
    by (simp add: PutUint32_def byte_word_at)
  also have "\<dots> = w"
  proof (rule bit_word_eqI)
    fix n assume "n < LENGTH(32)"
    then have "n < 8 \<or> 8 \<le> n \<and> n < 16 \<or> 16 \<le> n \<and> n < 24 \<or> 24 \<le> n \<and> n < 32" by auto
    then show "bit (take_bit 8 w OR push_bit 8 (take_bit 8 (drop_bit 8 w))
      OR push_bit 16 (take_bit 8 (drop_bit 16 w)) OR push_bit 24 (take_bit 8 (drop_bit 24 w))) n = bit w n"
      by (auto simp: bit_simps)
  qed
  finally show ?thesis .
qed

lemma PutUint32_length [simp]: "length (PutUint32 w) = 4"
  by (simp add: PutUint32_def)

section \<open>Encoding\<close>

definition walMagic :: "32 word" where
  "walMagic = 0x45525631"

text \<open>
  The writes of \<^verbatim>\<open>encodeWALRecord\<close>. \<open>uuid\<close> is the identity it makes up for a
  message without one; lengths are converted to 32 bits. Marshalling the metadata never fails for
  the values of \<^typ>\<open>gval\<close>.
\<close>

definition wal_chunks :: "float_format \<Rightarrow> string \<Rightarrow> message \<Rightarrow> string list" where
  "wal_chunks nf uuid msg =
     (let rid = (if ms_ID msg = '''' then uuid else ms_ID msg);
          meta = marshal (nf_format nf) (GMap (ms_Metadata msg));
          header = PutUint32 walMagic @ PutUint32 (word_of_nat (length (ms_Payload msg)))
                     @ PutUint32 (word_of_nat (length meta)) in
      [header, PutUint32 (word_of_nat (length rid)), rid]
      @ (if ms_Payload msg \<noteq> '''' then [ms_Payload msg] else [])
      @ (if meta \<noteq> '''' then [meta] else []))"

text \<open>
  Writing chunks to a file on a disk with room for \<open>room\<close> more bytes: a chunk that does not
  fit is written as far as it goes and the error ends the record. \<open>None\<close> is a disk without
  limit. The result is the error, the bytes written and the room left.
\<close>

fun write_chunks :: "nat option \<Rightarrow> string list \<Rightarrow> goerr option \<times> string \<times> nat option" where
  "write_chunks room [] = (None, [], room)"
| "write_chunks room (c # cs) =
     (case room of
        None \<Rightarrow> (case write_chunks None cs of (e, bs, r) \<Rightarrow> (e, c @ bs, r))
      | Some n \<Rightarrow>
          if length c \<le> n then
            (case write_chunks (Some (n - length c)) cs of (e, bs, r) \<Rightarrow> (e, c @ bs, r))
          else (Some (Err ''no space left on device'' []), take n c, Some 0))"

definition encodeWALRecord ::
  "float_format \<Rightarrow> string \<Rightarrow> nat option \<Rightarrow> message \<Rightarrow> goerr option \<times> string \<times> nat option" where
  "encodeWALRecord nf uuid room msg = write_chunks room (wal_chunks nf uuid msg)"

text \<open>The bytes of a whole record.\<close>

definition wal_bytes :: "float_format \<Rightarrow> string \<Rightarrow> message \<Rightarrow> string" where
  "wal_bytes nf uuid msg = concat (wal_chunks nf uuid msg)"

lemma write_chunks_None: "write_chunks None cs = (None, concat cs, None)"
  by (induction cs) simp_all

lemma write_chunks_ok: "write_chunks room cs = (None, bs, r) \<Longrightarrow> bs = concat cs"
  by (induction room cs arbitrary: bs rule: write_chunks.induct)
    (auto split: option.splits if_splits prod.splits)

lemma write_chunks_err:
  "write_chunks room cs = (Some e, bs, r) \<Longrightarrow> \<exists>t. t \<noteq> [] \<and> concat cs = bs @ t"
proof (induction room cs arbitrary: bs rule: write_chunks.induct)
  case (1 room)
  then show ?case by simp
next
  case (2 room c cs)
  show ?case
  proof (cases room)
    case None
    then show ?thesis using 2 by (auto simp: write_chunks_None)
  next
    case (Some n)
    show ?thesis
    proof (cases "length c \<le> n")
      case True
      then show ?thesis using 2 Some by (auto split: prod.splits)
    next
      case False
      then have "c = take n c @ drop n c" "drop n c \<noteq> []" by simp_all
      moreover have "bs = take n c" using "2.prems" Some False by simp
      ultimately show ?thesis by (intro exI [of _ "drop n c @ concat cs"]) (simp only: concat.simps append_assoc [symmetric], simp)
    qed
  qed
qed

section \<open>Decoding\<close>

text \<open>\<^verbatim>\<open>io.ReadFull\<close>: the bytes, or the error that tells nothing from something.\<close>

definition ReadFull :: "nat \<Rightarrow> string \<Rightarrow> string res \<times> string" where
  "ReadFull n s =
     (if n \<le> length s then (Inr (take n s), drop n s)
      else if s = [] then (Inl EOF, []) else (Inl UnexpectedEOF, []))"

definition decode_metadata :: "float_format \<Rightarrow> string \<Rightarrow> gmap res" where
  "decode_metadata nf bytes =
     (if bytes = [] then Inr []
      else case unmarshal_map (nf_parse nf) bytes of
             Inl err \<Rightarrow> Inl (Wrap ''unmarshal metadata: %w'' [] err)
           | Inr None \<Rightarrow> Inr []
           | Inr (Some m) \<Rightarrow> Inr m)"

definition decodeWALRecord :: "float_format \<Rightarrow> string \<Rightarrow> message res \<times> string" where
  "decodeWALRecord nf s0 =
     (case ReadFull 12 s0 of
        (Inl err, s1) \<Rightarrow> (Inl err, s1)
      | (Inr header, s1) \<Rightarrow>
          if Uint32 (take 4 header) \<noteq> walMagic then (Inl (Err ''invalid wal magic'' []), s1)
          else
            let payloadLen = Uint32 (take 4 (drop 4 header));
                metaLen = Uint32 (take 4 (drop 8 header)) in
            (case ReadFull 4 s1 of
               (Inl err, s2) \<Rightarrow> (Inl err, s2)
             | (Inr idLenBuf, s2) \<Rightarrow>
                 (case ReadFull (unat (Uint32 idLenBuf)) s2 of
                    (Inl err, s3) \<Rightarrow> (Inl err, s3)
                  | (Inr idBytes, s3) \<Rightarrow>
                      (case ReadFull (unat payloadLen) s3 of
                         (Inl err, s4) \<Rightarrow> (Inl err, s4)
                       | (Inr payload, s4) \<Rightarrow>
                           (case ReadFull (unat metaLen) s4 of
                              (Inl err, s5) \<Rightarrow> (Inl err, s5)
                            | (Inr metaBytes, s5) \<Rightarrow>
                                (case decode_metadata nf metaBytes of
                                   Inl err \<Rightarrow> (Inl err, s5)
                                 | Inr metadata \<Rightarrow>
                                     (Inr ((message_New payload (Some metadata))\<lparr>ms_ID := idBytes\<rparr>),
                                      s5)))))))"

section \<open>Round trip\<close>

text \<open>Every length of the record fits its 32-bit field and the metadata is valid JSON data.\<close>

definition wal_ok :: "float_format \<Rightarrow> string \<Rightarrow> message \<Rightarrow> bool" where
  "wal_ok nf uuid msg \<longleftrightarrow>
     length (ms_Payload msg) < 2 ^ 32 \<and>
     length (marshal (nf_format nf) (GMap (ms_Metadata msg))) < 2 ^ 32 \<and>
     length (if ms_ID msg = '''' then uuid else ms_ID msg) < 2 ^ 32 \<and>
     json_ok (nf_format nf) (nf_parse nf) (GMap (ms_Metadata msg))"

text \<open>The message a record decodes to: identity, payload and metadata, nothing else.\<close>

definition wal_norm :: "string \<Rightarrow> message \<Rightarrow> message" where
  "wal_norm uuid msg =
     (message_New (ms_Payload msg)
        (Some (case json_norm (GMap (ms_Metadata msg)) of GMap m \<Rightarrow> m | _ \<Rightarrow> [])))
       \<lparr>ms_ID := (if ms_ID msg = '''' then uuid else ms_ID msg)\<rparr>"

lemma ReadFull_append [simp]: "n = length a \<Longrightarrow> ReadFull n (a @ s) = (Inr a, s)"
  by (simp add: ReadFull_def)

lemma ReadFull_append2: "n = length a + length b \<Longrightarrow> ReadFull n (a @ b @ s) = (Inr (a @ b), s)"
  by (simp add: ReadFull_def)

lemma unat_length: "length s < 2 ^ 32 \<Longrightarrow> unat (word_of_nat (length s) :: 32 word) = length s"
  by (simp add: unat_of_nat take_bit_eq_mod)

lemma marshal_map_not_Nil: "marshal ff (GMap m) \<noteq> []"
  by simp

lemma wal_bytes_eq:
  "wal_bytes nf uuid msg =
     (PutUint32 walMagic @ PutUint32 (word_of_nat (length (ms_Payload msg)))
        @ PutUint32 (word_of_nat (length (marshal (nf_format nf) (GMap (ms_Metadata msg))))))
     @ PutUint32 (word_of_nat (length (if ms_ID msg = '''' then uuid else ms_ID msg)))
     @ (if ms_ID msg = '''' then uuid else ms_ID msg)
     @ ms_Payload msg @ marshal (nf_format nf) (GMap (ms_Metadata msg))"
  unfolding wal_bytes_def wal_chunks_def Let_def by (simp del: marshal.simps add: marshal_map_not_Nil)

lemma decode_metadata_marshal:
  "json_ok (nf_format nf) (nf_parse nf) (GMap m) \<Longrightarrow>
   decode_metadata nf (marshal (nf_format nf) (GMap m))
     = Inr (case json_norm (GMap m) of GMap m' \<Rightarrow> m' | _ \<Rightarrow> [])"
  by (simp only: decode_metadata_def marshal_map_not_Nil if_False unmarshal_map_def unmarshal_marshal)
    simp

lemma decode_wal_bytes:
  assumes "wal_ok nf uuid msg"
  shows "decodeWALRecord nf (wal_bytes nf uuid msg @ s) = (Inr (wal_norm uuid msg), s)"
proof -
  let ?id = "if ms_ID msg = '''' then uuid else ms_ID msg"
  let ?meta = "marshal (nf_format nf) (GMap (ms_Metadata msg))"
  let ?hdr = "PutUint32 walMagic @ PutUint32 (word_of_nat (length (ms_Payload msg)))
        @ PutUint32 (word_of_nat (length ?meta))"
  note ok = assms [unfolded wal_ok_def]
  have bytes: "wal_bytes nf uuid msg @ s
      = ?hdr @ PutUint32 (word_of_nat (length ?id)) @ ?id @ ms_Payload msg @ ?meta @ s"
    by (simp only: wal_bytes_eq append_assoc)
  have h: "take 4 ?hdr = PutUint32 walMagic"
    "take 4 (drop 4 ?hdr) = PutUint32 (word_of_nat (length (ms_Payload msg)))"
    "take 4 (drop 8 ?hdr) = PutUint32 (word_of_nat (length ?meta))"
    by simp_all
  have l: "unat (word_of_nat (length ?id) :: 32 word) = length ?id"
    "unat (word_of_nat (length (ms_Payload msg)) :: 32 word) = length (ms_Payload msg)"
    "unat (word_of_nat (length ?meta) :: 32 word) = length ?meta"
    using ok by (simp_all only: unat_length)
  have r12: "ReadFull 12 (?hdr @ t) = (Inr ?hdr, t)" for t
    by (rule ReadFull_append) simp
  have r4: "ReadFull 4 (PutUint32 w @ t) = (Inr (PutUint32 w), t)" for w t
    by (rule ReadFull_append) simp
  have md: "decode_metadata nf ?meta
      = Inr (case json_norm (GMap (ms_Metadata msg)) of GMap m' \<Rightarrow> m' | _ \<Rightarrow> [])"
    using ok by (intro decode_metadata_marshal) blast
  show ?thesis
    unfolding bytes decodeWALRecord_def Let_def r12 prod.case sum.case h Uint32_Put l r4
      ReadFull_append [OF refl] md wal_norm_def
    by simp
qed

text \<open>
  C14: a record that was written whole is read back: decoding the bytes of a message, followed by
  anything, gives the message's identity, payload and metadata and leaves exactly what follows.
\<close>

theorem decode_encode:
  assumes "wal_ok nf uuid msg" and "encodeWALRecord nf uuid room msg = (None, bs, room')"
  shows "decodeWALRecord nf (bs @ s) = (Inr (wal_norm uuid msg), s)"
  using decode_wal_bytes [OF assms(1)] write_chunks_ok assms(2)
  by (simp add: encodeWALRecord_def wal_bytes_def)

section \<open>Torn records\<close>

lemma ReadFull_take:
  "n = length a \<Longrightarrow>
     ReadFull n (take k (a @ r)) =
       (if n \<le> k then (Inr a, take (k - n) r)
        else (Inl (if k = 0 then EOF else UnexpectedEOF), []))"
  by (cases "k = 0"; cases "n \<le> k") (auto simp: ReadFull_def)

text \<open>The positions between the fields of a record.\<close>

definition wal_boundaries :: "string \<Rightarrow> message \<Rightarrow> nat list" where
  "wal_boundaries uuid msg =
     (let i = length (if ms_ID msg = '''' then uuid else ms_ID msg) in
      [0, 12, 16, 16 + i, 16 + i + length (ms_Payload msg)])"

text \<open>
  C28: a torn record. A record cut at any position before its end never yields a message, and the
  reader consumes all of it. The error is \<^verbatim>\<open>io.ErrUnexpectedEOF\<close>, except that a cut
  exactly between two fields gives a plain \<^verbatim>\<open>io.EOF\<close>, which the caller cannot tell
  from the end of the segment.
\<close>

theorem decode_torn:
  assumes "wal_ok nf uuid msg" and "k < length (wal_bytes nf uuid msg)"
  shows "decodeWALRecord nf (take k (wal_bytes nf uuid msg))
     = (Inl (if k \<in> set (wal_boundaries uuid msg) then EOF else UnexpectedEOF), [])"
proof -
  define rid where "rid = (if ms_ID msg = '''' then uuid else ms_ID msg)"
  define meta where "meta = marshal (nf_format nf) (GMap (ms_Metadata msg))"
  define pl where "pl = ms_Payload msg"
  define hdr where "hdr = PutUint32 walMagic @ PutUint32 (word_of_nat (length pl))
        @ PutUint32 (word_of_nat (length meta))"
  define il where "il = PutUint32 (word_of_nat (length rid))"
  define r3 where "r3 = pl @ meta"
  define r2 where "r2 = rid @ r3"
  define r1 where "r1 = il @ r2"
  have bytes: "wal_bytes nf uuid msg = hdr @ r1"
    by (simp only: wal_bytes_eq append_assoc rid_def meta_def pl_def hdr_def il_def r1_def r2_def r3_def)
  have h: "take 4 hdr = PutUint32 walMagic"
    "take 4 (drop 4 hdr) = PutUint32 (word_of_nat (length pl))"
    "take 4 (drop 8 hdr) = PutUint32 (word_of_nat (length meta))"
    by (simp_all add: hdr_def)
  have len: "length hdr = 12" "length il = 4" by (simp_all add: hdr_def il_def)
  have l: "unat (Uint32 il) = length rid"
    "unat (Uint32 (take 4 (drop 4 hdr))) = length pl"
    "unat (Uint32 (take 4 (drop 8 hdr))) = length meta"
    using assms(1) unfolding wal_ok_def h
    by (simp_all only: il_def Uint32_Put rid_def [symmetric] pl_def [symmetric] meta_def [symmetric]
        unat_length)
  have m: "Uint32 (take 4 hdr) = walMagic" by (simp only: h Uint32_Put)
  have k: "k < 16 + length rid + length pl + length meta"
    using assms(2) unfolding bytes by (simp add: len r1_def r2_def r3_def)
  have b: "set (wal_boundaries uuid msg) = {0, 12, 16, 16 + length rid, 16 + length rid + length pl}"
    by (simp add: wal_boundaries_def rid_def pl_def Let_def)
  let ?e = "\<lambda>j. (Inl (if j = (0 :: nat) then EOF else UnexpectedEOF), [])"
  have R: "ReadFull 12 (take j (hdr @ r1)) = (if 12 \<le> j then (Inr hdr, take (j - 12) r1) else ?e j)"
    "ReadFull 4 (take j r1) = (if 4 \<le> j then (Inr il, take (j - 4) r2) else ?e j)"
    "ReadFull (length rid) (take j r2) =
       (if length rid \<le> j then (Inr rid, take (j - length rid) r3) else ?e j)"
    "ReadFull (length pl) (take j r3) =
       (if length pl \<le> j then (Inr pl, take (j - length pl) meta) else ?e j)"
    "j < length meta \<Longrightarrow> ReadFull (length meta) (take j meta) = ?e j" for j
    using ReadFull_take [of 12 hdr j r1] ReadFull_take [of 4 il j r2]
      ReadFull_take [of "length rid" rid j r3] ReadFull_take [of "length pl" pl j meta]
      ReadFull_take [of "length meta" meta j "[]"]
    by (simp_all only: len r1_def r2_def r3_def append_Nil2 not_le [symmetric] if_False simp_thms)
  consider "k < 12" | "12 \<le> k" "k < 16" | "16 \<le> k" "k < 16 + length rid"
    | "16 + length rid \<le> k" "k < 16 + length rid + length pl" | "16 + length rid + length pl \<le> k"
    by linarith
  then show ?thesis
  proof cases
    case 1
    have "decodeWALRecord nf (take k (hdr @ r1)) = ?e k"
      unfolding decodeWALRecord_def Let_def R(1) using 1 by simp
    then show ?thesis unfolding bytes b using 1 by auto
  next
    case 2
    then have n: "\<not> 4 \<le> k - 12" by linarith
    have "decodeWALRecord nf (take k (hdr @ r1)) = ?e (k - 12)"
      unfolding decodeWALRecord_def Let_def R(1) using 2 n by (simp add: m R(2))
    then show ?thesis unfolding bytes b using 2 by auto
  next
    case 3
    then have n: "4 \<le> k - 12" "\<not> length rid \<le> k - 12 - 4" by linarith+
    have "decodeWALRecord nf (take k (hdr @ r1)) = ?e (k - 12 - 4)"
      unfolding decodeWALRecord_def Let_def R(1) using 3 n by (simp add: m l R(2,3) del: diff_diff_left)
    then show ?thesis unfolding bytes b using 3 by auto
  next
    case 4
    then have n: "4 \<le> k - 12" "length rid \<le> k - 12 - 4" "\<not> length pl \<le> k - 12 - 4 - length rid"
      by linarith+
    have "decodeWALRecord nf (take k (hdr @ r1)) = ?e (k - 12 - 4 - length rid)"
      unfolding decodeWALRecord_def Let_def R(1) using 4 n by (simp add: m l R(2,3,4) del: diff_diff_left)
    then show ?thesis unfolding bytes b using 4 by auto
  next
    case 5
    then have n: "4 \<le> k - 12" "length rid \<le> k - 12 - 4" "length pl \<le> k - 12 - 4 - length rid"
      by linarith+
    have j: "k - 12 - 4 - length rid - length pl < length meta" using 5 k by linarith
    have "decodeWALRecord nf (take k (hdr @ r1)) = ?e (k - 12 - 4 - length rid - length pl)"
      unfolding decodeWALRecord_def Let_def R(1) using 5 n R(5) [OF j]
      by (simp add: m l R(2,3,4) del: diff_diff_left)
    then show ?thesis unfolding bytes b using 5 by auto
  qed
qed

definition demo_wal_msg :: message where
  "demo_wal_msg = (message_New ''hi'' (Some [(''k'', GStr ''v'')]))\<lparr>ms_ID := ''1''\<rparr>"

definition demo_nf :: float_format where
  "demo_nf = \<lparr>nf_format = (\<lambda>f. ''0''), nf_parse = (\<lambda>s. None)\<rparr>"

lemma demo_wal_ok: "wal_ok demo_nf ''u'' demo_wal_msg"
  by (simp add: wal_ok_def demo_wal_msg_def demo_nf_def message_New_def json_string_def json_char_def)

theorem decode_encode_witness:
  "decodeWALRecord demo_nf (wal_bytes demo_nf ''u'' demo_wal_msg @ ''rest'') = (Inr (wal_norm ''u'' demo_wal_msg), ''rest'')
   \<and> wal_norm ''u'' demo_wal_msg = demo_wal_msg"
proof -
  have "encodeWALRecord demo_nf ''u'' None demo_wal_msg = (None, wal_bytes demo_nf ''u'' demo_wal_msg, None)"
    by (simp add: encodeWALRecord_def write_chunks_None wal_bytes_def)
  from decode_encode [OF demo_wal_ok this, of "''rest''"] show ?thesis
    by (simp add: wal_norm_def demo_wal_msg_def message_New_def)
qed

theorem decode_torn_witness:
  "decodeWALRecord demo_nf (take 12 (wal_bytes demo_nf ''u'' demo_wal_msg)) = (Inl EOF, [])
   \<and> decodeWALRecord demo_nf (take 13 (wal_bytes demo_nf ''u'' demo_wal_msg)) = (Inl UnexpectedEOF, [])"
proof -
  have "length (wal_bytes demo_nf ''u'' demo_wal_msg) = 28"
    by (simp add: wal_bytes_eq demo_wal_msg_def message_New_def json_string_def json_char_def demo_nf_def)
  then show ?thesis
    using decode_torn [OF demo_wal_ok, of 12] decode_torn [OF demo_wal_ok, of 13]
    by (simp add: wal_boundaries_def demo_wal_msg_def message_New_def)
qed

section \<open>The interface of a record format\<close>

text \<open>
  What a reader of a log needs from the format of its records: a whole record decodes to its value
  and leaves what follows, and the empty text is the end.
\<close>

locale record_format =
  fixes ok :: "'m \<Rightarrow> bool"
    and encode :: "'m \<Rightarrow> string"
    and decode :: "string \<Rightarrow> 'r res \<times> string"
    and norm :: "'m \<Rightarrow> 'r"
  assumes decode_whole: "ok m \<Longrightarrow> decode (encode m @ s) = (Inr (norm m), s)"
    and decode_end: "decode [] = (Inl EOF, [])"
begin

fun read_all :: "nat \<Rightarrow> string \<Rightarrow> 'r list" where
  "read_all 0 s = []"
| "read_all (Suc n) s =
     (case decode s of (Inr x, s') \<Rightarrow> x # read_all n s' | (Inl _, _) \<Rightarrow> [])"

lemma encode_not_Nil: "ok m \<Longrightarrow> encode m \<noteq> []"
  using decode_whole [of m "[]"] decode_end by auto

lemma read_all_concat:
  "list_all ok ms \<Longrightarrow> length ms \<le> n \<Longrightarrow> read_all n (concat (map encode ms)) = map norm ms"
proof (induction ms arbitrary: n)
  case Nil
  then show ?case by (cases n) (simp_all add: decode_end)
next
  case (Cons m ms)
  then obtain k where "n = Suc k" "length ms \<le> k" by (cases n) auto
  with Cons show ?case by (simp add: decode_whole)
qed

text \<open>Two logs with the same bytes hold the same values.\<close>

lemma encode_concat_inj:
  assumes "list_all ok ms" "list_all ok ms'" "concat (map encode ms) = concat (map encode ms')"
  shows "map norm ms = map norm ms'"
proof -
  have "read_all (length ms + length ms') (concat (map encode ms)) = map norm ms"
    using assms(1) by (rule read_all_concat) simp
  moreover have "read_all (length ms + length ms') (concat (map encode ms')) = map norm ms'"
    using assms(2) by (rule read_all_concat) simp
  ultimately show ?thesis using assms(3) by simp
qed

end

text \<open>A record to append is a message with the identity it would be given.\<close>

definition rec_ok :: "float_format \<Rightarrow> string \<times> message \<Rightarrow> bool" where
  "rec_ok nf p = wal_ok nf (fst p) (snd p)"

definition rec_bytes :: "float_format \<Rightarrow> string \<times> message \<Rightarrow> string" where
  "rec_bytes nf p = wal_bytes nf (fst p) (snd p)"

definition rec_norm :: "string \<times> message \<Rightarrow> message" where
  "rec_norm p = wal_norm (fst p) (snd p)"

interpretation walrec: record_format "rec_ok nf" "rec_bytes nf" "decodeWALRecord nf" rec_norm for nf
proof unfold_locales
  show "decodeWALRecord nf (rec_bytes nf m @ s) = (Inr (rec_norm m), s)" if "rec_ok nf m" for m s
    using that unfolding rec_ok_def rec_bytes_def rec_norm_def by (rule decode_wal_bytes)
  show "decodeWALRecord nf [] = (Inl EOF, [])" by (simp add: decodeWALRecord_def ReadFull_def)
qed

end
