(* ===== verification/DiskWal.thy ===== *)
theory DiskWal
  imports WalRecord
begin

text \<open>
  \<^verbatim>\<open>internal/buffer/disk.go\<close>: the segmented append-only log behind a disk edge buffer,
  with the directory it lives in. The state holds the regular files of the directory and the
  consumer offset file; an open file is the position of its handle. The only I/O fault is running
  out of space while a record is written. Every operation of the code holds the mutex of the log
  from start to end, so an interleaving of goroutines is a sequence of operations.
\<close>

section \<open>State\<close>

record offset_state =
  of_Segment :: string
  of_Offset :: nat

definition zero_offset :: offset_state where
  "zero_offset = \<lparr>of_Segment = '''', of_Offset = 0\<rparr>"

text \<open>
  The offset file is missing, unreadable (a read error or text that is not an offset) or an
  offset.
\<close>

record wal_fs =
  fs_files :: "(string \<times> string) list"
  fs_offset :: "offset_state res option"

record disk_wal =
  dw_fs :: wal_fs
  dw_segmentSize :: int
  dw_maxSize :: int
  dw_currentSegment :: string
  dw_currentFile :: "nat option"
  dw_currentSize :: nat
  dw_totalSize :: int
  dw_readSegment :: string
  dw_readFile :: "nat option"
  dw_readOffset :: nat
  dw_offset :: offset_state
  dw_dirty :: bool

record disk_options =
  do_SegmentSize :: int
  do_MaxSize :: int

definition DefaultSegmentSize :: int where "DefaultSegmentSize = 64 * 2 ^ 20"
definition DefaultDiskMaxSize :: int where "DefaultDiskMaxSize = 2 ^ 30"

abbreviation dw_files :: "disk_wal \<Rightarrow> (string \<times> string) list" where
  "dw_files w \<equiv> fs_files (dw_fs w)"

definition file_content :: "disk_wal \<Rightarrow> string \<Rightarrow> string" where
  "file_content w name = map_str (dw_files w) name"

section \<open>Segments\<close>

definition is_segment :: "string \<Rightarrow> bool" where
  "is_segment name \<longleftrightarrow> HasPrefix name ''seg-'' \<and> HasSuffix name ''.wal''"

definition listSegments :: "disk_wal \<Rightarrow> string list" where
  "listSegments w = sort (filter is_segment (map fst (dw_files w)))"

text \<open>\<^verbatim>\<open>strconv.Atoi\<close> on 64-bit integers.\<close>

definition Atoi :: "string \<Rightarrow> int option" where
  "Atoi s =
     (let neg = (s \<noteq> [] \<and> hd s = CHR ''-'');
          ds = (if s \<noteq> [] \<and> (hd s = CHR ''-'' \<or> hd s = CHR ''+'') then tl s else s);
          v = (if neg then - int (digits_val ds) else int (digits_val ds)) in
      if ds \<noteq> [] \<and> list_all is_digit ds \<and> - (2 ^ 63) \<le> v \<and> v < 2 ^ 63 then Some v else None)"

text \<open>The verb \<^verbatim>\<open>%06d\<close>: zeros between the sign and the digits, six characters at least.\<close>

definition format06d :: "int \<Rightarrow> string" where
  "format06d n =
     (let ds = nat_digits (nat \<bar>n\<bar>) in
      if n < 0 then CHR ''-'' # replicate (5 - length ds) (CHR ''0'') @ ds
      else replicate (6 - length ds) (CHR ''0'') @ ds)"

definition seg_name :: "int \<Rightarrow> string" where
  "seg_name n = ''seg-'' @ format06d n @ ''.wal''"

definition nextSegmentName :: "disk_wal \<Rightarrow> string" where
  "nextSegmentName w =
     (let segs = listSegments w;
          next = (if segs = [] then 1
                  else case Atoi (TrimPrefix (TrimSuffix (last segs) ''.wal'') ''seg-'') of
                         Some n \<Rightarrow> n + 1
                       | None \<Rightarrow> 1) in
      seg_name next)"

section \<open>The writing side\<close>

definition persistOffset :: "disk_wal \<Rightarrow> disk_wal" where
  "persistOffset w = w\<lparr>dw_fs := (dw_fs w)\<lparr>fs_offset := Some (Inr (dw_offset w))\<rparr>\<rparr>"

definition fsyncLocked :: "disk_wal \<Rightarrow> disk_wal" where
  "fsyncLocked w =
     (if dw_currentFile w = None \<or> \<not> dw_dirty w then w
      else persistOffset (w\<lparr>dw_dirty := False\<rparr>))"

text \<open>\<^verbatim>\<open>os.OpenFile\<close> with \<^verbatim>\<open>O_CREATE|O_APPEND\<close>: the handle starts at position 0.\<close>

definition open_segment :: "disk_wal \<Rightarrow> string \<Rightarrow> disk_wal" where
  "open_segment w name =
     (let fs = dw_fs w;
          files = (if map_of (fs_files fs) name = None then fs_files fs @ [(name, '''')] else fs_files fs);
          w' = w\<lparr>dw_fs := fs\<lparr>fs_files := files\<rparr>\<rparr> in
      w'\<lparr>dw_currentSegment := name, dw_currentFile := Some 0,
         dw_currentSize := length (file_content w' name)\<rparr>)"

definition ensureWriter :: "disk_wal \<Rightarrow> disk_wal" where
  "ensureWriter w =
     (if dw_currentFile w \<noteq> None \<and> int (dw_currentSize w) < dw_segmentSize w then w
      else
        let w1 = (if dw_currentFile w \<noteq> None then (fsyncLocked w)\<lparr>dw_currentFile := None\<rparr> else w) in
        open_segment w1 (nextSegmentName w1))"

text \<open>An append moves the handle to the new end of the file.\<close>

definition append_bytes :: "disk_wal \<Rightarrow> string \<Rightarrow> disk_wal" where
  "append_bytes w bs =
     (let name = dw_currentSegment w; content = file_content w name @ bs in
      w\<lparr>dw_fs := (dw_fs w)\<lparr>fs_files := AList.update name content (dw_files w)\<rparr>,
        dw_currentFile := Some (length content)\<rparr>)"

text \<open>\<open>room\<close> is the space left on the disk, \<open>uuid\<close> the identity made up for the record.\<close>

definition WAL_Append ::
  "float_format \<Rightarrow> string \<Rightarrow> nat option \<Rightarrow> message \<Rightarrow> disk_wal \<Rightarrow> goerr option \<times> disk_wal" where
  "WAL_Append nf uuid room msg w =
     (if dw_totalSize w \<ge> dw_maxSize w then (Some (Err ''disk buffer full'' []), w)
      else
        let w1 = ensureWriter w;
            before = (case dw_currentFile w1 of None \<Rightarrow> 0 | Some p \<Rightarrow> p) in
        (case encodeWALRecord nf uuid room msg of
           (Some err, bs, _) \<Rightarrow> (Some err, if bs = [] then w1 else append_bytes w1 bs)
         | (None, bs, _) \<Rightarrow>
             let w2 = append_bytes w1 bs;
                 after = (case dw_currentFile w2 of None \<Rightarrow> 0 | Some p \<Rightarrow> p) in
             (None,
              w2\<lparr>dw_currentSize := after,
                 dw_totalSize := dw_totalSize w2 + (int after - int before),
                 dw_dirty := True\<rparr>)))"

section \<open>The reading side\<close>

definition openReadSegment :: "disk_wal \<Rightarrow> disk_wal" where
  "openReadSegment w =
     (if dw_readFile w \<noteq> None then w
      else
        let segs = listSegments w in
        if segs = [] then w
        else
          let found = (of_Segment (dw_offset w) \<noteq> '''' \<and> of_Segment (dw_offset w) \<in> set segs);
              start = (if found then of_Segment (dw_offset w) else hd segs);
              offset = (if found then of_Offset (dw_offset w) else 0) in
          w\<lparr>dw_readSegment := start, dw_readFile := Some offset, dw_readOffset := offset\<rparr>)"

text \<open>The handling of the end of a segment that is not the one being written.\<close>

definition dropReadSegment :: "disk_wal \<Rightarrow> disk_wal" where
  "dropReadSegment w =
     (let seg = dw_readSegment w;
          w1 = w\<lparr>dw_readFile := None, dw_readSegment := ''''\<rparr>;
          w2 = (if seg \<noteq> '''' then
                  (let w1' = (if map_of (dw_files w1) seg \<noteq> None
                              then w1\<lparr>dw_totalSize := max 0 (dw_totalSize w1 - int (length (file_content w1 seg)))\<rparr>
                              else w1) in
                   w1'\<lparr>dw_fs := (dw_fs w1')\<lparr>fs_files := AList.delete seg (dw_files w1')\<rparr>\<rparr>)
                else w1) in
      persistOffset (w2\<lparr>dw_offset := zero_offset\<rparr>))"

text \<open>
  The loop of \<^verbatim>\<open>ReadNext\<close>. Every turn after the first removes a file, so the number of
  files bounds the turns; \<^const>\<open>None\<close> means the bound was too small.
\<close>

fun ReadNext_loop ::
  "float_format \<Rightarrow> nat \<Rightarrow> disk_wal \<Rightarrow> (message option res \<times> disk_wal) option" where
  "ReadNext_loop nf 0 w = None"
| "ReadNext_loop nf (Suc n) w =
     (let w1 = (if dw_readFile w = None then openReadSegment w else w) in
      case dw_readFile w1 of
        None \<Rightarrow> Some (Inr None, w1)
      | Some pos \<Rightarrow>
          let content = file_content w1 (dw_readSegment w1) in
          (case decodeWALRecord nf (drop pos content) of
             (Inr msg, rest) \<Rightarrow>
               let pos' = length content - length rest;
                   off = \<lparr>of_Segment = dw_readSegment w1, of_Offset = pos'\<rparr> in
               Some (Inr (Some msg),
                     persistOffset (w1\<lparr>dw_readFile := Some pos', dw_readOffset := pos', dw_offset := off\<rparr>))
           | (Inl err, rest) \<Rightarrow>
               let w2 = w1\<lparr>dw_readFile := Some (max pos (length content - length rest))\<rparr> in
               if \<not> errors_Is err EOF then Some (Inl err, w2)
               else if dw_readSegment w2 = dw_currentSegment w2 then Some (Inr None, w2)
               else
                 let w3 = openReadSegment (dropReadSegment w2) in
                 if dw_readFile w3 = None then Some (Inr None, w3) else ReadNext_loop nf n w3))"

definition WAL_ReadNext :: "float_format \<Rightarrow> disk_wal \<Rightarrow> message option res \<times> disk_wal" where
  "WAL_ReadNext nf w =
     (case ReadNext_loop nf (Suc (Suc (length (dw_files w)))) w of
        Some r \<Rightarrow> r
      | None \<Rightarrow> (Inr None, w))"

definition WAL_Pending :: "disk_wal \<Rightarrow> bool" where
  "WAL_Pending w \<longleftrightarrow> dw_readFile w \<noteq> None \<or> listSegments w \<noteq> []"

definition WAL_SizeBytes :: "disk_wal \<Rightarrow> int" where
  "WAL_SizeBytes w = dw_totalSize w"

definition WAL_SegmentCount :: "disk_wal \<Rightarrow> nat" where
  "WAL_SegmentCount w = length (listSegments w)"

definition WAL_Fsync :: "disk_wal \<Rightarrow> disk_wal" where
  "WAL_Fsync w = fsyncLocked w"

definition WAL_Close :: "disk_wal \<Rightarrow> disk_wal" where
  "WAL_Close w =
     (let w1 = (if dw_currentFile w \<noteq> None then (fsyncLocked w)\<lparr>dw_currentFile := None\<rparr> else w) in
      w1\<lparr>dw_readFile := None\<rparr>)"

section \<open>Opening a log\<close>

definition scanTotalSize :: "disk_wal \<Rightarrow> disk_wal" where
  "scanTotalSize w =
     w\<lparr>dw_totalSize := sum_list (map (\<lambda>s. int (length (file_content w s))) (listSegments w))\<rparr>"

definition loadOffset :: "disk_wal \<Rightarrow> disk_wal res" where
  "loadOffset w =
     (case fs_offset (dw_fs w) of
        None \<Rightarrow> Inr w
      | Some (Inl err) \<Rightarrow> Inl err
      | Some (Inr off) \<Rightarrow> Inr (w\<lparr>dw_offset := off\<rparr>))"

definition NewDiskWAL :: "disk_options \<Rightarrow> wal_fs \<Rightarrow> disk_wal res" where
  "NewDiskWAL opts fs =
     (let w = \<lparr>dw_fs = fs,
               dw_segmentSize = (if do_SegmentSize opts \<le> 0 then DefaultSegmentSize else do_SegmentSize opts),
               dw_maxSize = (if do_MaxSize opts \<le> 0 then DefaultDiskMaxSize else do_MaxSize opts),
               dw_currentSegment = '''', dw_currentFile = None, dw_currentSize = 0, dw_totalSize = 0,
               dw_readSegment = '''', dw_readFile = None, dw_readOffset = 0, dw_offset = zero_offset,
               dw_dirty = False\<rparr> in
      case loadOffset w of
        Inl err \<Rightarrow> Inl err
      | Inr w1 \<Rightarrow> Inr (openReadSegment (scanTotalSize w1)))"

section \<open>The order of segment names\<close>

text \<open>Decimal numbers padded with zeros to a fixed width.\<close>

fun pad :: "nat \<Rightarrow> nat \<Rightarrow> string" where
  "pad 0 n = []"
| "pad (Suc w) n = pad w (n div 10) @ [digit_char (n mod 10)]"

lemma pad_length [simp]: "length (pad w n) = w"
  by (induction w arbitrary: n) simp_all

lemma digit_char_less: "d < e \<Longrightarrow> e < 10 \<Longrightarrow> digit_char d < digit_char e"
  by (simp add: digit_char_def less_char_def)

lemma append_less_append:
  fixes xs ys :: string
  shows "length xs = length ys \<Longrightarrow> xs < ys \<Longrightarrow> xs @ us < ys @ vs"
  by (induction xs ys rule: list_induct2) auto

lemma same_prefix_less: "(xs @ us < xs @ (vs :: string)) = (us < vs)"
  by (induction xs) auto

lemma pad_less: "a < b \<Longrightarrow> b < 10 ^ w \<Longrightarrow> pad w a < pad w b"
proof (induction w arbitrary: a b)
  case 0
  then show ?case by simp
next
  case (Suc w)
  have b: "b div 10 < 10 ^ w" using Suc.prems(2) by (simp add: less_mult_imp_div_less mult.commute)
  show ?case
  proof (cases "a div 10 = b div 10")
    case True
    then have "a mod 10 < b mod 10"
      using Suc.prems(1) by (metis div_mod_decomp nat_add_left_cancel_less)
    then show ?thesis using True by (simp add: same_prefix_less digit_char_less)
  next
    case False
    then have "a div 10 < b div 10" using Suc.prems(1) by (simp add: div_le_mono le_neq_implies_less)
    from append_less_append [OF _ Suc.IH [OF this b]] show ?thesis by simp
  qed
qed

lemma pad_nat_digits:
  "n < 10 ^ w \<Longrightarrow> 0 < w \<Longrightarrow> replicate (w - length (nat_digits n)) (CHR ''0'') @ nat_digits n = pad w n
     \<and> length (nat_digits n) \<le> w"
proof (induction w arbitrary: n)
  case 0
  then show ?case by simp
next
  case (Suc w)
  have d0: "digit_char 0 = CHR ''0''" by code_simp
  have zero: "pad k 0 = replicate k (CHR ''0'')" for k
    by (induction k) (simp_all add: d0 replicate_append_same)
  show ?case
  proof (cases "n < 10")
    case True
    then show ?thesis using zero [of w] by (subst (1 2 3) nat_digits.simps) simp
  next
    case False
    then have "w \<noteq> 0" "n div 10 < 10 ^ w"
      using Suc.prems(1) by (auto simp: less_mult_imp_div_less mult.commute intro: gr0I)
    then have "replicate (w - length (nat_digits (n div 10))) (CHR ''0'') @ nat_digits (n div 10) = pad w (n div 10)
        \<and> length (nat_digits (n div 10)) \<le> w"
      using Suc.IH by simp
    then show ?thesis using False by (subst (1 2 3) nat_digits.simps) simp
  qed
qed

abbreviation seg_limit :: nat where "seg_limit \<equiv> 1000000"

definition sname :: "nat \<Rightarrow> string" where
  "sname n = seg_name (int n)"

lemma sname_pad: "n < seg_limit \<Longrightarrow> sname n = ''seg-'' @ pad 6 n @ ''.wal''"
  using pad_nat_digits [of n 6] by (simp add: sname_def seg_name_def format06d_def Let_def)

lemma sname_less: "a < b \<Longrightarrow> b < seg_limit \<Longrightarrow> sname a < sname b"
proof -
  assume "a < b" "b < seg_limit"
  then have "pad 6 a < pad 6 b" by (intro pad_less) simp_all
  then have "pad 6 a @ ''.wal'' < pad 6 b @ ''.wal''" by (rule append_less_append [rotated]) simp
  then show ?thesis
    using \<open>a < b\<close> \<open>b < seg_limit\<close> by (simp only: sname_pad same_prefix_less)
qed

lemma sname_inj: "a < seg_limit \<Longrightarrow> b < seg_limit \<Longrightarrow> sname a = sname b \<Longrightarrow> a = b"
  using sname_less [of a b] sname_less [of b a] by (cases a b rule: linorder_cases) auto

lemma sname_segment [simp]: "is_segment (sname n)"
  unfolding is_segment_def sname_def seg_name_def
  using HasSuffix_append [of "''seg-'' @ format06d (int n)" "''.wal''"] by simp

lemma sname_not_Nil [simp]: "sname n \<noteq> []"
  by (simp add: sname_def seg_name_def)

lemma Nil_not_sname [simp]: "[] \<noteq> sname n"
  using sname_not_Nil by metis

lemma Atoi_sname:
  "n < seg_limit \<Longrightarrow> Atoi (TrimPrefix (TrimSuffix (sname n) ''.wal'') ''seg-'') = Some (int n)"
proof -
  assume n: "n < seg_limit"
  have "TrimSuffix (sname n) ''.wal'' = ''seg-'' @ format06d (int n)"
    unfolding sname_def seg_name_def by (metis TrimSuffix_append append.assoc)
  then have t: "TrimPrefix (TrimSuffix (sname n) ''.wal'') ''seg-'' = format06d (int n)"
    by (simp only: TrimPrefix_append)
  let ?f = "format06d (int n)"
  have f: "?f = replicate (6 - length (nat_digits n)) (CHR ''0'') @ nat_digits n"
    by (simp add: format06d_def Let_def)
  have zeros: "digits_val (replicate k (CHR ''0'') @ ds) = digits_val ds" for k ds
    by (induction k) (simp_all add: digits_val_def digit_val_def)
  have dig: "list_all is_digit ?f" "?f \<noteq> []"
    using nat_digits_digits by (auto simp: f list_all_iff is_digit_def)
  then have hd: "is_digit (hd ?f)" by (cases ?f) auto
  then have "hd ?f \<noteq> CHR ''-'' \<and> hd ?f \<noteq> CHR ''+''" by (auto simp: is_digit_def)
  moreover have "digits_val ?f = n" unfolding f zeros by simp
  ultimately show ?thesis using dig n unfolding t Atoi_def Let_def by simp
qed

section \<open>Well-formed logs\<close>

text \<open>
  The ghost view of a directory: the segments in order, each with its number and the records
  written to it, and how many records of the first segment have been read.
\<close>

type_synonym wal_segs = "(nat \<times> (string \<times> message) list) list"

definition recs_bytes :: "float_format \<Rightarrow> (string \<times> message) list \<Rightarrow> string" where
  "recs_bytes nf rs = concat (map (rec_bytes nf) rs)"

definition seg_names :: "wal_segs \<Rightarrow> string list" where
  "seg_names segs = map (sname \<circ> fst) segs"

definition read_pos :: "float_format \<Rightarrow> wal_segs \<Rightarrow> nat \<Rightarrow> nat" where
  "read_pos nf segs k = (case segs of [] \<Rightarrow> 0 | s # _ \<Rightarrow> length (recs_bytes nf (take k (snd s))))"

definition files_ok :: "float_format \<Rightarrow> wal_segs \<Rightarrow> (string \<times> string) list \<Rightarrow> bool" where
  "files_ok nf segs files \<longleftrightarrow>
     sorted_wrt (<) (map fst segs) \<and>
     (\<forall>(n, rs) \<in> set segs. 0 < n \<and> n < seg_limit \<and> list_all (rec_ok nf) rs \<and>
        map_of files (sname n) = Some (recs_bytes nf rs)) \<and>
     distinct (map fst files) \<and>
     (\<forall>f \<in> set (map fst files). is_segment f \<longrightarrow> f \<in> set (seg_names segs))"

definition offset_ok :: "float_format \<Rightarrow> wal_segs \<Rightarrow> nat \<Rightarrow> offset_state \<Rightarrow> bool" where
  "offset_ok nf segs k off \<longleftrightarrow>
     (segs \<noteq> [] \<and> of_Segment off = sname (fst (hd segs)) \<and> of_Offset off = read_pos nf segs k \<and>
        k \<le> length (snd (hd segs)))
     \<or> (of_Segment off = '''' \<and> k = 0)"

definition dir_ok :: "float_format \<Rightarrow> wal_segs \<Rightarrow> nat \<Rightarrow> wal_fs \<Rightarrow> bool" where
  "dir_ok nf segs k fs \<longleftrightarrow>
     files_ok nf segs (fs_files fs) \<and>
     (case fs_offset fs of
        None \<Rightarrow> k = 0
      | Some (Inl e) \<Rightarrow> False
      | Some (Inr off) \<Rightarrow> offset_ok nf segs k off)"

definition writer_ok :: "float_format \<Rightarrow> wal_segs \<Rightarrow> nat option \<Rightarrow> string \<Rightarrow> nat \<Rightarrow> bool" where
  "writer_ok nf segs file name sz \<longleftrightarrow>
     (case file of
        None \<Rightarrow> name = ''''
      | Some p \<Rightarrow> segs \<noteq> [] \<and> name = sname (fst (last segs)) \<and>
                  p = length (recs_bytes nf (snd (last segs))) \<and> sz = p)"

definition reader_ok :: "float_format \<Rightarrow> wal_segs \<Rightarrow> nat \<Rightarrow> nat option \<Rightarrow> string \<Rightarrow> bool" where
  "reader_ok nf segs k file name \<longleftrightarrow>
     (case file of
        None \<Rightarrow> True
      | Some p \<Rightarrow> segs \<noteq> [] \<and> name = sname (fst (hd segs)) \<and> p = read_pos nf segs k)"

definition segs_size :: "float_format \<Rightarrow> wal_segs \<Rightarrow> int" where
  "segs_size nf segs = sum_list (map (\<lambda>s. int (length (recs_bytes nf (snd s)))) segs)"

definition wal_ok_state :: "float_format \<Rightarrow> wal_segs \<Rightarrow> nat \<Rightarrow> disk_wal \<Rightarrow> bool" where
  "wal_ok_state nf segs k w \<longleftrightarrow>
     files_ok nf segs (dw_files w) \<and>
     offset_ok nf segs k (dw_offset w) \<and>
     dir_ok nf segs k (dw_fs w) \<and>
     dw_totalSize w = segs_size nf segs \<and>
     writer_ok nf segs (dw_currentFile w) (dw_currentSegment w) (dw_currentSize w) \<and>
     reader_ok nf segs k (dw_readFile w) (dw_readSegment w)"

text \<open>The messages that are still to be read, oldest first.\<close>

definition pending :: "wal_segs \<Rightarrow> nat \<Rightarrow> message list" where
  "pending segs k = map rec_norm (drop k (concat (map snd segs)))"

lemma seg_names_sorted:
  "files_ok nf segs files \<Longrightarrow> sorted_wrt (<) (seg_names segs)"
proof -
  assume "files_ok nf segs files"
  then have "sorted_wrt (<) (map fst segs)" "\<forall>n \<in> set (map fst segs). n < seg_limit"
    by (auto simp: files_ok_def)
  then have "sorted_wrt (<) (map sname (map fst segs))"
    by (induction segs) (auto intro: sname_less)
  then show ?thesis by (simp add: seg_names_def)
qed

lemma listSegments_ok:
  assumes "files_ok nf segs (dw_files w)"
  shows "listSegments w = seg_names segs"
  unfolding listSegments_def
proof (rule sorted_distinct_set_unique)
  have s: "sorted_wrt (<) (seg_names segs)" using assms by (rule seg_names_sorted)
  show "sorted (seg_names segs)" "distinct (seg_names segs)"
    using s by (simp_all add: strict_sorted_iff)
  show "distinct (sort (filter is_segment (map fst (dw_files w))))"
    using assms by (simp add: files_ok_def distinct_map)
  show "set (sort (filter is_segment (map fst (dw_files w)))) = set (seg_names segs)"
  proof (intro set_eqI iffI)
    fix f assume "f \<in> set (sort (filter is_segment (map fst (dw_files w))))"
    then show "f \<in> set (seg_names segs)" using assms by (auto simp: files_ok_def)
  next
    fix f assume "f \<in> set (seg_names segs)"
    then obtain n rs where "(n, rs) \<in> set segs" "f = sname n" by (auto simp: seg_names_def)
    then have "map_of (dw_files w) f = Some (recs_bytes nf rs)" "is_segment f"
      using assms by (auto simp: files_ok_def)
    then show "f \<in> set (sort (filter is_segment (map fst (dw_files w))))"
      by (force dest: map_of_SomeD)
  qed
qed simp

lemma file_content_ok:
  "files_ok nf segs (dw_files w) \<Longrightarrow> (n, rs) \<in> set segs \<Longrightarrow> file_content w (sname n) = recs_bytes nf rs"
  by (auto simp: file_content_def map_str_def files_ok_def)

lemma nextSegmentName_ok:
  assumes "files_ok nf segs (dw_files w)"
  shows "nextSegmentName w = sname (if segs = [] then 1 else Suc (fst (last segs)))"
proof (cases "segs = []")
  case True
  then show ?thesis
    by (simp add: nextSegmentName_def listSegments_ok [OF assms] seg_names_def sname_def)
next
  case False
  then have "last segs \<in> set segs" by simp
  then have n: "fst (last segs) < seg_limit" using assms by (auto simp: files_ok_def)
  have l: "last (seg_names segs) = sname (fst (last segs))" "seg_names segs \<noteq> []"
    using False by (simp_all add: seg_names_def last_map)
  show ?thesis
    using False by (simp add: nextSegmentName_def listSegments_ok [OF assms] l Atoi_sname [OF n] Let_def)
      (simp add: sname_def add.commute)
qed

lemma recs_bytes_append: "recs_bytes nf (xs @ ys) = recs_bytes nf xs @ recs_bytes nf ys"
  by (simp add: recs_bytes_def)

lemma wal_ok_stateD:
  assumes "wal_ok_state nf segs k w"
  shows "files_ok nf segs (dw_files w)" "offset_ok nf segs k (dw_offset w)" "dir_ok nf segs k (dw_fs w)"
  using assms by (simp_all add: wal_ok_state_def)

lemma sorted_last:
  "sorted_wrt (<) (map fst segs) \<Longrightarrow> x \<in> set segs \<Longrightarrow> fst x \<le> fst (last segs :: nat \<times> 'b)"
proof (induction segs)
  case (Cons s segs)
  show ?case
  proof (cases "segs = []")
    case False
    then have "last segs \<in> set segs" by simp
    then have "fst s < fst (last segs)" using Cons.prems(1) by auto
    then show ?thesis using Cons.IH Cons.prems False by (cases "x = s") (simp_all add: less_imp_le)
  qed (use Cons in simp)
qed simp

subsection \<open>Writing\<close>

text \<open>Only the offset file and the dirty flag change.\<close>

lemma fsyncLocked_fields [simp]:
  "dw_files (fsyncLocked w) = dw_files w" "dw_currentSegment (fsyncLocked w) = dw_currentSegment w"
  "dw_currentFile (fsyncLocked w) = dw_currentFile w" "dw_currentSize (fsyncLocked w) = dw_currentSize w"
  "dw_readFile (fsyncLocked w) = dw_readFile w" "dw_readSegment (fsyncLocked w) = dw_readSegment w"
  "dw_offset (fsyncLocked w) = dw_offset w" "dw_totalSize (fsyncLocked w) = dw_totalSize w"
  "dw_maxSize (fsyncLocked w) = dw_maxSize w" "dw_segmentSize (fsyncLocked w) = dw_segmentSize w"
  by (simp_all add: fsyncLocked_def persistOffset_def)

lemma fsyncLocked_ok:
  assumes "wal_ok_state nf segs k w"
  shows "wal_ok_state nf segs k (fsyncLocked w)"
proof -
  have "dir_ok nf segs k (dw_fs (fsyncLocked w))"
    using assms by (simp add: fsyncLocked_def persistOffset_def wal_ok_state_def dir_ok_def)
  then show ?thesis using assms by (simp add: wal_ok_state_def)
qed

text \<open>Whether the next append starts a new segment.\<close>

definition rolls :: "disk_wal \<Rightarrow> bool" where
  "rolls w \<longleftrightarrow> dw_currentFile w = None \<or> dw_segmentSize w \<le> int (dw_currentSize w)"

definition rolled :: "disk_wal \<Rightarrow> wal_segs \<Rightarrow> wal_segs" where
  "rolled w segs = (if rolls w then segs @ [(if segs = [] then 1 else Suc (fst (last segs)), [])] else segs)"

lemma files_ok_new:
  assumes f: "files_ok nf segs files" and n: "n = (if segs = [] then 1 else Suc (fst (last segs)))"
    and lim: "n < seg_limit"
  shows "map_of files (sname n) = None" "files_ok nf (segs @ [(n, [])]) (files @ [(sname n, '''')])"
proof -
  have le: "fst x < n" if "x \<in> set segs" for x
    using that sorted_last [of segs x] f by (auto simp: n files_ok_def)
  have fresh: "sname n \<notin> set (map fst files)"
  proof
    assume "sname n \<in> set (map fst files)"
    then have "sname n \<in> set (seg_names segs)" using f unfolding files_ok_def by (meson sname_segment)
    then obtain x where x: "x \<in> set segs" "sname n = sname (fst x)" by (auto simp: seg_names_def)
    then have "fst x = n" using sname_inj lim le [OF x(1)] by auto
    then show False using le [OF x(1)] by simp
  qed
  then show none: "map_of files (sname n) = None" by (simp add: map_of_eq_None_iff)
  show "files_ok nf (segs @ [(n, [])]) (files @ [(sname n, '''')])"
    using f fresh lim none le
    by (auto simp: files_ok_def sorted_wrt_append seg_names_def recs_bytes_def map_add_def n
        split: option.splits)
qed

lemma offset_ok_rolled:
  "offset_ok nf segs k off \<Longrightarrow> offset_ok nf (segs @ [(n, [])]) k off"
  by (cases segs) (auto simp: offset_ok_def read_pos_def)

lemma ensureWriter_ok:
  assumes ok: "wal_ok_state nf segs k w" and lim: "\<forall>(n, rs) \<in> set (rolled w segs). n < seg_limit"
  shows "wal_ok_state nf (rolled w segs) k (ensureWriter w)"
    and "dw_currentFile (ensureWriter w) \<noteq> None"
    and "dw_maxSize (ensureWriter w) = dw_maxSize w"
proof -
  have "wal_ok_state nf (rolled w segs) k (ensureWriter w) \<and> dw_currentFile (ensureWriter w) \<noteq> None
      \<and> dw_maxSize (ensureWriter w) = dw_maxSize w"
  proof (cases "rolls w")
    case False
    then show ?thesis using ok by (auto simp: rolled_def rolls_def ensureWriter_def)
  next
    case True
    define n where "n = (if segs = [] then 1 else Suc (fst (last segs)))"
    have r: "rolled w segs = segs @ [(n, [])]" using True by (simp add: rolled_def n_def)
    have nl: "n < seg_limit" using lim r by auto
    define w1 where "w1 = (if dw_currentFile w \<noteq> None then (fsyncLocked w)\<lparr>dw_currentFile := None\<rparr> else w)"
    have w1: "dw_files w1 = dw_files w" "dw_readFile w1 = dw_readFile w" "dw_readSegment w1 = dw_readSegment w"
      "dw_offset w1 = dw_offset w" "dw_totalSize w1 = dw_totalSize w" "dw_maxSize w1 = dw_maxSize w"
      by (simp_all add: w1_def)
    have d1: "dir_ok nf segs k (dw_fs w1)"
      using wal_ok_stateD(3) [OF fsyncLocked_ok [OF ok]] wal_ok_stateD(3) [OF ok] by (simp add: w1_def)
    note f = wal_ok_stateD(1) [OF ok]
    note F = files_ok_new [OF f n_def nl]
    have nn: "nextSegmentName w1 = sname n"
      using nextSegmentName_ok [of nf segs w1] f w1(1) by (simp add: n_def)
    have e: "ensureWriter w = open_segment w1 (sname n)"
      using True nn by (auto simp: ensureWriter_def rolls_def w1_def Let_def)
    have none: "map_of (fs_files (dw_fs w1)) (sname n) = None" using F(1) w1(1) by simp
    have fs: "dw_fs (ensureWriter w) = (dw_fs w1)\<lparr>fs_files := dw_files w @ [(sname n, '''')]\<rparr>"
      unfolding e using none w1(1) by (simp add: open_segment_def Let_def)
    have size: "dw_currentSize (ensureWriter w) = 0"
      unfolding e using none w1(1) by (simp add: open_segment_def Let_def file_content_def map_str_def map_add_def)
    have other: "dw_currentSegment (ensureWriter w) = sname n" "dw_currentFile (ensureWriter w) = Some 0"
      "dw_readFile (ensureWriter w) = dw_readFile w" "dw_readSegment (ensureWriter w) = dw_readSegment w"
      "dw_offset (ensureWriter w) = dw_offset w" "dw_totalSize (ensureWriter w) = dw_totalSize w"
      "dw_maxSize (ensureWriter w) = dw_maxSize w"
      unfolding e by (simp_all add: open_segment_def Let_def w1)
    have dir: "dir_ok nf (segs @ [(n, [])]) k (dw_fs (ensureWriter w))"
      using d1 F(2) unfolding fs
      by (auto simp: dir_ok_def offset_ok_rolled split: option.splits sum.splits)
    have off: "offset_ok nf (segs @ [(n, [])]) k (dw_offset w)"
      using wal_ok_stateD(2) [OF ok] by (rule offset_ok_rolled)
    have rd: "reader_ok nf (segs @ [(n, [])]) k (dw_readFile w) (dw_readSegment w)"
      using ok by (cases segs) (auto simp: wal_ok_state_def reader_ok_def read_pos_def split: option.splits)
    have tot: "dw_totalSize w = segs_size nf (segs @ [(n, [])])"
      using ok by (simp add: wal_ok_state_def recs_bytes_def segs_size_def)
    show ?thesis
      unfolding r wal_ok_state_def other size
      using F(2) dir off rd tot by (simp add: fs recs_bytes_def writer_ok_def)
  qed
  then show "wal_ok_state nf (rolled w segs) k (ensureWriter w)" "dw_currentFile (ensureWriter w) \<noteq> None"
    "dw_maxSize (ensureWriter w) = dw_maxSize w" by blast+
qed

definition add_rec :: "wal_segs \<Rightarrow> string \<times> message \<Rightarrow> wal_segs" where
  "add_rec segs r = butlast segs @ [(fst (last segs), snd (last segs) @ [r])]"

definition seg_top :: "wal_segs \<Rightarrow> nat" where
  "seg_top segs = (if segs = [] then 0 else fst (last segs))"

lemma seg_limit_rolled:
  assumes "files_ok nf segs files" and "Suc (seg_top segs) < seg_limit" and "(n, rs) \<in> set (rolled w segs)"
  shows "n < seg_limit"
  using assms by (auto simp: rolled_def seg_top_def files_ok_def split: if_splits)

lemma offset_ok_k: "offset_ok nf segs k off \<Longrightarrow> k = 0 \<or> (segs \<noteq> [] \<and> k \<le> length (snd (hd segs)))"
  by (auto simp: offset_ok_def)

lemma pending_add_rec:
  assumes "segs \<noteq> []" and "k = 0 \<or> k \<le> length (snd (hd segs))"
  shows "pending (add_rec segs r) k = pending segs k @ [rec_norm r]"
proof -
  obtain ys n rs where segs: "segs = ys @ [(n, rs)]" using assms(1) by (cases segs rule: rev_cases) auto
  have "k \<le> length (concat (map snd segs))"
    using assms by (cases segs) auto
  then show ?thesis by (simp add: pending_def add_rec_def segs)
qed

lemma pending_rolled: "pending (rolled w segs) k = pending segs k"
  by (simp add: pending_def rolled_def)

lemma read_pos_add_rec:
  assumes "segs \<noteq> []" and "k = 0 \<or> k \<le> length (snd (hd segs))"
  shows "read_pos nf (add_rec segs r) k = read_pos nf segs k"
  using assms by (cases segs) (auto simp: read_pos_def add_rec_def)

lemma append_bytes_ok:
  assumes ok: "wal_ok_state nf segs k w" and opened: "dw_currentFile w \<noteq> None" and r: "rec_ok nf r"
    and w': "w' = (append_bytes w (rec_bytes nf r))
      \<lparr>dw_currentSize := length (recs_bytes nf (snd (last segs)) @ rec_bytes nf r),
       dw_totalSize := dw_totalSize w + int (length (rec_bytes nf r)), dw_dirty := True\<rparr>"
  shows "wal_ok_state nf (add_rec segs r) k w'"
    and "dw_currentFile (append_bytes w (rec_bytes nf r)) = Some (length (recs_bytes nf (snd (last segs)) @ rec_bytes nf r))"
    and "dw_currentFile w = Some (length (recs_bytes nf (snd (last segs))))"
proof -
  note f = wal_ok_stateD(1) [OF ok]
  have wr: "segs \<noteq> []" "dw_currentSegment w = sname (fst (last segs))"
    "dw_currentFile w = Some (length (recs_bytes nf (snd (last segs))))"
    using ok opened by (auto simp: wal_ok_state_def writer_ok_def split: option.splits)
  then show "dw_currentFile w = Some (length (recs_bytes nf (snd (last segs))))" by simp
  obtain ys n rs where segs: "segs = ys @ [(n, rs)]" using wr(1) by (cases segs rule: rev_cases) auto
  have content: "file_content w (dw_currentSegment w) = recs_bytes nf rs"
    using file_content_ok [OF f, of n rs] wr(2) by (simp add: segs)
  let ?c = "recs_bytes nf rs @ rec_bytes nf r"
  have fs: "dw_fs w' = (dw_fs w)\<lparr>fs_files := AList.update (sname n) ?c (dw_files w)\<rparr>"
    using wr(2) content by (simp add: w' append_bytes_def Let_def segs)
  show cf: "dw_currentFile (append_bytes w (rec_bytes nf r)) = Some (length (recs_bytes nf (snd (last segs)) @ rec_bytes nf r))"
    using wr(2) content by (simp add: append_bytes_def Let_def segs)
  have a: "add_rec segs r = ys @ [(n, rs @ [r])]" by (simp add: add_rec_def segs)
  have names: "seg_names (ys @ [(n, rs @ [r])]) = seg_names segs" by (simp add: segs seg_names_def)
  have k: "k = 0 \<or> k \<le> length (snd (hd segs))" using offset_ok_k [OF wal_ok_stateD(2) [OF ok]] by auto
  have "(sname n) \<in> set (map fst (dw_files w))"
  proof -
    have "map_of (dw_files w) (sname n) = Some (recs_bytes nf rs)" using f by (simp add: files_ok_def segs)
    then show ?thesis by (force dest: map_of_SomeD)
  qed
  then have keys: "set (map fst (AList.update (sname n) ?c (dw_files w))) = set (map fst (dw_files w))"
    by (simp add: dom_update insert_absorb)
  have others: "sname m \<noteq> sname n" if "(m, qs) \<in> set ys" for m qs
  proof -
    have "m < n" "n < seg_limit" using f that by (auto simp: files_ok_def segs sorted_wrt_append)
    then show ?thesis using sname_less [of m n] by auto
  qed
  have F': "files_ok nf (ys @ [(n, rs @ [r])]) (AList.update (sname n) ?c (dw_files w))"
    unfolding files_ok_def names keys
  proof (intro conjI)
    show "sorted_wrt (<) (map fst (ys @ [(n, rs @ [r])]))" using f by (simp add: files_ok_def segs)
    show "\<forall>(m, qs) \<in> set (ys @ [(n, rs @ [r])]). 0 < m \<and> m < seg_limit \<and> list_all (rec_ok nf) qs \<and>
        map_of (AList.update (sname n) ?c (dw_files w)) (sname m) = Some (recs_bytes nf qs)"
    proof -
      have "0 < m \<and> m < seg_limit \<and> list_all (rec_ok nf) qs \<and>
        map_of (AList.update (sname n) ?c (dw_files w)) (sname m) = Some (recs_bytes nf qs)"
        if in_segs: "(m, qs) \<in> set (ys @ [(n, rs @ [r])])" for m qs
      proof (cases "(m, qs) \<in> set ys")
        case True
        then show ?thesis using f others [OF True] by (auto simp: files_ok_def segs simp del: map_of_eq_Some_iff)
      next
        case False
        then have "m = n" "qs = rs @ [r]" using in_segs by auto
        then show ?thesis using f r
          by (simp add: files_ok_def segs recs_bytes_append del: map_of_eq_Some_iff) (simp add: recs_bytes_def)
      qed
      then show ?thesis by blast
    qed
    show "distinct (map fst (AList.update (sname n) ?c (dw_files w)))"
      using f by (simp add: files_ok_def distinct_update)
    show "\<forall>f\<in>set (map fst (dw_files w)). is_segment f \<longrightarrow> f \<in> set (seg_names segs)"
      using f by (simp add: files_ok_def)
  qed
  have F: "files_ok nf (add_rec segs r) (dw_files w')" using F' by (simp add: a fs)
  have hd: "fst (hd (add_rec segs r)) = fst (hd segs)"
    unfolding a unfolding segs by (cases ys) simp_all
  have hd2: "k = 0 \<or> k \<le> length (snd (hd (add_rec segs r)))"
    using k unfolding a unfolding segs by (cases ys) auto
  have ne: "add_rec segs r \<noteq> []" unfolding a by simp
  have off: "offset_ok nf (add_rec segs r) k off" if "offset_ok nf segs k off" for off
    using that hd hd2 read_pos_add_rec [OF wr(1) k] ne unfolding offset_ok_def by auto
  have dir: "dir_ok nf (add_rec segs r) k (dw_fs w')"
    using wal_ok_stateD(3) [OF ok] F off unfolding dir_ok_def fs
    by (auto split: option.splits sum.splits)
  have o': "dw_offset w' = dw_offset w" "dw_readFile w' = dw_readFile w" "dw_readSegment w' = dw_readSegment w"
    "dw_currentSegment w' = dw_currentSegment w"
    "dw_currentFile w' = dw_currentFile (append_bytes w (rec_bytes nf r))"
    "dw_currentSize w' = length ?c" "dw_totalSize w' = dw_totalSize w + int (length (rec_bytes nf r))"
    by (simp_all add: w' append_bytes_def Let_def segs)
  have rd: "reader_ok nf (add_rec segs r) k (dw_readFile w) (dw_readSegment w)"
    using ok hd read_pos_add_rec [OF wr(1) k] ne
    by (auto simp: wal_ok_state_def reader_ok_def split: option.splits)
  have tot: "dw_totalSize w + int (length (rec_bytes nf r)) = segs_size nf (add_rec segs r)"
    using ok unfolding a wal_ok_state_def segs_size_def
    by (simp add: segs recs_bytes_append) (simp add: recs_bytes_def)
  have wr': "writer_ok nf (add_rec segs r) (dw_currentFile (append_bytes w (rec_bytes nf r)))
      (dw_currentSegment w) (length ?c)"
    unfolding cf writer_ok_def a using wr(2) by (simp add: segs recs_bytes_append) (simp add: recs_bytes_def)
  show "wal_ok_state nf (add_rec segs r) k w'"
    unfolding wal_ok_state_def o' using F dir off [OF wal_ok_stateD(2) [OF ok]] rd tot wr' by blast
qed

lemma Append_ok:
  assumes ok: "wal_ok_state nf segs k w" and lim: "Suc (seg_top segs) < seg_limit"
    and r: "wal_ok nf uuid msg" and space: "dw_totalSize w < dw_maxSize w"
  shows "\<exists>w' segs'. WAL_Append nf uuid None msg w = (None, w') \<and> wal_ok_state nf segs' k w'
     \<and> pending segs' k = pending segs k @ [wal_norm uuid msg] \<and> seg_top segs' \<le> Suc (seg_top segs)"
proof -
  let ?r = "(uuid, msg)"
  let ?segs = "rolled w segs"
  have lims: "\<forall>(n, rs) \<in> set ?segs. n < seg_limit"
    using seg_limit_rolled [OF wal_ok_stateD(1) [OF ok] lim] by blast
  note E = ensureWriter_ok [OF ok lims]
  have r': "rec_ok nf ?r" using r by (simp add: rec_ok_def)
  have enc: "encodeWALRecord nf uuid None msg = (None, rec_bytes nf ?r, None)"
    by (simp add: encodeWALRecord_def write_chunks_None rec_bytes_def wal_bytes_def)
  note A = append_bytes_ok [OF E(1,2) r' refl]
  have ne: "?segs \<noteq> []"
    using E(1,2) by (auto simp: wal_ok_state_def writer_ok_def split: option.splits)
  have res: "WAL_Append nf uuid None msg w = (None, (append_bytes (ensureWriter w) (rec_bytes nf ?r))
      \<lparr>dw_currentSize := length (recs_bytes nf (snd (last ?segs)) @ rec_bytes nf ?r),
       dw_totalSize := dw_totalSize (ensureWriter w) + int (length (rec_bytes nf ?r)), dw_dirty := True\<rparr>)"
    using space A(2,3) by (simp add: WAL_Append_def enc Let_def) (simp add: append_bytes_def Let_def)
  have k: "k = 0 \<or> k \<le> length (snd (hd ?segs))"
    using offset_ok_k [OF wal_ok_stateD(2) [OF E(1)]] by auto
  have p: "pending (add_rec ?segs ?r) k = pending segs k @ [wal_norm uuid msg]"
    using pending_add_rec [OF ne k, of ?r] by (simp add: pending_rolled rec_norm_def)
  have t: "seg_top (add_rec ?segs ?r) \<le> Suc (seg_top segs)"
    using ne by (auto simp: seg_top_def add_rec_def rolled_def)
  show ?thesis using res A(1) p t by blast
qed

lemma Append_full:
  "dw_maxSize w \<le> dw_totalSize w \<Longrightarrow> WAL_Append nf uuid room msg w = (Some (Err ''disk buffer full'' []), w)"
  by (simp add: WAL_Append_def)

subsection \<open>Reading\<close>

lemma openReadSegment_ok:
  assumes ok: "wal_ok_state nf segs k w"
  shows "wal_ok_state nf segs k (openReadSegment w)"
    and "dw_readFile (openReadSegment w) = None \<longleftrightarrow> segs = [] \<and> dw_readFile w = None"
    and "dw_files (openReadSegment w) = dw_files w"
proof -
  note f = wal_ok_stateD(1) [OF ok]
  have "wal_ok_state nf segs k (openReadSegment w) \<and>
      (dw_readFile (openReadSegment w) = None \<longleftrightarrow> segs = [] \<and> dw_readFile w = None) \<and>
      dw_files (openReadSegment w) = dw_files w"
  proof (cases "dw_readFile w \<noteq> None \<or> segs = []")
    case True
    then show ?thesis
      using ok by (auto simp: openReadSegment_def listSegments_ok [OF f] seg_names_def Let_def)
  next
    case False
    then have ne: "segs \<noteq> []" and no: "dw_readFile w = None" by auto
    have names: "listSegments w = seg_names segs" "seg_names segs \<noteq> []"
      using listSegments_ok [OF f] ne by (simp_all add: seg_names_def)
    have hd: "hd (seg_names segs) = sname (fst (hd segs))" "sname (fst (hd segs)) \<in> set (seg_names segs)"
      using ne by (cases segs; simp add: seg_names_def)+
    have res: "openReadSegment w = w\<lparr>dw_readSegment := sname (fst (hd segs)),
        dw_readFile := Some (read_pos nf segs k), dw_readOffset := read_pos nf segs k\<rparr>"
    proof (cases "of_Segment (dw_offset w) = ''''")
      case True
      then have "k = 0" using wal_ok_stateD(2) [OF ok] by (auto simp: offset_ok_def)
      then have "read_pos nf segs k = 0" by (simp add: read_pos_def recs_bytes_def split: list.splits)
      then show ?thesis using True no names hd by (simp add: openReadSegment_def Let_def)
    next
      case False
      then have "of_Segment (dw_offset w) = sname (fst (hd segs))" "of_Offset (dw_offset w) = read_pos nf segs k"
        using wal_ok_stateD(2) [OF ok] by (auto simp: offset_ok_def)
      then show ?thesis using False no names hd by (simp add: openReadSegment_def Let_def)
    qed
    show ?thesis
      using ok ne unfolding res wal_ok_state_def by (simp add: reader_ok_def)
  qed
  then show "wal_ok_state nf segs k (openReadSegment w)"
    "dw_readFile (openReadSegment w) = None \<longleftrightarrow> segs = [] \<and> dw_readFile w = None"
    "dw_files (openReadSegment w) = dw_files w" by blast+
qed

lemma persistOffset_fields [simp]:
  "dw_files (persistOffset w) = dw_files w" "dw_currentSegment (persistOffset w) = dw_currentSegment w"
  "dw_currentFile (persistOffset w) = dw_currentFile w" "dw_currentSize (persistOffset w) = dw_currentSize w"
  "dw_readFile (persistOffset w) = dw_readFile w" "dw_readSegment (persistOffset w) = dw_readSegment w"
  "dw_offset (persistOffset w) = dw_offset w" "dw_totalSize (persistOffset w) = dw_totalSize w"
  "dw_maxSize (persistOffset w) = dw_maxSize w" "fs_offset (dw_fs (persistOffset w)) = Some (Inr (dw_offset w))"
  by (simp_all add: persistOffset_def)

lemma files_ok_delete:
  assumes f: "files_ok nf (s # segs) files"
  shows "files_ok nf segs (AList.delete (sname (fst s)) files)"
proof -
  have ne: "sname (fst x) \<noteq> sname (fst s)" if "x \<in> set segs" for x
  proof -
    have "fst s < fst x" "fst x < seg_limit" using f that by (auto simp: files_ok_def)
    then show ?thesis using sname_less [of "fst s" "fst x"] by auto
  qed
  have "map_of (AList.delete (sname (fst s)) files) (sname n) = map_of files (sname n)"
    if "(n, rs) \<in> set segs" for n rs
    using ne [OF that] by simp
  moreover have "distinct (map fst (AList.delete (sname (fst s)) files))"
    using f by (simp add: files_ok_def distinct_delete)
  ultimately show ?thesis
    using f by (fastforce simp: files_ok_def seg_names_def delete_keys)
qed

lemma dropReadSegment_ok:
  assumes ok: "wal_ok_state nf (s # segs) k w" and rd: "dw_readSegment w = sname (fst s)"
    and nc: "dw_readSegment w \<noteq> dw_currentSegment w"
  shows "wal_ok_state nf segs 0 (dropReadSegment w)" and "dw_readFile (dropReadSegment w) = None"
proof -
  note f = wal_ok_stateD(1) [OF ok]
  have content: "file_content w (sname (fst s)) = recs_bytes nf (snd s)"
    using file_content_ok [OF f, of "fst s" "snd s"] by simp
  have ex: "map_of (dw_files w) (sname (fst s)) \<noteq> None"
    using f by (auto simp: files_ok_def)
  let ?d = "dropReadSegment w"
  have d: "dw_files ?d = AList.delete (sname (fst s)) (dw_files w)" "dw_offset ?d = zero_offset"
    "fs_offset (dw_fs ?d) = Some (Inr zero_offset)"
    "dw_totalSize ?d = max 0 (dw_totalSize w - int (length (recs_bytes nf (snd s))))"
    "dw_readFile ?d = None" "dw_currentFile ?d = dw_currentFile w"
    "dw_currentSegment ?d = dw_currentSegment w" "dw_currentSize ?d = dw_currentSize w"
    using ex rd content by (simp_all add: dropReadSegment_def Let_def file_content_def)
  then show "dw_readFile ?d = None" by simp
  have tot: "dw_totalSize ?d = segs_size nf segs"
  proof -
    have "0 \<le> segs_size nf segs" by (induction segs) (simp_all add: segs_size_def)
    then show ?thesis using ok unfolding d(4) wal_ok_state_def by (simp add: segs_size_def)
  qed
  have wr: "writer_ok nf segs (dw_currentFile w) (dw_currentSegment w) (dw_currentSize w)"
    using ok nc rd by (cases segs) (auto simp: wal_ok_state_def writer_ok_def split: option.splits)
  have F: "files_ok nf segs (dw_files ?d)" using files_ok_delete [OF f] by (simp add: d)
  have off: "offset_ok nf segs 0 zero_offset" by (simp add: offset_ok_def zero_offset_def)
  show "wal_ok_state nf segs 0 ?d"
    unfolding wal_ok_state_def dir_ok_def using F off tot wr by (simp add: d reader_ok_def)
qed

text \<open>The bytes at the read position are those of the unread records.\<close>

lemma drop_read_pos:
  assumes "k \<le> length rs"
  shows "drop (read_pos nf ((n, rs) # segs) k) (recs_bytes nf rs) = recs_bytes nf (drop k rs)"
proof -
  have "recs_bytes nf rs = recs_bytes nf (take k rs) @ recs_bytes nf (drop k rs)"
    by (simp add: recs_bytes_append [symmetric])
  then show ?thesis by (simp add: read_pos_def)
qed

definition read_result :: "message list \<Rightarrow> message option \<times> message list" where
  "read_result q = (case q of [] \<Rightarrow> (None, []) | m # ms \<Rightarrow> (Some m, ms))"

lemma read_record_ok:
  assumes ok: "wal_ok_state nf ((n, rs) # segs) k w" and k: "k < length rs"
    and rd: "dw_readSegment w = sname n"
  defines "p \<equiv> read_pos nf ((n, rs) # segs) (Suc k)"
  shows "wal_ok_state nf ((n, rs) # segs) (Suc k)
     (persistOffset (w\<lparr>dw_readFile := Some p, dw_readOffset := p,
        dw_offset := \<lparr>of_Segment = sname n, of_Offset = p\<rparr>\<rparr>))"
  using ok k rd
  by (simp add: wal_ok_state_def dir_ok_def offset_ok_def reader_ok_def p_def persistOffset_def)

lemma ReadNext_loop_ok:
  "wal_ok_state nf segs k w \<Longrightarrow> length segs < fuel \<Longrightarrow>
   \<exists>r w' segs' k'. ReadNext_loop nf fuel w = Some (Inr r, w') \<and> wal_ok_state nf segs' k' w' \<and>
     (r, pending segs' k') = read_result (pending segs k) \<and> seg_top segs' \<le> seg_top segs"
proof (induction fuel arbitrary: segs k w)
  case 0
  then show ?case by simp
next
  case (Suc fuel)
  define w1 where "w1 = openReadSegment w"
  note O = openReadSegment_ok [OF Suc.prems(1), folded w1_def]
  have open1: "(if dw_readFile w = None then openReadSegment w else w) = w1"
    by (simp add: w1_def openReadSegment_def)
  show ?case
  proof (cases segs)
    case Nil
    have "dw_readFile w = None"
      using Suc.prems(1) Nil by (auto simp: wal_ok_state_def reader_ok_def split: option.splits)
    then have "dw_readFile w1 = None" using O(2) Nil by simp
    then have "ReadNext_loop nf (Suc fuel) w = Some (Inr None, w1)"
      using open1 by (simp add: Let_def)
    moreover have "(None, pending [] k) = read_result (pending segs k)"
      by (simp add: pending_def read_result_def Nil)
    moreover have "seg_top [] \<le> seg_top segs" by (simp add: seg_top_def)
    ultimately show ?thesis using O(1) unfolding Nil by blast
  next
    case (Cons s ss)
    obtain n rs where s: "s = (n, rs)" by (cases s)
    note ok1 = O(1) [unfolded Cons s]
    have rf: "dw_readFile w1 = Some (read_pos nf segs k)" "dw_readSegment w1 = sname n"
      using O(1,2) Cons s by (auto simp: wal_ok_state_def reader_ok_def split: option.splits)
    have content: "file_content w1 (sname n) = recs_bytes nf rs"
      using file_content_ok [OF wal_ok_stateD(1) [OF ok1], of n rs] by simp
    have k: "k \<le> length rs" using offset_ok_k [OF wal_ok_stateD(2) [OF ok1]] by auto
    note rest = drop_read_pos [OF k, of nf n ss, folded s Cons]
    have recs: "list_all (rec_ok nf) rs"
      using wal_ok_stateD(1) [OF ok1] by (simp add: files_ok_def)
    show ?thesis
    proof (cases "k < length rs")
      case True
      let ?tl = "recs_bytes nf (drop (Suc k) rs)"
      have split: "recs_bytes nf (drop k rs) = rec_bytes nf (rs ! k) @ ?tl"
        using True by (simp add: recs_bytes_def Cons_nth_drop_Suc [symmetric])
      have dec: "decodeWALRecord nf (drop (read_pos nf segs k) (recs_bytes nf rs))
          = (Inr (rec_norm (rs ! k)), ?tl)"
        unfolding rest split using recs True by (intro walrec.decode_whole) (simp add: list_all_length)
      have pos: "length (recs_bytes nf rs) - length ?tl = read_pos nf segs (Suc k)"
      proof -
        have "recs_bytes nf rs = recs_bytes nf (take (Suc k) rs) @ ?tl"
          by (simp add: recs_bytes_append [symmetric])
        then show ?thesis by (simp add: read_pos_def Cons s)
      qed
      let ?p = "read_pos nf segs (Suc k)"
      let ?w2 = "persistOffset (w1\<lparr>dw_readFile := Some ?p, dw_readOffset := ?p,
        dw_offset := \<lparr>of_Segment = sname n, of_Offset = ?p\<rparr>\<rparr>)"
      have res: "ReadNext_loop nf (Suc fuel) w = Some (Inr (Some (rec_norm (rs ! k))), ?w2)"
        using open1 rf content dec pos by (simp add: Let_def)
      have "wal_ok_state nf segs (Suc k) ?w2"
        using read_record_ok [OF ok1 True rf(2)] by (simp add: Cons s)
      moreover have "pending segs k = rec_norm (rs ! k) # pending segs (Suc k)"
        using True by (simp add: pending_def Cons s Cons_nth_drop_Suc [symmetric])
      ultimately show ?thesis using res by (auto simp: read_result_def)
    next
      case False
      with k have kk: "k = length rs" by simp
      have dec: "decodeWALRecord nf (drop (read_pos nf segs k) (recs_bytes nf rs)) = (Inl EOF, [])"
        unfolding rest using walrec.decode_end kk by (simp add: recs_bytes_def)
      have pos: "max (read_pos nf segs k) (length (recs_bytes nf rs)) = read_pos nf segs k"
        using kk by (simp add: read_pos_def Cons s)
      have w2: "w1\<lparr>dw_readFile := Some (read_pos nf segs k)\<rparr> = w1" using rf(1) by simp
      show ?thesis
      proof (cases "sname n = dw_currentSegment w1")
        case True
        have "dw_currentFile w1 \<noteq> None"
          using O(1) True [symmetric] by (auto simp: wal_ok_state_def writer_ok_def split: option.splits)
        then have "sname n = sname (fst (last segs))"
          using O(1) True by (auto simp: wal_ok_state_def writer_ok_def split: option.splits)
        moreover have "fst (last segs) < seg_limit" "n < seg_limit"
        proof -
          have "last segs \<in> set segs" using Cons by simp
          then show "fst (last segs) < seg_limit"
            using wal_ok_stateD(1) [OF O(1)] unfolding files_ok_def by (auto simp del: map_of_eq_Some_iff)
          show "n < seg_limit" using wal_ok_stateD(1) [OF O(1)] Cons s by (simp add: files_ok_def)
        qed
        ultimately have "n = fst (last segs)" using sname_inj by blast
        then have "ss = []"
          using wal_ok_stateD(1) [OF O(1)] Cons s by (cases ss rule: rev_cases) (auto simp: files_ok_def)
        then have "pending segs k = []" by (simp add: pending_def Cons s kk)
        moreover have "ReadNext_loop nf (Suc fuel) w = Some (Inr None, w1)"
          using open1 rf content dec pos True by (simp add: Let_def w2)
        ultimately show ?thesis using O(1) by (auto simp: read_result_def)
      next
        case nc: False
        have D: "wal_ok_state nf ss 0 (dropReadSegment w1)" "dw_readFile (dropReadSegment w1) = None"
          using dropReadSegment_ok [OF O(1) [unfolded Cons]] rf(2) nc s by simp_all
        define w3 where "w3 = openReadSegment (dropReadSegment w1)"
        note O3 = openReadSegment_ok [OF D(1), folded w3_def]
        have p: "pending ss 0 = pending segs k" by (simp add: pending_def Cons s kk)
        have t: "seg_top ss \<le> seg_top segs" by (simp add: seg_top_def Cons)
        have res: "ReadNext_loop nf (Suc fuel) w =
            (if dw_readFile w3 = None then Some (Inr None, w3) else ReadNext_loop nf fuel w3)"
          using open1 rf content dec pos nc w3_def by (simp add: Let_def w2)
        show ?thesis
        proof (cases "ss = []")
          case True
          then have "dw_readFile w3 = None" using O3(2) D(2) by simp
          then have "ReadNext_loop nf (Suc fuel) w = Some (Inr None, w3)"
            unfolding res by simp
          moreover have "(None, pending ss 0) = read_result (pending segs k)"
            unfolding p [symmetric] using True by (simp add: pending_def read_result_def)
          ultimately show ?thesis using O3(1) t by blast
        next
          case False
          then have ne: "dw_readFile w3 \<noteq> None" using O3(2) by simp
          have "length ss < fuel" using Suc.prems(2) Cons by simp
          from Suc.IH [OF O3(1) this] obtain r w' segs' k' where I:
            "ReadNext_loop nf fuel w3 = Some (Inr r, w')" "wal_ok_state nf segs' k' w'"
            "(r, pending segs' k') = read_result (pending ss 0)" "seg_top segs' \<le> seg_top ss"
            by blast
          have "ReadNext_loop nf (Suc fuel) w = Some (Inr r, w')"
            unfolding res I(1) using ne by (simp only: if_False)
          then show ?thesis using I(2-4) p t by (intro exI conjI) (assumption | simp)+
        qed
      qed
    qed
  qed
qed

lemma segs_le_files:
  "files_ok nf segs files \<Longrightarrow> length segs \<le> length files"
proof -
  assume f: "files_ok nf segs files"
  have "distinct (seg_names segs)"
    using seg_names_sorted [OF f] by (simp add: strict_sorted_iff)
  moreover have "set (seg_names segs) \<subseteq> set (map fst files)"
  proof
    fix x assume "x \<in> set (seg_names segs)"
    then obtain n rs where "(n, rs) \<in> set segs" "x = sname n" by (auto simp: seg_names_def)
    then have "map_of files x = Some (recs_bytes nf rs)" using f by (auto simp: files_ok_def)
    then show "x \<in> set (map fst files)" by (force dest: map_of_SomeD)
  qed
  ultimately have "length (seg_names segs) \<le> length (map fst files)"
    by (metis card_length card_mono distinct_card finite_set le_trans)
  then show ?thesis by (simp add: seg_names_def)
qed

lemma ReadNext_ok:
  assumes "wal_ok_state nf segs k w"
  shows "\<exists>r w' segs' k'. WAL_ReadNext nf w = (Inr r, w') \<and> wal_ok_state nf segs' k' w' \<and>
     (r, pending segs' k') = read_result (pending segs k) \<and> seg_top segs' \<le> seg_top segs"
proof -
  have "length segs < Suc (Suc (length (dw_files w)))"
    using segs_le_files [OF wal_ok_stateD(1) [OF assms]] by simp
  from ReadNext_loop_ok [OF assms this] obtain r w' segs' k' where
    loop: "ReadNext_loop nf (Suc (Suc (length (dw_files w)))) w = Some (Inr r, w')"
    and rest: "wal_ok_state nf segs' k' w'" "(r, pending segs' k') = read_result (pending segs k)"
      "seg_top segs' \<le> seg_top segs"
    by blast
  have "WAL_ReadNext nf w = (Inr r, w')" unfolding WAL_ReadNext_def loop by simp
  then show ?thesis using rest by blast
qed

lemma NewDiskWAL_ok:
  assumes "dir_ok nf segs k fs"
  shows "\<exists>w. NewDiskWAL opts fs = Inr w \<and> wal_ok_state nf segs k w \<and>
     dw_maxSize w = (if do_MaxSize opts \<le> 0 then DefaultDiskMaxSize else do_MaxSize opts)"
proof -
  define w0 where "w0 = \<lparr>dw_fs = fs,
               dw_segmentSize = (if do_SegmentSize opts \<le> 0 then DefaultSegmentSize else do_SegmentSize opts),
               dw_maxSize = (if do_MaxSize opts \<le> 0 then DefaultDiskMaxSize else do_MaxSize opts),
               dw_currentSegment = '''', dw_currentFile = None, dw_currentSize = 0, dw_totalSize = 0,
               dw_readSegment = '''', dw_readFile = None, dw_readOffset = 0, dw_offset = zero_offset,
               dw_dirty = False\<rparr>"
  have f: "files_ok nf segs (fs_files fs)" using assms by (simp add: dir_ok_def)
  obtain off where off: "loadOffset w0 = Inr (w0\<lparr>dw_offset := off\<rparr>)" "offset_ok nf segs k off"
  proof (cases "fs_offset fs")
    case None
    then have "loadOffset w0 = Inr (w0\<lparr>dw_offset := zero_offset\<rparr>)" "offset_ok nf segs k zero_offset"
      using assms by (simp_all add: loadOffset_def w0_def dir_ok_def offset_ok_def zero_offset_def)
    then show thesis by (rule that)
  next
    case (Some r)
    then obtain o' where "r = Inr o'" "offset_ok nf segs k o'"
      using assms by (auto simp: dir_ok_def split: sum.splits)
    then show thesis using Some by (intro that [of o']) (simp_all add: loadOffset_def w0_def)
  qed
  define w1 where "w1 = w0\<lparr>dw_offset := off\<rparr>"
  have fw1: "files_ok nf segs (dw_files w1)" using f by (simp add: w1_def w0_def)
  have total: "sum_list (map (\<lambda>s. int (length (file_content w1 s))) (listSegments w1)) = segs_size nf segs"
  proof -
    have "map (\<lambda>s. int (length (file_content w1 s))) (seg_names segs)
        = map (\<lambda>s. int (length (recs_bytes nf (snd s)))) segs"
      using file_content_ok [OF fw1] by (auto simp: seg_names_def)
    then show ?thesis by (simp add: listSegments_ok [OF fw1] segs_size_def)
  qed
  have "wal_ok_state nf segs k (scanTotalSize w1)"
    unfolding wal_ok_state_def
    using total fw1 off(2) assms
    by (simp add: scanTotalSize_def w1_def w0_def writer_ok_def reader_ok_def)
  moreover have "NewDiskWAL opts fs = Inr (openReadSegment (scanTotalSize w1))"
    using off(1) by (simp add: NewDiskWAL_def w0_def [symmetric] w1_def Let_def)
  moreover have "dw_maxSize (openReadSegment (scanTotalSize w1)) = dw_maxSize w0"
    by (simp add: openReadSegment_def scanTotalSize_def w1_def Let_def)
  ultimately show ?thesis using openReadSegment_ok(1) by (auto simp: w0_def)
qed

section \<open>The interface of a message log\<close>

text \<open>
  What a consumer of a persistent log relies on: a read returns and removes the oldest message,
  and opening the files of the log again gives a log with the same content.
\<close>

locale message_log =
  fixes holds :: "'s \<Rightarrow> 'm list \<Rightarrow> bool"
    and read :: "'s \<Rightarrow> 'm option res \<times> 's"
    and reopen :: "'s \<Rightarrow> 's res"
  assumes read_Nil: "holds s [] \<Longrightarrow> \<exists>s'. read s = (Inr None, s') \<and> holds s' []"
    and read_Cons: "holds s (m # q) \<Longrightarrow> \<exists>s'. read s = (Inr (Some m), s') \<and> holds s' q"
    and reopen_holds: "holds s q \<Longrightarrow> \<exists>s'. reopen s = Inr s' \<and> holds s' q"
begin

fun read_n :: "nat \<Rightarrow> 's \<Rightarrow> 'm list \<times> 's" where
  "read_n 0 s = ([], s)"
| "read_n (Suc n) s =
     (case read s of
        (Inr (Some m), s') \<Rightarrow> (case read_n n s' of (ms, s'') \<Rightarrow> (m # ms, s''))
      | (_, s') \<Rightarrow> ([], s'))"

lemma read_n_take: "holds s q \<Longrightarrow> \<exists>s'. read_n n s = (take n q, s') \<and> holds s' (drop n q)"
proof (induction n arbitrary: s q)
  case 0
  then show ?case by simp
next
  case (Suc n)
  show ?case
  proof (cases q)
    case Nil
    then show ?thesis using read_Nil [of s] Suc.prems by auto
  next
    case (Cons m ms)
    then obtain s' where s': "read s = (Inr (Some m), s')" "holds s' ms"
      using read_Cons [of s m ms] Suc.prems by auto
    with Suc.IH [OF s'(2)] Cons show ?thesis by auto
  qed
qed

text \<open>Messages read before a restart are not read again, the others are.\<close>

lemma read_reopen_read:
  assumes "holds s q"
  shows "\<exists>s1 s2 s3. read_n n s = (take n q, s1) \<and> reopen s1 = Inr s2 \<and>
     read_n m s2 = (take m (drop n q), s3)"
proof -
  obtain s1 where s1: "read_n n s = (take n q, s1)" "holds s1 (drop n q)"
    using read_n_take [OF assms] by blast
  obtain s2 where s2: "reopen s1 = Inr s2" "holds s2 (drop n q)" using reopen_holds [OF s1(2)] by blast
  show ?thesis using s1(1) s2(1) read_n_take [OF s2(2), of m] by blast
qed

end

definition wal_holds :: "float_format \<Rightarrow> disk_wal \<Rightarrow> message list \<Rightarrow> bool" where
  "wal_holds nf w q \<longleftrightarrow> (\<exists>segs k. wal_ok_state nf segs k w \<and> pending segs k = q)"

interpretation wal_log: message_log "wal_holds nf" "WAL_ReadNext nf" "\<lambda>w. NewDiskWAL opts (dw_fs w)"
  for nf opts
proof unfold_locales
  fix w
  assume "wal_holds nf w []"
  then obtain segs k where ok: "wal_ok_state nf segs k w" and "pending segs k = []"
    by (auto simp: wal_holds_def)
  with ReadNext_ok [OF ok] show "\<exists>w'. WAL_ReadNext nf w = (Inr None, w') \<and> wal_holds nf w' []"
    by (auto simp: wal_holds_def read_result_def)
next
  fix w m q
  assume "wal_holds nf w (m # q)"
  then obtain segs k where ok: "wal_ok_state nf segs k w" and "pending segs k = m # q"
    by (auto simp: wal_holds_def)
  with ReadNext_ok [OF ok] show "\<exists>w'. WAL_ReadNext nf w = (Inr (Some m), w') \<and> wal_holds nf w' q"
    by (auto simp: wal_holds_def read_result_def)
next
  fix w q
  assume "wal_holds nf w q"
  then obtain segs k where ok: "wal_ok_state nf segs k w" and "pending segs k = q"
    by (auto simp: wal_holds_def)
  with NewDiskWAL_ok [OF wal_ok_stateD(3) [OF ok], of opts]
  show "\<exists>w'. NewDiskWAL opts (dw_fs w) = Inr w' \<and> wal_holds nf w' q"
    by (auto simp: wal_holds_def)
qed

section \<open>A disk log is a queue\<close>

text \<open>
  The operations goroutines perform on a log, with a crash of the process between two of them: the
  new process opens the directory again. An output is what the operation returned.
\<close>

datatype wal_op = OpAppend string message | OpRead | OpFsync | OpCrash disk_options

datatype wal_out = OutAppend "goerr option" | OutRead "message option res" | OutDone | OutFailed goerr

fun wal_step :: "float_format \<Rightarrow> disk_wal \<Rightarrow> wal_op \<Rightarrow> wal_out \<times> disk_wal" where
  "wal_step nf w (OpAppend uuid msg) =
     (case WAL_Append nf uuid None msg w of (e, w') \<Rightarrow> (OutAppend e, w'))"
| "wal_step nf w OpRead = (case WAL_ReadNext nf w of (r, w') \<Rightarrow> (OutRead r, w'))"
| "wal_step nf w OpFsync = (OutDone, WAL_Fsync w)"
| "wal_step nf w (OpCrash opts) =
     (case NewDiskWAL opts (dw_fs w) of Inl e \<Rightarrow> (OutFailed e, w) | Inr w' \<Rightarrow> (OutDone, w'))"

fun wal_run :: "float_format \<Rightarrow> disk_wal \<Rightarrow> wal_op list \<Rightarrow> wal_out list \<times> disk_wal" where
  "wal_run nf w [] = ([], w)"
| "wal_run nf w (p # ps) =
     (case wal_step nf w p of (out, w') \<Rightarrow>
        (case wal_run nf w' ps of (outs, w'') \<Rightarrow> (out # outs, w'')))"

text \<open>
  The specification: a queue of messages. An accepted append adds at the end, a refused append
  changes nothing, a read returns and removes the oldest message or reports that there is none,
  and a crash is not visible.
\<close>

fun queue_step :: "message list \<Rightarrow> wal_op \<Rightarrow> wal_out \<Rightarrow> message list option" where
  "queue_step q (OpAppend uuid msg) (OutAppend None) = Some (q @ [wal_norm uuid msg])"
| "queue_step q (OpAppend uuid msg) (OutAppend (Some e)) = Some q"
| "queue_step q OpRead (OutRead (Inr r)) =
     (if r = fst (read_result q) then Some (snd (read_result q)) else None)"
| "queue_step q OpFsync OutDone = Some q"
| "queue_step q (OpCrash opts) OutDone = Some q"
| "queue_step q p out = None"

fun queue_run :: "message list \<Rightarrow> wal_op list \<Rightarrow> wal_out list \<Rightarrow> message list option" where
  "queue_run q [] [] = Some q"
| "queue_run q (p # ps) (out # outs) =
     (case queue_step q p out of None \<Rightarrow> None | Some q' \<Rightarrow> queue_run q' ps outs)"
| "queue_run q ps outs = None"

definition op_ok :: "float_format \<Rightarrow> wal_op \<Rightarrow> bool" where
  "op_ok nf p = (case p of OpAppend uuid msg \<Rightarrow> wal_ok nf uuid msg | _ \<Rightarrow> True)"

lemma wal_step_ok:
  assumes ok: "wal_ok_state nf segs k w" and lim: "Suc (seg_top segs) < seg_limit" and p: "op_ok nf p"
  shows "\<exists>out w' segs' k'. wal_step nf w p = (out, w') \<and> wal_ok_state nf segs' k' w' \<and>
     queue_step (pending segs k) p out = Some (pending segs' k') \<and> seg_top segs' \<le> Suc (seg_top segs)"
proof (cases p)
  case (OpAppend uuid msg)
  show ?thesis
  proof (cases "dw_totalSize w < dw_maxSize w")
    case True
    have "wal_ok nf uuid msg" using p OpAppend by (simp add: op_ok_def)
    from Append_ok [OF ok lim this True] obtain w' segs' where
      "WAL_Append nf uuid None msg w = (None, w')" "wal_ok_state nf segs' k w'"
      "pending segs' k = pending segs k @ [wal_norm uuid msg]" "seg_top segs' \<le> Suc (seg_top segs)" by blast
    then show ?thesis
      using OpAppend by (intro exI [of _ "OutAppend None"] exI [of _ w'] exI [of _ segs'] exI [of _ k]) simp
  next
    case False
    then show ?thesis
      using OpAppend ok Append_full [of w nf uuid None msg]
      by (intro exI [of _ "OutAppend (Some (Err ''disk buffer full'' []))"] exI [of _ w] exI [of _ segs] exI [of _ k]) simp
  qed
next
  case OpRead
  from ReadNext_ok [OF ok] obtain r w' segs' k' where
    "WAL_ReadNext nf w = (Inr r, w')" "wal_ok_state nf segs' k' w'"
    "(r, pending segs' k') = read_result (pending segs k)" "seg_top segs' \<le> seg_top segs" by blast
  then show ?thesis
    using OpRead by (intro exI [of _ "OutRead (Inr r)"] exI [of _ w'] exI [of _ segs'] exI [of _ k'])
      (simp add: eq_commute [of "(r, x)" for x])
next
  case OpFsync
  then show ?thesis using fsyncLocked_ok [OF ok]
    by (intro exI [of _ OutDone] exI [of _ "fsyncLocked w"] exI [of _ segs] exI [of _ k]) (simp add: WAL_Fsync_def)
next
  case (OpCrash opts)
  from NewDiskWAL_ok [OF wal_ok_stateD(3) [OF ok], of opts] obtain w' where
    "NewDiskWAL opts (dw_fs w) = Inr w'" "wal_ok_state nf segs k w'" by blast
  then show ?thesis using OpCrash by (intro exI [of _ OutDone] exI [of _ w'] exI [of _ segs] exI [of _ k]) simp
qed

lemma wal_run_fifo:
  "wal_ok_state nf segs k w \<Longrightarrow> seg_top segs + length ps < seg_limit \<Longrightarrow> list_all (op_ok nf) ps \<Longrightarrow>
   wal_run nf w ps = (outs, w') \<Longrightarrow>
   \<exists>segs' k'. wal_ok_state nf segs' k' w' \<and> queue_run (pending segs k) ps outs = Some (pending segs' k')"
proof (induction ps arbitrary: segs k w outs)
  case Nil
  then show ?case by auto
next
  case (Cons p ps)
  have "Suc (seg_top segs) < seg_limit" "op_ok nf p" using Cons.prems(2,3) by simp_all
  from wal_step_ok [OF Cons.prems(1) this] obtain out w1 segs1 k1 where step:
    "wal_step nf w p = (out, w1)" "wal_ok_state nf segs1 k1 w1"
    "queue_step (pending segs k) p out = Some (pending segs1 k1)" "seg_top segs1 \<le> Suc (seg_top segs)" by blast
  obtain outs1 where run: "wal_run nf w1 ps = (outs1, w')" "outs = out # outs1"
    using Cons.prems(4) step(1) by (auto split: prod.splits)
  have "seg_top segs1 + length ps < seg_limit" "list_all (op_ok nf) ps"
    using Cons.prems(2,3) step(4) by simp_all
  from Cons.IH [OF step(2) this run(1)] show ?case using step(3) run(2) by simp
qed

text \<open>
  C7: the disk log refines a queue. Starting from a well-formed directory whose unread records are
  \<open>pending segs k\<close>, every sequence of appends, reads, flushes and process crashes between
  them gives exactly the answers of a FIFO queue with that content, across segment roll-over,
  segment deletion and reopening: no accepted message is lost, repeated or reordered by the log.
  The bound says that segment numbers stay below seven digits.
\<close>

theorem wal_refines_queue:
  assumes "dir_ok nf segs k fs" and "NewDiskWAL opts fs = Inr w"
    and "seg_top segs + length ps < seg_limit" and "list_all (op_ok nf) ps"
    and "wal_run nf w ps = (outs, w')"
  shows "\<exists>q. queue_run (pending segs k) ps outs = Some q"
proof -
  have "wal_ok_state nf segs k w"
    using NewDiskWAL_ok [OF assms(1), of opts] assms(2) by simp
  from wal_run_fifo [OF this assms(3-5)] show ?thesis by blast
qed

definition demo_opts :: disk_options where
  "demo_opts = \<lparr>do_SegmentSize = 30, do_MaxSize = 0\<rparr>"

theorem wal_refines_queue_witness:
  "\<exists>w outs w' q. NewDiskWAL demo_opts \<lparr>fs_files = [], fs_offset = None\<rparr> = Inr w
     \<and> wal_run demo_nf w [OpAppend ''u'' demo_wal_msg, OpAppend ''u'' demo_wal_msg, OpCrash demo_opts, OpRead] = (outs, w')
     \<and> queue_run [] [OpAppend ''u'' demo_wal_msg, OpAppend ''u'' demo_wal_msg, OpCrash demo_opts, OpRead] outs = Some q"
proof -
  let ?fs = "\<lparr>fs_files = [], fs_offset = None\<rparr>"
  let ?ps = "[OpAppend ''u'' demo_wal_msg, OpAppend ''u'' demo_wal_msg, OpCrash demo_opts, OpRead]"
  have d: "dir_ok demo_nf [] 0 ?fs" by (simp add: dir_ok_def files_ok_def)
  obtain w where w: "NewDiskWAL demo_opts ?fs = Inr w" using NewDiskWAL_ok [OF d] by blast
  obtain outs w' where r: "wal_run demo_nf w ?ps = (outs, w')" by (cases "wal_run demo_nf w ?ps")
  have "list_all (op_ok demo_nf) ?ps" using demo_wal_ok by (simp add: op_ok_def)
  from wal_refines_queue [OF d w _ this r] show ?thesis
    using w r by (auto simp: pending_def seg_top_def)
qed

section \<open>Reading always returns\<close>

lemma delete_shorter: "map_of m k \<noteq> None \<Longrightarrow> length (AList.delete k m) < length m"
proof -
  assume "map_of m k \<noteq> None"
  then obtain v where "(k, v) \<in> set m" by (auto dest: map_of_SomeD)
  then have "k \<in> set (map fst m)" by force
  then have "length (removeAll k (map fst m)) < length (map fst m)" by (rule length_removeAll_less)
  then show ?thesis unfolding delete_keys [symmetric] by simp
qed

lemma delete_no_longer: "length (AList.delete k m) \<le> length m"
  by (metis delete_keys length_map length_removeAll_less_eq)

lemma openReadSegment_file:
  "dw_readFile w = None \<Longrightarrow> dw_readFile (openReadSegment w) \<noteq> None \<Longrightarrow>
     map_of (dw_files w) (dw_readSegment (openReadSegment w)) \<noteq> None \<and>
     dw_readSegment (openReadSegment w) \<noteq> ''''"
proof -
  assume n: "dw_readFile w = None" and s: "dw_readFile (openReadSegment w) \<noteq> None"
  then have "listSegments w \<noteq> []" by (auto simp: openReadSegment_def Let_def split: if_splits)
  then have "dw_readSegment (openReadSegment w) \<in> set (listSegments w)"
    using n by (auto simp: openReadSegment_def Let_def)
  then have "dw_readSegment (openReadSegment w) \<in> fst ` set (dw_files w)"
    "is_segment (dw_readSegment (openReadSegment w))" by (auto simp: listSegments_def)
  then show ?thesis by (auto simp: map_of_eq_None_iff is_segment_def)
qed

lemma openReadSegment_files [simp]: "dw_files (openReadSegment w) = dw_files w"
  by (simp add: openReadSegment_def Let_def)

lemma dropReadSegment_readFile [simp]: "dw_readFile (dropReadSegment w) = None"
  by (simp add: dropReadSegment_def Let_def)

lemma dropReadSegment_files:
  "dw_files (dropReadSegment w) =
     (if dw_readSegment w = '''' then dw_files w else AList.delete (dw_readSegment w) (dw_files w))"
  by (simp add: dropReadSegment_def Let_def)

definition read_handle_ok :: "disk_wal \<Rightarrow> bool" where
  "read_handle_ok w \<longleftrightarrow> dw_readFile w = None \<or>
     (map_of (dw_files w) (dw_readSegment w) \<noteq> None \<and> dw_readSegment w \<noteq> '''')"

lemma ReadNext_loop_step:
  assumes "\<And>w3. dw_readFile w3 \<noteq> None \<Longrightarrow> read_handle_ok w3 \<Longrightarrow>
      length (dw_files w3) \<le> length (dw_files w) \<Longrightarrow>
      (read_handle_ok w \<Longrightarrow> length (dw_files w3) < length (dw_files w)) \<Longrightarrow>
      ReadNext_loop nf n w3 \<noteq> None"
  shows "ReadNext_loop nf (Suc n) w \<noteq> None"
proof -
  define w1 where "w1 = (if dw_readFile w = None then openReadSegment w else w)"
  have files: "dw_files w1 = dw_files w" by (simp add: w1_def)
  have h1: "read_handle_ok w \<Longrightarrow> dw_readFile w1 \<noteq> None \<Longrightarrow>
      map_of (dw_files w) (dw_readSegment w1) \<noteq> None \<and> dw_readSegment w1 \<noteq> ''''"
    using openReadSegment_file [of w] by (auto simp: w1_def read_handle_ok_def)
  show ?thesis
  proof (cases "dw_readFile w1")
    case None
    then show ?thesis by (simp add: w1_def [symmetric] Let_def)
  next
    case (Some pos)
    have "ReadNext_loop nf n (openReadSegment (dropReadSegment w2)) \<noteq> None"
      if w2: "dw_files w2 = dw_files w" "dw_readSegment w2 = dw_readSegment w1"
        and op: "dw_readFile (openReadSegment (dropReadSegment w2)) \<noteq> None" for w2
    proof (rule assms [OF op])
      show "read_handle_ok (openReadSegment (dropReadSegment w2))"
        using openReadSegment_file [OF dropReadSegment_readFile op] by (simp add: read_handle_ok_def)
      show "length (dw_files (openReadSegment (dropReadSegment w2))) \<le> length (dw_files w)"
        by (simp add: dropReadSegment_files w2 delete_no_longer)
      show "length (dw_files (openReadSegment (dropReadSegment w2))) < length (dw_files w)"
        if "read_handle_ok w"
        using h1 [OF that] Some by (simp add: dropReadSegment_files w2 delete_shorter)
    qed
    then show ?thesis
      using Some by (auto simp: w1_def [symmetric] Let_def files split: prod.split sum.split)
  qed
qed

lemma ReadNext_loop_total:
  "read_handle_ok w \<Longrightarrow> length (dw_files w) < n \<Longrightarrow> ReadNext_loop nf n w \<noteq> None"
proof (induction n arbitrary: w)
  case 0
  then show ?case by simp
next
  case (Suc n)
  show ?case
  proof (rule ReadNext_loop_step)
    fix w3 :: disk_wal
    assume "read_handle_ok w3" and "read_handle_ok w \<Longrightarrow> length (dw_files w3) < length (dw_files w)"
    then show "ReadNext_loop nf n w3 \<noteq> None" using Suc by simp
  qed
qed

text \<open>
  C29: \<^verbatim>\<open>ReadNext\<close> returns for every state of the log, well-formed or not: the loop over
  segments that are at their end removes a file in every turn but the first, so it makes at most
  two turns more than the directory has files.
\<close>

theorem ReadNext_returns:
  "ReadNext_loop nf (Suc (Suc (length (dw_files w)))) w = Some (WAL_ReadNext nf w)"
proof -
  have "ReadNext_loop nf (Suc (Suc (length (dw_files w)))) w \<noteq> None"
    by (rule ReadNext_loop_step) (rule ReadNext_loop_total, simp_all)
  then show ?thesis by (auto simp: WAL_ReadNext_def simp del: ReadNext_loop.simps)
qed

section \<open>A full log never becomes usable again\<close>

text \<open>
  One segment, the one being written, whose records have all been read, with the size limit
  reached: the log holds no message.
\<close>

definition drained_log :: "float_format \<Rightarrow> disk_wal \<Rightarrow> bool" where
  "drained_log nf w \<longleftrightarrow> (\<exists>s. wal_ok_state nf [s] (length (snd s)) w) \<and> dw_currentFile w \<noteq> None"

definition stuck_full :: "float_format \<Rightarrow> disk_wal \<Rightarrow> bool" where
  "stuck_full nf w \<longleftrightarrow> drained_log nf w \<and> dw_maxSize w \<le> dw_totalSize w"

lemma openReadSegment_same [simp]:
  "dw_currentFile (openReadSegment w) = dw_currentFile w"
  "dw_currentSegment (openReadSegment w) = dw_currentSegment w"
  "dw_maxSize (openReadSegment w) = dw_maxSize w" "dw_totalSize (openReadSegment w) = dw_totalSize w"
  by (simp_all add: openReadSegment_def Let_def)

lemma drained_read:
  assumes "drained_log nf w"
  shows "WAL_ReadNext nf w = (Inr None, openReadSegment w)" and "drained_log nf (openReadSegment w)"
proof -
  obtain s where ok: "wal_ok_state nf [s] (length (snd s)) w" and cf: "dw_currentFile w \<noteq> None"
    using assms by (auto simp: drained_log_def)
  obtain n rs where s: "s = (n, rs)" by (cases s)
  note O = openReadSegment_ok [OF ok]
  show "drained_log nf (openReadSegment w)"
    unfolding drained_log_def
    by (intro conjI exI [of _ s] O(1)) (use cf in simp_all)
  define w1 where "w1 = openReadSegment w"
  have e: "(if dw_readFile w = None then openReadSegment w else w) = w1"
    by (simp add: w1_def openReadSegment_def)
  have rf: "dw_readFile w1 = Some (read_pos nf [s] (length rs))" "dw_readSegment w1 = sname n"
    using O(1,2) s unfolding w1_def by (auto simp: wal_ok_state_def reader_ok_def split: option.splits)
  have cs: "dw_currentSegment w1 = sname n"
    using ok cf s by (auto simp: w1_def wal_ok_state_def writer_ok_def split: option.splits)
  have content: "file_content w1 (sname n) = recs_bytes nf rs"
    using file_content_ok [OF wal_ok_stateD(1) [OF O(1)], of n rs] s by (simp add: w1_def)
  have pos: "read_pos nf [s] (length rs) = length (recs_bytes nf rs)" by (simp add: read_pos_def s)
  have w2: "w1\<lparr>dw_readFile := Some (length (recs_bytes nf rs))\<rparr> = w1" using rf(1) pos by simp
  have "ReadNext_loop nf (Suc (Suc (length (dw_files w)))) w = Some (Inr None, w1)"
    by (subst ReadNext_loop.simps(2)) (simp add: e rf cs content pos walrec.decode_end w2 Let_def)
  then show "WAL_ReadNext nf w = (Inr None, openReadSegment w)"
    unfolding WAL_ReadNext_def w1_def by (simp del: ReadNext_loop.simps)
qed

lemma stuck_full_read:
  "stuck_full nf w \<Longrightarrow> WAL_ReadNext nf w = (Inr None, openReadSegment w) \<and> stuck_full nf (openReadSegment w)"
  using drained_read [of nf w] by (simp add: stuck_full_def)

fun stuck_out :: "wal_op \<Rightarrow> wal_out" where
  "stuck_out (OpAppend uuid msg) = OutAppend (Some (Err ''disk buffer full'' []))"
| "stuck_out OpRead = OutRead (Inr None)"
| "stuck_out p = OutDone"

lemma stuck_full_step:
  assumes "stuck_full nf w" and "\<forall>opts. p \<noteq> OpCrash opts"
  shows "\<exists>w'. wal_step nf w p = (stuck_out p, w') \<and> stuck_full nf w'"
proof (cases p)
  case (OpAppend uuid msg)
  then show ?thesis using assms(1) Append_full [of w nf uuid None msg] by (simp add: stuck_full_def)
next
  case OpRead
  then show ?thesis using stuck_full_read [OF assms(1)] by simp
next
  case OpFsync
  then show ?thesis
    using assms(1) fsyncLocked_ok unfolding stuck_full_def drained_log_def WAL_Fsync_def
    by (intro exI [of _ "fsyncLocked w"]) (force simp: WAL_Fsync_def)
next
  case (OpCrash opts)
  then show ?thesis using assms(2) by simp
qed

text \<open>
  C30: a disk log whose size limit is reached inside its only segment stays full although every
  message has been read: until the process restarts, all appends are refused and all reads report
  that there is nothing, in any order and number. The space of a segment is only reclaimed when a
  later segment exists, and the size check comes before the roll-over that would create one. With
  the default segment size of 64 MB this happens to every buffer with a smaller limit.
\<close>

theorem full_log_stays_full:
  assumes "stuck_full nf w" and "list_all (\<lambda>p. \<forall>opts. p \<noteq> OpCrash opts) ps"
  shows "fst (wal_run nf w ps) = map stuck_out ps"
  using assms
proof (induction ps arbitrary: w)
  case Nil
  then show ?case by simp
next
  case (Cons p ps)
  obtain w' where "wal_step nf w p = (stuck_out p, w')" "stuck_full nf w'"
    using stuck_full_step [OF Cons.prems(1), of p] Cons.prems(2) by auto
  with Cons show ?case by (simp add: split_beta)
qed

text \<open>A log of at most 20 bytes after one message was written and read.\<close>

definition demo_full :: disk_wal where
  "demo_full =
     \<lparr>dw_fs = \<lparr>fs_files = [(''seg-000001.wal'', wal_bytes demo_nf ''u'' demo_wal_msg)],
        fs_offset = Some (Inr \<lparr>of_Segment = ''seg-000001.wal'', of_Offset = 28\<rparr>)\<rparr>,
      dw_segmentSize = DefaultSegmentSize, dw_maxSize = 20, dw_currentSegment = ''seg-000001.wal'',
      dw_currentFile = Some 28, dw_currentSize = 28, dw_totalSize = 28,
      dw_readSegment = ''seg-000001.wal'', dw_readFile = Some 28, dw_readOffset = 28,
      dw_offset = \<lparr>of_Segment = ''seg-000001.wal'', of_Offset = 28\<rparr>, dw_dirty = True\<rparr>"

lemma sname_1: "sname 1 = ''seg-000001.wal''"
  by code_simp

lemma demo_full_stuck: "stuck_full demo_nf demo_full"
proof -
  have l: "length (wal_bytes demo_nf ''u'' demo_wal_msg) = 28"
    by (simp add: wal_bytes_eq demo_wal_msg_def message_New_def json_string_def json_char_def demo_nf_def)
  have "wal_ok_state demo_nf [(1, [(''u'', demo_wal_msg)])] 1 demo_full"
    by (simp add: wal_ok_state_def demo_full_def files_ok_def dir_ok_def offset_ok_def writer_ok_def
        reader_ok_def segs_size_def read_pos_def recs_bytes_def rec_bytes_def rec_ok_def demo_wal_ok
        sname_1 [unfolded One_nat_def] l seg_names_def)
  then show ?thesis
    unfolding stuck_full_def drained_log_def
    by (intro conjI exI [of _ "(1, [(''u'', demo_wal_msg)])"]) (simp_all add: demo_full_def)
qed

theorem full_log_stays_full_witness:
  "fst (wal_run demo_nf demo_full [OpRead, OpAppend ''u'' demo_wal_msg, OpFsync, OpRead])
     = [OutRead (Inr None), OutAppend (Some (Err ''disk buffer full'' [])), OutDone, OutRead (Inr None)]"
  using full_log_stays_full [OF demo_full_stuck, of "[OpRead, OpAppend ''u'' demo_wal_msg, OpFsync, OpRead]"]
  by simp

section \<open>Pending after everything was read\<close>

text \<open>
  \<^verbatim>\<open>Pending\<close> does not tell whether there is something to read: it is true exactly when
  the directory has a segment, and a drained log that is still being written has one. The drain
  loop of the edge buffer waits for it to become false.
\<close>

theorem Pending_after_drain:
  assumes "wal_ok_state nf segs k w"
  shows "(WAL_Pending w \<longleftrightarrow> segs \<noteq> []) \<and> (dw_currentFile w \<noteq> None \<longrightarrow> WAL_Pending w)"
proof -
  have "WAL_Pending w \<longleftrightarrow> segs \<noteq> []"
    using assms listSegments_ok [OF wal_ok_stateD(1) [OF assms]]
    by (auto simp: WAL_Pending_def seg_names_def wal_ok_state_def reader_ok_def split: option.splits)
  moreover have "dw_currentFile w \<noteq> None \<longrightarrow> segs \<noteq> []"
    using assms by (auto simp: wal_ok_state_def writer_ok_def split: option.splits)
  ultimately show ?thesis by blast
qed

theorem Pending_after_drain_witness:
  "WAL_ReadNext demo_nf demo_full = (Inr None, openReadSegment demo_full) \<and> WAL_Pending demo_full"
proof -
  obtain s where ok: "wal_ok_state demo_nf [s] (length (snd s)) demo_full"
    using demo_full_stuck by (auto simp: stuck_full_def drained_log_def)
  show ?thesis using Pending_after_drain [OF ok] stuck_full_read [OF demo_full_stuck] by simp
qed

section \<open>A crash while a segment is dropped\<close>

text \<open>
  What is on disk when the process dies after the segment was removed and before the offset file
  was rewritten.
\<close>

definition drop_crash :: "disk_wal \<Rightarrow> wal_fs" where
  "drop_crash w = (dw_fs (dropReadSegment w))\<lparr>fs_offset := fs_offset (dw_fs w)\<rparr>"

definition reopened :: "wal_fs \<Rightarrow> disk_wal" where
  "reopened fs = (case NewDiskWAL demo_opts fs of Inr w \<Rightarrow> w | Inl e \<Rightarrow> demo_full)"

lemma demo_wal_length: "length (wal_bytes demo_nf ''u'' demo_wal_msg) = 28"
  by (simp add: wal_bytes_eq demo_wal_msg_def message_New_def json_string_def json_char_def demo_nf_def)

lemmas wal_eval =
  reopened_def NewDiskWAL_def loadOffset_def scanTotalSize_def openReadSegment_def listSegments_def
  file_content_def map_str_def demo_opts_def Let_def zero_offset_def demo_wal_length
  sname_segment [of 1, unfolded sname_1]

lemma reopened_demo:
  "reopened (dw_fs demo_full) = demo_full
     \<lparr>dw_segmentSize := 30, dw_maxSize := DefaultDiskMaxSize, dw_currentSegment := '''',
      dw_currentFile := None, dw_currentSize := 0, dw_dirty := False\<rparr>"
  by (simp add: wal_eval demo_full_def)

lemma drop_crash_demo:
  "drop_crash (reopened (dw_fs demo_full))
     = \<lparr>fs_files = [], fs_offset = Some (Inr \<lparr>of_Segment = ''seg-000001.wal'', of_Offset = 28\<rparr>)\<rparr>"
  unfolding reopened_demo by (simp add: drop_crash_def dropReadSegment_def persistOffset_def demo_full_def Let_def)

definition crash_fs :: wal_fs where
  "crash_fs = \<lparr>fs_files = [], fs_offset = Some (Inr \<lparr>of_Segment = ''seg-000001.wal'', of_Offset = 28\<rparr>)\<rparr>"

lemma append_after_crash:
  "WAL_Append demo_nf ''u'' None demo_wal_msg (reopened crash_fs) =
     (None, (reopened crash_fs)
        \<lparr>dw_fs := crash_fs\<lparr>fs_files := [(''seg-000001.wal'', wal_bytes demo_nf ''u'' demo_wal_msg)]\<rparr>,
         dw_currentSegment := ''seg-000001.wal'', dw_currentFile := Some 28, dw_currentSize := 28,
         dw_totalSize := 28, dw_dirty := True\<rparr>)"
proof -
  have "encodeWALRecord demo_nf ''u'' None demo_wal_msg = (None, wal_bytes demo_nf ''u'' demo_wal_msg, None)"
    by (simp add: encodeWALRecord_def write_chunks_None wal_bytes_def)
  moreover have "seg_name 1 = ''seg-000001.wal''" using sname_1 by (simp add: sname_def)
  ultimately show ?thesis
    by (simp add: WAL_Append_def ensureWriter_def nextSegmentName_def open_segment_def append_bytes_def
        crash_fs_def wal_eval DefaultDiskMaxSize_def)
qed

lemma read_at_end:
  assumes "dw_readFile w = Some p" and "file_content w (dw_readSegment w) = c" and "length c = p"
  shows "ReadNext_loop nf (Suc n) w =
     (if dw_readSegment w = dw_currentSegment w then Some (Inr None, w)
      else if dw_readFile (openReadSegment (dropReadSegment w)) = None
        then Some (Inr None, openReadSegment (dropReadSegment w))
      else ReadNext_loop nf n (openReadSegment (dropReadSegment w)))"
proof -
  have eq: "w\<lparr>dw_readFile := Some p\<rparr> = w" using assms(1) by simp
  show ?thesis using assms by (simp add: walrec.decode_end Let_def eq)
qed

lemma read_of_loop:
  "ReadNext_loop nf (Suc (Suc (length (dw_files w)))) w = Some r \<Longrightarrow> WAL_ReadNext nf w = r"
  by (simp add: WAL_ReadNext_def del: ReadNext_loop.simps)

text \<open>
  Dropping a segment is not atomic. A process that reopened a log of one fully read segment
  removes the segment and then resets the offset file; if it dies in between, the next process
  starts its numbering again at the same segment name, finds the old offset for it and skips that
  many bytes of new records: a message that was accepted is not returned.
\<close>

theorem drop_crash_loses_message:
  "fst (WAL_ReadNext demo_nf (reopened (dw_fs demo_full))) = Inr None
   \<and> fst (WAL_Append demo_nf ''u'' None demo_wal_msg (reopened (drop_crash (reopened (dw_fs demo_full))))) = None
   \<and> fst (WAL_ReadNext demo_nf
        (snd (WAL_Append demo_nf ''u'' None demo_wal_msg (reopened (drop_crash (reopened (dw_fs demo_full)))))))
      = Inr None"
proof -
  let ?w = "reopened (dw_fs demo_full)"
  have "dw_readFile (openReadSegment (dropReadSegment ?w)) = None"
    unfolding reopened_demo
    by (simp add: dropReadSegment_def persistOffset_def wal_eval demo_full_def)
  moreover have "dw_readSegment ?w \<noteq> dw_currentSegment ?w" "dw_readFile ?w = Some 28"
    "file_content ?w (dw_readSegment ?w) = wal_bytes demo_nf ''u'' demo_wal_msg"
    unfolding reopened_demo by (simp_all add: demo_full_def file_content_def map_str_def)
  ultimately have "WAL_ReadNext demo_nf ?w = (Inr None, openReadSegment (dropReadSegment ?w))"
    by (intro read_of_loop) (subst read_at_end, simp_all add: demo_wal_length del: ReadNext_loop.simps)
  moreover have "fst (WAL_ReadNext demo_nf
      (snd (WAL_Append demo_nf ''u'' None demo_wal_msg (reopened crash_fs)))) = Inr None"
  proof -
    define v where "v = snd (WAL_Append demo_nf ''u'' None demo_wal_msg (reopened crash_fs))"
    have op: "dw_readFile v = None"
      unfolding v_def append_after_crash by (simp add: wal_eval crash_fs_def)
    have o: "dw_readFile (openReadSegment v) = Some 28"
      "dw_readSegment (openReadSegment v) = ''seg-000001.wal''"
      "dw_currentSegment (openReadSegment v) = ''seg-000001.wal''"
      "file_content (openReadSegment v) ''seg-000001.wal'' = wal_bytes demo_nf ''u'' demo_wal_msg"
      unfolding v_def append_after_crash by (simp_all add: wal_eval crash_fs_def)
    have "ReadNext_loop demo_nf (Suc n) (openReadSegment v) = Some (Inr None, openReadSegment v)" for n
      using o by (subst read_at_end) (simp_all add: demo_wal_length)
    moreover have "ReadNext_loop demo_nf (Suc n) v = ReadNext_loop demo_nf (Suc n) (openReadSegment v)" for n
      using op o(1) by simp
    ultimately have "WAL_ReadNext demo_nf v = (Inr None, openReadSegment v)"
      by (intro read_of_loop) (simp del: ReadNext_loop.simps)
    then show ?thesis by (simp add: v_def)
  qed
  ultimately show ?thesis
    unfolding drop_crash_demo crash_fs_def [symmetric] append_after_crash by simp
qed

end
