(* ===== verification/EdgeBuf.thy ===== *)
theory EdgeBuf
  imports DiskWal TopologyIR
begin

text \<open>
  \<^verbatim>\<open>internal/buffer/edge.go\<close>: the buffer of one edge, a bounded channel with an optional
  disk log, and the goroutine that moves messages to the outgoing channel. A \<^verbatim>\<open>select\<close>
  picks any ready case, so an operation gives the list of its possible outcomes; the empty list
  means that it waits. The acknowledgements an operation performs are part of its outcome, in
  order; \<^const>\<open>None\<close> is a nil error.
\<close>

section \<open>State\<close>

text \<open>A message in a buffer: one from memory, by pointer, or one decoded from the disk log.\<close>

datatype edge_item = MemMsg mref | DiskMsg message

text \<open>Where the draining goroutine is: before its loop, holding a message to emit, or ended.\<close>

datatype drainer = DrainLoop | DrainEmit edge_item | DrainEnded

record edge_inbound =
  eb_pipeline :: string
  eb_from :: string
  eb_to :: string
  eb_cfg :: edge_buffer_config
  eb_mem :: "mref list"
  eb_memcap :: nat
  eb_out :: "edge_item list"
  eb_outcap :: nat
  eb_disk :: "disk_wal option"
  eb_strategy :: string
  eb_bufType :: string
  eb_closed :: bool
  eb_drainer :: drainer

type_synonym acks = "(mref \<times> goerr option) list"

text \<open>What the rest of the program provides: the float formats and the content of messages.\<close>

record edge_env =
  ev_nf :: float_format
  ev_msg :: "mref \<Rightarrow> message"
  ev_uuid :: string
  ev_room :: "nat option"

section \<open>Construction\<close>

definition defaultDiskRoot :: string where "defaultDiskRoot = ''buffers''"

text \<open>The directory of the disk log; the parts of the path are in clean form.\<close>

definition edge_dir :: "edge_buffer_config \<Rightarrow> string \<Rightarrow> string \<Rightarrow> string \<Rightarrow> string" where
  "edge_dir cfg pipeline from to =
     (if bf_DiskPath cfg = '''' then defaultDiskRoot else bf_DiskPath cfg)
       @ ''/'' @ pipeline @ ''/'' @ from @ ''__'' @ to"

text \<open>
  \<^verbatim>\<open>NewEdgeInbound\<close> on a directory given by its name. \<^verbatim>\<open>make(chan T, n)\<close> panics when
  \<open>n\<close> is negative. The synchronisation interval is only the period of the flushes.
\<close>

definition NewEdgeInbound ::
  "(string \<Rightarrow> wal_fs) \<Rightarrow> string \<Rightarrow> string \<Rightarrow> string \<Rightarrow> edge_buffer_config \<Rightarrow> edge_inbound res" where
  "NewEdgeInbound dirs pipeline from to config =
     (let cfg = DefaultBuffer config in
      if bf_Size cfg < 0 then Inl (Err ''panic: makechan: size out of range'' [])
      else
        let e = \<lparr>eb_pipeline = pipeline, eb_from = from, eb_to = to, eb_cfg = cfg, eb_mem = [],
                 eb_memcap = nat (bf_Size cfg), eb_out = [], eb_outcap = nat (bf_Size cfg),
                 eb_disk = None, eb_strategy = bf_Strategy cfg, eb_bufType = bf_Type cfg,
                 eb_closed = False, eb_drainer = DrainLoop\<rparr> in
        if bf_Type cfg = ''disk'' \<or> bf_Type cfg = ''overflow'' then
          (case NewDiskWAL \<lparr>do_SegmentSize = 0, do_MaxSize = bf_DiskMaxSize cfg\<rparr>
                  (dirs (edge_dir cfg pipeline from to)) of
             Inl err \<Rightarrow> Inl err
           | Inr disk \<Rightarrow> Inr (e\<lparr>eb_disk := Some disk\<rparr>))
        else Inr e)"

definition Edge_Len :: "edge_inbound \<Rightarrow> nat" where
  "Edge_Len e = length (eb_mem e)"

definition DiskBytes :: "edge_inbound \<Rightarrow> int" where
  "DiskBytes e = (case eb_disk e of None \<Rightarrow> 0 | Some d \<Rightarrow> WAL_SizeBytes d)"

section \<open>Enqueue\<close>

text \<open>
  One outcome of an enqueue: the acknowledgements, what is returned (dropped, reason, error), or
  \<^const>\<open>None\<close> when the loop of \<^verbatim>\<open>handleDiskFull\<close> makes another turn, and the new
  state. The context is given by \<^verbatim>\<open>ctx.Err()\<close>.
\<close>

type_synonym enq_result = "bool \<times> string \<times> goerr option"
type_synonym enq_outcome = "acks \<times> enq_result option \<times> edge_inbound"

definition mem_room :: "edge_inbound \<Rightarrow> bool" where
  "mem_room e \<longleftrightarrow> length (eb_mem e) < eb_memcap e"

definition mem_push :: "edge_inbound \<Rightarrow> mref \<Rightarrow> edge_inbound" where
  "mem_push e m = e\<lparr>eb_mem := eb_mem e @ [m]\<rparr>"

text \<open>The two cases \<^verbatim>\<open>case <-ctx.Done(): msg.Ack(ctx.Err())\<close> and \<^verbatim>\<open>case ch <- msg\<close>.\<close>

definition send_cases :: "goerr option \<Rightarrow> edge_inbound \<Rightarrow> mref \<Rightarrow> enq_outcome list" where
  "send_cases ctx e m =
     (case ctx of None \<Rightarrow> [] | Some err \<Rightarrow> [([(m, Some err)], Some (False, '''', None), e)])
     @ (if mem_room e then [([], Some (False, '''', None), mem_push e m)] else [])"

text \<open>
  \<^verbatim>\<open>sendToMemory\<close>. Dropping the oldest message and sending the new one happens without
  another goroutine in between.
\<close>

definition sendToMemory :: "goerr option \<Rightarrow> edge_inbound \<Rightarrow> mref \<Rightarrow> enq_outcome list" where
  "sendToMemory ctx e m =
     (if eb_strategy e = ''drop_newest'' then
        (case send_cases ctx e m of
           [] \<Rightarrow> [([(m, None)], Some (True, ''drop_newest'', None), e)]
         | outs \<Rightarrow> outs)
      else if eb_strategy e = ''drop_oldest'' then
        (case send_cases ctx e m of
           [] \<Rightarrow>
             (case eb_mem e of
                [] \<Rightarrow> []
              | old # rest \<Rightarrow>
                  [([(old, None)], Some (True, ''drop_oldest'', None), mem_push (e\<lparr>eb_mem := rest\<rparr>) m)])
         | outs \<Rightarrow> outs)
      else send_cases ctx e m)"

definition disk_append :: "edge_env \<Rightarrow> edge_inbound \<Rightarrow> disk_wal \<Rightarrow> mref \<Rightarrow> goerr option \<times> edge_inbound" where
  "disk_append ev e d m =
     (case WAL_Append (ev_nf ev) (ev_uuid ev) (ev_room ev) (ev_msg ev m) d of
        (err, d') \<Rightarrow> (err, e\<lparr>eb_disk := Some d'\<rparr>))"

text \<open>
  \<^verbatim>\<open>handleDiskFull\<close>; in the last case one turn of its loop. A message read back from the
  disk has no ack callback, so acknowledging it does nothing.
\<close>

definition handleDiskFull ::
  "edge_env \<Rightarrow> goerr option \<Rightarrow> edge_inbound \<Rightarrow> disk_wal \<Rightarrow> mref \<Rightarrow> goerr \<Rightarrow> enq_outcome list" where
  "handleDiskFull ev ctx e d m diskErr =
     (if eb_strategy e = ''drop_newest'' then
        [([(m, None)], Some (True, ''disk_full_drop_newest'', None), e)]
      else if eb_strategy e = ''drop_oldest'' then
        (case WAL_ReadNext (ev_nf ev) d of
           (_, d1) \<Rightarrow>
             (case disk_append ev (e\<lparr>eb_disk := Some d1\<rparr>) d1 m of
                (Some err, e') \<Rightarrow> [([(m, Some diskErr)], Some (True, ''disk_full'', Some err), e')]
              | (None, e') \<Rightarrow> [([], Some (True, ''disk_full_drop_oldest'', None), e')]))
      else
        (case ctx of
           None \<Rightarrow> []
         | Some err \<Rightarrow> [([(m, Some err)], Some (False, '''', Some err), e)])
        @ (case disk_append ev e d m of
             (None, e') \<Rightarrow> [([], Some (False, '''', None), e')]
           | (Some err, e') \<Rightarrow> [([], None, e')]))"

definition Enqueue ::
  "edge_env \<Rightarrow> goerr option \<Rightarrow> edge_inbound \<Rightarrow> mref \<Rightarrow> enq_outcome list" where
  "Enqueue ev ctx e m =
     (if eb_closed e then [([(m, Some Canceled)], Some (False, '''', Some Canceled), e)]
      else if eb_bufType e = ''disk'' then
        (case eb_disk e of
           None \<Rightarrow> sendToMemory ctx e m
         | Some d \<Rightarrow>
             (case disk_append ev e d m of
                (None, e') \<Rightarrow> [([], Some (False, '''', None), e')]
              | (Some err, e') \<Rightarrow>
                  (case eb_disk e' of
                     None \<Rightarrow> []
                   | Some d' \<Rightarrow> handleDiskFull ev ctx e' d' m err)))
      else
        (case (if eb_bufType e = ''overflow'' then eb_disk e else None) of
           Some d \<Rightarrow>
             if mem_room e then [([], Some (False, '''', None), mem_push e m)]
             else
               (case disk_append ev e d m of
                  (None, e') \<Rightarrow> [([], Some (False, ''overflow_spill'', None), e')]
                | (Some err, e') \<Rightarrow>
                    (case eb_disk e' of
                       None \<Rightarrow> []
                     | Some d' \<Rightarrow> handleDiskFull ev ctx e' d' m err))
         | None \<Rightarrow>
             if mem_room e then [([], Some (False, '''', None), mem_push e m)]
             else sendToMemory ctx e m))"

section \<open>Draining\<close>

definition shouldStop :: "goerr option \<Rightarrow> edge_inbound \<Rightarrow> bool" where
  "shouldStop ctx e \<longleftrightarrow>
     ctx \<noteq> None \<and> eb_mem e = [] \<and> (case eb_disk e of None \<Rightarrow> True | Some d \<Rightarrow> \<not> WAL_Pending d)"

definition item_acks :: "edge_item \<Rightarrow> goerr option \<Rightarrow> acks" where
  "item_acks it err = (case it of MemMsg m \<Rightarrow> [(m, err)] | DiskMsg _ \<Rightarrow> [])"

text \<open>\<^verbatim>\<open>emit\<close>: when it reports false the loop returns and the channel is closed.\<close>

definition emit :: "goerr option \<Rightarrow> edge_inbound \<Rightarrow> edge_item \<Rightarrow> (acks \<times> edge_inbound) list" where
  "emit ctx e it =
     (case ctx of
        None \<Rightarrow> []
      | Some err \<Rightarrow> [(item_acks it (Some err), e\<lparr>eb_drainer := DrainEnded\<rparr>)])
     @ (if length (eb_out e) < eb_outcap e
        then [([], e\<lparr>eb_out := eb_out e @ [it], eb_drainer := DrainLoop\<rparr>)] else [])"

text \<open>
  One turn of \<^verbatim>\<open>drainLoop\<close>: it ends the goroutine, takes a message in hand, or goes
  around again; a turn that finds the goroutine holding a message is the wait in \<^verbatim>\<open>emit\<close>.
\<close>

definition drain_turn :: "edge_env \<Rightarrow> goerr option \<Rightarrow> edge_inbound \<Rightarrow> (acks \<times> edge_inbound) list" where
  "drain_turn ev ctx e =
     (case eb_drainer e of
        DrainEnded \<Rightarrow> []
      | DrainEmit it \<Rightarrow> emit ctx e it
      | DrainLoop \<Rightarrow>
          if ctx \<noteq> None \<and> shouldStop ctx e then [([], e\<lparr>eb_drainer := DrainEnded\<rparr>)]
          else
            (case (case eb_disk e of
                     None \<Rightarrow> (Inr None, e)
                   | Some d \<Rightarrow>
                       (case WAL_ReadNext (ev_nf ev) d of (r, d') \<Rightarrow> (r, e\<lparr>eb_disk := Some d'\<rparr>))) of
               (Inl err, e1) \<Rightarrow> [([], e1\<lparr>eb_drainer := DrainEnded\<rparr>)]
             | (Inr (Some msg), e1) \<Rightarrow> [([], e1\<lparr>eb_drainer := DrainEmit (DiskMsg msg)\<rparr>)]
             | (Inr None, e1) \<Rightarrow>
                 (if ctx \<noteq> None then
                    [([], if shouldStop ctx e1 then e1\<lparr>eb_drainer := DrainEnded\<rparr> else e1)]
                  else [])
                 @ (case eb_mem e1 of
                      m # rest \<Rightarrow> [([], e1\<lparr>eb_mem := rest, eb_drainer := DrainEmit (MemMsg m)\<rparr>)]
                    | [] \<Rightarrow> if eb_closed e1 then [([], e1\<lparr>eb_drainer := DrainEnded\<rparr>)] else [])))"

text \<open>\<^verbatim>\<open>Close\<close> up to the wait for the draining goroutine, and what follows the wait.\<close>

definition Edge_Close_begin :: "edge_inbound \<Rightarrow> edge_inbound" where
  "Edge_Close_begin e = e\<lparr>eb_closed := True\<rparr>"

definition Edge_Close_end :: "edge_inbound \<Rightarrow> edge_inbound" where
  "Edge_Close_end e = e\<lparr>eb_disk := map_option WAL_Close (eb_disk e)\<rparr>"

section \<open>A run of an edge buffer\<close>

text \<open>
  The goroutines around a buffer, one atomic operation at a time: producers that enqueue (a waiting
  producer takes no step), the draining goroutine, the consumer of the outgoing channel, the
  context of the next operation (each caller passes its own, which may have ended) and the closing.
  The history records what went in, what the edge
  itself acknowledged and what came out.
\<close>

record edge_run =
  er_edge :: edge_inbound
  er_ctx :: "goerr option"
  er_in :: "mref list"
  er_acks :: acks
  er_delivered :: "edge_item list"

inductive edge_step :: "edge_env \<Rightarrow> edge_run \<Rightarrow> edge_run \<Rightarrow> bool" for ev where
  step_enqueue:
    "(acks, Some res, e') \<in> set (Enqueue ev (er_ctx h) (er_edge h) m) \<Longrightarrow>
     edge_step ev h (h\<lparr>er_edge := e', er_in := er_in h @ [m], er_acks := er_acks h @ acks\<rparr>)"
| step_retry:
    "(acks, None, e') \<in> set (Enqueue ev (er_ctx h) (er_edge h) m) \<Longrightarrow>
     edge_step ev h (h\<lparr>er_edge := e', er_acks := er_acks h @ acks\<rparr>)"
| step_drain:
    "(acks, e') \<in> set (drain_turn ev (er_ctx h) (er_edge h)) \<Longrightarrow>
     edge_step ev h (h\<lparr>er_edge := e', er_acks := er_acks h @ acks\<rparr>)"
| step_deliver:
    "eb_out (er_edge h) = it # rest \<Longrightarrow>
     edge_step ev h (h\<lparr>er_edge := (er_edge h)\<lparr>eb_out := rest\<rparr>, er_delivered := er_delivered h @ [it]\<rparr>)"
| step_context: "edge_step ev h (h\<lparr>er_ctx := ctx\<rparr>)"
| step_close: "edge_step ev h (h\<lparr>er_edge := Edge_Close_begin (er_edge h)\<rparr>)"

inductive edge_reach :: "edge_env \<Rightarrow> edge_run \<Rightarrow> edge_run \<Rightarrow> bool" for ev h0 where
  reach_refl: "edge_reach ev h0 h0"
| reach_step: "edge_reach ev h0 h \<Longrightarrow> edge_step ev h h' \<Longrightarrow> edge_reach ev h0 h'"

interpretation edge: transition_system "edge_step ev" "edge_reach ev" for ev
  by unfold_locales (rule reach_refl, erule (1) reach_step, erule edge_reach.induct, assumption, blast)

definition run_start :: "edge_inbound \<Rightarrow> edge_run" where
  "run_start e = \<lparr>er_edge = e, er_ctx = None, er_in = [], er_acks = [], er_delivered = []\<rparr>"

section \<open>Memory buffers\<close>

definition in_hand :: "edge_inbound \<Rightarrow> edge_item list" where
  "in_hand e = (case eb_drainer e of DrainEmit it \<Rightarrow> [it] | _ \<Rightarrow> [])"

text \<open>Everything the buffer holds, oldest first.\<close>

definition in_transit :: "edge_inbound \<Rightarrow> edge_item list" where
  "in_transit e = eb_out e @ in_hand e @ map MemMsg (eb_mem e)"

definition not_acked :: "acks \<Rightarrow> mref \<Rightarrow> bool" where
  "not_acked as m \<longleftrightarrow> m \<notin> set (map fst as)"

definition mem_inv :: "edge_run \<Rightarrow> bool" where
  "mem_inv h \<longleftrightarrow>
     eb_disk (er_edge h) = None \<and>
     distinct (map fst (er_acks h)) \<and> set (map fst (er_acks h)) \<subseteq> set (er_in h) \<and>
     er_delivered h @ in_transit (er_edge h) = map MemMsg (filter (not_acked (er_acks h)) (er_in h)) \<and>
     length (eb_mem (er_edge h)) \<le> eb_memcap (er_edge h) \<and>
     length (eb_out (er_edge h)) \<le> eb_outcap (er_edge h)"

text \<open>
  An enqueue on a memory buffer either keeps the new message at the end, or acknowledges it, or
  acknowledges the oldest message of the channel to make room for it.
\<close>

lemma sendToMemory_cases:
  assumes "(acks, res, e') \<in> set (sendToMemory ctx e m)"
  obtains (push) "acks = []" "e' = mem_push e m" "mem_room e" "res \<noteq> None"
    | (reject) err where "acks = [(m, err)]" "e' = e" "res \<noteq> None"
    | (swap) old rest where "acks = [(old, None)]" "eb_mem e = old # rest"
        "e' = mem_push (e\<lparr>eb_mem := rest\<rparr>) m" "res \<noteq> None" "\<not> mem_room e"
proof -
  have sc: thesis if "(acks, res, e') \<in> set (send_cases ctx e m)"
    using that push reject by (auto simp: send_cases_def split: option.splits if_splits)
  show thesis
  proof (cases "send_cases ctx e m")
    case Nil
    then have "\<not> mem_room e" by (auto simp: send_cases_def)
    from Nil assms have "(acks, res, e') = ([(m, None)], Some (True, ''drop_newest'', None), e)
        \<or> (\<exists>old rest. eb_mem e = old # rest \<and>
             (acks, res, e') = ([(old, None)], Some (True, ''drop_oldest'', None), mem_push (e\<lparr>eb_mem := rest\<rparr>) m))"
      by (cases "eb_mem e") (auto simp: sendToMemory_def split: if_splits)
    then show thesis
    proof (elim disjE exE conjE)
      assume "(acks, res, e') = ([(m, None)], Some (True, ''drop_newest'', None), e)"
      then show thesis by (intro reject [of None]) auto
    next
      fix old rest
      assume "eb_mem e = old # rest"
        "(acks, res, e') = ([(old, None)], Some (True, ''drop_oldest'', None), mem_push (e\<lparr>eb_mem := rest\<rparr>) m)"
      then show thesis using \<open>\<not> mem_room e\<close> by (intro swap [of old rest]) auto
    qed
  next
    case (Cons o1 os)
    then have "set (sendToMemory ctx e m) = set (send_cases ctx e m)"
      by (simp add: sendToMemory_def)
    with assms sc show thesis by simp
  qed
qed

lemma Enqueue_memory_cases:
  assumes "(acks, res, e') \<in> set (Enqueue ev ctx e m)" and "eb_disk e = None"
  obtains (push) "acks = []" "e' = mem_push e m" "mem_room e" "res \<noteq> None"
    | (reject) err where "acks = [(m, err)]" "e' = e" "res \<noteq> None"
    | (swap) old rest where "acks = [(old, None)]" "eb_mem e = old # rest"
        "e' = mem_push (e\<lparr>eb_mem := rest\<rparr>) m" "res \<noteq> None" "\<not> mem_room e"
proof -
  have "(acks, res, e') = ([(m, Some Canceled)], Some (False, '''', Some Canceled), e)
      \<or> (acks, res, e') = ([], Some (False, '''', None), mem_push e m) \<and> mem_room e
      \<or> (acks, res, e') \<in> set (sendToMemory ctx e m)"
    using assms by (auto simp: Enqueue_def split: if_splits)
  then show thesis
  proof (elim disjE)
    assume "(acks, res, e') \<in> set (sendToMemory ctx e m)"
    then show thesis by (rule sendToMemory_cases) (use push reject swap in blast)+
  qed (use push reject in auto)
qed

lemma filter_not_acked_snoc:
  "distinct (xs @ [m]) \<Longrightarrow> set (map fst as) \<subseteq> set xs \<Longrightarrow>
     filter (not_acked as) (xs @ [m]) = filter (not_acked as) xs @ [m]"
  by (auto simp: not_acked_def)

text \<open>Acknowledging a message that is still in the buffer removes it and nothing else.\<close>

lemma filter_not_acked_one:
  assumes "distinct xs" and "filter (not_acked as) xs = us @ m # vs"
  shows "filter (not_acked (as @ [(m, err)])) xs = us @ vs" and "m \<notin> set (map fst as)" and "m \<in> set xs"
proof -
  have "filter (not_acked (as @ [(m, err)])) xs = filter (\<lambda>x. x \<noteq> m) (filter (not_acked as) xs)"
    unfolding filter_filter by (rule filter_cong) (auto simp: not_acked_def)
  moreover have "distinct (us @ m # vs)" using assms by (metis distinct_filter)
  ultimately show "filter (not_acked (as @ [(m, err)])) xs = us @ vs"
    using assms(2) by (simp add: filter_id_conv) (metis (mono_tags, lifting) filter_True)
  have "m \<in> set (filter (not_acked as) xs)" using assms(2) by simp
  then show "m \<notin> set (map fst as)" "m \<in> set xs" by (auto simp: not_acked_def)
qed

lemma map_MemMsg_split:
  assumes "ds @ us @ MemMsg m # vs = map MemMsg xs"
  shows "\<exists>ys zs. xs = ys @ m # zs \<and> ds @ us = map MemMsg ys \<and> vs = map MemMsg zs"
  using assms by (auto simp: append_assoc [symmetric] map_eq_append_conv append_eq_map_conv simp del: append_assoc)

lemma mem_inv_step:
  assumes inv: "mem_inv h" and step: "edge_step ev h h'" and dist: "distinct (er_in h')"
  shows "mem_inv h'"
  using step
proof cases
  case (step_enqueue acks res e' m)
  have d: "distinct (er_in h @ [m])" using dist step_enqueue by simp
  note I = inv [unfolded mem_inv_def]
  have nd: "eb_disk (er_edge h) = None" using I by blast
  from step_enqueue(2) nd show ?thesis
  proof (cases rule: Enqueue_memory_cases)
    case push
    then show ?thesis
      using I d step_enqueue(1) filter_not_acked_snoc [OF d, of "er_acks h"]
      by (auto simp: mem_inv_def in_transit_def in_hand_def mem_push_def mem_room_def)
  next
    case (reject err)
    have "m \<notin> set (map fst (er_acks h))" using I d by auto
    moreover have "filter (not_acked (er_acks h @ [(m, err)])) (er_in h @ [m]) = filter (not_acked (er_acks h)) (er_in h)"
      using d by (auto simp: not_acked_def intro!: filter_cong)
    ultimately show ?thesis using I reject step_enqueue(1) by (auto simp: mem_inv_def)
  next
    case (swap old rest)
    have f: "filter (not_acked (er_acks h)) (er_in h @ [m]) = filter (not_acked (er_acks h)) (er_in h) @ [m]"
      using filter_not_acked_snoc [OF d] I by blast
    have "er_delivered h @ (eb_out (er_edge h) @ in_hand (er_edge h)) @ MemMsg old # map MemMsg rest
        = map MemMsg (filter (not_acked (er_acks h)) (er_in h))"
      using I swap(2) by (simp add: in_transit_def)
    from map_MemMsg_split [OF this] obtain ys zs where yz:
      "filter (not_acked (er_acks h)) (er_in h) = ys @ old # zs"
      "er_delivered h @ eb_out (er_edge h) @ in_hand (er_edge h) = map MemMsg ys" "map MemMsg rest = map MemMsg zs"
      by auto
    have "filter (not_acked (er_acks h)) (er_in h @ [m]) = ys @ old # (zs @ [m])" using f yz(1) by simp
    note F = filter_not_acked_one [OF d this]
    have "er_delivered h @ in_transit e' = map MemMsg (ys @ zs @ [m])"
      using yz(2,3) swap(3) by (simp add: in_transit_def in_hand_def mem_push_def)
    moreover have "length (eb_mem e') \<le> eb_memcap e'" using I swap by (simp add: mem_push_def)
    moreover have "old \<in> set (er_in h)"
    proof -
      have "old \<in> set (filter (not_acked (er_acks h)) (er_in h))" unfolding yz(1) by simp
      then show ?thesis by simp
    qed
    ultimately show ?thesis
      using I F swap(1,3) step_enqueue(1) by (auto simp: mem_inv_def mem_push_def)
  qed
next
  case (step_retry acks e' m)
  note I = inv [unfolded mem_inv_def]
  have nd: "eb_disk (er_edge h) = None" using I by blast
  from step_retry(2) nd have False by (cases rule: Enqueue_memory_cases) auto
  then show ?thesis ..
next
  case (step_drain acks e')
  note I = inv [unfolded mem_inv_def]
  have d: "distinct (er_in h)" using dist step_drain by simp
  show ?thesis
  proof (cases "eb_drainer (er_edge h)")
    case DrainEnded
    then show ?thesis using step_drain by (simp add: drain_turn_def)
  next
    case (DrainEmit it)
    then have hand: "in_hand (er_edge h) = [it]" by (simp add: in_hand_def)
    from step_drain DrainEmit consider
        (stop) err where "acks = item_acks it (Some err)" "e' = (er_edge h)\<lparr>eb_drainer := DrainEnded\<rparr>"
      | (sent) "acks = []" "e' = (er_edge h)\<lparr>eb_out := eb_out (er_edge h) @ [it], eb_drainer := DrainLoop\<rparr>"
          "length (eb_out (er_edge h)) < eb_outcap (er_edge h)"
      by (auto simp: drain_turn_def emit_def split: option.splits if_splits)
    then show ?thesis
    proof cases
      case sent
      then show ?thesis using I step_drain(1) hand by (auto simp: mem_inv_def in_transit_def in_hand_def)
    next
      case (stop err)
      have "it \<in> set (map MemMsg (filter (not_acked (er_acks h)) (er_in h)))"
        using I hand unfolding in_transit_def by (metis in_set_conv_decomp append_Cons append_assoc)
      then obtain m where it: "it = MemMsg m" by auto
      have "er_delivered h @ eb_out (er_edge h) @ MemMsg m # map MemMsg (eb_mem (er_edge h))
          = map MemMsg (filter (not_acked (er_acks h)) (er_in h))"
        using I hand it by (simp add: in_transit_def)
      from map_MemMsg_split [OF this] obtain ys zs where yz:
        "filter (not_acked (er_acks h)) (er_in h) = ys @ m # zs"
        "er_delivered h @ eb_out (er_edge h) = map MemMsg ys" "map MemMsg (eb_mem (er_edge h)) = map MemMsg zs"
        by auto
      note F = filter_not_acked_one [OF d yz(1)]
      have "er_delivered h @ in_transit e' = map MemMsg (ys @ zs)"
        using yz(2,3) stop(2) by (simp add: in_transit_def in_hand_def)
      then show ?thesis
        using I F stop it step_drain(1) by (auto simp: mem_inv_def item_acks_def)
    qed
  next
    case DrainLoop
    then have hand: "in_hand (er_edge h) = []" by (simp add: in_hand_def)
    have nd: "eb_disk (er_edge h) = None" using I by blast
    have "acks = [] \<and> (e' = (er_edge h)\<lparr>eb_drainer := DrainEnded\<rparr> \<or> e' = er_edge h
        \<or> (\<exists>m rest. eb_mem (er_edge h) = m # rest \<and>
             e' = (er_edge h)\<lparr>eb_mem := rest, eb_drainer := DrainEmit (MemMsg m)\<rparr>))"
      using step_drain(2) DrainLoop nd
      by (cases "eb_mem (er_edge h)") (auto simp: drain_turn_def split: if_splits)
    then show ?thesis
      using I hand step_drain(1) by (auto simp: mem_inv_def in_transit_def in_hand_def)
  qed
next
  case (step_deliver it rest)
  then show ?thesis using inv by (auto simp: mem_inv_def in_transit_def in_hand_def)
next
  case (step_context ctx)
  then show ?thesis using inv by (simp add: mem_inv_def)
next
  case step_close
  then show ?thesis using inv by (simp add: mem_inv_def in_transit_def in_hand_def Edge_Close_begin_def)
qed

lemma er_in_mono: "edge_step ev h h' \<Longrightarrow> \<exists>xs. er_in h' = er_in h @ xs"
  by (cases rule: edge_step.cases) auto

text \<open>Every run of a new memory buffer keeps the invariant as long as no message is enqueued twice.\<close>

lemma memory_run:
  assumes "NewEdgeInbound dirs pipeline from to config = Inr e" and "eb_disk e = None"
    and "edge_reach ev (run_start e) h" and "distinct (er_in h)"
  shows "mem_inv h"
proof -
  have start: "mem_inv (run_start e)"
    using assms(1,2)
    by (auto simp: NewEdgeInbound_def mem_inv_def run_start_def in_transit_def in_hand_def Let_def
        split: if_splits sum.splits)
  have "distinct (er_in t) \<longrightarrow> mem_inv t" if "edge_reach ev (run_start e) t" for t
    using that
  proof (rule edge.invariant)
    show "distinct (er_in u) \<longrightarrow> mem_inv u" if "edge_step ev t u" "distinct (er_in t) \<longrightarrow> mem_inv t" for t u
      using that er_in_mono [OF that(1)] mem_inv_step [OF _ that(1)] by fastforce
  qed (simp add: start)
  then show ?thesis using assms(3,4) by blast
qed


definition demo_ev :: edge_env where
  "demo_ev = \<lparr>ev_nf = demo_nf, ev_msg = (\<lambda>m. demo_wal_msg), ev_uuid = ''u'', ev_room = None\<rparr>"

definition demo_ebuf :: edge_inbound where
  "demo_ebuf =
     \<lparr>eb_pipeline = ''p'', eb_from = ''a'', eb_to = ''b'',
      eb_cfg = DefaultBuffer (zero_buffer\<lparr>bf_Size := 1, bf_Strategy := ''drop_oldest''\<rparr>), eb_mem = [],
      eb_memcap = 1, eb_out = [], eb_outcap = 1, eb_disk = None, eb_strategy = ''drop_oldest'',
      eb_bufType = ''memory'', eb_closed = False, eb_drainer = DrainLoop\<rparr>"

lemma demo_ebuf_new:
  "NewEdgeInbound dirs ''p'' ''a'' ''b'' (zero_buffer\<lparr>bf_Size := 1, bf_Strategy := ''drop_oldest''\<rparr>)
     = Inr demo_ebuf"
  by (simp add: NewEdgeInbound_def demo_ebuf_def DefaultBuffer_def zero_buffer_def Let_def)

lemma demo_ebuf_reach:
  "edge_reach demo_ev (run_start demo_ebuf)
     \<lparr>er_edge = demo_ebuf\<lparr>eb_mem := [8]\<rparr>, er_ctx = None, er_in = [7, 8], er_acks = [(7, None)],
      er_delivered = []\<rparr>"
proof -
  let ?h1 = "\<lparr>er_edge = demo_ebuf\<lparr>eb_mem := [7]\<rparr>, er_ctx = None, er_in = [7], er_acks = [], er_delivered = []\<rparr>"
  have "([], Some (False, '''', None), demo_ebuf\<lparr>eb_mem := [7]\<rparr>) \<in> set (Enqueue demo_ev None demo_ebuf 7)"
    by (simp add: Enqueue_def demo_ebuf_def mem_room_def mem_push_def)
  then have "edge_step demo_ev (run_start demo_ebuf) ?h1"
    using step_enqueue [of "[]" _ "demo_ebuf\<lparr>eb_mem := [7]\<rparr>" demo_ev "run_start demo_ebuf" 7]
    by (simp add: run_start_def)
  then have r1: "edge_reach demo_ev (run_start demo_ebuf) ?h1" by (rule reach_step [OF reach_refl])
  have "([(7, None)], Some (True, ''drop_oldest'', None), demo_ebuf\<lparr>eb_mem := [8]\<rparr>)
      \<in> set (Enqueue demo_ev None (demo_ebuf\<lparr>eb_mem := [7]\<rparr>) 8)"
    by (simp add: Enqueue_def demo_ebuf_def mem_room_def mem_push_def sendToMemory_def send_cases_def)
  then have "edge_step demo_ev ?h1
     \<lparr>er_edge = demo_ebuf\<lparr>eb_mem := [8]\<rparr>, er_ctx = None, er_in = [7, 8], er_acks = [(7, None)],
      er_delivered = []\<rparr>"
    using step_enqueue [of "[(7, None)]" _ "demo_ebuf\<lparr>eb_mem := [8]\<rparr>" demo_ev ?h1 8] by simp
  with r1 show ?thesis by (rule reach_step)
qed


section \<open>Rejections and construction\<close>

text \<open>
  After \<^verbatim>\<open>Close\<close> an enqueue has exactly one outcome: the message is acknowledged with
  \<^verbatim>\<open>context.Canceled\<close>, the same error is returned, and the buffer does not change.
\<close>

theorem Enqueue_closed:
  "Enqueue ev ctx (Edge_Close_begin e) m
     = [([(m, Some Canceled)], Some (False, '''', Some Canceled), Edge_Close_begin e)]"
  by (simp add: Enqueue_def Edge_Close_begin_def)

text \<open>
  A negative buffer size panics while the pipeline is built: defaults replace only zero, and
  no validation rejects the value.
\<close>

theorem NewEdgeInbound_negative_size:
  assumes "bf_Size config < 0"
  shows "NewEdgeInbound dirs pipeline from to config
     = Inl (Err ''panic: makechan: size out of range'' [])"
  using assms by (simp add: NewEdgeInbound_def DefaultBuffer_def Let_def)

theorem NewEdgeInbound_negative_size_witness:
  "NewEdgeInbound (\<lambda>d. \<lparr>fs_files = [], fs_offset = None\<rparr>) ''p'' ''a'' ''b'' (zero_buffer\<lparr>bf_Size := - 1\<rparr>)
     = Inl (Err ''panic: makechan: size out of range'' [])"
  using NewEdgeInbound_negative_size [of "zero_buffer\<lparr>bf_Size := - 1\<rparr>"] by simp

section \<open>Disk buffers\<close>

text \<open>A message read from a log carries no ack callback.\<close>

lemma decode_no_ack: "decodeWALRecord nf s = (Inr msg, r) \<Longrightarrow> ms_ackFn msg = []"
  by (auto simp: decodeWALRecord_def Let_def message_New_def split: prod.splits sum.splits if_splits)

lemma ReadNext_loop_no_ack:
  "ReadNext_loop nf n w = Some (Inr (Some msg), w') \<Longrightarrow> ms_ackFn msg = []"
proof (induction n arbitrary: w)
  case (Suc n)
  then show ?case
    by (auto simp: Let_def dest: decode_no_ack split: option.splits prod.splits sum.splits if_splits)
qed simp

lemma ReadNext_no_ack: "WAL_ReadNext nf w = (Inr (Some msg), w') \<Longrightarrow> ms_ackFn msg = []"
  by (auto simp: WAL_ReadNext_def dest: ReadNext_loop_no_ack simp del: ReadNext_loop.simps
      split: option.splits)


lemma drain_disk_emit:
  assumes "eb_drainer e = DrainLoop" and "eb_disk e = Some d" and "\<not> shouldStop ctx e"
    and "WAL_ReadNext (ev_nf ev) d = (Inr (Some msg), d')"
  shows "drain_turn ev ctx e = [([], e\<lparr>eb_disk := Some d', eb_drainer := DrainEmit (DiskMsg msg)\<rparr>)]"
  using assms by (simp add: drain_turn_def)

text \<open>
  C32: an overflow buffer reorders. With the memory channel full, a new message goes to the disk
  log; the drainer always empties the log first, so the newer message is emitted while every older
  one still waits in memory.
\<close>

theorem overflow_reorders:
  assumes "eb_bufType e = ''overflow''" and "eb_disk e = Some d" and "\<not> eb_closed e"
    and "\<not> mem_room e" and "eb_drainer e = DrainLoop"
    and "wal_ok_state (ev_nf ev) segs k d" and "pending segs k = []" and "Suc (seg_top segs) < seg_limit"
    and "dw_totalSize d < dw_maxSize d" and "wal_ok (ev_nf ev) (ev_uuid ev) (ev_msg ev m)" and "ev_room ev = None"
  shows "\<exists>e1 e2. Enqueue ev None e m = [([], Some (False, ''overflow_spill'', None), e1)]
    \<and> drain_turn ev None e1 = [([], e2)]
    \<and> eb_drainer e2 = DrainEmit (DiskMsg (wal_norm (ev_uuid ev) (ev_msg ev m)))
    \<and> eb_mem e2 = eb_mem e"
proof -
  from Append_ok [OF assms(6,8,10,9)] obtain d1 segs1 where d1:
    "WAL_Append (ev_nf ev) (ev_uuid ev) None (ev_msg ev m) d = (None, d1)"
    "wal_ok_state (ev_nf ev) segs1 k d1" "pending segs1 k = [wal_norm (ev_uuid ev) (ev_msg ev m)]"
    using assms(7) by auto
  then have "wal_holds (ev_nf ev) d1 [wal_norm (ev_uuid ev) (ev_msg ev m)]" by (auto simp: wal_holds_def)
  from wal_log.read_Cons [OF this] obtain d2 where d2:
    "WAL_ReadNext (ev_nf ev) d1 = (Inr (Some (wal_norm (ev_uuid ev) (ev_msg ev m))), d2)" by blast
  have enq: "Enqueue ev None e m = [([], Some (False, ''overflow_spill'', None), e\<lparr>eb_disk := Some d1\<rparr>)]"
    using assms(1-4,11) d1(1) by (simp add: Enqueue_def disk_append_def)
  have "drain_turn ev None (e\<lparr>eb_disk := Some d1\<rparr>)
      = [([], e\<lparr>eb_disk := Some d2, eb_drainer := DrainEmit (DiskMsg (wal_norm (ev_uuid ev) (ev_msg ev m)))\<rparr>)]"
    using drain_disk_emit [of "e\<lparr>eb_disk := Some d1\<rparr>" d1 None ev] assms(5) d2 by (simp add: shouldStop_def)
  with enq show ?thesis by auto
qed

text \<open>
  Cancelling the context loses a message of the disk log. Reading it persists the offset
  behind it, and when the context is done the drainer may drop what it holds: the message is in no
  channel, nothing is acknowledged, and a log opened on the same files starts with the message
  after it.
\<close>

theorem cancel_loses_disk_message:
  assumes "eb_drainer e = DrainLoop" and "eb_disk e = Some d" and "eb_mem e \<noteq> []"
    and "wal_holds (ev_nf ev) d (msg # q)"
  shows "\<exists>e1 e2 d' d''. ([], e1) \<in> set (drain_turn ev (Some err) e) \<and> ([], e2) \<in> set (drain_turn ev (Some err) e1)
    \<and> eb_drainer e2 = DrainEnded \<and> eb_out e2 = eb_out e \<and> eb_mem e2 = eb_mem e \<and> eb_disk e2 = Some d'
    \<and> NewDiskWAL opts (dw_fs d') = Inr d'' \<and> wal_holds (ev_nf ev) d'' q"
proof -
  from wal_log.read_Cons [OF assms(4)] obtain d' where d':
    "WAL_ReadNext (ev_nf ev) d = (Inr (Some msg), d')" "wal_holds (ev_nf ev) d' q" by blast
  from wal_log.reopen_holds [OF d'(2), of opts] obtain d'' where d'':
    "NewDiskWAL opts (dw_fs d') = Inr d''" "wal_holds (ev_nf ev) d'' q" by blast
  have "\<not> shouldStop (Some err) e" using assms(3) by (simp add: shouldStop_def)
  from drain_disk_emit [OF assms(1,2) this d'(1)] show ?thesis
    using d'' by (auto simp: drain_turn_def emit_def item_acks_def)
qed

text \<open>A buffer whose log was drained, with nothing in memory.\<close>

definition drained_edge :: "float_format \<Rightarrow> edge_inbound \<Rightarrow> bool" where
  "drained_edge nf e \<longleftrightarrow>
     eb_drainer e = DrainLoop \<and> eb_mem e = [] \<and> \<not> eb_closed e \<and>
     (\<exists>d. eb_disk e = Some d \<and> drained_log nf d)"

lemma drained_pending: "drained_log nf w \<Longrightarrow> WAL_Pending w"
proof -
  assume "drained_log nf w"
  then obtain s where "wal_ok_state nf [s] (length (snd s)) w" by (auto simp: drained_log_def)
  from wal_ok_stateD(1) [OF this] show ?thesis
    by (simp add: WAL_Pending_def listSegments_ok seg_names_def)
qed

text \<open>
  Once a disk buffer has written anything, its drainer does not stop when the context is
  cancelled: every possible turn of the loop with nothing left to read ends where it started, so
  the outgoing channel is not closed and whoever ranges over it, the fan-in of a sink, waits for
  ever.
\<close>

theorem drain_never_stops:
  assumes "drained_edge (ev_nf ev) e"
  shows "drain_turn ev (Some err) e \<noteq> [] \<and>
    (\<forall>(acks, e') \<in> set (drain_turn ev (Some err) e). acks = [] \<and> drained_edge (ev_nf ev) e' \<and> eb_out e' = eb_out e)"
proof -
  obtain d where d: "eb_disk e = Some d" "drained_log (ev_nf ev) d" and e: "eb_drainer e = DrainLoop"
    "eb_mem e = []" "\<not> eb_closed e"
    using assms by (auto simp: drained_edge_def)
  note R = drained_read [OF d(2)]
  have n: "\<not> shouldStop (Some err) e" "\<not> shouldStop (Some err) (e\<lparr>eb_disk := Some (openReadSegment d)\<rparr>)"
    using drained_pending [OF d(2)] drained_pending [OF R(2)] d(1) by (simp_all add: shouldStop_def)
  have "drain_turn ev (Some err) e = [([], e\<lparr>eb_disk := Some (openReadSegment d)\<rparr>)]"
    using n e d(1) R(1) by (simp add: drain_turn_def)
  then show ?thesis using R(2) e by (simp add: drained_edge_def)
qed

definition demo_dbuf :: edge_inbound where
  "demo_dbuf = demo_ebuf\<lparr>eb_bufType := ''disk'', eb_strategy := ''block'', eb_disk := Some demo_full\<rparr>"

theorem drain_never_stops_witness:
  "drain_turn demo_ev (Some Canceled) demo_dbuf \<noteq> []"
proof -
  have "drained_edge (ev_nf demo_ev) demo_dbuf"
    using demo_full_stuck by (simp add: drained_edge_def demo_dbuf_def demo_ebuf_def demo_ev_def stuck_full_def)
  then show ?thesis using drain_never_stops by blast
qed

definition demo_wal :: disk_wal where
  "demo_wal = (case NewDiskWAL \<lparr>do_SegmentSize = 0, do_MaxSize = 0\<rparr> \<lparr>fs_files = [], fs_offset = None\<rparr> of
     Inr w \<Rightarrow> w | Inl e \<Rightarrow> demo_full)"

lemma demo_wal_new: "wal_ok_state demo_nf [] 0 demo_wal" "dw_totalSize demo_wal < dw_maxSize demo_wal"
proof -
  have d: "dir_ok demo_nf [] 0 \<lparr>fs_files = [], fs_offset = None\<rparr>" by (simp add: dir_ok_def files_ok_def)
  from NewDiskWAL_ok [OF d, of "\<lparr>do_SegmentSize = 0, do_MaxSize = 0\<rparr>"]
  obtain w where w: "NewDiskWAL \<lparr>do_SegmentSize = 0, do_MaxSize = 0\<rparr> \<lparr>fs_files = [], fs_offset = None\<rparr> = Inr w"
    "wal_ok_state demo_nf [] 0 w" "dw_maxSize w = DefaultDiskMaxSize" by auto
  then show "wal_ok_state demo_nf [] 0 demo_wal" by (simp add: demo_wal_def)
  show "dw_totalSize demo_wal < dw_maxSize demo_wal"
    using w by (simp add: demo_wal_def wal_ok_state_def segs_size_def DefaultDiskMaxSize_def)
qed

lemma demo_wal_append:
  "\<exists>d. WAL_Append demo_nf ''u'' None demo_wal_msg demo_wal = (None, d)
     \<and> wal_holds demo_nf d [wal_norm ''u'' demo_wal_msg]"
proof -
  have "pending [] 0 = []" "Suc (seg_top []) < seg_limit" by (simp_all add: pending_def seg_top_def)
  with Append_ok [OF demo_wal_new(1) _ demo_wal_ok demo_wal_new(2)] show ?thesis
    unfolding wal_holds_def by fastforce
qed


theorem overflow_reorders_witness:
  "\<exists>e1 e2. Enqueue demo_ev None (demo_ebuf\<lparr>eb_bufType := ''overflow'', eb_disk := Some demo_wal, eb_mem := [1]\<rparr>) 2
       = [([], Some (False, ''overflow_spill'', None), e1)]
     \<and> drain_turn demo_ev None e1 = [([], e2)] \<and> eb_mem e2 = [1]"
proof -
  let ?e = "demo_ebuf\<lparr>eb_bufType := ''overflow'', eb_disk := Some demo_wal, eb_mem := [1]\<rparr>"
  have "wal_ok_state (ev_nf demo_ev) [] 0 demo_wal" "pending [] 0 = []" "Suc (seg_top []) < seg_limit"
    "wal_ok (ev_nf demo_ev) (ev_uuid demo_ev) (ev_msg demo_ev 2)" "ev_room demo_ev = None"
    using demo_wal_new demo_wal_ok by (simp_all add: demo_ev_def pending_def seg_top_def)
  note h = this
  from overflow_reorders [of ?e demo_wal demo_ev "[]" 0 2] h demo_wal_new(2)
  have "\<exists>e1 e2. Enqueue demo_ev None ?e 2 = [([], Some (False, ''overflow_spill'', None), e1)]
      \<and> drain_turn demo_ev None e1 = [([], e2)]
      \<and> eb_drainer e2 = DrainEmit (DiskMsg (wal_norm (ev_uuid demo_ev) (ev_msg demo_ev 2)))
      \<and> eb_mem e2 = eb_mem ?e"
    by (simp add: demo_ebuf_def mem_room_def)
  then show ?thesis by auto
qed

theorem cancel_loses_disk_message_witness:
  "\<exists>d e1 e2. wal_holds demo_nf d [wal_norm ''u'' demo_wal_msg]
     \<and> ([], e1) \<in> set (drain_turn demo_ev (Some Canceled) (demo_dbuf\<lparr>eb_disk := Some d, eb_mem := [1]\<rparr>))
     \<and> ([], e2) \<in> set (drain_turn demo_ev (Some Canceled) e1) \<and> eb_drainer e2 = DrainEnded"
proof -
  obtain d where d: "wal_holds demo_nf d [wal_norm ''u'' demo_wal_msg]"
    using demo_wal_append by blast
  let ?e = "demo_dbuf\<lparr>eb_disk := Some d, eb_mem := [1]\<rparr>"
  have e: "eb_drainer ?e = DrainLoop" "eb_disk ?e = Some d" "eb_mem ?e \<noteq> []"
    "wal_holds (ev_nf demo_ev) d [wal_norm ''u'' demo_wal_msg]"
    using d by (simp_all add: demo_dbuf_def demo_ebuf_def demo_ev_def)
  from cancel_loses_disk_message [OF e, of Canceled demo_opts] show ?thesis using d by blast
qed

end
