(* ===== verification/Graph.thy ===== *)
theory Graph
  imports Topology EdgeBuf
begin

text \<open>
  \<^verbatim>\<open>internal/engine/graph.go\<close>: the runtime graph of a pipeline, built from its intermediate
  representation. Edge buffers are shared by pointer, so a buffer is an index into the list of the
  buffers that were made. The compiler of expressions (\<^verbatim>\<open>eql.CompileFilter\<close> and
  \<^verbatim>\<open>eql.CompileCondition\<close>, on top of cel-go) is an argument; \<open>'p\<close> is its programs.
\<close>

section \<open>State\<close>

record 'p runtime_node =
  rn_id :: string
  rn_kind :: string
  rn_inbound :: int
  rn_inboundEdges :: "nat list"
  rn_batchIn :: int
  rn_outBuffer :: int
  rn_workers :: int
  rn_conditions :: "(string \<times> 'p) list"
  rn_predicate :: "'p option"

record 'p runtime_graph =
  rg_nodes :: "(string \<times> 'p runtime_node) list"
  rg_outgoing :: "string \<Rightarrow> edge_ir list"
  rg_edgeInbounds :: "(string \<times> nat) list"
  rg_buffers :: "edge_inbound list"

record 'p compiler =
  cp_filter :: "string \<Rightarrow> 'p res"
  cp_condition :: "string \<Rightarrow> 'p res"

section \<open>Construction\<close>

text \<open>The size of the channels of a node: the largest buffer of its incoming edges.\<close>

definition inbound_buf :: "edge_ir list \<Rightarrow> string \<Rightarrow> int" where
  "inbound_buf edges to =
     foldl (\<lambda>size e. if ei_To e = to \<and> size < BufferSize e then BufferSize e else size) 0 edges"

definition makechan :: goerr where "makechan = Err ''panic: makechan: size out of range'' []"

definition nil_node :: goerr where
  "nil_node = Err ''panic: invalid memory address or nil pointer dereference'' []"

definition graph_node :: "'p compiler \<Rightarrow> edge_ir list \<Rightarrow> stage_ir \<Rightarrow> 'p runtime_node res" where
  "graph_node cp edges st =
     (let buf = (if inbound_buf edges (st_ID st) = 0 then 64 else inbound_buf edges (st_ID st));
          workers = (if st_Workers st = 0 then 1 else st_Workers st);
          node = \<lparr>rn_id = st_ID st, rn_kind = st_Kind st, rn_inbound = buf, rn_inboundEdges = [],
                  rn_batchIn = workers, rn_outBuffer = buf, rn_workers = workers,
                  rn_conditions = [], rn_predicate = None\<rparr> in
      if workers < 0 then Inl makechan
      else if st_Predicate st \<noteq> '''' \<and> st_Kind st = ''transform'' then
        (case cp_filter cp (st_Predicate st) of
           Inl err \<Rightarrow> Inl (Wrap ''stage %q predicate: %w'' [st_ID st] err)
         | Inr prg \<Rightarrow> Inr (node\<lparr>rn_predicate := Some prg\<rparr>))
      else Inr node)"

definition add_node ::
  "'p compiler \<Rightarrow> edge_ir list \<Rightarrow> 'p runtime_graph \<Rightarrow> stage_ir \<Rightarrow> 'p runtime_graph res" where
  "add_node cp edges g st =
     (case graph_node cp edges st of
        Inl err \<Rightarrow> Inl err
      | Inr node \<Rightarrow> Inr (g\<lparr>rg_nodes := AList.update (st_ID st) node (rg_nodes g)\<rparr>))"

text \<open>The body of the loop over the edges: \<open>g.nodes[...]\<close> of a missing stage is a nil pointer.\<close>

definition add_edge ::
  "'p compiler \<Rightarrow> (string \<Rightarrow> wal_fs) \<Rightarrow> string \<Rightarrow> 'p runtime_graph \<Rightarrow> edge_ir \<Rightarrow> 'p runtime_graph res" where
  "add_edge cp dirs name g e =
     (case NewEdgeInbound dirs name (ei_From e) (ei_To e) (ei_Buffer e) of
        Inl err \<Rightarrow> Inl (Wrap ''edge %s->%s buffer: %w'' [ei_From e, ei_To e] err)
      | Inr eb \<Rightarrow>
          let ptr = length (rg_buffers g);
              g1 = g\<lparr>rg_buffers := rg_buffers g @ [eb],
                     rg_edgeInbounds := AList.update (edgeKey (ei_From e) (ei_To e)) ptr (rg_edgeInbounds g)\<rparr> in
          (case map_of (rg_nodes g1) (ei_To e) of
             None \<Rightarrow> Inl nil_node
           | Some n \<Rightarrow>
               let g2 = g1\<lparr>rg_nodes := AList.update (ei_To e)
                              (n\<lparr>rn_inboundEdges := rn_inboundEdges n @ [ptr]\<rparr>) (rg_nodes g1),
                           rg_outgoing := (rg_outgoing g1)
                              (ei_From e := rg_outgoing g1 (ei_From e) @ [e])\<rparr> in
               if ei_Condition e = '''' then Inr g2
               else
                 (case cp_condition cp (ei_Condition e) of
                    Inl err \<Rightarrow> Inl (Wrap ''edge %s->%s condition: %w'' [ei_From e, ei_To e] err)
                  | Inr prg \<Rightarrow>
                      (case map_of (rg_nodes g2) (ei_From e) of
                         None \<Rightarrow> Inl nil_node
                       | Some f \<Rightarrow>
                           Inr (g2\<lparr>rg_nodes := AList.update (ei_From e)
                                  (f\<lparr>rn_conditions := AList.update (ei_To e) prg (rn_conditions f)\<rparr>)
                                  (rg_nodes g2)\<rparr>)))))"

definition empty_graph :: "'p runtime_graph" where
  "empty_graph = \<lparr>rg_nodes = [], rg_outgoing = (\<lambda>_. []), rg_edgeInbounds = [], rg_buffers = []\<rparr>"

definition buildRuntimeGraph ::
  "'p compiler \<Rightarrow> (string \<Rightarrow> wal_fs) \<Rightarrow> topology_ir \<Rightarrow> 'p runtime_graph res" where
  "buildRuntimeGraph cp dirs ir =
     (case rfold (add_node cp (ir_Edges ir)) empty_graph (ir_Stages ir) of
        Inl err \<Rightarrow> Inl err
      | Inr g \<Rightarrow> rfold (add_edge cp dirs (ir_Name ir)) g (ir_Edges ir))"

text \<open>The buffers that \<^verbatim>\<open>run\<close> starts and \<^verbatim>\<open>Stop\<close> closes.\<close>

definition allEdgeInbounds :: "'p runtime_graph \<Rightarrow> nat list" where
  "allEdgeInbounds g = remdups (map snd (rg_edgeInbounds g))"

section \<open>What the loops build\<close>

text \<open>The last edge between two stages that has a condition.\<close>

definition last_condition :: "edge_ir list \<Rightarrow> string \<Rightarrow> string \<Rightarrow> string option" where
  "last_condition edges from to =
     (case rev (filter (\<lambda>e. ei_From e = from \<and> ei_To e = to \<and> ei_Condition e \<noteq> '''') edges) of
        [] \<Rightarrow> None
      | e # _ \<Rightarrow> Some (ei_Condition e))"

text \<open>The positions of the edges that satisfy a test.\<close>

definition positions :: "('a \<Rightarrow> bool) \<Rightarrow> 'a list \<Rightarrow> nat list" where
  "positions P xs = filter (\<lambda>i. P (xs ! i)) [0..<length xs]"



definition node_exact ::
  "'p compiler \<Rightarrow> edge_ir list \<Rightarrow> string \<Rightarrow> 'p runtime_node \<Rightarrow> bool" where
  "node_exact cp edges k n \<longleftrightarrow>
     rn_id n = k \<and>
     rn_inboundEdges n = positions (\<lambda>e. ei_To e = k) edges \<and>
     (\<forall>to. map_of (rn_conditions n) to =
        (case last_condition edges k to of
           None \<Rightarrow> None
         | Some c \<Rightarrow> (case cp_condition cp c of Inl _ \<Rightarrow> None | Inr p \<Rightarrow> Some p)))"

definition key_index :: "edge_ir list \<Rightarrow> string \<Rightarrow> nat option" where
  "key_index edges key =
     (case rev (positions (\<lambda>e. edgeKey (ei_From e) (ei_To e) = key) edges) of
        [] \<Rightarrow> None
      | i # _ \<Rightarrow> Some i)"

definition graph_exact :: "'p compiler \<Rightarrow> edge_ir list \<Rightarrow> 'p runtime_graph \<Rightarrow> bool" where
  "graph_exact cp edges g \<longleftrightarrow>
     length (rg_buffers g) = length edges \<and>
     (\<forall>i < length edges. eb_from (rg_buffers g ! i) = ei_From (edges ! i)
        \<and> eb_to (rg_buffers g ! i) = ei_To (edges ! i)) \<and>
     (\<forall>k. rg_outgoing g k = filter (\<lambda>e. ei_From e = k) edges) \<and>
     (\<forall>key. map_of (rg_edgeInbounds g) key = key_index edges key) \<and>
     distinct (map fst (rg_edgeInbounds g)) \<and>
     (\<forall>k n. map_of (rg_nodes g) k = Some n \<longrightarrow> node_exact cp edges k n)"

lemma positions_snoc: "positions P (xs @ [x]) = positions P xs @ (if P x then [length xs] else [])"
proof -
  have "filter (\<lambda>i. P ((xs @ [x]) ! i)) [0..<length xs] = filter (\<lambda>i. P (xs ! i)) [0..<length xs]"
    by (rule filter_cong) (auto simp: nth_append)
  then show ?thesis by (simp add: positions_def)
qed

lemma last_condition_snoc:
  "last_condition (edges @ [e]) from to =
     (if ei_From e = from \<and> ei_To e = to \<and> ei_Condition e \<noteq> '''' then Some (ei_Condition e)
      else last_condition edges from to)"
  by (simp add: last_condition_def)

lemma key_index_snoc:
  "key_index (edges @ [e]) key =
     (if edgeKey (ei_From e) (ei_To e) = key then Some (length edges) else key_index edges key)"
  by (simp add: key_index_def positions_snoc)

lemma add_node_exact:
  assumes "add_node cp es g st = Inr g'" and "graph_exact cp [] g"
  shows "graph_exact cp [] g'" and "dom (map_of (rg_nodes g')) = insert (st_ID st) (dom (map_of (rg_nodes g)))"
proof -
  obtain node where node: "graph_node cp es st = Inr node"
    and g': "g' = g\<lparr>rg_nodes := AList.update (st_ID st) node (rg_nodes g)\<rparr>"
    using assms(1) by (auto simp: add_node_def split: sum.splits)
  have "rn_id node = st_ID st" "rn_inboundEdges node = []" "rn_conditions node = []"
    using node by (auto simp: graph_node_def Let_def split: if_splits sum.splits)
  then have "node_exact cp [] (st_ID st) node"
    by (simp add: node_exact_def positions_def last_condition_def)
  then show "graph_exact cp [] g'" using assms(2) by (simp add: graph_exact_def g')
  show "dom (map_of (rg_nodes g')) = insert (st_ID st) (dom (map_of (rg_nodes g)))"
    by (simp add: g')
qed

lemma add_nodes_exact:
  "rfold (add_node cp es) g sts = Inr g' \<Longrightarrow> graph_exact cp [] g \<Longrightarrow>
     graph_exact cp [] g' \<and> dom (map_of (rg_nodes g')) = st_ID ` set sts \<union> dom (map_of (rg_nodes g))"
proof (induction sts arbitrary: g)
  case (Cons st sts)
  obtain g1 where g1: "add_node cp es g st = Inr g1" and rest: "rfold (add_node cp es) g1 sts = Inr g'"
    using Cons.prems(1) by (auto split: sum.splits)
  note A = add_node_exact [OF g1 Cons.prems(2)]
  from Cons.IH [OF rest A(1)] show ?case unfolding A(2) by auto
qed simp

lemma NewEdgeInbound_ends:
  "NewEdgeInbound dirs name from to cfg = Inr eb \<Longrightarrow> eb_from eb = from \<and> eb_to eb = to"
  by (auto simp: NewEdgeInbound_def Let_def split: if_splits sum.splits)

lemma add_edge_exact:
  assumes "add_edge cp dirs name g e = Inr g'" and "graph_exact cp es g"
  shows "graph_exact cp (es @ [e]) g'" and "dom (map_of (rg_nodes g')) = dom (map_of (rg_nodes g))"
    and "ei_Condition e \<noteq> '''' \<Longrightarrow> (\<exists>p. cp_condition cp (ei_Condition e) = Inr p) \<and> ei_From e \<in> dom (map_of (rg_nodes g))"
    and "ei_To e \<in> dom (map_of (rg_nodes g))"
proof -
  obtain eb where eb: "NewEdgeInbound dirs name (ei_From e) (ei_To e) (ei_Buffer e) = Inr eb"
    using assms(1) by (auto simp: add_edge_def split: sum.splits)
  note ends = NewEdgeInbound_ends [OF eb]
  obtain n where n: "map_of (rg_nodes g) (ei_To e) = Some n"
    using assms(1) by (auto simp: add_edge_def eb Let_def split: option.splits)
  let ?ptr = "length (rg_buffers g)"
  define n' where "n' = n\<lparr>rn_inboundEdges := rn_inboundEdges n @ [?ptr]\<rparr>"
  define nodes where "nodes = AList.update (ei_To e) n' (rg_nodes g)"
  define g2 where "g2 = g\<lparr>rg_buffers := rg_buffers g @ [eb],
      rg_edgeInbounds := AList.update (edgeKey (ei_From e) (ei_To e)) ?ptr (rg_edgeInbounds g),
      rg_nodes := nodes, rg_outgoing := (rg_outgoing g)(ei_From e := rg_outgoing g (ei_From e) @ [e])\<rparr>"
  have G: "length (rg_buffers g) = length es"
    "\<forall>i < length es. eb_from (rg_buffers g ! i) = ei_From (es ! i) \<and> eb_to (rg_buffers g ! i) = ei_To (es ! i)"
    "\<forall>k. rg_outgoing g k = filter (\<lambda>e. ei_From e = k) es"
    "(\<forall>key. map_of (rg_edgeInbounds g) key = key_index es key) \<and> distinct (map fst (rg_edgeInbounds g))"
    "\<And>k n. map_of (rg_nodes g) k = Some n \<Longrightarrow> node_exact cp es k n"
    using assms(2) by (simp_all add: graph_exact_def)
  have g2: "length (rg_buffers g2) = length (es @ [e])"
    "\<forall>i < length (es @ [e]). eb_from (rg_buffers g2 ! i) = ei_From ((es @ [e]) ! i)
        \<and> eb_to (rg_buffers g2 ! i) = ei_To ((es @ [e]) ! i)"
    "\<forall>k. rg_outgoing g2 k = filter (\<lambda>e. ei_From e = k) (es @ [e])"
    "(\<forall>key. map_of (rg_edgeInbounds g2) key = key_index (es @ [e]) key) \<and> distinct (map fst (rg_edgeInbounds g2))"
    using G ends by (auto simp: g2_def nth_append less_Suc_eq key_index_snoc distinct_update)
  have inb: "rn_inboundEdges m = positions (\<lambda>e. ei_To e = k) (es @ [e]) \<and> rn_id m = k
      \<and> (\<exists>m0. map_of (rg_nodes g) k = Some m0 \<and> rn_conditions m = rn_conditions m0)"
    if "map_of nodes k = Some m" for k m
    using that G(1) G(5) [of k] G(5) [OF n] n
    by (auto simp: nodes_def n'_def node_exact_def positions_snoc split: if_splits)
  have nodes: "rg_nodes g2 = nodes" by (simp add: g2_def)
  have domn: "dom (map_of nodes) = dom (map_of (rg_nodes g))" using n by (auto simp: nodes_def)
  show "graph_exact cp (es @ [e]) g'"
  proof (cases "ei_Condition e = ''''")
    case True
    then have "g' = g2" using assms(1) by (simp add: add_edge_def eb n Let_def g2_def nodes_def n'_def)
    moreover have "node_exact cp (es @ [e]) k m" if "map_of nodes k = Some m" for k m
      using inb [OF that] G(5) True by (auto simp: node_exact_def last_condition_snoc)
    ultimately show ?thesis using g2 nodes unfolding graph_exact_def by simp
  next
    case False
    obtain p f where p: "cp_condition cp (ei_Condition e) = Inr p" and f: "map_of nodes (ei_From e) = Some f"
      and g': "g' = g2\<lparr>rg_nodes := AList.update (ei_From e)
          (f\<lparr>rn_conditions := AList.update (ei_To e) p (rn_conditions f)\<rparr>) nodes\<rparr>"
      using assms(1) False
      by (auto simp: add_edge_def eb n Let_def g2_def nodes_def n'_def split: sum.splits option.splits)
    have "node_exact cp (es @ [e]) k m" if "map_of (rg_nodes g') k = Some m" for k m
    proof (cases "k = ei_From e")
      case True
      then have m: "m = f\<lparr>rn_conditions := AList.update (ei_To e) p (rn_conditions f)\<rparr>" using that by (simp add: g')
      show ?thesis using inb [OF f] G(5) True False p
        by (auto simp: m node_exact_def last_condition_snoc)
    next
      case False
      then have k: "map_of nodes k = Some m" using that by (simp add: g')
      show ?thesis using inb [OF k] G(5) False by (auto simp: node_exact_def last_condition_snoc)
    qed
    then show ?thesis using g2 unfolding graph_exact_def by (simp add: g')
  qed
  show "dom (map_of (rg_nodes g')) = dom (map_of (rg_nodes g))"
    using assms(1) domn
    by (auto simp: add_edge_def eb n Let_def nodes_def n'_def split: if_splits sum.splits option.splits)
  show "(\<exists>p. cp_condition cp (ei_Condition e) = Inr p) \<and> ei_From e \<in> dom (map_of (rg_nodes g))"
    if "ei_Condition e \<noteq> ''''"
    using assms(1) that n
    by (auto simp: add_edge_def eb Let_def split: sum.splits option.splits if_splits)
  show "ei_To e \<in> dom (map_of (rg_nodes g))" using n by blast
qed


lemma add_edges_exact:
  "rfold (add_edge cp dirs name) g es = Inr g' \<Longrightarrow> graph_exact cp es0 g \<Longrightarrow>
     graph_exact cp (es0 @ es) g' \<and> dom (map_of (rg_nodes g')) = dom (map_of (rg_nodes g))
     \<and> (\<forall>e \<in> set es. ei_To e \<in> dom (map_of (rg_nodes g)) \<and>
          (ei_Condition e \<noteq> '''' \<longrightarrow> is_ok (cp_condition cp (ei_Condition e)) \<and> ei_From e \<in> dom (map_of (rg_nodes g))))"
proof (induction es arbitrary: g es0)
  case (Cons e es)
  obtain g1 where g1: "add_edge cp dirs name g e = Inr g1" and rest: "rfold (add_edge cp dirs name) g1 es = Inr g'"
    using Cons.prems(1) by (auto split: sum.splits)
  note A = add_edge_exact [OF g1 Cons.prems(2)]
  from Cons.IH [OF rest A(1)] A(2-4) show ?case by (auto simp: is_ok_iff)
qed simp

lemma build_exact:
  assumes "buildRuntimeGraph cp dirs ir = Inr g"
  shows "graph_exact cp (ir_Edges ir) g" and "dom (map_of (rg_nodes g)) = st_ID ` set (ir_Stages ir)"
    and "\<And>e. e \<in> set (ir_Edges ir) \<Longrightarrow> ei_Condition e \<noteq> '''' \<Longrightarrow>
      is_ok (cp_condition cp (ei_Condition e)) \<and> ei_From e \<in> dom (map_of (rg_nodes g))"
    and "\<And>e. e \<in> set (ir_Edges ir) \<Longrightarrow> ei_To e \<in> dom (map_of (rg_nodes g))"
proof -
  obtain g0 where g0: "rfold (add_node cp (ir_Edges ir)) empty_graph (ir_Stages ir) = Inr g0"
    and g: "rfold (add_edge cp dirs (ir_Name ir)) g0 (ir_Edges ir) = Inr g"
    using assms by (auto simp: buildRuntimeGraph_def split: sum.splits)
  have "graph_exact cp [] (empty_graph :: 'a runtime_graph)"
    by (simp add: graph_exact_def empty_graph_def key_index_def positions_def)
  note N = add_nodes_exact [OF g0 this]
  note E = add_edges_exact [OF g conjunct1 [OF N]]
  show "graph_exact cp (ir_Edges ir) g" using E by simp
  show "dom (map_of (rg_nodes g)) = st_ID ` set (ir_Stages ir)" using E N by (simp add: empty_graph_def)
  show "is_ok (cp_condition cp (ei_Condition e)) \<and> ei_From e \<in> dom (map_of (rg_nodes g))"
    if "e \<in> set (ir_Edges ir)" "ei_Condition e \<noteq> ''''" for e
    using E that by simp
  show "ei_To e \<in> dom (map_of (rg_nodes g))" if "e \<in> set (ir_Edges ir)" for e
    using E that by simp
qed

section \<open>Properties of a runtime graph\<close>

lemma filter_single:
  assumes "xs = us @ x # vs" and "P x" and "\<And>y. y \<in> set us \<union> set vs \<Longrightarrow> \<not> P y"
  shows "filter P xs = [x]"
  using assms by (auto simp: filter_empty_conv)

lemma positions_split:
  "positions P (us @ x # vs) =
     positions P us @ (if P x then [length us] else []) @ map ((+) (Suc (length us))) (positions P vs)"
proof (induction vs rule: rev_induct)
  case Nil
  then show ?case using positions_snoc [of P us x] by (simp add: positions_def)
next
  case (snoc v vs)
  then show ?case using positions_snoc [of P "us @ x # vs" v] by (simp add: positions_snoc)
qed

lemma positions_Nil: "(\<And>y. y \<in> set xs \<Longrightarrow> \<not> P y) \<Longrightarrow> positions P xs = []"
  by (auto simp: positions_def filter_empty_conv)

lemma set_positions: "i \<in> set (positions P xs) \<longleftrightarrow> i < length xs \<and> P (xs ! i)"
  by (auto simp: positions_def)


text \<open>
  Two edges between the same stages, such as two routes of one transform into one sink, share
  one entry of each map. Both are decided by the condition of the later edge, and the buffer of
  the earlier edge is read by the target but is neither started nor closed.
\<close>

theorem parallel_edges_share:
  assumes "buildRuntimeGraph cp dirs ir = Inr g" and "ir_Edges ir = us @ a # vs @ b # ws"
    and "ei_From a = ei_From b" and "ei_To a = ei_To b" and "ei_Condition b \<noteq> ''''"
    and "\<And>e. e \<in> set ws \<Longrightarrow> edgeKey (ei_From e) (ei_To e) \<noteq> edgeKey (ei_From b) (ei_To b)"
  shows "\<exists>f t p. map_of (rg_nodes g) (ei_From a) = Some f \<and> map_of (rg_nodes g) (ei_To a) = Some t \<and>
     cp_condition cp (ei_Condition b) = Inr p \<and> map_of (rn_conditions f) (ei_To a) = Some p \<and>
     a \<in> set (rg_outgoing g (ei_From a)) \<and> b \<in> set (rg_outgoing g (ei_From a)) \<and>
     length us \<in> set (rn_inboundEdges t) \<and> length us \<notin> set (allEdgeInbounds g)"
proof -
  note G = build_exact(1) [OF assms(1), unfolded graph_exact_def]
  let ?es = "ir_Edges ir" and ?key = "\<lambda>e. edgeKey (ei_From e) (ei_To e)"
  have mem: "a \<in> set ?es" "b \<in> set ?es" by (simp_all add: assms(2))
  have "last_condition ?es (ei_From a) (ei_To a) = Some (ei_Condition b)"
  proof -
    have "filter (\<lambda>e. ei_From e = ei_From a \<and> ei_To e = ei_To a \<and> ei_Condition e \<noteq> '''') ws = []"
    proof -
      have "\<not> (ei_From e = ei_From b \<and> ei_To e = ei_To b)" if "e \<in> set ws" for e
        using assms(6) [OF that] by auto
      then show ?thesis unfolding filter_empty_conv assms(3,4) by blast
    qed
    then show ?thesis using assms(3-5) by (simp add: last_condition_def assms(2))
  qed
  note lc = this
  obtain p where p: "cp_condition cp (ei_Condition b) = Inr p"
    and f: "ei_From a \<in> dom (map_of (rg_nodes g))"
    using build_exact(3) [OF assms(1) mem(2) assms(5)] by (auto simp: is_ok_iff assms(3))
  have ptr: "key_index ?es (?key b) = Some (length us + Suc (length vs))"
  proof -
    have "positions (\<lambda>e. ?key e = ?key b) ws = []" using assms(6) by (rule positions_Nil)
    then have "positions (\<lambda>e. ?key e = ?key b) ((us @ a # vs) @ b # ws)
        = positions (\<lambda>e. ?key e = ?key b) (us @ a # vs) @ [length us + Suc (length vs)]"
      unfolding positions_split by simp
    then show ?thesis by (simp add: key_index_def assms(2))
  qed
  have "length us \<notin> set (allEdgeInbounds g)"
  proof
    assume "length us \<in> set (allEdgeInbounds g)"
    then obtain k where "(k, length us) \<in> set (rg_edgeInbounds g)" by (auto simp: allEdgeInbounds_def)
    then have k: "key_index ?es k = Some (length us)" using G by (metis map_of_eq_Some_iff)
    then have "length us \<in> set (positions (\<lambda>e. ?key e = k) ?es)"
      by (auto simp: key_index_def split: list.splits)
    then have "k = ?key b" using assms(3,4) by (simp add: set_positions assms(2))
    then show False using k ptr by simp
  qed
  moreover obtain f t where ft: "map_of (rg_nodes g) (ei_From a) = Some f" "map_of (rg_nodes g) (ei_To a) = Some t"
    using f build_exact(4) [OF assms(1) mem(1)] by blast
  moreover have "length us \<in> set (rn_inboundEdges t)"
    using G ft(2) by (simp add: node_exact_def set_positions assms(2))
  moreover have "map_of (rn_conditions f) (ei_To a) = Some p"
    using G ft(1) lc p by (simp add: node_exact_def)
  moreover have "a \<in> set (rg_outgoing g (ei_From a))" "b \<in> set (rg_outgoing g (ei_From a))"
    using G mem assms(3) by simp_all
  ultimately show ?thesis using p by blast
qed


section \<open>Witnesses\<close>

definition demo_compiler :: "string compiler" where
  "demo_compiler = \<lparr>cp_filter = Inr, cp_condition = Inr\<rparr>"

definition no_dirs :: "string \<Rightarrow> wal_fs" where
  "no_dirs = (\<lambda>_. \<lparr>fs_files = [], fs_offset = None\<rparr>)"

text \<open>A transform with two routes into the same sink, as \<^verbatim>\<open>depends_on\<close> may give it.\<close>

definition two_routes :: topology_ir where
  "two_routes = demo_ir\<lparr>
     ir_Stages := [demo_stage ''s'' ''source'', demo_stage ''t'' ''transform'', demo_stage ''k'' ''sink''],
     ir_Edges := [demo_edge ''s'' ''t'',
       (demo_edge ''t'' ''k'')\<lparr>ei_Condition := ''low''\<rparr>, (demo_edge ''t'' ''k'')\<lparr>ei_Condition := ''high''\<rparr>]\<rparr>"

definition one_route :: topology_ir where
  "one_route = two_routes\<lparr>ir_Edges := [demo_edge ''s'' ''t'', (demo_edge ''t'' ''k'')\<lparr>ei_Condition := ''low''\<rparr>]\<rparr>"

lemma demo_builds:
  "is_ok (buildRuntimeGraph demo_compiler no_dirs two_routes)"
  "is_ok (buildRuntimeGraph demo_compiler no_dirs one_route)"
  by (simp_all add: buildRuntimeGraph_def one_route_def two_routes_def demo_edge_def demo_stage_def demo_compiler_def
      add_node_def graph_node_def add_edge_def NewEdgeInbound_def DefaultBuffer_def zero_buffer_def
      inbound_buf_def empty_graph_def Let_def)

lemma two_routes_valid: "valid_topology two_routes"
proof -
  have "Validate declared_order two_routes = None" by code_simp
  then show ?thesis by (rule Validate_imp_valid [OF declared_order_legal])
qed


theorem parallel_edges_share_witness:
  "valid_topology two_routes \<and>
   (\<exists>g f. buildRuntimeGraph demo_compiler no_dirs two_routes = Inr g \<and>
      map_of (rg_nodes g) ''t'' = Some f \<and> map_of (rn_conditions f) ''k'' = Some ''high'' \<and>
      (demo_edge ''t'' ''k'')\<lparr>ei_Condition := ''low''\<rparr> \<in> set (rg_outgoing g ''t''))"
proof -
  obtain g where g: "buildRuntimeGraph demo_compiler no_dirs two_routes = Inr g"
    using demo_builds(1) by (auto simp: is_ok_iff)
  have "ir_Edges two_routes = [demo_edge ''s'' ''t''] @ (demo_edge ''t'' ''k'')\<lparr>ei_Condition := ''low''\<rparr>
      # [] @ (demo_edge ''t'' ''k'')\<lparr>ei_Condition := ''high''\<rparr> # []"
    by (simp add: two_routes_def)
  from parallel_edges_share [OF g this] show ?thesis
    using g two_routes_valid by (auto simp: demo_edge_def demo_compiler_def)
qed

end
