(* ===== verification/Registry.thy ===== *)
theory Registry
  imports Message TopologyIR
begin

text \<open>
  \<^verbatim>\<open>internal/registry/registry.go\<close>, and the interfaces of \<^verbatim>\<open>internal/stage\<close> and
  \<^verbatim>\<open>internal/codec\<close> whose implementations it creates. A stage or codec is the record of its
  methods; \<open>'x\<close> is the outside world that sinks and lifecycle hooks act on and \<open>'w\<close> the
  store of messages that transforms act on. Each operation of the registry runs under its lock.
\<close>

section \<open>Interfaces\<close>

record codec =
  cd_Name :: string
  cd_Decode :: "string \<Rightarrow> goheap \<Rightarrow> (jv \<times> goheap) res"
  cd_Encode :: "jv \<Rightarrow> goheap \<Rightarrow> string res"

text \<open>
  The three kinds of stage: a source, with whether it implements \<^verbatim>\<open>AckingSource\<close>; a transform
  with its \<^verbatim>\<open>Process\<close>; a sink with its \<^verbatim>\<open>Write\<close> and \<^verbatim>\<open>Flush\<close>.
\<close>

datatype ('w, 'x) stage_role =
    SourceRole bool
  | TransformRole "mref list \<Rightarrow> 'w \<Rightarrow> mref list res \<times> 'w"
  | SinkRole "mref list \<Rightarrow> 'w \<Rightarrow> 'x \<Rightarrow> goerr option \<times> 'x" "'x \<Rightarrow> goerr option \<times> 'x"

record ('w, 'x) stage_inst =
  sg_Init :: "'x \<Rightarrow> goerr option \<times> 'x"
  sg_Stop :: "'x \<Rightarrow> goerr option \<times> 'x"
  sg_role :: "('w, 'x) stage_role"

definition is_source :: "('w, 'x) stage_inst \<Rightarrow> bool" where
  "is_source s = (case sg_role s of SourceRole _ \<Rightarrow> True | _ \<Rightarrow> False)"

text \<open>A value of the configuration map of a stage, with the keys the engine adds.\<close>

datatype cfg_val =
    CfgVal gval
  | CfgCodec "codec_ref option"
  | CfgBatch "batch_config option"

type_synonym stage_cfg = "(string \<times> cfg_val) list"
type_synonym ('w, 'x) stage_factory = "string \<times> stage_cfg \<Rightarrow> ('w, 'x) stage_inst res"
type_synonym codec_factory = "gmap option \<Rightarrow> codec res"

record ('w, 'x) registry =
  re_sources :: "(string \<times> ('w, 'x) stage_factory) list"
  re_transforms :: "(string \<times> ('w, 'x) stage_factory) list"
  re_sinks :: "(string \<times> ('w, 'x) stage_factory) list"
  re_codecs :: "(string \<times> codec_factory) list"

section \<open>Operations\<close>

definition registry_New :: "('w, 'x) registry" where
  "registry_New = \<lparr>re_sources = [], re_transforms = [], re_sinks = [], re_codecs = []\<rparr>"

definition RegisterSource :: "string \<Rightarrow> ('w, 'x) stage_factory \<Rightarrow> ('w, 'x) registry \<Rightarrow> ('w, 'x) registry" where
  "RegisterSource name factory r = r\<lparr>re_sources := AList.update name factory (re_sources r)\<rparr>"

definition RegisterTransform :: "string \<Rightarrow> ('w, 'x) stage_factory \<Rightarrow> ('w, 'x) registry \<Rightarrow> ('w, 'x) registry" where
  "RegisterTransform name factory r = r\<lparr>re_transforms := AList.update name factory (re_transforms r)\<rparr>"

definition RegisterSink :: "string \<Rightarrow> ('w, 'x) stage_factory \<Rightarrow> ('w, 'x) registry \<Rightarrow> ('w, 'x) registry" where
  "RegisterSink name factory r = r\<lparr>re_sinks := AList.update name factory (re_sinks r)\<rparr>"

definition RegisterCodec :: "string \<Rightarrow> codec_factory \<Rightarrow> ('w, 'x) registry \<Rightarrow> ('w, 'x) registry" where
  "RegisterCodec name factory r = r\<lparr>re_codecs := AList.update name factory (re_codecs r)\<rparr>"

definition unknown_type :: "string \<Rightarrow> string \<Rightarrow> goerr" where
  "unknown_type what typ = Err (''unknown '' @ what @ '' type %q'') [typ]"

definition CreateSource :: "('w, 'x) registry \<Rightarrow> string \<Rightarrow> string \<times> stage_cfg \<Rightarrow> ('w, 'x) stage_inst res" where
  "CreateSource r typ arg =
     (case map_of (re_sources r) typ of None \<Rightarrow> Inl (unknown_type ''source'' typ) | Some factory \<Rightarrow> factory arg)"

definition CreateTransform :: "('w, 'x) registry \<Rightarrow> string \<Rightarrow> string \<times> stage_cfg \<Rightarrow> ('w, 'x) stage_inst res" where
  "CreateTransform r typ arg =
     (case map_of (re_transforms r) typ of None \<Rightarrow> Inl (unknown_type ''transform'' typ) | Some factory \<Rightarrow> factory arg)"

definition CreateSink :: "('w, 'x) registry \<Rightarrow> string \<Rightarrow> string \<times> stage_cfg \<Rightarrow> ('w, 'x) stage_inst res" where
  "CreateSink r typ arg =
     (case map_of (re_sinks r) typ of None \<Rightarrow> Inl (unknown_type ''sink'' typ) | Some factory \<Rightarrow> factory arg)"

definition CreateCodec :: "('w, 'x) registry \<Rightarrow> string \<Rightarrow> gmap option \<Rightarrow> codec res" where
  "CreateCodec r typ cfg =
     (case map_of (re_codecs r) typ of None \<Rightarrow> Inl (unknown_type ''codec'' typ) | Some factory \<Rightarrow> factory cfg)"

definition HasSource :: "('w, 'x) registry \<Rightarrow> string \<Rightarrow> bool" where
  "HasSource r typ \<longleftrightarrow> map_of (re_sources r) typ \<noteq> None"

definition HasTransform :: "('w, 'x) registry \<Rightarrow> string \<Rightarrow> bool" where
  "HasTransform r typ \<longleftrightarrow> map_of (re_transforms r) typ \<noteq> None"

definition HasSink :: "('w, 'x) registry \<Rightarrow> string \<Rightarrow> bool" where
  "HasSink r typ \<longleftrightarrow> map_of (re_sinks r) typ \<noteq> None"

definition HasCodec :: "('w, 'x) registry \<Rightarrow> string \<Rightarrow> bool" where
  "HasCodec r typ \<longleftrightarrow> map_of (re_codecs r) typ \<noteq> None"

section \<open>The contract of a table of factories\<close>

text \<open>
  Plugins register themselves from their \<^verbatim>\<open>init\<close> functions, in an order the linker chooses;
  the engine creates stages by type. What it relies on holds for all four tables.
\<close>

locale factory_table =
  fixes register :: "string \<Rightarrow> ('a \<Rightarrow> 'v res) \<Rightarrow> 'r \<Rightarrow> 'r"
    and create :: "'r \<Rightarrow> string \<Rightarrow> 'a \<Rightarrow> 'v res"
    and has :: "'r \<Rightarrow> string \<Rightarrow> bool"
    and unknown :: "string \<Rightarrow> goerr"
  assumes create_register: "create (register n f r) t x = (if t = n then f x else create r t x)"
    and has_register: "has (register n f r) t \<longleftrightarrow> t = n \<or> has r t"
    and create_unknown: "\<not> has r t \<Longrightarrow> create r t x = Inl (unknown t)"
begin

definition register_all :: "(string \<times> ('a \<Rightarrow> 'v res)) list \<Rightarrow> 'r \<Rightarrow> 'r" where
  "register_all fs r = fold (\<lambda>(n, f). register n f) fs r"

lemma create_register_all:
  "create (register_all fs r) t x
     = (case map_of (rev fs) t of None \<Rightarrow> create r t x | Some f \<Rightarrow> f x)"
proof (induction fs rule: rev_induct)
  case (snoc p fs)
  then show ?case by (cases p) (simp add: register_all_def create_register)
qed (simp add: register_all_def)

text \<open>The order of the registrations does not matter as long as each type has one plugin.\<close>

lemma register_all_order:
  assumes "mset fs = mset gs" and "distinct (map fst fs)"
  shows "create (register_all fs r) t x = create (register_all gs r) t x"
proof -
  have "map_of (rev fs) = map_of (rev gs)"
    by (rule distinct_map_fst_mset) (use assms in \<open>simp_all add: rev_map [symmetric]\<close>)
  then show ?thesis by (simp add: create_register_all)
qed

lemma created_type_known: "create r t x = Inr v \<Longrightarrow> has r t"
  using create_unknown [of r t x] by auto

end

interpretation sources: factory_table RegisterSource CreateSource HasSource "unknown_type ''source''"
  by unfold_locales (simp_all add: RegisterSource_def CreateSource_def HasSource_def)

interpretation transforms: factory_table RegisterTransform CreateTransform HasTransform "unknown_type ''transform''"
  by unfold_locales (simp_all add: RegisterTransform_def CreateTransform_def HasTransform_def)

interpretation sinks: factory_table RegisterSink CreateSink HasSink "unknown_type ''sink''"
  by unfold_locales (simp_all add: RegisterSink_def CreateSink_def HasSink_def)

interpretation codecs: factory_table RegisterCodec CreateCodec HasCodec "unknown_type ''codec''"
  by unfold_locales (simp_all add: RegisterCodec_def CreateCodec_def HasCodec_def)

end
