(* ===== verification/Pipeline.thy ===== *)
theory Pipeline
  imports Graph Registry Ack
begin

text \<open>
  The construction and the life cycle of a pipeline (\<^verbatim>\<open>NewPipeline\<close>, \<^verbatim>\<open>resolveCodecs\<close>,
  \<^verbatim>\<open>instantiateStage\<close>, \<^verbatim>\<open>Start\<close>, \<^verbatim>\<open>Stop\<close> in
  \<^verbatim>\<open>internal/engine/pipeline.go\<close>), and the error modes of
  \<^verbatim>\<open>internal/engine/errormode.go\<close>. The maps of stages are association lists in the order in
  which a \<^verbatim>\<open>range\<close> loop visits them. Metrics only count and are left out.
\<close>

section \<open>State\<close>

record ('p, 'x) pipeline =
  pl_ir :: topology_ir
  pl_stages :: "(string \<times> (world, 'x) stage_inst) list"
  pl_stageErrorMode :: "(string \<times> string) list"
  pl_graph :: "'p runtime_graph"
  pl_decoders :: "(string \<times> codec) list"
  pl_encoders :: "(string \<times> codec) list"
  pl_started :: bool
  pl_cancelled :: bool

section \<open>Construction\<close>

text \<open>The configuration of a referenced codec, overridden key by key by the reference's own.\<close>

definition merged_config :: "gmap option \<Rightarrow> gmap option \<Rightarrow> gmap option" where
  "merged_config cfg over =
     (case over of
        None \<Rightarrow> cfg
      | Some o' \<Rightarrow> Some (AList.updates (map fst o') (map snd o')
          (AList.updates (map fst (case cfg of None \<Rightarrow> [] | Some c \<Rightarrow> c)) (map snd (case cfg of None \<Rightarrow> [] | Some c \<Rightarrow> c)) [])))"

definition resolveCodecRef ::
  "(world, 'x) registry \<Rightarrow> topology_ir \<Rightarrow> codec_ref option \<Rightarrow> string \<Rightarrow> codec option res" where
  "resolveCodecRef reg ir ref role =
     (case ref of
        None \<Rightarrow> Inr None
      | Some r \<Rightarrow>
          if CodecRef_IsEmpty ref then Inr None
          else if cr_Ref r \<noteq> '''' then
            (case map_of (ir_Codecs ir) (cr_Ref r) of
               None \<Rightarrow> Inl (Err (''%s ref %q not found'') [role, cr_Ref r])
             | Some cir \<Rightarrow>
                 map_sum id Some (CreateCodec reg (ci_Type cir) (merged_config (ci_Config cir) (cr_Config r))))
          else if cr_Type r \<noteq> '''' then
            map_sum id Some (CreateCodec reg (cr_Type r) (cr_Config r))
          else Inr None)"

text \<open>One turn of the loop of \<^verbatim>\<open>resolveCodecs\<close>.\<close>

definition resolve_stage_codecs ::
  "(world, 'x) registry \<Rightarrow> topology_ir \<Rightarrow> (string \<times> codec) list \<times> (string \<times> codec) list \<Rightarrow> stage_ir
     \<Rightarrow> ((string \<times> codec) list \<times> (string \<times> codec) list) res" where
  "resolve_stage_codecs reg ir m st =
     (case m of (decs, encs) \<Rightarrow>
        (case resolveCodecRef reg ir (st_Decoder st) ''decoder'' of
           Inl err \<Rightarrow> Inl (Wrap ''stage %q: %w'' [st_ID st] err)
         | Inr dec \<Rightarrow>
             (case resolveCodecRef reg ir (st_Encoder st) ''encoder'' of
                Inl err \<Rightarrow> Inl (Wrap ''stage %q: %w'' [st_ID st] err)
              | Inr enc \<Rightarrow>
                  Inr (case dec of None \<Rightarrow> decs | Some d \<Rightarrow> AList.update (st_ID st) d decs,
                       case enc of None \<Rightarrow> encs | Some e \<Rightarrow> AList.update (st_ID st) e encs))))"

definition resolveCodecs ::
  "(world, 'x) registry \<Rightarrow> topology_ir \<Rightarrow> ((string \<times> codec) list \<times> (string \<times> codec) list) res" where
  "resolveCodecs reg ir = rfold (resolve_stage_codecs reg ir) ([], []) (ir_Stages ir)"

text \<open>The configuration of a stage: a copy of its own with the engine's keys on top.\<close>

definition stage_config_map :: "stage_ir \<Rightarrow> stage_cfg" where
  "stage_config_map st =
     foldl (\<lambda>cfg (k, v). AList.update k v cfg)
       (map (\<lambda>(k, v). (k, CfgVal v)) (case st_Config st of None \<Rightarrow> [] | Some c \<Rightarrow> c))
       [(''__decoder'', CfgCodec (st_Decoder st)), (''__encoder'', CfgCodec (st_Encoder st)),
        (''__predicate'', CfgVal (GStr (st_Predicate st))), (''__workers'', CfgVal (GInt (st_Workers st))),
        (''__batch'', CfgBatch (st_Batch st)), (''__ordering'', CfgVal (GStr (st_Ordering st))),
        (''__max_in_flight'', CfgVal (GInt (st_MaxInFlight st)))]"

definition create_stage :: "(world, 'x) registry \<Rightarrow> stage_ir \<Rightarrow> (world, 'x) stage_inst res" where
  "create_stage reg st =
     (let arg = (st_ID st, stage_config_map st);
          made = (if st_Kind st = ''source'' then CreateSource reg (st_Type st) arg
                  else if st_Kind st = ''transform'' then CreateTransform reg (st_Type st) arg
                  else CreateSink reg (st_Type st) arg) in
      if st_Kind st \<notin> {''source'', ''transform'', ''sink''} then Inl (Err ''unknown stage kind %q'' [st_Kind st])
      else (case made of Inl err \<Rightarrow> Inl (Wrap ''stage %q: %w'' [st_ID st] err) | Inr s \<Rightarrow> Inr s))"

definition instantiateStage ::
  "(world, 'x) registry \<Rightarrow> (string \<times> (world, 'x) stage_inst) list \<Rightarrow> stage_ir
     \<Rightarrow> (string \<times> (world, 'x) stage_inst) list res" where
  "instantiateStage reg stages st =
     (case create_stage reg st of Inl err \<Rightarrow> Inl err | Inr s \<Rightarrow> Inr (AList.update (st_ID st) s stages))"

definition stage_error_modes :: "stage_ir list \<Rightarrow> (string \<times> string) list" where
  "stage_error_modes stages =
     foldl (\<lambda>m st. if st_ErrorMode st \<noteq> '''' then AList.update (st_ID st) (st_ErrorMode st) m else m) [] stages"

definition NewPipeline ::
  "'p compiler \<Rightarrow> (string \<Rightarrow> wal_fs) \<Rightarrow> (world, 'x) registry \<Rightarrow> topology_ir \<Rightarrow> ('p, 'x) pipeline res" where
  "NewPipeline cp dirs reg ir =
     (case rfold (instantiateStage reg) [] (ir_Stages ir) of
        Inl err \<Rightarrow> Inl err
      | Inr stages \<Rightarrow>
          (case resolveCodecs reg ir of
             Inl err \<Rightarrow> Inl err
           | Inr (decs, encs) \<Rightarrow>
               (case buildRuntimeGraph cp dirs ir of
                  Inl err \<Rightarrow> Inl err
                | Inr g \<Rightarrow>
                    Inr \<lparr>pl_ir = ir, pl_stages = stages, pl_stageErrorMode = stage_error_modes (ir_Stages ir),
                         pl_graph = g, pl_decoders = decs, pl_encoders = encs, pl_started = False,
                         pl_cancelled = False\<rparr>)))"

section \<open>What is built\<close>

lemma instantiateStage_Inr:
  "instantiateStage reg m st = Inr m' \<longleftrightarrow> (\<exists>s. create_stage reg st = Inr s \<and> m' = AList.update (st_ID st) s m)"
  by (auto simp: instantiateStage_def split: sum.splits)

lemma resolve_stage_codecs_Inr:
  "resolve_stage_codecs reg ir (decs, encs) st = Inr m' \<longleftrightarrow>
     (\<exists>dec enc. resolveCodecRef reg ir (st_Decoder st) ''decoder'' = Inr dec \<and>
        resolveCodecRef reg ir (st_Encoder st) ''encoder'' = Inr enc \<and>
        m' = (case dec of None \<Rightarrow> decs | Some d \<Rightarrow> AList.update (st_ID st) d decs,
              case enc of None \<Rightarrow> encs | Some e \<Rightarrow> AList.update (st_ID st) e encs))"
  by (auto simp: resolve_stage_codecs_def split: sum.splits)

lemma rfold_Cons_Inr: "rfold f s (x # xs) = Inr t \<longleftrightarrow> (\<exists>s'. f s x = Inr s' \<and> rfold f s' xs = Inr t)"
  by (auto split: sum.splits)

lemma instantiate_all:
  "rfold (instantiateStage reg) m sts = Inr m' \<Longrightarrow> distinct (map st_ID sts) \<Longrightarrow>
     dom (map_of m') = dom (map_of m) \<union> st_ID ` set sts \<and>
     (\<forall>k. k \<notin> st_ID ` set sts \<longrightarrow> map_of m' k = map_of m k) \<and>
     (\<forall>st \<in> set sts. \<exists>s. create_stage reg st = Inr s \<and> map_of m' (st_ID st) = Some s)"
proof (induction sts arbitrary: m)
  case (Cons st sts)
  obtain s where s: "create_stage reg st = Inr s"
    and rest: "rfold (instantiateStage reg) (AList.update (st_ID st) s m) sts = Inr m'"
    using Cons.prems(1) unfolding rfold_Cons_Inr instantiateStage_Inr by blast
  have d: "distinct (map st_ID sts)" "st_ID st \<notin> st_ID ` set sts" using Cons.prems(2) by auto
  from Cons.IH [OF rest d(1)] d(2) s show ?case by auto
qed simp

lemma resolve_all:
  "rfold (resolve_stage_codecs reg ir) (decs, encs) sts = Inr (decs', encs') \<Longrightarrow> distinct (map st_ID sts) \<Longrightarrow>
     (\<forall>k. k \<notin> st_ID ` set sts \<longrightarrow> map_of decs' k = map_of decs k \<and> map_of encs' k = map_of encs k) \<and>
     (\<forall>st \<in> set sts. map_of decs (st_ID st) = None \<longrightarrow> map_of encs (st_ID st) = None \<longrightarrow>
        resolveCodecRef reg ir (st_Decoder st) ''decoder'' = Inr (map_of decs' (st_ID st)) \<and>
        resolveCodecRef reg ir (st_Encoder st) ''encoder'' = Inr (map_of encs' (st_ID st)))"
proof (induction sts arbitrary: decs encs)
  case (Cons st sts)
  obtain dec enc where de: "resolveCodecRef reg ir (st_Decoder st) ''decoder'' = Inr dec"
      "resolveCodecRef reg ir (st_Encoder st) ''encoder'' = Inr enc"
    and rest: "rfold (resolve_stage_codecs reg ir)
      (case dec of None \<Rightarrow> decs | Some d \<Rightarrow> AList.update (st_ID st) d decs,
       case enc of None \<Rightarrow> encs | Some e \<Rightarrow> AList.update (st_ID st) e encs) sts = Inr (decs', encs')"
    using Cons.prems(1) unfolding rfold_Cons_Inr resolve_stage_codecs_Inr by blast
  have d: "distinct (map st_ID sts)" "st_ID st \<notin> st_ID ` set sts" using Cons.prems(2) by auto
  define decs1 where "decs1 = (case dec of None \<Rightarrow> decs | Some d \<Rightarrow> AList.update (st_ID st) d decs)"
  define encs1 where "encs1 = (case enc of None \<Rightarrow> encs | Some e \<Rightarrow> AList.update (st_ID st) e encs)"
  have same: "map_of decs1 k = map_of decs k" "map_of encs1 k = map_of encs k" if "k \<noteq> st_ID st" for k
    using that by (simp_all add: decs1_def encs1_def split: option.splits)
  have new: "map_of decs (st_ID st) = None \<Longrightarrow> map_of decs1 (st_ID st) = dec"
    "map_of encs (st_ID st) = None \<Longrightarrow> map_of encs1 (st_ID st) = enc"
    by (simp_all add: decs1_def encs1_def split: option.splits)
  note IH = Cons.IH [OF rest [folded decs1_def encs1_def] d(1)]
  show ?case
  proof (intro conjI allI ballI impI)
    fix k assume "k \<notin> st_ID ` set (st # sts)"
    then show "map_of decs' k = map_of decs k" "map_of encs' k = map_of encs k" using IH same by auto
  next
    fix t assume t: "t \<in> set (st # sts)" "map_of decs (st_ID t) = None" "map_of encs (st_ID t) = None"
    have "resolveCodecRef reg ir (st_Decoder t) ''decoder'' = Inr (map_of decs' (st_ID t)) \<and>
      resolveCodecRef reg ir (st_Encoder t) ''encoder'' = Inr (map_of encs' (st_ID t))"
    proof (cases "t = st")
      case True
      then show ?thesis using IH new de d(2) t by auto
    next
      case False
      then have ts: "t \<in> set sts" using t by simp
      then have "st_ID t \<in> st_ID ` set sts" by (rule imageI)
      then have "st_ID t \<noteq> st_ID st" using d(2) by metis
      then show ?thesis using IH same t ts by simp
    qed
    then show "resolveCodecRef reg ir (st_Decoder t) ''decoder'' = Inr (map_of decs' (st_ID t))"
      "resolveCodecRef reg ir (st_Encoder t) ''encoder'' = Inr (map_of encs' (st_ID t))" by blast+
  qed
qed simp

lemma stage_error_modes_lookup:
  "distinct (map st_ID sts) \<Longrightarrow>
     map_of (stage_error_modes sts) k =
       (case filter (\<lambda>st. st_ID st = k \<and> st_ErrorMode st \<noteq> '''') sts of [] \<Rightarrow> None | st # _ \<Rightarrow> Some (st_ErrorMode st))"
proof (induction sts rule: rev_induct)
  case (snoc st sts)
  have d: "distinct (map st_ID sts)" "st_ID st \<notin> st_ID ` set sts" using snoc.prems by auto
  have none: "filter (\<lambda>t. st_ID t = st_ID st \<and> st_ErrorMode t \<noteq> '''') sts = []"
    using d(2) by (auto simp: filter_empty_conv image_iff)
  show ?case using snoc.IH [OF d(1)] none
    by (cases "k = st_ID st") (auto simp: stage_error_modes_def)
qed (simp add: stage_error_modes_def)


lemma rfold_is_ok:
  assumes "\<And>s x. is_ok (f s x) \<longleftrightarrow> P x"
  shows "is_ok (rfold f s xs) \<longleftrightarrow> (\<forall>x \<in> set xs. P x)"
proof (induction xs arbitrary: s)
  case (Cons x xs)
  show ?case
  proof (cases "f s x")
    case (Inl e)
    then have "\<not> P x" using assms [of s x] by simp
    then show ?thesis using Inl by simp
  next
    case (Inr s')
    then have "P x" using assms [of s x] by simp
    then show ?thesis using Inr Cons by simp
  qed
qed simp

definition codecs_resolve :: "(world, 'x) registry \<Rightarrow> topology_ir \<Rightarrow> stage_ir \<Rightarrow> bool" where
  "codecs_resolve reg ir st \<longleftrightarrow>
     is_ok (resolveCodecRef reg ir (st_Decoder st) ''decoder'') \<and>
     is_ok (resolveCodecRef reg ir (st_Encoder st) ''encoder'')"

lemma NewPipeline_is_ok:
  "is_ok (NewPipeline cp dirs reg ir) \<longleftrightarrow>
     (\<forall>st \<in> set (ir_Stages ir). is_ok (create_stage reg st)) \<and>
     (\<forall>st \<in> set (ir_Stages ir). codecs_resolve reg ir st) \<and> is_ok (buildRuntimeGraph cp dirs ir)"
proof -
  have "is_ok (instantiateStage reg m st) \<longleftrightarrow> is_ok (create_stage reg st)" for m st
    by (simp add: instantiateStage_def split: sum.splits)
  note I = rfold_is_ok [where f = "instantiateStage reg", OF this]
  have "is_ok (resolve_stage_codecs reg ir m st) \<longleftrightarrow> codecs_resolve reg ir st" for m st
    by (cases m) (simp add: resolve_stage_codecs_def codecs_resolve_def split: sum.splits)
  note C = rfold_is_ok [where f = "resolve_stage_codecs reg ir", OF this]
  show ?thesis
    using I [of "[]" "ir_Stages ir"] C [of "([], [])" "ir_Stages ir"]
    by (auto simp: NewPipeline_def resolveCodecs_def split: sum.splits)
qed

text \<open>
  C23: a pipeline is built exactly when every stage's type is registered for its kind and its
  factory succeeds, every codec reference resolves, and the graph can be built. What is built has
  exactly the stages of the representation, each made by its factory from its own configuration;
  the decoder and encoder tables hold what each stage's references resolve to; and a stage has an
  error mode of its own exactly when one is configured.
\<close>

theorem NewPipeline_exact:
  assumes "distinct (map st_ID (ir_Stages ir))"
  shows "(is_ok (NewPipeline cp dirs reg ir) \<longleftrightarrow>
      (\<forall>st \<in> set (ir_Stages ir). is_ok (create_stage reg st)) \<and>
      (\<forall>st \<in> set (ir_Stages ir). codecs_resolve reg ir st) \<and> is_ok (buildRuntimeGraph cp dirs ir)) \<and>
    (\<forall>p. NewPipeline cp dirs reg ir = Inr p \<longrightarrow>
      pl_ir p = ir \<and> Inr (pl_graph p) = buildRuntimeGraph cp dirs ir \<and>
      dom (map_of (pl_stages p)) = st_ID ` set (ir_Stages ir) \<and> \<not> pl_started p \<and>
      (\<forall>st \<in> set (ir_Stages ir).
         map_sum id Some (create_stage reg st) = Inr (map_of (pl_stages p) (st_ID st)) \<and>
         resolveCodecRef reg ir (st_Decoder st) ''decoder'' = Inr (map_of (pl_decoders p) (st_ID st)) \<and>
         resolveCodecRef reg ir (st_Encoder st) ''encoder'' = Inr (map_of (pl_encoders p) (st_ID st)) \<and>
         map_of (pl_stageErrorMode p) (st_ID st) = (if st_ErrorMode st = '''' then None else Some (st_ErrorMode st))))"
proof (intro conjI allI impI)
  show "is_ok (NewPipeline cp dirs reg ir) \<longleftrightarrow>
      (\<forall>st \<in> set (ir_Stages ir). is_ok (create_stage reg st)) \<and>
      (\<forall>st \<in> set (ir_Stages ir). codecs_resolve reg ir st) \<and> is_ok (buildRuntimeGraph cp dirs ir)"
    by (rule NewPipeline_is_ok)
next
  fix p assume p: "NewPipeline cp dirs reg ir = Inr p"
  obtain stages decs encs g where i: "rfold (instantiateStage reg) [] (ir_Stages ir) = Inr stages"
    and c: "rfold (resolve_stage_codecs reg ir) ([], []) (ir_Stages ir) = Inr (decs, encs)"
    and g: "buildRuntimeGraph cp dirs ir = Inr g"
    and eq: "p = \<lparr>pl_ir = ir, pl_stages = stages, pl_stageErrorMode = stage_error_modes (ir_Stages ir),
                  pl_graph = g, pl_decoders = decs, pl_encoders = encs, pl_started = False, pl_cancelled = False\<rparr>"
    using p by (auto simp: NewPipeline_def resolveCodecs_def split: sum.splits)
  note I = instantiate_all [OF i assms] and C = resolve_all [OF c assms]
  show "pl_ir p = ir" "Inr (pl_graph p) = buildRuntimeGraph cp dirs ir" "\<not> pl_started p"
    "dom (map_of (pl_stages p)) = st_ID ` set (ir_Stages ir)"
    using I g by (simp_all add: eq)
  show "\<forall>st \<in> set (ir_Stages ir).
         map_sum id Some (create_stage reg st) = Inr (map_of (pl_stages p) (st_ID st)) \<and>
         resolveCodecRef reg ir (st_Decoder st) ''decoder'' = Inr (map_of (pl_decoders p) (st_ID st)) \<and>
         resolveCodecRef reg ir (st_Encoder st) ''encoder'' = Inr (map_of (pl_encoders p) (st_ID st)) \<and>
         map_of (pl_stageErrorMode p) (st_ID st) = (if st_ErrorMode st = '''' then None else Some (st_ErrorMode st))"
  proof
    fix st assume st: "st \<in> set (ir_Stages ir)"
    have "map_of (stage_error_modes (ir_Stages ir)) (st_ID st) = (if st_ErrorMode st = '''' then None else Some (st_ErrorMode st))"
    proof -
      obtain us vs where split: "ir_Stages ir = us @ st # vs" using st by (meson split_list)
      have no: "\<not> (st_ID t = st_ID st \<and> st_ErrorMode t \<noteq> '''')" if "t \<in> set us \<union> set vs" for t
        using assms that unfolding split by (auto simp: image_iff)
      have "filter (\<lambda>t. st_ID t = st_ID st \<and> st_ErrorMode t \<noteq> '''') us = []"
        "filter (\<lambda>t. st_ID t = st_ID st \<and> st_ErrorMode t \<noteq> '''') vs = []"
        unfolding filter_empty_conv using no by blast+
      then show ?thesis using stage_error_modes_lookup [OF assms, of "st_ID st"] unfolding split by simp
    qed
    then show "map_sum id Some (create_stage reg st) = Inr (map_of (pl_stages p) (st_ID st)) \<and>
         resolveCodecRef reg ir (st_Decoder st) ''decoder'' = Inr (map_of (pl_decoders p) (st_ID st)) \<and>
         resolveCodecRef reg ir (st_Encoder st) ''encoder'' = Inr (map_of (pl_encoders p) (st_ID st)) \<and>
         map_of (pl_stageErrorMode p) (st_ID st) = (if st_ErrorMode st = '''' then None else Some (st_ErrorMode st))"
      using I C st by (auto simp: eq)
  qed
qed

section \<open>Error modes\<close>

datatype errorMode = errModePropagate | errModeIgnore | errModeSilent

definition parseErrorMode :: "string \<Rightarrow> errorMode" where
  "parseErrorMode raw =
     (let s = ToLower (TrimSpace raw) in
      if s = ''ignore'' then errModeIgnore else if s = ''silent'' then errModeSilent else errModePropagate)"

definition errorModeForStage :: "('p, 'x) pipeline \<Rightarrow> string \<Rightarrow> errorMode" where
  "errorModeForStage p stageID =
     (case (if stageID \<noteq> '''' then map_of (pl_stageErrorMode p) stageID else None) of
        Some mode \<Rightarrow> if mode \<noteq> '''' then parseErrorMode mode else parseErrorMode (en_ErrorMode (ir_Engine (pl_ir p)))
      | None \<Rightarrow> parseErrorMode (en_ErrorMode (ir_Engine (pl_ir p))))"

definition handleEvalError :: "('p, 'x) pipeline \<Rightarrow> string \<Rightarrow> goerr option \<Rightarrow> bool \<times> goerr option" where
  "handleEvalError p stageID err =
     (case err of
        None \<Rightarrow> (False, None)
      | Some e \<Rightarrow>
          (case errorModeForStage p stageID of
             errModeIgnore \<Rightarrow> (True, None)
           | errModeSilent \<Rightarrow> (True, None)
           | errModePropagate \<Rightarrow> (False, Some e)))"

definition ackMessageError :: "('p, 'x) pipeline \<Rightarrow> string \<Rightarrow> mref \<Rightarrow> goerr option \<Rightarrow> world \<Rightarrow> world" where
  "ackMessageError p stageID m err w =
     (case handleEvalError p stageID err of
        (treatAsFalse, ackErr) \<Rightarrow> if treatAsFalse then Ack m None w else Ack m ackErr w)"

definition ackBatchError :: "('p, 'x) pipeline \<Rightarrow> string \<Rightarrow> mref list \<Rightarrow> goerr option \<Rightarrow> world \<Rightarrow> world" where
  "ackBatchError p stageID batch err w =
     (case handleEvalError p stageID err of
        (treatAsFalse, ackErr) \<Rightarrow>
          foldl (\<lambda>w m. if treatAsFalse then Ack m None w else Ack m ackErr w) w batch)"

lemma handleEvalError_cases:
  obtains (swallow) "handleEvalError p s (Some e) = (True, None)"
  | (raise) "handleEvalError p s (Some e) = (False, Some e)" "errorModeForStage p s = errModePropagate"
  by (cases "errorModeForStage p s") (auto simp: handleEvalError_def)

section \<open>Life cycle\<close>

text \<open>
  The order in which a loop over the map of stages visits it is an argument. \<^verbatim>\<open>Start\<close>
  initialises the stages until one fails; the flag \<open>started\<close> is set before and stays set.
\<close>

fun init_stages :: "(string \<times> ('w, 'x) stage_inst) list \<Rightarrow> 'x \<Rightarrow> (string \<times> goerr) option \<times> 'x" where
  "init_stages [] x = (None, x)"
| "init_stages ((sid, st) # rest) x =
     (case sg_Init st x of
        (Some err, x') \<Rightarrow> (Some (sid, err), x')
      | (None, x') \<Rightarrow> init_stages rest x')"

definition Pipeline_Start ::
  "(string \<times> (world, 'x) stage_inst) list \<Rightarrow> ('p, 'x) pipeline \<Rightarrow> 'x \<Rightarrow> goerr option \<times> ('p, 'x) pipeline \<times> 'x" where
  "Pipeline_Start order p x =
     (if pl_started p then (Some (Err ''pipeline %q already started'' [ir_Name (pl_ir p)]), p, x)
      else
        let p1 = p\<lparr>pl_started := True\<rparr> in
        (case init_stages order x of
           (Some (sid, err), x') \<Rightarrow> (Some (Wrap ''init stage %q: %w'' [sid] err), p1\<lparr>pl_cancelled := True\<rparr>, x')
         | (None, x') \<Rightarrow> (None, p1, x')))"

definition stop_stages :: "(string \<times> (world, 'x) stage_inst) list \<Rightarrow> 'x \<Rightarrow> 'x" where
  "stop_stages sts x = foldl (\<lambda>x (sid, st). snd (sg_Stop st x)) x sts"

definition flush_sinks :: "(string \<times> (world, 'x) stage_inst) list \<Rightarrow> 'x \<Rightarrow> 'x" where
  "flush_sinks sts x =
     foldl (\<lambda>x (sid, st). case sg_role st of SinkRole _ flush \<Rightarrow> snd (flush x) | _ \<Rightarrow> x) x sts"

definition close_edges :: "'p runtime_graph \<Rightarrow> 'p runtime_graph" where
  "close_edges g =
     g\<lparr>rg_buffers := foldl (\<lambda>bs i. bs[i := Edge_Close_end (Edge_Close_begin (bs ! i))])
        (rg_buffers g) (allEdgeInbounds g)\<rparr>"

text \<open>
  \<^verbatim>\<open>Stop\<close>: \<open>timeout\<close> is the error of the context when it ends before the goroutines do.
\<close>

definition Pipeline_Stop ::
  "(string \<times> (world, 'x) stage_inst) list \<Rightarrow> goerr option \<Rightarrow> ('p, 'x) pipeline \<Rightarrow> 'x
     \<Rightarrow> goerr option \<times> ('p, 'x) pipeline \<times> 'x" where
  "Pipeline_Stop order timeout p x =
     (let x1 = stop_stages (filter (\<lambda>(sid, st). is_source st) order) x;
          p1 = (if pl_started p then p\<lparr>pl_cancelled := True\<rparr> else p) in
      case timeout of
        Some err \<Rightarrow> (Some err, p1, x1)
      | None \<Rightarrow>
          (None, p1\<lparr>pl_graph := close_edges (pl_graph p1)\<rparr>,
           stop_stages (filter (\<lambda>(sid, st). \<not> is_source st) order) (flush_sinks order x1)))"

text \<open>
  A pipeline whose start failed can never be started again. The flag was set before the stages
  were initialised and nothing resets it, so every later start reports that it runs already,
  although its context is cancelled and none of its goroutines exists; and stopping it does not
  clear the flag either.
\<close>

theorem failed_start_sticks:
  assumes "Pipeline_Start order p x = (Some err, p1, x1)" and "\<not> pl_started p"
    and "Pipeline_Stop order2 timeout p1 x2 = (r, p2, x3)"
  shows "pl_cancelled p1 \<and>
    Pipeline_Start order3 p1 y = (Some (Err ''pipeline %q already started'' [ir_Name (pl_ir p)]), p1, y) \<and>
    Pipeline_Start order3 p2 y = (Some (Err ''pipeline %q already started'' [ir_Name (pl_ir p)]), p2, y)"
proof -
  have p1: "pl_started p1" "pl_cancelled p1" "pl_ir p1 = pl_ir p"
    using assms(1,2) by (auto simp: Pipeline_Start_def Let_def split: prod.splits option.splits)
  have "pl_started p2" "pl_ir p2 = pl_ir p1"
    using assms(3) p1 by (auto simp: Pipeline_Stop_def Let_def split: option.splits if_splits)
  then show ?thesis using p1 by (simp add: Pipeline_Start_def)
qed


section \<open>Witnesses\<close>

definition demo_inst :: "(world, nat) stage_role \<Rightarrow> (world, nat) stage_inst" where
  "demo_inst role = \<lparr>sg_Init = (\<lambda>x. (None, x)), sg_Stop = (\<lambda>x. (None, x)), sg_role = role\<rparr>"

definition demo_registry :: "(world, nat) registry" where
  "demo_registry =
     RegisterSource ''drop'' (\<lambda>_. Inr (demo_inst (SourceRole True)))
      (RegisterTransform ''drop'' (\<lambda>_. Inr (demo_inst (TransformRole (\<lambda>batch w. (Inr batch, w)))))
        (RegisterSink ''drop'' (\<lambda>_. Inr (demo_inst (SinkRole (\<lambda>batch w n. (None, n + length batch)) (\<lambda>n. (None, n)))))
          registry_New))"

lemma demo_built_ok: "is_ok (NewPipeline demo_compiler no_dirs demo_registry one_route)"
  unfolding NewPipeline_is_ok using demo_builds(2)
  by (simp add: one_route_def two_routes_def demo_stage_def create_stage_def demo_registry_def
      codecs_resolve_def resolveCodecRef_def CreateSource_def
      CreateTransform_def CreateSink_def RegisterSource_def RegisterTransform_def RegisterSink_def)

theorem NewPipeline_exact_witness:
  "\<exists>p. NewPipeline demo_compiler no_dirs demo_registry one_route = Inr p \<and>
     dom (map_of (pl_stages p)) = {''s'', ''t'', ''k''}"
proof -
  have "distinct (map st_ID (ir_Stages one_route))" by (simp add: one_route_def two_routes_def demo_stage_def)
  note N = NewPipeline_exact [OF this, of demo_compiler no_dirs demo_registry]
  obtain p where p: "NewPipeline demo_compiler no_dirs demo_registry one_route = Inr p"
    using demo_built_ok by (auto simp: is_ok_iff)
  then have "dom (map_of (pl_stages p)) = st_ID ` set (ir_Stages one_route)" using N by blast
  then show ?thesis using p by (auto simp: one_route_def two_routes_def demo_stage_def)
qed

definition broken_inst :: "(world, nat) stage_inst" where
  "broken_inst = \<lparr>sg_Init = (\<lambda>x. (Some EOF, x)), sg_Stop = (\<lambda>x. (None, x)), sg_role = SourceRole True\<rparr>"

definition broken_pipeline :: "(string, nat) pipeline" where
  "broken_pipeline = \<lparr>pl_ir = one_route, pl_stages = [(''s'', broken_inst)], pl_stageErrorMode = [],
     pl_graph = empty_graph, pl_decoders = [], pl_encoders = [], pl_started = False, pl_cancelled = False\<rparr>"

theorem failed_start_sticks_witness:
  "fst (Pipeline_Start [(''s'', broken_inst)] (broken_pipeline\<lparr>pl_started := True, pl_cancelled := True\<rparr>) 7)
     = Some (Err ''pipeline %q already started'' [''demo''])"
proof -
  let ?o = "[(''s'', broken_inst)]"
  have 1: "Pipeline_Start ?o broken_pipeline 0 = (Some (Wrap ''init stage %q: %w'' [''s''] EOF),
      broken_pipeline\<lparr>pl_started := True, pl_cancelled := True\<rparr>, 0)"
    by (simp add: Pipeline_Start_def broken_pipeline_def broken_inst_def)
  obtain r p2 x3 where 2: "Pipeline_Stop ?o None (broken_pipeline\<lparr>pl_started := True, pl_cancelled := True\<rparr>) 0 = (r, p2, x3)"
    by (metis prod_cases3)
  have "\<not> pl_started broken_pipeline" "ir_Name (pl_ir broken_pipeline) = ''demo''"
    by (simp_all add: broken_pipeline_def one_route_def two_routes_def demo_ir_def)
  then show ?thesis using failed_start_sticks [OF 1 _ 2, of ?o 7] by simp
qed

end
