(* ===== verification/Reload.thy ===== *)
theory Reload
  imports Pipeline Loader Topology GoTime
begin

text \<open>
  The engine as a set of pipelines and their hot reload: \<^verbatim>\<open>internal/engine/engine.go\<close> and
  \<^verbatim>\<open>reload.go\<close>. The critical sections of \<^verbatim>\<open>mu\<close> are atomic; a call between
  them and a reload running in its goroutine are jobs, so that the steps of several calls and
  reloads interleave. A pipeline has a number that stands for its pointer.
\<close>

section \<open>State\<close>

datatype PipelineState = PipelineRunning | PipelineStopped | PipelineReloading
datatype ReloadStatus = ReloadPending | ReloadRunning | ReloadSucceeded | ReloadFailed

record reload_task =
  rt_ID :: string
  rt_Pipeline :: string
  rt_Status :: ReloadStatus
  rt_Error :: "goerr option"
  rt_StartedAt :: string
  rt_FinishedAt :: "string option"

record pipeline_info =
  pi_Name :: string
  pi_State :: PipelineState
  pi_StageCount :: nat
  pi_EdgeCount :: nat
  pi_ConfigPath :: string

record ('p, 'x) eventr_engine =
  eg_reg :: "(world, 'x) registry"
  eg_pipelines :: "(string \<times> nat \<times> ('p, 'x) pipeline) list"
  eg_configPaths :: "(string \<times> string) list"
  eg_reloading :: "string list"
  eg_reloadTasks :: "(string \<times> reload_task) list"
  eg_health :: "nat list option"
  eg_next :: nat
  eg_outside :: 'x

text \<open>
  What the engine meets at one moment: the files, the orders in which maps are visited, the
  compiler and the disk, the clock, whether stopping a pipeline within a timeout fails, and an id.
\<close>

record ('p, 'x) engine_env =
  ge_loader :: loader_env
  ge_orders :: map_orders
  ge_stages :: "('p, 'x) pipeline \<Rightarrow> (string \<times> (world, 'x) stage_inst) list"
  ge_cp :: "'p compiler"
  ge_dirs :: "string \<Rightarrow> wal_fs"
  ge_now :: string
  ge_uuid :: string
  ge_timeout :: "string \<Rightarrow> int \<Rightarrow> goerr option"

section \<open>The engine\<close>

definition engine_New :: "(world, 'x) registry \<Rightarrow> 'x \<Rightarrow> ('p, 'x) eventr_engine" where
  "engine_New reg x = \<lparr>eg_reg = reg, eg_pipelines = [], eg_configPaths = [], eg_reloading = [],
     eg_reloadTasks = [], eg_health = None, eg_next = 0, eg_outside = x\<rparr>"

definition engine_Load ::
  "('p, 'x) engine_env \<Rightarrow> topology_ir \<Rightarrow> ('p, 'x) eventr_engine \<Rightarrow> goerr option \<times> ('p, 'x) eventr_engine" where
  "engine_Load env ir e =
     (if map_of (eg_pipelines e) (ir_Name ir) \<noteq> None
      then (Some (Err ''pipeline %q already loaded'' [ir_Name ir]), e)
      else
        (case NewPipeline (ge_cp env) (ge_dirs env) (eg_reg e) ir of
           Inl err \<Rightarrow> (Some err, e)
         | Inr p \<Rightarrow>
             (None, e\<lparr>eg_pipelines := AList.update (ir_Name ir) (eg_next e, p) (eg_pipelines e),
                     eg_next := Suc (eg_next e)\<rparr>)))"

text \<open>The loop of \<^verbatim>\<open>Start\<close> over the pipelines; a pipeline is changed where it is.\<close>

fun start_all ::
  "('p, 'x) engine_env \<Rightarrow> (string \<times> nat \<times> ('p, 'x) pipeline) list \<Rightarrow> 'x
     \<Rightarrow> goerr option \<times> (string \<times> nat \<times> ('p, 'x) pipeline) list \<times> 'x" where
  "start_all env [] x = (None, [], x)"
| "start_all env ((name, pid, p) # rest) x =
     (case Pipeline_Start (ge_stages env p) p x of
        (Some err, p', x') \<Rightarrow> (Some err, (name, pid, p') # rest, x')
      | (None, p', x') \<Rightarrow>
          (case start_all env rest x' of (r, rest', x'') \<Rightarrow> (r, (name, pid, p') # rest', x'')))"

definition engine_Start :: "('p, 'x) engine_env \<Rightarrow> ('p, 'x) eventr_engine \<Rightarrow> goerr option \<times> ('p, 'x) eventr_engine" where
  "engine_Start env e =
     (case start_all env (eg_pipelines e) (eg_outside e) of
        (r, ps, x) \<Rightarrow> (r, e\<lparr>eg_pipelines := ps, eg_outside := x\<rparr>))"

fun stop_all ::
  "('p, 'x) engine_env \<Rightarrow> (string \<Rightarrow> goerr option) \<Rightarrow> (string \<times> nat \<times> ('p, 'x) pipeline) list \<Rightarrow> 'x
     \<Rightarrow> goerr option \<times> (string \<times> nat \<times> ('p, 'x) pipeline) list \<times> 'x" where
  "stop_all env timeout [] x = (None, [], x)"
| "stop_all env timeout ((name, pid, p) # rest) x =
     (case Pipeline_Stop (ge_stages env p) (timeout name) p x of
        (err, p', x') \<Rightarrow>
          (case stop_all env timeout rest x' of
             (first, rest', x'') \<Rightarrow> (if err = None then first else err, (name, pid, p') # rest', x'')))"

definition engine_Stop ::
  "('p, 'x) engine_env \<Rightarrow> (string \<Rightarrow> goerr option) \<Rightarrow> ('p, 'x) eventr_engine
     \<Rightarrow> goerr option \<times> ('p, 'x) eventr_engine" where
  "engine_Stop env timeout e =
     (case stop_all env timeout (eg_pipelines e) (eg_outside e) of
        (r, ps, x) \<Rightarrow> (r, e\<lparr>eg_pipelines := ps, eg_outside := x\<rparr>))"

definition engine_Pipeline :: "string \<Rightarrow> ('p, 'x) eventr_engine \<Rightarrow> ('p, 'x) pipeline option" where
  "engine_Pipeline name e = map_option snd (map_of (eg_pipelines e) name)"

definition PipelineCount :: "('p, 'x) eventr_engine \<Rightarrow> nat" where
  "PipelineCount e = length (eg_pipelines e)"

definition StartObservability :: "('p, 'x) eventr_engine \<Rightarrow> ('p, 'x) eventr_engine" where
  "StartObservability e = e\<lparr>eg_health := Some (map (fst \<circ> snd) (eg_pipelines e))\<rparr>"

definition refreshHealthChecker :: "('p, 'x) eventr_engine \<Rightarrow> ('p, 'x) eventr_engine" where
  "refreshHealthChecker e =
     (case eg_health e of
        None \<Rightarrow> e
      | Some _ \<Rightarrow> e\<lparr>eg_health := Some (map (fst \<circ> snd) (eg_pipelines e))\<rparr>)"

section \<open>What the engine reports\<close>

definition SetConfigPath :: "string \<Rightarrow> string \<Rightarrow> ('p, 'x) eventr_engine \<Rightarrow> ('p, 'x) eventr_engine" where
  "SetConfigPath name path e = e\<lparr>eg_configPaths := AList.update name path (eg_configPaths e)\<rparr>"

definition ConfigPath :: "string \<Rightarrow> ('p, 'x) eventr_engine \<Rightarrow> string" where
  "ConfigPath name e = map_str (eg_configPaths e) name"

definition pipelineInfoLocked :: "string \<Rightarrow> ('p, 'x) pipeline \<Rightarrow> ('p, 'x) eventr_engine \<Rightarrow> pipeline_info" where
  "pipelineInfoLocked name p e =
     (let st = (if pl_started p then PipelineRunning else PipelineStopped);
          st' = (if name \<in> set (eg_reloading e) then PipelineReloading else st) in
      \<lparr>pi_Name = name, pi_State = st', pi_StageCount = length (ir_Stages (pl_ir p)),
       pi_EdgeCount = length (ir_Edges (pl_ir p)), pi_ConfigPath = ConfigPath name e\<rparr>)"

definition ListPipelines :: "('p, 'x) eventr_engine \<Rightarrow> pipeline_info list" where
  "ListPipelines e = map (\<lambda>(name, pid, p). pipelineInfoLocked name p e) (eg_pipelines e)"

definition PipelineInfo :: "string \<Rightarrow> ('p, 'x) eventr_engine \<Rightarrow> pipeline_info option" where
  "PipelineInfo name e = map_option (\<lambda>(pid, p). pipelineInfoLocked name p e) (map_of (eg_pipelines e) name)"

definition ReloadTask :: "string \<Rightarrow> ('p, 'x) eventr_engine \<Rightarrow> reload_task option" where
  "ReloadTask tid e = map_of (eg_reloadTasks e) tid"

definition clearReloading :: "string \<Rightarrow> ('p, 'x) eventr_engine \<Rightarrow> ('p, 'x) eventr_engine" where
  "clearReloading name e = e\<lparr>eg_reloading := removeAll name (eg_reloading e)\<rparr>"

definition storeTask :: "reload_task \<Rightarrow> ('p, 'x) eventr_engine \<Rightarrow> ('p, 'x) eventr_engine" where
  "storeTask t e = e\<lparr>eg_reloadTasks := AList.update (rt_ID t) t (eg_reloadTasks e)\<rparr>"

definition updateTask ::
  "string \<Rightarrow> string \<Rightarrow> ReloadStatus \<Rightarrow> goerr option \<Rightarrow> ('p, 'x) eventr_engine \<Rightarrow> ('p, 'x) eventr_engine" where
  "updateTask now tid st err e =
     (case map_of (eg_reloadTasks e) tid of
        None \<Rightarrow> e
      | Some t \<Rightarrow>
          e\<lparr>eg_reloadTasks := AList.update tid
             (t\<lparr>rt_Status := st, rt_Error := err,
                rt_FinishedAt := (if st \<in> {ReloadSucceeded, ReloadFailed} then Some now else rt_FinishedAt t)\<rparr>)
             (eg_reloadTasks e)\<rparr>)"

definition loadIRFromPath :: "('p, 'x) engine_env \<Rightarrow> string \<Rightarrow> topology_ir res" where
  "loadIRFromPath env path =
     (case LoadFile (ge_loader env) path of
        Inl err \<Rightarrow> Inl (Wrap ''load config: %w'' [] err)
      | Inr cfg \<Rightarrow>
          (case FromConfig (ge_orders env) cfg of
             Inl err \<Rightarrow> Inl (Wrap ''validate config: %w'' [] err)
           | Inr ir \<Rightarrow> Inr ir))"

section \<open>Swapping a pipeline\<close>

text \<open>In nanoseconds.\<close>

definition drain_timeout :: "topology_ir \<Rightarrow> int" where
  "drain_timeout ir =
     (if en_DrainTimeout (ir_Engine ir) = '''' then 30000000000
      else (case ParseDuration (en_DrainTimeout (ir_Engine ir)) of Inl _ \<Rightarrow> 30000000000 | Inr d \<Rightarrow> d))"

definition swapPipeline ::
  "('p, 'x) engine_env \<Rightarrow> string \<Rightarrow> topology_ir \<Rightarrow> ('p, 'x) eventr_engine \<Rightarrow> goerr option \<times> ('p, 'x) eventr_engine" where
  "swapPipeline env name ir e =
     (case map_of (eg_pipelines e) name of
        None \<Rightarrow> (Some (Err ''pipeline %q not found'' [name]), e)
      | Some (pid, old) \<Rightarrow>
          (case Pipeline_Stop (ge_stages env old) (ge_timeout env name (drain_timeout ir)) old (eg_outside e) of
             (r, old', x) \<Rightarrow>
               let e1 = e\<lparr>eg_pipelines := AList.update name (pid, old') (eg_pipelines e), eg_outside := x\<rparr> in
               case r of
                 Some err \<Rightarrow> (Some (Wrap ''stop pipeline %q: %w'' [name] err), e1)
               | None \<Rightarrow>
                   (case NewPipeline (ge_cp env) (ge_dirs env) (eg_reg e) ir of
                      Inl err \<Rightarrow> (Some (Wrap ''build pipeline %q: %w'' [name] err), e1)
                    | Inr p \<Rightarrow>
                        (case Pipeline_Start (ge_stages env p) p x of
                           (Some err, p', x') \<Rightarrow>
                             (Some (Wrap ''start pipeline %q: %w'' [name] err), e1\<lparr>eg_outside := x'\<rparr>)
                         | (None, p', x') \<Rightarrow>
                             (None, e1\<lparr>eg_pipelines := AList.update name (eg_next e, p') (eg_pipelines e1),
                                      eg_next := Suc (eg_next e), eg_outside := x'\<rparr>)))))"


text \<open>
  The lock is held only while the old pipeline is looked up and while the new one is installed, so
  \<^verbatim>\<open>swapPipeline\<close> is four steps that others may come between: it looks up and stops the old
  pipeline, builds the new one, starts it, and installs it. The result is the error of the call,
  or what is left to do.
\<close>

datatype ('p, 'x) swap_phase =
    SwapStop
  | SwapBuild
  | SwapStart "('p, 'x) pipeline"
  | SwapInstall "('p, 'x) pipeline"

fun swap_step ::
  "('p, 'x) engine_env \<Rightarrow> string \<Rightarrow> topology_ir \<Rightarrow> ('p, 'x) swap_phase \<Rightarrow> ('p, 'x) eventr_engine
     \<Rightarrow> (goerr option + ('p, 'x) swap_phase) \<times> ('p, 'x) eventr_engine" where
  "swap_step env name ir SwapStop e =
     (case map_of (eg_pipelines e) name of
        None \<Rightarrow> (Inl (Some (Err ''pipeline %q not found'' [name])), e)
      | Some (pid, old) \<Rightarrow>
          (case Pipeline_Stop (ge_stages env old) (ge_timeout env name (drain_timeout ir)) old (eg_outside e) of
             (r, old', x) \<Rightarrow>
               (case r of Some err \<Rightarrow> Inl (Some (Wrap ''stop pipeline %q: %w'' [name] err)) | None \<Rightarrow> Inr SwapBuild,
                e\<lparr>eg_pipelines := AList.update name (pid, old') (eg_pipelines e), eg_outside := x\<rparr>)))"
| "swap_step env name ir SwapBuild e =
     (case NewPipeline (ge_cp env) (ge_dirs env) (eg_reg e) ir of
        Inl err \<Rightarrow> Inl (Some (Wrap ''build pipeline %q: %w'' [name] err))
      | Inr p \<Rightarrow> Inr (SwapStart p), e)"
| "swap_step env name ir (SwapStart p) e =
     (case Pipeline_Start (ge_stages env p) p (eg_outside e) of
        (r, p', x) \<Rightarrow>
          (case r of Some err \<Rightarrow> Inl (Some (Wrap ''start pipeline %q: %w'' [name] err)) | None \<Rightarrow> Inr (SwapInstall p'),
           e\<lparr>eg_outside := x\<rparr>))"
| "swap_step env name ir (SwapInstall p) e =
     (Inl None, e\<lparr>eg_pipelines := AList.update name (eg_next e, p) (eg_pipelines e), eg_next := Suc (eg_next e)\<rparr>)"

text \<open>When nobody comes between the steps they are the call.\<close>

fun run_swap ::
  "nat \<Rightarrow> ('p, 'x) engine_env \<Rightarrow> string \<Rightarrow> topology_ir \<Rightarrow> ('p, 'x) swap_phase \<Rightarrow> ('p, 'x) eventr_engine
     \<Rightarrow> goerr option \<times> ('p, 'x) eventr_engine" where
  "run_swap 0 env name ir ph e = (None, e)"
| "run_swap (Suc n) env name ir ph e =
     (case swap_step env name ir ph e of
        (Inl r, e') \<Rightarrow> (r, e')
      | (Inr ph', e') \<Rightarrow> run_swap n env name ir ph' e')"

lemma swapPipeline_steps: "run_swap 4 env name ir SwapStop e = swapPipeline env name ir e"
  by (simp add: swapPipeline_def Let_def eval_nat_numeral split: option.split prod.split sum.split)

section \<open>Calls and reloads in flight\<close>

text \<open>
  A job is where a goroutine stands: \<^verbatim>\<open>BeginReload\<close> after it has claimed the pipeline;
  \<^verbatim>\<open>BeginReloadAll\<close> with the names it claimed and the ones still to check; a task that is
  still pending; \<^verbatim>\<open>runReload\<close> in its swap; the loop of \<^verbatim>\<open>runReloadAll\<close> with its
  first error, before a pipeline and in the swap of one.
\<close>

datatype ('p, 'x) job =
    JBegin string string
  | JAllBegin "string list" "string list"
  | JPending string "('p, 'x) job"
  | JRun string string topology_ir "('p, 'x) swap_phase"
  | JAllRun string "string list" "goerr option"
  | JAllSwap string string "string list" "goerr option" topology_ir "('p, 'x) swap_phase"

text \<open>The first critical section of \<^verbatim>\<open>BeginReload\<close> and of \<^verbatim>\<open>BeginReloadAll\<close>.\<close>

definition BeginReload_claim :: "string \<Rightarrow> ('p, 'x) eventr_engine \<Rightarrow> ('p, 'x) job res \<times> ('p, 'x) eventr_engine" where
  "BeginReload_claim name e =
     (case map_of (eg_configPaths e) name of
        None \<Rightarrow> (Inl (Err ''pipeline %q not found'' [name]), e)
      | Some path \<Rightarrow>
          if name \<in> set (eg_reloading e) then (Inl ReloadInProgress, e)
          else (Inr (JBegin name path), e\<lparr>eg_reloading := name # eg_reloading e\<rparr>))"

definition BeginReloadAll_claim :: "('p, 'x) eventr_engine \<Rightarrow> ('p, 'x) job res \<times> ('p, 'x) eventr_engine" where
  "BeginReloadAll_claim e =
     (let names = map fst (eg_pipelines e) in
      if set names \<inter> set (eg_reloading e) \<noteq> {} then (Inl ReloadInProgress, e)
      else (Inr (JAllBegin names names), e\<lparr>eg_reloading := names @ eg_reloading e\<rparr>))"

definition new_task :: "('p, 'x) engine_env \<Rightarrow> string \<Rightarrow> reload_task" where
  "new_task env name = \<lparr>rt_ID = ge_uuid env, rt_Pipeline = name, rt_Status = ReloadPending, rt_Error = None,
     rt_StartedAt = ge_now env, rt_FinishedAt = None\<rparr>"

text \<open>
  The rest of the calls, and the reloads: the reply of a call when it ends, the job that goes on,
  and the engine.
\<close>

definition BeginReload_rest ::
  "('p, 'x) engine_env \<Rightarrow> string \<Rightarrow> string \<Rightarrow> ('p, 'x) eventr_engine
     \<Rightarrow> string res option \<times> ('p, 'x) job option \<times> ('p, 'x) eventr_engine" where
  "BeginReload_rest env name path e =
     (case loadIRFromPath env path of
        Inl err \<Rightarrow> (Some (Inl err), None, clearReloading name e)
      | Inr ir \<Rightarrow>
          if ir_Name ir \<noteq> name then
            (Some (Inl (Err ''config %q defines pipeline %q, expected %q'' [path, ir_Name ir, name])), None,
             clearReloading name e)
          else
            (Some (Inr (ge_uuid env)), Some (JPending (ge_uuid env) (JRun (ge_uuid env) name ir SwapStop)),
             storeTask (new_task env name) e))"

definition BeginReloadAll_check ::
  "('p, 'x) engine_env \<Rightarrow> string list \<Rightarrow> string list \<Rightarrow> ('p, 'x) eventr_engine
     \<Rightarrow> string res option \<times> ('p, 'x) job option \<times> ('p, 'x) eventr_engine" where
  "BeginReloadAll_check env names todo e =
     (case todo of
        [] \<Rightarrow>
          (Some (Inr (ge_uuid env)), Some (JPending (ge_uuid env) (JAllRun (ge_uuid env) names None)),
           storeTask (new_task env '''') e)
      | name # rest \<Rightarrow>
          if ConfigPath name e = '''' then
            (Some (Inl (Err ''pipeline %q has no config path for reload'' [name])), None, clearReloading name e)
          else
            (case loadIRFromPath env (ConfigPath name e) of
               Inl err \<Rightarrow> (Some (Inl err), None, fold clearReloading names e)
             | Inr ir \<Rightarrow> (None, Some (JAllBegin names rest), e)))"

text \<open>How a task ends.\<close>

definition finish_task ::
  "('p, 'x) engine_env \<Rightarrow> string \<Rightarrow> goerr option \<Rightarrow> ('p, 'x) eventr_engine \<Rightarrow> ('p, 'x) eventr_engine" where
  "finish_task env tid r e =
     (case r of
        Some err \<Rightarrow> updateTask (ge_now env) tid ReloadFailed (Some err) e
      | None \<Rightarrow> refreshHealthChecker (updateTask (ge_now env) tid ReloadSucceeded None e))"

definition runReload_turn ::
  "('p, 'x) engine_env \<Rightarrow> string \<Rightarrow> string \<Rightarrow> topology_ir \<Rightarrow> ('p, 'x) swap_phase \<Rightarrow> ('p, 'x) eventr_engine
     \<Rightarrow> ('p, 'x) job option \<times> ('p, 'x) eventr_engine" where
  "runReload_turn env tid name ir ph e =
     (case swap_step env name ir ph e of
        (Inl r, e') \<Rightarrow> (None, clearReloading name (finish_task env tid r e'))
      | (Inr ph', e') \<Rightarrow> (Some (JRun tid name ir ph'), e'))"

definition runReloadAll_turn ::
  "('p, 'x) engine_env \<Rightarrow> string \<Rightarrow> string list \<Rightarrow> goerr option \<Rightarrow> ('p, 'x) eventr_engine
     \<Rightarrow> ('p, 'x) job option \<times> ('p, 'x) eventr_engine" where
  "runReloadAll_turn env tid todo firstErr e =
     (case todo of
        [] \<Rightarrow>
          (None, finish_task env tid firstErr e)
      | name # rest \<Rightarrow>
          (case loadIRFromPath env (ConfigPath name e) of
             Inl err \<Rightarrow> (None, finish_task env tid (Some err) e)
           | Inr ir \<Rightarrow> (Some (JAllSwap tid name rest firstErr ir SwapStop), e)))"

definition runReloadAll_swap ::
  "('p, 'x) engine_env \<Rightarrow> string \<Rightarrow> string \<Rightarrow> string list \<Rightarrow> goerr option \<Rightarrow> topology_ir \<Rightarrow> ('p, 'x) swap_phase
     \<Rightarrow> ('p, 'x) eventr_engine \<Rightarrow> ('p, 'x) job option \<times> ('p, 'x) eventr_engine" where
  "runReloadAll_swap env tid name rest firstErr ir ph e =
     (case swap_step env name ir ph e of
        (Inl r, e') \<Rightarrow> (Some (JAllRun tid rest (if firstErr = None then r else firstErr)), clearReloading name e')
      | (Inr ph', e') \<Rightarrow> (Some (JAllSwap tid name rest firstErr ir ph'), e'))"

fun job_step ::
  "('p, 'x) engine_env \<Rightarrow> ('p, 'x) job \<Rightarrow> ('p, 'x) eventr_engine \<Rightarrow> string res option \<times> ('p, 'x) job option \<times> ('p, 'x) eventr_engine" where
  "job_step env (JBegin name path) e = BeginReload_rest env name path e"
| "job_step env (JAllBegin names todo) e = BeginReloadAll_check env names todo e"
| "job_step env (JPending tid j) e = (None, Some j, updateTask (ge_now env) tid ReloadRunning None e)"
| "job_step env (JRun tid name ir ph) e = (None, runReload_turn env tid name ir ph e)"
| "job_step env (JAllRun tid todo firstErr) e = (None, runReloadAll_turn env tid todo firstErr e)"
| "job_step env (JAllSwap tid name rest firstErr ir ph) e = (None, runReloadAll_swap env tid name rest firstErr ir ph e)"

record ('p, 'x) reload_run =
  rr_engine :: "('p, 'x) eventr_engine"
  rr_jobs :: "('p, 'x) job list"
  rr_replies :: "string res list"

text \<open>
  Clients load pipelines, set paths, start and stop the engine and begin reloads at any time, and
  any job may go next, in an environment of its own.
\<close>

inductive reload_step :: "('p, 'x) reload_run \<Rightarrow> ('p, 'x) reload_run \<Rightarrow> bool" where
  rl_load: "engine_Load env ir (rr_engine s) = (r, e) \<Longrightarrow> reload_step s (s\<lparr>rr_engine := e\<rparr>)"
| rl_path: "reload_step s (s\<lparr>rr_engine := SetConfigPath name path (rr_engine s)\<rparr>)"
| rl_start: "engine_Start env (rr_engine s) = (r, e) \<Longrightarrow> reload_step s (s\<lparr>rr_engine := e\<rparr>)"
| rl_stop: "engine_Stop env timeout (rr_engine s) = (r, e) \<Longrightarrow> reload_step s (s\<lparr>rr_engine := e\<rparr>)"
| rl_refused: "BeginReload_claim name (rr_engine s) = (Inl err, e) \<or> BeginReloadAll_claim (rr_engine s) = (Inl err, e) \<Longrightarrow>
     reload_step s (s\<lparr>rr_engine := e, rr_replies := rr_replies s @ [Inl err]\<rparr>)"
| rl_claimed: "BeginReload_claim name (rr_engine s) = (Inr j, e) \<or> BeginReloadAll_claim (rr_engine s) = (Inr j, e) \<Longrightarrow>
     reload_step s (s\<lparr>rr_engine := e, rr_jobs := j # rr_jobs s\<rparr>)"
| rl_job: "rr_jobs s = us @ j # vs \<Longrightarrow> job_step env j (rr_engine s) = (reply, next_job, e) \<Longrightarrow>
     reload_step s (s\<lparr>rr_engine := e, rr_jobs := us @ (case next_job of None \<Rightarrow> [] | Some j' \<Rightarrow> [j']) @ vs,
       rr_replies := rr_replies s @ (case reply of None \<Rightarrow> [] | Some r \<Rightarrow> [r])\<rparr>)"

inductive reload_reach :: "('p, 'x) reload_run \<Rightarrow> ('p, 'x) reload_run \<Rightarrow> bool" for s0 where
  rl_refl: "reload_reach s0 s0"
| rl_more: "reload_reach s0 s \<Longrightarrow> reload_step s s' \<Longrightarrow> reload_reach s0 s'"

interpretation reloads: transition_system "reload_step" "reload_reach"
  by unfold_locales (rule rl_refl, erule (1) rl_more, erule reload_reach.induct, assumption, blast)

definition reload_start :: "(world, 'x) registry \<Rightarrow> 'x \<Rightarrow> ('p, 'x) reload_run" where
  "reload_start reg x = \<lparr>rr_engine = engine_New reg x, rr_jobs = [], rr_replies = []\<rparr>"

section \<open>Who may swap a pipeline\<close>

text \<open>The pipelines a job holds: it will swap them, or give them back.\<close>

fun claims :: "('p, 'x) job \<Rightarrow> string list" where
  "claims (JBegin name path) = [name]"
| "claims (JAllBegin names todo) = names"
| "claims (JPending tid j) = claims j"
| "claims (JRun tid name ir ph) = [name]"
| "claims (JAllRun tid todo firstErr) = todo"
| "claims (JAllSwap tid name rest firstErr ir ph) = name # rest"

text \<open>What a swap holds in its hands: a pipeline that was built, and one that was started.\<close>

fun phase_ok :: "('p, 'x) swap_phase \<Rightarrow> bool" where
  "phase_ok (SwapStart p) = (\<not> pl_started p \<and> \<not> pl_cancelled p)"
| "phase_ok (SwapInstall p) = (pl_started p \<and> \<not> pl_cancelled p)"
| "phase_ok _ = True"

fun job_ok :: "('p, 'x) job \<Rightarrow> bool" where
  "job_ok (JAllBegin names todo) = (set todo \<subseteq> set names)"
| "job_ok (JPending tid j) = (case j of JRun _ _ _ ph \<Rightarrow> phase_ok ph | JAllRun _ _ _ \<Rightarrow> True | _ \<Rightarrow> False)"
| "job_ok (JRun tid name ir ph) = phase_ok ph"
| "job_ok (JAllSwap tid name rest firstErr ir ph) = phase_ok ph"
| "job_ok _ = True"

definition all_claims :: "('p, 'x) reload_run \<Rightarrow> string list" where
  "all_claims s = concat (map claims (rr_jobs s))"

definition reload_inv :: "('p, 'x) reload_run \<Rightarrow> bool" where
  "reload_inv s \<longleftrightarrow>
     distinct (all_claims s) \<and> set (all_claims s) \<subseteq> set (eg_reloading (rr_engine s)) \<and>
     distinct (map fst (eg_pipelines (rr_engine s))) \<and> (\<forall>j \<in> set (rr_jobs s). job_ok j)"


text \<open>An operation that flags and releases nothing and removes no pipeline.\<close>

definition tame :: "('p, 'x) eventr_engine \<Rightarrow> ('p, 'x) eventr_engine \<Rightarrow> bool" where
  "tame e e' \<longleftrightarrow>
     eg_reloading e' = eg_reloading e \<and> (distinct (map fst (eg_pipelines e)) \<longrightarrow> distinct (map fst (eg_pipelines e'))) \<and>
     dom (map_of (eg_pipelines e)) \<subseteq> dom (map_of (eg_pipelines e'))"

lemma tame_trans: "tame e e' \<Longrightarrow> tame e' e'' \<Longrightarrow> tame e e''"
  by (auto simp: tame_def)

lemma tame_refl [simp]: "tame e e"
  by (simp add: tame_def)

lemma tame_update: "tame e (e\<lparr>eg_pipelines := AList.update k v (eg_pipelines e)\<rparr>)"
  by (auto simp: tame_def distinct_update)

lemma tame_tasks [simp]: "tame e (storeTask t e)" "tame e (updateTask now tid st err e)" "tame e (refreshHealthChecker e)"
  by (auto simp: tame_def storeTask_def updateTask_def refreshHealthChecker_def split: option.splits)

lemma tame_Load: "engine_Load env ir e = (r, e') \<Longrightarrow> tame e e'"
  by (auto simp: engine_Load_def tame_def distinct_update split: if_splits sum.splits)

lemma start_all_names: "start_all env ps x = (r, ps', x') \<Longrightarrow> map fst ps' = map fst ps"
  by (induction ps arbitrary: x r ps' x') (auto split: prod.splits option.splits)

lemma stop_all_names: "stop_all env timeout ps x = (r, ps', x') \<Longrightarrow> map fst ps' = map fst ps"
  by (induction ps arbitrary: x r ps' x') (auto split: prod.splits)

lemma tame_names: "map fst ps = map fst (eg_pipelines e) \<Longrightarrow> tame e (e\<lparr>eg_pipelines := ps, eg_outside := x\<rparr>)"
  by (simp add: tame_def dom_map_of_conv_image_fst flip: set_map)

lemma tame_Start: "engine_Start env e = (r, e') \<Longrightarrow> tame e e'"
  by (auto simp: engine_Start_def split: prod.splits dest!: start_all_names intro: tame_names)

lemma tame_Stop: "engine_Stop env timeout e = (r, e') \<Longrightarrow> tame e e'"
  by (auto simp: engine_Stop_def split: prod.splits dest!: stop_all_names intro: tame_names)

lemma NewPipeline_fresh: "NewPipeline cp dirs reg ir = Inr p \<Longrightarrow> \<not> pl_started p \<and> \<not> pl_cancelled p"
  by (auto simp: NewPipeline_def split: sum.splits prod.splits)

lemma Pipeline_Start_ok: "Pipeline_Start order p x = (None, p', x') \<Longrightarrow> pl_started p' \<and> pl_cancelled p' = pl_cancelled p"
  by (auto simp: Pipeline_Start_def Let_def split: if_splits prod.splits option.splits)

lemma swap_step_sound:
  assumes "swap_step env name ir ph e = (r, e')" and "phase_ok ph"
  shows "tame e e' \<and> (\<forall>ph'. r = Inr ph' \<longrightarrow> phase_ok ph')"
proof (cases ph)
  case SwapStop
  then show ?thesis using assms(1) by (auto simp: tame_def distinct_update split: option.splits prod.splits)
next
  case SwapBuild
  then show ?thesis using assms(1) by (auto dest!: NewPipeline_fresh split: sum.splits)
next
  case (SwapStart p)
  then show ?thesis using assms by (auto simp: tame_def dest!: Pipeline_Start_ok split: prod.splits option.splits)
next
  case (SwapInstall p)
  then show ?thesis using assms(1) by (auto simp: tame_def distinct_update)
qed

lemma tame_finish [simp]: "tame e (finish_task env tid r e)"
  unfolding finish_task_def by (auto split: option.split intro: tame_trans [OF tame_tasks(2) tame_tasks(3)])

lemma fold_clear [simp]: "eg_reloading (fold clearReloading names e) = filter (\<lambda>n. n \<notin> set names) (eg_reloading e)"
  "eg_pipelines (fold clearReloading names e) = eg_pipelines e"
  by (induction names arbitrary: e) (auto simp: clearReloading_def removeAll_filter_not_eq intro: filter_cong)

lemma clear_simps [simp]: "eg_reloading (clearReloading n e) = removeAll n (eg_reloading e)"
  "eg_pipelines (clearReloading n e) = eg_pipelines e"
  by (simp_all add: clearReloading_def)

definition next_claims :: "('p, 'x) job option \<Rightarrow> string list" where
  "next_claims nj = (case nj of None \<Rightarrow> [] | Some j \<Rightarrow> claims j)"

definition sound_step :: "('p, 'x) job \<Rightarrow> ('p, 'x) job option \<Rightarrow> ('p, 'x) eventr_engine \<Rightarrow> ('p, 'x) eventr_engine \<Rightarrow> bool" where
  "sound_step j nj e e' \<longleftrightarrow>
     set (next_claims nj) \<subseteq> set (claims j) \<and> distinct (next_claims nj) \<and> (\<forall>k \<in> set_option nj. job_ok k) \<and>
     set (eg_reloading e') \<subseteq> set (eg_reloading e) \<and>
     set (eg_reloading e) - (set (claims j) - set (next_claims nj)) \<subseteq> set (eg_reloading e') \<and>
     (distinct (map fst (eg_pipelines e)) \<longrightarrow> distinct (map fst (eg_pipelines e'))) \<and>
     dom (map_of (eg_pipelines e)) \<subseteq> dom (map_of (eg_pipelines e'))"

lemma sound_tame:
  assumes "tame e e2" and "e' = (if rel then clearReloading name e2 else e2)"
    and "set (next_claims nj) \<subseteq> set (claims j)" and "distinct (next_claims nj)" and "\<forall>k \<in> set_option nj. job_ok k"
    and "rel \<longrightarrow> name \<in> set (claims j) - set (next_claims nj)"
  shows "sound_step j nj e e'"
  using assms by (auto simp: sound_step_def tame_def)

lemma job_step_sound:
  assumes "job_step env j e = (reply, nj, e')" and "job_ok j" and "distinct (claims j)"
  shows "sound_step j nj e e'"
proof (cases j)
  case (JBegin name path)
  then show ?thesis using assms(1)
    by (auto simp: BeginReload_rest_def sound_step_def next_claims_def storeTask_def split: sum.splits if_splits)
next
  case (JAllBegin names todo)
  then show ?thesis using assms
    by (auto simp: BeginReloadAll_check_def sound_step_def next_claims_def storeTask_def
        split: list.splits sum.splits if_splits)
next
  case (JPending tid k)
  then have "nj = Some k" "e' = updateTask (ge_now env) tid ReloadRunning None e" using assms(1) by auto
  moreover have "tame e (updateTask (ge_now env) tid ReloadRunning None e)" by simp
  moreover have "job_ok k" using assms(2) JPending by (cases k) auto
  ultimately show ?thesis using assms(3) JPending by (auto simp: sound_step_def next_claims_def tame_def)
next
  case (JRun tid name ir ph)
  obtain r e2 where sw: "swap_step env name ir ph e = (r, e2)" by (metis surj_pair)
  note S = swap_step_sound [OF sw]
  show ?thesis
  proof (cases r)
    case (Inl err)
    have "tame e (finish_task env tid err e2)" using S assms(2) JRun by (auto intro: tame_trans)
    then show ?thesis
      by (rule sound_tame [where rel = True and name = name])
        (use assms(1) in \<open>auto simp: JRun runReload_turn_def sw Inl next_claims_def\<close>)
  next
    case (Inr ph')
    have "tame e e2" using S assms(2) JRun by simp
    then show ?thesis
      by (rule sound_tame [where rel = False]) (use assms(1,2) S in \<open>auto simp: JRun runReload_turn_def sw Inr next_claims_def\<close>)
  qed
next
  case (JAllRun tid todo firstErr)
  then have t: "runReloadAll_turn env tid todo firstErr e = (nj, e')" using assms(1) by simp
  have stop: "sound_step j None e (finish_task env tid err e)" for err
    by (rule sound_tame [OF tame_finish, where rel = False]) (simp_all add: next_claims_def)
  have more: "sound_step j nj e e" if "nj = Some (JAllSwap tid name rest firstErr ir SwapStop)" "todo = name # rest" for name rest ir
    by (rule sound_tame [OF tame_refl, where rel = False]) (use that assms(3) JAllRun in \<open>auto simp: next_claims_def\<close>)
  show ?thesis using t stop more
    by (auto simp: runReloadAll_turn_def split: list.splits sum.splits)
next
  case (JAllSwap tid name rest firstErr ir ph)
  obtain r e2 where sw: "swap_step env name ir ph e = (r, e2)" by (metis surj_pair)
  note S = swap_step_sound [OF sw]
  have T: "tame e e2" using S assms(2) JAllSwap by simp
  show ?thesis
  proof (cases r)
    case (Inl err)
    show ?thesis using assms(1,3)
      by (intro sound_tame [OF T, where rel = True and name = name])
        (auto simp: JAllSwap runReloadAll_swap_def sw Inl next_claims_def)
  next
    case (Inr ph')
    show ?thesis using assms S
      by (intro sound_tame [OF T, where rel = False]) (auto simp: JAllSwap runReloadAll_swap_def sw Inr next_claims_def)
  qed
qed

lemma claim_effect:
  assumes "BeginReload_claim name e = (r, e') \<or> BeginReloadAll_claim e = (r, e')"
  shows "eg_pipelines e' = eg_pipelines e \<and>
    (case r of Inl err \<Rightarrow> e' = e
     | Inr j \<Rightarrow> job_ok j \<and> set (claims j) \<inter> set (eg_reloading e) = {} \<and>
         set (eg_reloading e') = set (claims j) \<union> set (eg_reloading e) \<and>
         (distinct (map fst (eg_pipelines e)) \<longrightarrow> distinct (claims j)))"
  using assms
  by (auto simp: BeginReload_claim_def BeginReloadAll_claim_def Let_def split: option.splits if_splits)

lemma reload_inv_step:
  assumes "reload_step s s'" and I: "reload_inv s"
  shows "reload_inv s'"
  using assms(1)
proof cases
  case (rl_load env ir r e)
  then show ?thesis using I tame_Load [OF rl_load(2)] by (simp add: reload_inv_def all_claims_def tame_def)
next
  case (rl_path name path)
  then show ?thesis using I by (simp add: reload_inv_def all_claims_def SetConfigPath_def)
next
  case (rl_start env r e)
  then show ?thesis using I tame_Start [OF rl_start(2)] by (simp add: reload_inv_def all_claims_def tame_def)
next
  case (rl_stop env timeout r e)
  then show ?thesis using I tame_Stop [OF rl_stop(2)] by (simp add: reload_inv_def all_claims_def tame_def)
next
  case (rl_refused name err e)
  then show ?thesis using I claim_effect [OF rl_refused(2)] by (simp add: reload_inv_def all_claims_def)
next
  case (rl_claimed name j e)
  then show ?thesis using I claim_effect [OF rl_claimed(2)] by (auto simp: reload_inv_def all_claims_def)
next
  case (rl_job us j vs env reply nj e)
  have d: "distinct (claims j)" "job_ok j" using I by (auto simp: reload_inv_def all_claims_def rl_job(2))
  note S = job_step_sound [OF rl_job(3) d(2,1)]
  have c: "all_claims s = concat (map claims us) @ claims j @ concat (map claims vs)"
    and c': "all_claims s' = concat (map claims us) @ next_claims nj @ concat (map claims vs)"
    by (simp_all add: all_claims_def rl_job(1,2) next_claims_def split: option.splits)
  have N: "set (next_claims nj) \<subseteq> set (claims j)" "distinct (next_claims nj)"
    "set (eg_reloading (rr_engine s)) - (set (claims j) - set (next_claims nj)) \<subseteq> set (eg_reloading e)"
    using S by (simp_all add: sound_step_def)
  have D: "distinct (concat (map claims us) @ claims j @ concat (map claims vs))"
    "set (concat (map claims us)) \<union> (set (claims j) \<union> set (concat (map claims vs))) \<subseteq> set (eg_reloading (rr_engine s))"
    using I unfolding reload_inv_def c set_append by blast+
  have "distinct (all_claims s')" using D(1) N(1,2) unfolding c' distinct_append set_append by blast
  moreover have "set (all_claims s') \<subseteq> set (eg_reloading e)"
    using D N(1,3) unfolding c' distinct_append set_append by blast
  ultimately have "distinct (all_claims s')" "set (all_claims s') \<subseteq> set (eg_reloading e)" by blast+
  then show ?thesis using I S by (auto simp: reload_inv_def sound_step_def rl_job(1,2) split: option.splits)
qed

lemma reload_inv_reach: "reload_reach s0 s \<Longrightarrow> reload_inv s0 \<Longrightarrow> reload_inv s"
  by (rule reloads.invariant) (auto intro: reload_inv_step)

lemma reload_inv_start: "reload_inv (reload_start reg x)"
  by (simp add: reload_inv_def reload_start_def engine_New_def all_claims_def)

lemma flagged_refused:
  assumes "name \<in> set (eg_reloading e)"
  shows "\<not> is_ok (fst (BeginReload_claim name e)) \<and>
    (\<forall>info. PipelineInfo name e = Some info \<longrightarrow> pi_State info = PipelineReloading) \<and>
    (name \<in> dom (map_of (eg_pipelines e)) \<longrightarrow> fst (BeginReloadAll_claim e) = Inl ReloadInProgress)"
proof -
  have "name \<in> dom (map_of (eg_pipelines e)) \<Longrightarrow> name \<in> set (map fst (eg_pipelines e)) \<inter> set (eg_reloading e)"
    using assms by (simp add: dom_map_of_conv_image_fst)
  then have "name \<in> dom (map_of (eg_pipelines e)) \<Longrightarrow> set (map fst (eg_pipelines e)) \<inter> set (eg_reloading e) \<noteq> {}" by blast
  then show ?thesis using assms
    by (auto simp: BeginReload_claim_def BeginReloadAll_claim_def PipelineInfo_def pipelineInfoLocked_def Let_def
        split: option.splits)
qed

text \<open>
  C9: no two reloads ever work on the same pipeline. In every interleaving of loads, calls and
  reloads, with the files changing at any time, two calls or reloads in flight hold different
  pipelines, and a pipeline that one of them holds is reported as reloading and refuses every
  other reload.
\<close>

theorem reload_exclusive:
  assumes "reload_reach (reload_start reg x) s"
  shows "(\<forall>us j ws k vs. rr_jobs s = us @ j # ws @ k # vs \<longrightarrow> set (claims j) \<inter> set (claims k) = {}) \<and>
    (\<forall>j \<in> set (rr_jobs s). \<forall>name \<in> set (claims j).
       \<not> is_ok (fst (BeginReload_claim name (rr_engine s))) \<and>
       (\<forall>info. PipelineInfo name (rr_engine s) = Some info \<longrightarrow>
          pi_State info = PipelineReloading \<and> fst (BeginReloadAll_claim (rr_engine s)) = Inl ReloadInProgress))"
proof -
  have I: "reload_inv s" by (rule reload_inv_reach [OF assms reload_inv_start])
  have "set (claims j) \<inter> set (claims k) = {}" if "rr_jobs s = us @ j # ws @ k # vs" for us j ws k vs
    using I that by (auto simp: reload_inv_def all_claims_def)
  moreover have "name \<in> set (eg_reloading (rr_engine s))" if "j \<in> set (rr_jobs s)" "name \<in> set (claims j)" for j name
    using I that by (auto simp: reload_inv_def all_claims_def)
  moreover have "PipelineInfo name (rr_engine s) = Some info \<Longrightarrow> name \<in> dom (map_of (eg_pipelines (rr_engine s)))" for name info
    by (auto simp: PipelineInfo_def)
  ultimately show ?thesis using flagged_refused [of _ "rr_engine s"] by blast
qed

section \<open>Flags nobody clears\<close>

definition leaked :: "('p, 'x) reload_run \<Rightarrow> string set" where
  "leaked s = set (eg_reloading (rr_engine s)) - set (all_claims s)"

lemma leaked_step:
  assumes "reload_step s s'" and "reload_inv s"
  shows "leaked s \<subseteq> leaked s' \<and> dom (map_of (eg_pipelines (rr_engine s))) \<subseteq> dom (map_of (eg_pipelines (rr_engine s')))"
  using assms(1)
proof cases
  case (rl_load env ir r e)
  then show ?thesis using tame_Load [OF rl_load(2)] by (auto simp: leaked_def all_claims_def tame_def)
next
  case (rl_path name path)
  then show ?thesis by (simp add: leaked_def all_claims_def SetConfigPath_def)
next
  case (rl_start env r e)
  then show ?thesis using tame_Start [OF rl_start(2)] by (auto simp: leaked_def all_claims_def tame_def)
next
  case (rl_stop env timeout r e)
  then show ?thesis using tame_Stop [OF rl_stop(2)] by (auto simp: leaked_def all_claims_def tame_def)
next
  case (rl_refused name err e)
  then show ?thesis using claim_effect [OF rl_refused(2)] by (simp add: leaked_def all_claims_def)
next
  case (rl_claimed name j e)
  then show ?thesis using claim_effect [OF rl_claimed(2)] by (auto simp: leaked_def all_claims_def)
next
  case (rl_job us j vs env reply nj e)
  have d: "distinct (claims j)" "job_ok j" using assms(2) by (auto simp: reload_inv_def all_claims_def rl_job(2))
  note S = job_step_sound [OF rl_job(3) d(2,1)]
  have c: "all_claims s = concat (map claims us) @ claims j @ concat (map claims vs)"
    and c': "all_claims s' = concat (map claims us) @ next_claims nj @ concat (map claims vs)"
    by (simp_all add: all_claims_def rl_job(1,2) next_claims_def split: option.splits)
  have "leaked s \<subseteq> leaked s'" using S unfolding leaked_def c c' sound_step_def by (auto simp: rl_job(1))
  then show ?thesis using S by (simp add: sound_step_def rl_job(1))
qed

lemma leaked_reach:
  assumes "reload_reach s0 s" and "reload_inv s0"
  shows "reload_inv s \<and> leaked s0 \<subseteq> leaked s \<and>
    dom (map_of (eg_pipelines (rr_engine s0))) \<subseteq> dom (map_of (eg_pipelines (rr_engine s)))"
  using assms
proof (induction rule: reload_reach.induct)
  case (rl_more s s')
  then show ?case using leaked_step [of s s'] reload_inv_step [of s s'] by blast
qed simp

lemma leaked_refused:
  assumes "name \<in> leaked s" and "name \<in> dom (map_of (eg_pipelines (rr_engine s)))"
  shows "\<not> is_ok (fst (BeginReload_claim name (rr_engine s))) \<and>
    fst (BeginReloadAll_claim (rr_engine s)) = Inl ReloadInProgress \<and>
    (\<forall>info. PipelineInfo name (rr_engine s) = Some info \<longrightarrow> pi_State info = PipelineReloading)"
  using flagged_refused [of name "rr_engine s"] assms by (simp add: leaked_def)

text \<open>
  C34: a failed reload of all pipelines can block every later reload. When \<^verbatim>\<open>BeginReloadAll\<close>
  meets a pipeline without a path it gives back only that one, and when \<^verbatim>\<open>runReloadAll\<close>
  cannot load a file it gives back neither that pipeline nor the ones after it. From then on, in
  every state, those pipelines are reported as reloading, each reload of them is refused, and so
  is every reload of all pipelines.
\<close>

theorem failed_reload_all_blocks:
  assumes "reload_reach (reload_start reg x) s" and "rr_jobs s = us @ j # vs"
    and "(\<exists>names n todo. j = JAllBegin names (n # todo) \<and> ConfigPath n (rr_engine s) = '''' \<and> name \<in> set names \<and> name \<noteq> n)
      \<or> (\<exists>tid n todo firstErr. j = JAllRun tid (n # todo) firstErr \<and>
           \<not> is_ok (loadIRFromPath env (ConfigPath n (rr_engine s))) \<and> name \<in> set (n # todo))"
    and "name \<in> dom (map_of (eg_pipelines (rr_engine s)))"
    and "job_step env j (rr_engine s) = (reply, nj, e)"
    and "reload_reach (s\<lparr>rr_engine := e, rr_jobs := us @ (case nj of None \<Rightarrow> [] | Some j' \<Rightarrow> [j']) @ vs,
       rr_replies := rr_replies s @ (case reply of None \<Rightarrow> [] | Some r \<Rightarrow> [r])\<rparr>) s'"
  shows "\<not> is_ok (fst (BeginReload_claim name (rr_engine s'))) \<and>
    fst (BeginReloadAll_claim (rr_engine s')) = Inl ReloadInProgress \<and>
    (\<forall>info. PipelineInfo name (rr_engine s') = Some info \<longrightarrow> pi_State info = PipelineReloading)"
proof -
  let ?s1 = "s\<lparr>rr_engine := e, rr_jobs := us @ (case nj of None \<Rightarrow> [] | Some j' \<Rightarrow> [j']) @ vs,
       rr_replies := rr_replies s @ (case reply of None \<Rightarrow> [] | Some r \<Rightarrow> [r])\<rparr>"
  have I: "reload_inv s" by (rule reload_inv_reach [OF assms(1) reload_inv_start])
  have step: "reload_step s ?s1" by (rule rl_job [OF assms(2,5)])
  note I1 = reload_inv_step [OF step I]
  have out: "nj = None" "name \<in> set (claims j)" "name \<in> set (eg_reloading e)"
  proof -
    show c: "name \<in> set (claims j)" using assms(3) by auto
    then have "name \<in> set (eg_reloading (rr_engine s))"
      using I by (auto simp: reload_inv_def all_claims_def assms(2))
    then show "nj = None" "name \<in> set (eg_reloading e)"
      using assms(3,5) tame_tasks(2) [of "rr_engine s"]
      by (auto simp: BeginReloadAll_check_def runReloadAll_turn_def tame_def finish_task_def split: sum.splits)
  qed
  have "name \<notin> set (concat (map claims us)) \<union> set (concat (map claims vs))"
    using I out(2) by (auto simp: reload_inv_def all_claims_def assms(2))
  then have "name \<in> leaked ?s1" using out(1,3) by (auto simp: leaked_def all_claims_def)
  moreover have "name \<in> dom (map_of (eg_pipelines (rr_engine ?s1)))"
    using leaked_step [OF step I] assms(4) by blast
  ultimately show ?thesis using leaked_reach [OF assms(6) I1] by (intro leaked_refused) blast+
qed


section \<open>What a swap leaves behind\<close>

text \<open>
  C20: a swap either puts the new pipeline, built from the new representation and started, in the
  place of the old one, or leaves the old one there; no other pipeline changes. But it is not a
  transaction: when it fails, the old pipeline has been stopped already. It keeps the flag that it
  was started, so once the reload has ended the engine reports it as running although its context
  is cancelled, and it cannot be started again.
\<close>

theorem swapPipeline_outcome:
  assumes "map_of (eg_pipelines e) name = Some (pid, old)" and "swapPipeline env name ir e = (r, e')"
  shows "(\<forall>n. n \<noteq> name \<longrightarrow> map_of (eg_pipelines e') n = map_of (eg_pipelines e) n) \<and>
    (case r of
       None \<Rightarrow> \<exists>p p' x x'. NewPipeline (ge_cp env) (ge_dirs env) (eg_reg e) ir = Inr p \<and>
         Pipeline_Start (ge_stages env p) p x = (None, p', x') \<and>
         map_of (eg_pipelines e') name = Some (eg_next e, p') \<and> pl_started p' \<and> \<not> pl_cancelled p'
     | Some err \<Rightarrow> \<exists>old'. map_of (eg_pipelines e') name = Some (pid, old') \<and> pl_ir old' = pl_ir old \<and>
         (pl_started old \<longrightarrow> pl_cancelled old' \<and>
            map_option pi_State (PipelineInfo name (clearReloading name e')) = Some PipelineRunning \<and>
            fst (Pipeline_Start order old' y) = Some (Err ''pipeline %q already started'' [ir_Name (pl_ir old)])))"
proof -
  obtain sr old' x where st: "Pipeline_Stop (ge_stages env old) (ge_timeout env name (drain_timeout ir)) old (eg_outside e)
      = (sr, old', x)" by (metis surj_pair)
  have old': "pl_ir old' = pl_ir old" "pl_started old' = pl_started old" "pl_started old \<longrightarrow> pl_cancelled old'"
    using st by (auto simp: Pipeline_Stop_def Let_def split: option.splits if_splits)
  have stopped: ?thesis if r: "r = Some err" and p: "eg_pipelines e' = AList.update name (pid, old') (eg_pipelines e)" for err
    using old' unfolding r
    by (auto simp: p PipelineInfo_def pipelineInfoLocked_def Pipeline_Start_def)
  show ?thesis
  proof (cases sr)
    case (Some err)
    then show ?thesis using assms st by (intro stopped) (auto simp: swapPipeline_def)
  next
    case None
    show ?thesis
    proof (cases "NewPipeline (ge_cp env) (ge_dirs env) (eg_reg e) ir")
      case (Inl err)
      then show ?thesis using assms st None by (intro stopped) (auto simp: swapPipeline_def)
    next
      case (Inr p)
      obtain pr p' x' where ps: "Pipeline_Start (ge_stages env p) p x = (pr, p', x')" by (metis surj_pair)
      show ?thesis
      proof (cases pr)
        case (Some err)
        then show ?thesis using assms st None Inr ps by (intro stopped) (auto simp: swapPipeline_def)
      next
        case pr: None
        have "pl_started p' \<and> \<not> pl_cancelled p'"
          using NewPipeline_fresh [OF Inr] Pipeline_Start_ok [of "ge_stages env p" p x p' x'] ps pr by simp
        moreover have "\<exists>x x'. Pipeline_Start (ge_stages env p) p x = (None, p', x')" using ps pr by blast
        ultimately show ?thesis using assms st None Inr ps pr by (auto simp: swapPipeline_def) blast
      qed
    qed
  qed
qed

section \<open>Stopping the engine during a reload\<close>

lemma Pipeline_Stop_cancels:
  "Pipeline_Stop order timeout p x = (r, p', x') \<Longrightarrow> pl_started p' \<Longrightarrow> pl_cancelled p'"
  by (auto simp: Pipeline_Stop_def Let_def split: option.splits if_splits)

lemma stop_all_cancels:
  "stop_all env timeout ps x = (r, ps', x') \<Longrightarrow> (name, pid, q) \<in> set ps' \<Longrightarrow> pl_started q \<Longrightarrow> pl_cancelled q"
  by (induction ps arbitrary: x r ps' x') (auto split: prod.splits dest: Pipeline_Stop_cancels)

text \<open>
  C39: \<^verbatim>\<open>Engine.Stop\<close> stops the pipelines it finds, and each of them that was started is
  cancelled when it returns. It does not wait for reloads: a reload that had started its new
  pipeline when \<^verbatim>\<open>Stop\<close> ran puts it into the stopped engine, where it is reported as
  running and its context is not cancelled.
\<close>

theorem shutdown_misses_reload:
  assumes "reload_reach (reload_start reg x) s" and "rr_jobs s = us @ JRun tid name ir (SwapInstall p) # vs"
    and "engine_Stop env timeout (rr_engine s) = (r, e)"
  shows "(\<forall>n pid q. map_of (eg_pipelines e) n = Some (pid, q) \<longrightarrow> pl_started q \<longrightarrow> pl_cancelled q) \<and>
    (\<exists>s'. reload_step (s\<lparr>rr_engine := e\<rparr>) s' \<and> rr_jobs s' = us @ vs \<and>
       map_of (eg_pipelines (rr_engine s')) name = Some (eg_next e, p) \<and> pl_started p \<and> \<not> pl_cancelled p)"
proof -
  have "reload_inv s" by (rule reload_inv_reach [OF assms(1) reload_inv_start])
  then have p: "pl_started p" "\<not> pl_cancelled p" by (auto simp: reload_inv_def assms(2))
  have stopped: "map_of (eg_pipelines e) n = Some (pid, q) \<Longrightarrow> pl_started q \<Longrightarrow> pl_cancelled q" for n pid q
    using assms(3) by (auto simp: engine_Stop_def split: prod.splits dest!: map_of_SomeD intro: stop_all_cancels)
  let ?i = "e\<lparr>eg_pipelines := AList.update name (eg_next e, p) (eg_pipelines e), eg_next := Suc (eg_next e)\<rparr>"
  let ?e = "clearReloading name (finish_task env tid None ?i)"
  let ?s = "s\<lparr>rr_engine := ?e, rr_jobs := us @ vs\<rparr>"
  have "reload_step (s\<lparr>rr_engine := e\<rparr>) ?s"
    using rl_job [of "s\<lparr>rr_engine := e\<rparr>" us "JRun tid name ir (SwapInstall p)" vs env None None ?e] assms(2)
    by (simp add: runReload_turn_def)
  moreover have "eg_pipelines ?e = eg_pipelines ?i"
    by (simp add: finish_task_def refreshHealthChecker_def updateTask_def split: option.split)
  ultimately show ?thesis using p stopped by (intro conjI exI [of _ ?s]) (auto simp: update_conv)
qed

section \<open>Witnesses\<close>

definition demo_loader :: loader_env where
  "demo_loader = \<lparr>le_ReadFile = (\<lambda>_. Inl (Err ''no such file'' [])), le_DecodeYAML = (\<lambda>_. Inl EOF),
     le_ParseHOCON = (\<lambda>_. Inl EOF), le_FormatFloat = (\<lambda>_. ''''), le_LookupEnv = (\<lambda>_. None)\<rparr>"

definition demo_env :: "(string, nat) engine_env" where
  "demo_env = \<lparr>ge_loader = demo_loader, ge_orders = declared_order, ge_stages = pl_stages, ge_cp = demo_compiler,
     ge_dirs = no_dirs, ge_now = ''now'', ge_uuid = ''id'', ge_timeout = (\<lambda>_ _. None)\<rparr>"

text \<open>Two pipelines are loaded, of which the second has a path, and all are to be reloaded.\<close>

definition demo_engine :: "(string, nat) eventr_engine" where
  "demo_engine = SetConfigPath ''b'' ''b.yaml'' (snd (engine_Load demo_env (one_route\<lparr>ir_Name := ''b''\<rparr>)
     (snd (engine_Load demo_env (one_route\<lparr>ir_Name := ''a''\<rparr>) (engine_New demo_registry 0)))))"

definition demo_claimed :: "(string, nat) reload_run" where
  "demo_claimed = \<lparr>rr_engine = demo_engine\<lparr>eg_reloading := [''a'', ''b'']\<rparr>, rr_jobs = [JAllBegin [''a'', ''b''] [''a'', ''b'']], rr_replies = []\<rparr>"

lemma demo_engine_facts: "map fst (eg_pipelines demo_engine) = [''a'', ''b''] \<and> eg_reloading demo_engine = [] \<and>
    eg_configPaths demo_engine = [(''b'', ''b.yaml'')]"
  by code_simp

lemma demo_claimed_reach: "reload_reach (reload_start demo_registry 0) demo_claimed"
proof -
  let ?e0 = "engine_New demo_registry 0 :: (string, nat) eventr_engine"
  let ?e1 = "snd (engine_Load demo_env (one_route\<lparr>ir_Name := ''a''\<rparr>) ?e0)"
  let ?e2 = "snd (engine_Load demo_env (one_route\<lparr>ir_Name := ''b''\<rparr>) ?e1)"
  let ?s = "\<lambda>e. reload_start demo_registry 0 \<lparr>rr_engine := e\<rparr>"
  have "reload_step (reload_start demo_registry 0) (?s ?e1)"
    by (rule rl_load [of demo_env "one_route\<lparr>ir_Name := ''a''\<rparr>" _ "fst (engine_Load demo_env (one_route\<lparr>ir_Name := ''a''\<rparr>) ?e0)"])
      (simp add: reload_start_def)
  then have 1: "reload_reach (reload_start demo_registry 0) (?s ?e1)" by (rule rl_more [OF rl_refl])
  have "reload_step (?s ?e1) ((?s ?e1)\<lparr>rr_engine := ?e2\<rparr>)"
    by (rule rl_load [of demo_env "one_route\<lparr>ir_Name := ''b''\<rparr>" _ "fst (engine_Load demo_env (one_route\<lparr>ir_Name := ''b''\<rparr>) ?e1)"]) simp
  note 2 = rl_more [OF 1 this]
  have "reload_step ((?s ?e1)\<lparr>rr_engine := ?e2\<rparr>) (?s demo_engine)"
    using rl_path [of "(?s ?e1)\<lparr>rr_engine := ?e2\<rparr>" "''b''" "''b.yaml''"] by (simp add: demo_engine_def)
  note 3 = rl_more [OF 2 this]
  have claim: "BeginReloadAll_claim demo_engine = (Inr (JAllBegin [''a'', ''b''] [''a'', ''b'']), demo_engine\<lparr>eg_reloading := [''a'', ''b'']\<rparr>)"
    using demo_engine_facts by (simp add: BeginReloadAll_claim_def Let_def)
  have "reload_step (?s demo_engine) demo_claimed"
    using rl_claimed [of "''a''" "?s demo_engine" "JAllBegin [''a'', ''b''] [''a'', ''b'']" "demo_engine\<lparr>eg_reloading := [''a'', ''b'']\<rparr>"]
    by (simp add: claim demo_claimed_def reload_start_def)
  from rl_more [OF 3 this] show ?thesis .
qed

theorem reload_exclusive_witness:
  "fst (BeginReloadAll_claim (rr_engine demo_claimed)) = Inl ReloadInProgress \<and>
   \<not> is_ok (fst (BeginReload_claim ''b'' (rr_engine demo_claimed)))"
proof -
  obtain info where "PipelineInfo ''a'' (rr_engine demo_claimed) = Some info"
  proof -
    have "''a'' \<in> dom (map_of (eg_pipelines demo_engine))"
      using arg_cong [OF conjunct1 [OF demo_engine_facts], of set] by (simp add: dom_map_of_conv_image_fst)
    then show ?thesis using that by (auto simp: PipelineInfo_def demo_claimed_def)
  qed
  moreover have "JAllBegin [''a'', ''b''] [''a'', ''b''] \<in> set (rr_jobs demo_claimed)" by (simp add: demo_claimed_def)
  ultimately show ?thesis
    using conjunct2 [OF reload_exclusive [OF demo_claimed_reach]] by fastforce
qed

theorem failed_reload_all_blocks_witness:
  "\<exists>s. reload_reach demo_claimed s \<and> rr_jobs s = [] \<and>
     rr_replies s = [Inl (Err ''pipeline %q has no config path for reload'' [''a''])] \<and>
     \<not> is_ok (fst (BeginReload_claim ''b'' (rr_engine s))) \<and>
     fst (BeginReloadAll_claim (rr_engine s)) = Inl ReloadInProgress"
proof -
  let ?j = "JAllBegin [''a'', ''b''] [''a'', ''b'']"
  let ?e = "clearReloading ''a'' (rr_engine demo_claimed)"
  let ?s = "demo_claimed\<lparr>rr_engine := ?e, rr_jobs := [] @ (case None of None \<Rightarrow> [] | Some j' \<Rightarrow> [j']) @ [],
     rr_replies := rr_replies demo_claimed @ (case Some (Inl (Err ''pipeline %q has no config path for reload'' [''a''])) of
       None \<Rightarrow> [] | Some r \<Rightarrow> [r])\<rparr>"
  have jobs: "rr_jobs demo_claimed = [] @ ?j # []" by (simp add: demo_claimed_def)
  have path: "ConfigPath ''a'' (rr_engine demo_claimed) = ''''"
    using demo_engine_facts by (simp add: ConfigPath_def map_str_def demo_claimed_def)
  have step: "job_step demo_env ?j (rr_engine demo_claimed)
      = (Some (Inl (Err ''pipeline %q has no config path for reload'' [''a''])), None, ?e)"
    by (simp add: BeginReloadAll_check_def path)
  have dom: "''b'' \<in> dom (map_of (eg_pipelines (rr_engine demo_claimed)))"
    using arg_cong [OF conjunct1 [OF demo_engine_facts], of set] by (simp add: dom_map_of_conv_image_fst demo_claimed_def)
  have "reload_reach demo_claimed ?s" by (rule rl_more [OF rl_refl rl_job [OF jobs step]])
  moreover have "rr_jobs ?s = []" "rr_replies ?s = [Inl (Err ''pipeline %q has no config path for reload'' [''a''])]"
    by (simp_all add: demo_claimed_def)
  moreover have "\<not> is_ok (fst (BeginReload_claim ''b'' (rr_engine ?s))) \<and>
     fst (BeginReloadAll_claim (rr_engine ?s)) = Inl ReloadInProgress"
    using failed_reload_all_blocks [OF demo_claimed_reach jobs _ dom step rl_refl] path by simp
  ultimately show ?thesis by blast
qed

theorem swapPipeline_outcome_witness:
  "\<exists>pid old. map_of (eg_pipelines demo_engine) ''b'' = Some (pid, old) \<and>
     (\<exists>p p' x x'. NewPipeline demo_compiler no_dirs (eg_reg demo_engine) one_route = Inr p \<and>
        Pipeline_Start (pl_stages p) p x = (None, p', x') \<and>
        map_of (eg_pipelines (snd (swapPipeline demo_env ''b'' one_route demo_engine))) ''b'' = Some (eg_next demo_engine, p'))"
proof -
  have "''b'' \<in> dom (map_of (eg_pipelines demo_engine))"
    using arg_cong [OF conjunct1 [OF demo_engine_facts], of set] by (simp add: dom_map_of_conv_image_fst)
  then obtain pid old where b: "map_of (eg_pipelines demo_engine) ''b'' = Some (pid, old)" by auto
  have "fst (swapPipeline demo_env ''b'' one_route demo_engine) = None" by code_simp
  then obtain e' where s: "swapPipeline demo_env ''b'' one_route demo_engine = (None, e')" by (metis prod.collapse)
  show ?thesis using b swapPipeline_outcome [OF b s] s by (auto simp: demo_env_def)
qed

text \<open>A pipeline with a file that can be loaded, in the middle of its reload.\<close>

definition cron_registry :: "(world, nat) registry" where
  "cron_registry = RegisterSource ''cron'' (\<lambda>_. Inr (demo_inst (SourceRole False))) demo_registry"

definition file_env :: "(string, nat) engine_env" where
  "file_env = demo_env\<lparr>ge_loader := demo_loader\<lparr>le_ReadFile := (\<lambda>_. Inr ''''), le_DecodeYAML := (\<lambda>_. Inr demo_pipeline)\<rparr>\<rparr>"

definition file_ir :: topology_ir where
  "file_ir = (case loadIRFromPath file_env ''p.yaml'' of Inr ir \<Rightarrow> ir | Inl _ \<Rightarrow> one_route)"

definition file_pipe :: "(string, nat) pipeline" where
  "file_pipe = (case NewPipeline demo_compiler no_dirs cron_registry file_ir of Inr p \<Rightarrow> p)"

lemma file_ir_ok: "is_ok (loadIRFromPath file_env ''p.yaml'')"
  by code_simp

lemma file_pipe_ok: "is_ok (NewPipeline demo_compiler no_dirs cron_registry file_ir)"
  by code_simp

lemma file_pipe_starts: "fst (Pipeline_Start (pl_stages file_pipe) file_pipe x) = None"
  by code_simp

text \<open>A reload that meets no error comes to the point where it installs the new pipeline.\<close>

lemma job_alone:
  assumes "reload_reach s0 s" and "rr_jobs s = [j]" and "job_step env j (rr_engine s) = (reply, Some j', e)"
  shows "\<exists>s'. reload_reach s0 s' \<and> rr_jobs s' = [j'] \<and> rr_engine s' = e"
  using rl_more [OF assms(1) rl_job [of s "[]" j "[]" env reply "Some j'" e]] assms(2,3) by fastforce

lemma reload_gets_to_install:
  fixes s :: "('p, 'x) reload_run" and env :: "('p, 'x) engine_env"
  assumes "reload_reach s0 s" and "rr_jobs s = [JRun tid name ir SwapStop]"
    and "name \<in> dom (map_of (eg_pipelines (rr_engine s)))" and "\<And>n d. ge_timeout env n d = None"
    and "NewPipeline (ge_cp env) (ge_dirs env) (eg_reg (rr_engine s)) ir = Inr p"
    and "\<And>x. fst (Pipeline_Start (ge_stages env p) p x) = None"
  shows "\<exists>s' p'. reload_reach s0 s' \<and> rr_jobs s' = [JRun tid name ir (SwapInstall p')]"
proof -
  obtain pid old where old: "map_of (eg_pipelines (rr_engine s)) name = Some (pid, old)" using assms(3) by auto
  obtain old' x where stop: "Pipeline_Stop (ge_stages env old) None old (eg_outside (rr_engine s)) = (None, old', x)"
    by (simp add: Pipeline_Stop_def Let_def)
  let ?e1 = "(rr_engine s)\<lparr>eg_pipelines := AList.update name (pid, old') (eg_pipelines (rr_engine s)), eg_outside := x\<rparr>"
  have "job_step env (JRun tid name ir SwapStop) (rr_engine s) = (None, Some (JRun tid name ir SwapBuild), ?e1)"
    by (simp add: runReload_turn_def old assms(4) stop)
  from job_alone [OF assms(1,2) this] obtain s1 where s1: "reload_reach s0 s1" "rr_jobs s1 = [JRun tid name ir SwapBuild]"
      "rr_engine s1 = ?e1" by blast
  have "job_step env (JRun tid name ir SwapBuild) (rr_engine s1) = (None, Some (JRun tid name ir (SwapStart p)), rr_engine s1)"
    by (simp add: runReload_turn_def s1(3) assms(5))
  from job_alone [OF s1(1,2) this] obtain s2 where s2: "reload_reach s0 s2" "rr_jobs s2 = [JRun tid name ir (SwapStart p)]" by blast
  obtain p' x' where start: "Pipeline_Start (ge_stages env p) p (eg_outside (rr_engine s2)) = (None, p', x')"
    using assms(6) [of "eg_outside (rr_engine s2)"] by (metis prod.collapse)
  have "job_step env (JRun tid name ir (SwapStart p)) (rr_engine s2)
      = (None, Some (JRun tid name ir (SwapInstall p')), (rr_engine s2)\<lparr>eg_outside := x'\<rparr>)"
    by (simp add: runReload_turn_def start)
  from job_alone [OF s2 this] show ?thesis by blast
qed

lemma file_reload_installs:
  "\<exists>(s :: (string, nat) reload_run) tid ir p. reload_reach (reload_start cron_registry 0) s \<and> rr_jobs s = [JRun tid (ir_Name file_ir) ir (SwapInstall p)]"
proof -
  let ?n = "ir_Name file_ir"
  let ?e0 = "engine_New cron_registry 0 :: (string, nat) eventr_engine"
  let ?s = "\<lambda>e. reload_start cron_registry 0 \<lparr>rr_engine := e\<rparr>"
  have ir: "loadIRFromPath file_env ''p.yaml'' = Inr file_ir" using file_ir_ok by (auto simp: file_ir_def is_ok_iff)
  have pipe: "NewPipeline demo_compiler no_dirs cron_registry file_ir = Inr file_pipe"
    using file_pipe_ok by (auto simp: file_pipe_def is_ok_iff)
  define e1 where "e1 = ?e0\<lparr>eg_pipelines := [(?n, 0, file_pipe)], eg_next := 1\<rparr>"
  define e2 where "e2 = SetConfigPath ?n ''p.yaml'' e1"
  have "reload_step (reload_start cron_registry 0) (?s e1)"
    using rl_load [of file_env file_ir "reload_start cron_registry 0" None e1]
    by (simp add: reload_start_def e1_def engine_Load_def engine_New_def file_env_def demo_env_def pipe)
  note 1 = rl_more [OF rl_refl this]
  have "reload_step (?s e1) (?s e2)" using rl_path [of "?s e1" ?n "''p.yaml''"] by (simp add: e2_def)
  note 2 = rl_more [OF 1 this]
  define e3 where "e3 = e2\<lparr>eg_reloading := [?n]\<rparr>"
  have "reload_step (?s e2) ((?s e3)\<lparr>rr_jobs := [JBegin ?n ''p.yaml'']\<rparr>)"
    using rl_claimed [of ?n "?s e2" "JBegin ?n ''p.yaml''" e3]
    by (simp add: BeginReload_claim_def e3_def e2_def e1_def SetConfigPath_def engine_New_def reload_start_def)
  note 3 = rl_more [OF 2 this]
  let ?s3 = "(?s e3)\<lparr>rr_jobs := [JBegin ?n ''p.yaml'']\<rparr>"
  have "ge_uuid file_env = ''id''" by (simp add: file_env_def demo_env_def)
  then have "job_step file_env (JBegin ?n ''p.yaml'') (rr_engine ?s3)
      = (Some (Inr ''id''), Some (JPending ''id'' (JRun ''id'' ?n file_ir SwapStop)), storeTask (new_task file_env ?n) e3)"
    by (simp add: BeginReload_rest_def ir)
  from job_alone [OF 3 _ this]
  obtain s1 where s1: "reload_reach (reload_start cron_registry 0) s1" "rr_jobs s1 = [JPending ''id'' (JRun ''id'' ?n file_ir SwapStop)]"
      "rr_engine s1 = storeTask (new_task file_env ?n) e3"
    by (auto simp: reload_start_def)
  from job_alone [OF s1(1,2), of file_env None]
  obtain s2 where s2: "reload_reach (reload_start cron_registry 0) s2" "rr_jobs s2 = [JRun ''id'' ?n file_ir SwapStop]"
      "rr_engine s2 = updateTask (ge_now file_env) ''id'' ReloadRunning None (rr_engine s1)"
    by simp blast
  have e: "eg_pipelines (rr_engine s2) = [(?n, 0, file_pipe)]" "eg_reg (rr_engine s2) = cron_registry"
    by (simp_all add: s2(3) s1(3) updateTask_def storeTask_def e3_def e2_def e1_def SetConfigPath_def engine_New_def
        split: option.split)
  have "\<exists>(s :: (string, nat) reload_run) p. reload_reach (reload_start cron_registry 0) s \<and> rr_jobs s = [JRun ''id'' ?n file_ir (SwapInstall p)]"
    by (rule reload_gets_to_install [OF s2(1,2), where env = file_env and p = file_pipe])
      (simp_all add: file_env_def demo_env_def e pipe file_pipe_starts)
  then obtain s :: "(string, nat) reload_run" and p where "reload_reach (reload_start cron_registry 0) s" "rr_jobs s = [JRun ''id'' ?n file_ir (SwapInstall p)]"
    by (elim exE conjE)
  then show ?thesis by (intro exI conjI)
qed

theorem shutdown_misses_reload_witness:
  "\<exists>(s :: (string, nat) reload_run) s' p. reload_reach (reload_start cron_registry 0) s \<and>
     reload_step (s\<lparr>rr_engine := snd (engine_Stop file_env (\<lambda>_. None) (rr_engine s))\<rparr>) s' \<and>
     map_option snd (map_of (eg_pipelines (rr_engine s')) (ir_Name file_ir)) = Some p \<and> pl_started p \<and> \<not> pl_cancelled p"
proof -
  obtain s :: "(string, nat) reload_run" and tid ir p where r: "reload_reach (reload_start cron_registry 0) s"
      and j: "rr_jobs s = [] @ JRun tid (ir_Name file_ir) ir (SwapInstall p) # []"
    using file_reload_installs by auto
  obtain r' e where e: "engine_Stop file_env (\<lambda>_. None) (rr_engine s) = (r', e)" by (metis surj_pair)
  obtain s' where "reload_step (s\<lparr>rr_engine := e\<rparr>) s'"
      "map_of (eg_pipelines (rr_engine s')) (ir_Name file_ir) = Some (eg_next e, p)" "pl_started p" "\<not> pl_cancelled p"
    using shutdown_misses_reload [OF r j e] by blast
  then show ?thesis using r by (intro exI [of _ s] exI [of _ s'] exI [of _ p]) (simp add: e)
qed

end
