(* ===== verification/Admin.thy ===== *)
theory Admin
  imports Reload
begin

text \<open>
  The admin API of \<^verbatim>\<open>internal/engine/admin.go\<close>: requests for clean paths, as
  \<^verbatim>\<open>http.ServeMux\<close> routes them, and their responses. A request that begins a reload waits for
  the job of \<^verbatim>\<open>Reload\<close>, whose reply gives the response.
\<close>

section \<open>Responses\<close>

datatype admin_body =
    NotFoundPage
  | ErrorBody goerr
  | AcceptedBody string
  | TaskBody reload_task
  | PipelinesBody "pipeline_info list"
  | PipelineBody pipeline_info

type_synonym response = "nat \<times> admin_body"

datatype ('p, 'x) admin_result = Respond response | Await "('p, 'x) job"

definition http_NotFound :: response where
  "http_NotFound = (404, NotFoundPage)"

definition adminMethodNotAllowed :: response where
  "adminMethodNotAllowed = (405, ErrorBody (Err ''method not allowed'' []))"

definition writeReloadError :: "goerr \<Rightarrow> response" where
  "writeReloadError err = (if errors_Is err ReloadInProgress then (409, ErrorBody err) else (400, ErrorBody err))"

definition writeAccepted :: "string \<Rightarrow> response" where
  "writeAccepted taskID = (202, AcceptedBody taskID)"

text \<open>The response of a request that waited.\<close>

definition reply_response :: "string res \<Rightarrow> response" where
  "reply_response r = (case r of Inl err \<Rightarrow> writeReloadError err | Inr taskID \<Rightarrow> writeAccepted taskID)"

definition begin_response :: "('p, 'x) job res \<times> ('p, 'x) eventr_engine \<Rightarrow> ('p, 'x) admin_result \<times> ('p, 'x) eventr_engine" where
  "begin_response = (\<lambda>(r, e). (case r of Inl err \<Rightarrow> Respond (writeReloadError err) | Inr j \<Rightarrow> Await j, e))"

section \<open>Handlers\<close>

definition handleReload ::
  "string \<Rightarrow> string \<Rightarrow> ('p, 'x) eventr_engine \<Rightarrow> ('p, 'x) admin_result \<times> ('p, 'x) eventr_engine" where
  "handleReload verb path e =
     (if path \<noteq> ''/admin/reload'' then (Respond http_NotFound, e)
      else if verb \<noteq> ''POST'' then (Respond adminMethodNotAllowed, e)
      else begin_response (BeginReloadAll_claim e))"

definition handleReloadPath ::
  "string \<Rightarrow> string \<Rightarrow> ('p, 'x) eventr_engine \<Rightarrow> ('p, 'x) admin_result \<times> ('p, 'x) eventr_engine" where
  "handleReloadPath verb path e =
     (let rest = TrimPrefix path ''/admin/reload/'' in
      if rest = '''' then (Respond http_NotFound, e)
      else if HasPrefix rest ''status/'' then
        (if verb \<noteq> ''GET'' then (Respond adminMethodNotAllowed, e)
         else
           (case ReloadTask (TrimPrefix rest ''status/'') e of
              None \<Rightarrow> (Respond http_NotFound, e)
            | Some t \<Rightarrow> (Respond (200, TaskBody t), e)))
      else if verb \<noteq> ''POST'' then (Respond adminMethodNotAllowed, e)
      else begin_response (BeginReload_claim rest e))"

definition handlePipelines ::
  "string \<Rightarrow> string \<Rightarrow> ('p, 'x) eventr_engine \<Rightarrow> ('p, 'x) admin_result \<times> ('p, 'x) eventr_engine" where
  "handlePipelines verb path e =
     (if path \<noteq> ''/admin/pipelines'' then (Respond http_NotFound, e)
      else if verb \<noteq> ''GET'' then (Respond adminMethodNotAllowed, e)
      else (Respond (200, PipelinesBody (ListPipelines e)), e))"

definition handlePipelinePath ::
  "string \<Rightarrow> string \<Rightarrow> ('p, 'x) eventr_engine \<Rightarrow> ('p, 'x) admin_result \<times> ('p, 'x) eventr_engine" where
  "handlePipelinePath verb path e =
     (let rest = TrimPrefix path ''/admin/pipelines/'' in
      if rest = '''' \<or> \<not> HasSuffix rest ''/status'' then (Respond http_NotFound, e)
      else if verb \<noteq> ''GET'' then (Respond adminMethodNotAllowed, e)
      else
        (case PipelineInfo (TrimSuffix rest ''/status'') e of
           None \<Rightarrow> (Respond http_NotFound, e)
         | Some info \<Rightarrow> (Respond (200, PipelineBody info), e)))"

text \<open>\<^verbatim>\<open>Register\<close> and the multiplexer: an exact pattern, or one that ends in a slash and is a prefix.\<close>

definition admin_ServeHTTP ::
  "string \<Rightarrow> string \<Rightarrow> ('p, 'x) eventr_engine \<Rightarrow> ('p, 'x) admin_result \<times> ('p, 'x) eventr_engine" where
  "admin_ServeHTTP verb path e =
     (if path = ''/admin/reload'' then handleReload verb path e
      else if HasPrefix path ''/admin/reload/'' then handleReloadPath verb path e
      else if path = ''/admin/pipelines'' then handlePipelines verb path e
      else if HasPrefix path ''/admin/pipelines/'' then handlePipelinePath verb path e
      else (Respond http_NotFound, e))"

section \<open>What the API promises\<close>

text \<open>The tails of the two paths that end in a slash.\<close>

definition reload_tail ::
  "string \<Rightarrow> string \<Rightarrow> ('p, 'x) eventr_engine \<Rightarrow> ('p, 'x) admin_result \<times> ('p, 'x) eventr_engine" where
  "reload_tail verb rest e = handleReloadPath verb (''/admin/reload/'' @ rest) e"

lemma reload_tail_simps:
  "reload_tail verb '''' e = (Respond http_NotFound, e)"
  "rest \<noteq> '''' \<Longrightarrow> HasPrefix rest ''status/'' \<Longrightarrow> verb \<noteq> ''GET'' \<Longrightarrow> reload_tail verb rest e = (Respond adminMethodNotAllowed, e)"
  "rest \<noteq> '''' \<Longrightarrow> HasPrefix rest ''status/'' \<Longrightarrow> verb = ''GET'' \<Longrightarrow> \<exists>b. reload_tail verb rest e = (Respond b, e)"
  "rest \<noteq> '''' \<Longrightarrow> \<not> HasPrefix rest ''status/'' \<Longrightarrow> verb \<noteq> ''POST'' \<Longrightarrow> reload_tail verb rest e = (Respond adminMethodNotAllowed, e)"
  "rest \<noteq> '''' \<Longrightarrow> \<not> HasPrefix rest ''status/'' \<Longrightarrow> verb = ''POST'' \<Longrightarrow> reload_tail verb rest e = begin_response (BeginReload_claim rest e)"
  unfolding reload_tail_def handleReloadPath_def TrimPrefix_append Let_def by (simp_all split: option.split)

lemma serve_cases:
  obtains (now) resp where "admin_ServeHTTP verb path e = (Respond resp, e)"
  | (all) "verb = ''POST''" "path = ''/admin/reload''" "admin_ServeHTTP verb path e = begin_response (BeginReloadAll_claim e)"
  | (one) name where "verb = ''POST''" "path = ''/admin/reload/'' @ name"
      "admin_ServeHTTP verb path e = begin_response (BeginReload_claim name e)"
proof (cases "path = ''/admin/reload''")
  case True
  then have "admin_ServeHTTP verb path e = handleReload verb path e" by (simp add: admin_ServeHTTP_def)
  then show thesis using now all True by (cases "verb = ''POST''") (simp_all add: handleReload_def)
next
  case notall: False
  show thesis
  proof (cases "HasPrefix path ''/admin/reload/''")
    case True
    then obtain rest where rest: "path = ''/admin/reload/'' @ rest" unfolding HasPrefix_iff by blast
    have serve: "admin_ServeHTTP verb path e = reload_tail verb rest e"
      using notall True rest unfolding admin_ServeHTTP_def reload_tail_def by simp
    consider "rest = ''''" | "rest \<noteq> ''''" "HasPrefix rest ''status/''" | "rest \<noteq> ''''" "\<not> HasPrefix rest ''status/''" by blast
    then show thesis
    proof cases
      case 1
      then show thesis using now serve reload_tail_simps(1) [of verb e] by simp
    next
      case 2
      show thesis
      proof (cases "verb = ''GET''")
        case True
        then show thesis using now serve reload_tail_simps(3) [OF 2 True, of e] by auto
      next
        case False
        then show thesis using now serve reload_tail_simps(2) [OF 2 False, of e] by simp
      qed
    next
      case 3
      show thesis
      proof (cases "verb = ''POST''")
        case True
        show thesis by (rule one [OF True rest]) (simp only: serve reload_tail_simps(5) [OF 3 True])
      next
        case False
        then show thesis using now serve reload_tail_simps(4) [OF 3 False, of e] by simp
      qed
    qed
  next
    case False
    have "\<exists>resp. handlePipelines verb path e = (Respond resp, e)" by (simp add: handlePipelines_def)
    moreover have "\<exists>resp. handlePipelinePath verb path e = (Respond resp, e)"
      by (simp add: handlePipelinePath_def Let_def split: option.split)
    ultimately have "\<exists>resp. admin_ServeHTTP verb path e = (Respond resp, e)"
      using notall False by (auto simp: admin_ServeHTTP_def)
    then show thesis using now by blast
  qed
qed


text \<open>
  How a reload request for one pipeline is answered: 400 when the engine has no path for it, 409
  when it is being reloaded, and otherwise, once its job has read the file, 202 with the id of a
  stored pending task, or an error with the pipeline given back. A pipeline whose name begins with
  \<^verbatim>\<open>status/\<close> cannot be reloaded: its path is that of a task's status.
\<close>

theorem admin_reload_answer:
  assumes "name \<noteq> ''''" and "admin_ServeHTTP ''POST'' (''/admin/reload/'' @ name) e = (r, e')"
  shows "if HasPrefix name ''status/'' then r = Respond adminMethodNotAllowed
    else case map_of (eg_configPaths e) name of
      None \<Rightarrow> r = Respond (400, ErrorBody (Err ''pipeline %q not found'' [name]))
    | Some path \<Rightarrow>
        if name \<in> set (eg_reloading e) then r = Respond (409, ErrorBody ReloadInProgress)
        else \<exists>j reply nj e2. r = Await j \<and> job_step env j e' = (Some reply, nj, e2) \<and>
          (case loadIRFromPath env path of
             Inl err \<Rightarrow> reply_response reply = writeReloadError err \<and> nj = None \<and> set (eg_reloading e2) = set (eg_reloading e)
           | Inr ir \<Rightarrow>
               if ir_Name ir = name
               then reply_response reply = (202, AcceptedBody (ge_uuid env)) \<and> nj \<noteq> None \<and>
                    map_option rt_Status (ReloadTask (ge_uuid env) e2) = Some ReloadPending
               else fst (reply_response reply) = 400 \<and> nj = None \<and> set (eg_reloading e2) = set (eg_reloading e))"
proof -
  have serve: "reload_tail ''POST'' name e = (r, e')"
    using assms(2) unfolding admin_ServeHTTP_def reload_tail_def by simp
  show ?thesis
  proof (cases "HasPrefix name ''status/''")
    case True
    then show ?thesis using serve reload_tail_simps(2) [OF assms(1) True, of "''POST''" e] by simp
  next
    case False
    then have b: "begin_response (BeginReload_claim name e) = (r, e')"
      using serve reload_tail_simps(5) [OF assms(1) False, of "''POST''" e] by simp
    show ?thesis
    proof (cases "map_of (eg_configPaths e) name")
      case None
      then show ?thesis using b False
        by (simp add: begin_response_def BeginReload_claim_def writeReloadError_def)
    next
      case (Some path)
      show ?thesis
      proof (cases "name \<in> set (eg_reloading e)")
        case True
        then show ?thesis using b False Some
          by (simp add: begin_response_def BeginReload_claim_def writeReloadError_def)
      next
        case new: False
        then have "r = Await (JBegin name path)" "e' = e\<lparr>eg_reloading := name # eg_reloading e\<rparr>"
          using b Some by (simp_all add: begin_response_def BeginReload_claim_def)
        then show ?thesis using False Some new
          by (auto simp: BeginReload_rest_def reply_response_def writeAccepted_def writeReloadError_def storeTask_def
              ReloadTask_def new_task_def split: sum.split)
      qed
    qed
  qed
qed

section \<open>Witnesses\<close>


theorem admin_reload_answer_witness:
  "fst (admin_ServeHTTP ''POST'' (''/admin/reload/'' @ ''c'') demo_engine)
     = Respond (400, ErrorBody (Err ''pipeline %q not found'' [''c'']))"
proof -
  obtain r e where s: "admin_ServeHTTP ''POST'' (''/admin/reload/'' @ ''c'') demo_engine = (r, e)" by (metis surj_pair)
  have "map_of (eg_configPaths demo_engine) ''c'' = None" using demo_engine_facts by simp
  then show ?thesis using admin_reload_answer [OF _ s] unfolding s by simp
qed

end
