(* ===== verification/Dispatch.thy ===== *)
theory Dispatch
  imports Pipeline
begin

text \<open>
  The routing of messages: \<^verbatim>\<open>dispatchFrom\<close>, \<^verbatim>\<open>matchEdges\<close>,
  \<^verbatim>\<open>ensureParsed\<close>, \<^verbatim>\<open>reserializeIfDirty\<close> and the body of
  \<^verbatim>\<open>runTransform\<close> in \<^verbatim>\<open>internal/engine/pipeline.go\<close>, with
  \<^verbatim>\<open>dispatchTransformOutputs\<close>, \<^verbatim>\<open>sendToInbound\<close> and
  \<^verbatim>\<open>evalCondition\<close> of \<^verbatim>\<open>dispatch.go\<close>. Sending to an edge may wait, so what a
  goroutine still has to do is a list of actions, and executing the first one gives the list of
  its possible outcomes: more actions and a new state. The empty list means that it waits.
\<close>

section \<open>Decoding, encoding and conditions\<close>

definition ensureParsed :: "('p, 'x) pipeline \<Rightarrow> mref \<Rightarrow> world \<Rightarrow> goerr option \<times> world" where
  "ensureParsed p m w =
     (let msg = wd_msgs w m in
      if ms_parsedData msg \<noteq> JNil then (None, w)
      else if ms_decoderStageID msg = '''' then (None, w)
      else
        (case map_of (pl_decoders p) (ms_decoderStageID msg) of
           None \<Rightarrow> (None, w)
         | Some dec \<Rightarrow>
             (case cd_Decode dec (ms_Payload msg) (wd_heap w) of
                Inl err \<Rightarrow> (Some (Wrap ''codec %q decode: %w'' [cd_Name dec] err), w)
              | Inr (data, h) \<Rightarrow> (None, upd_msg m (SetParsedData data) (w\<lparr>wd_heap := h\<rparr>)))))"

definition reserializeIfDirty :: "('p, 'x) pipeline \<Rightarrow> string \<Rightarrow> mref \<Rightarrow> world \<Rightarrow> goerr option \<times> world" where
  "reserializeIfDirty p encoderID m w =
     (let msg = wd_msgs w m in
      if \<not> ms_parsedDirty msg then (None, w)
      else
        (case map_of (pl_encoders p) encoderID of
           None \<Rightarrow> (None, w)
         | Some enc \<Rightarrow>
             if ms_parsedData msg = JNil then (None, w)
             else
               (case cd_Encode enc (ms_parsedData msg) (wd_heap w) of
                  Inl err \<Rightarrow> (Some (Wrap ''encode: %w'' [] err), w)
                | Inr payload \<Rightarrow>
                    (None, upd_msg m (\<lambda>msg. (BackupOriginalPayload msg)\<lparr>ms_Payload := payload\<rparr>) w))))"

text \<open>
  \<^verbatim>\<open>eql.PayloadMap\<close>: the parsed payload when it is a map; \<^const>\<open>JNil\<close> stands for the
  fresh empty map otherwise. The evaluation of a compiled expression (\<^verbatim>\<open>EvalFilter\<close>) on
  the payload and the metadata is the argument \<open>ev\<close>.
\<close>

definition PayloadMap :: "message \<Rightarrow> jv" where
  "PayloadMap msg = (case ms_parsedData msg of JMap a \<Rightarrow> JMap a | _ \<Rightarrow> JNil)"

type_synonym 'p evaluator = "'p \<Rightarrow> jv \<Rightarrow> goheap \<Rightarrow> gmap \<Rightarrow> bool res"

definition evalCondition ::
  "('p, 'x) pipeline \<Rightarrow> 'p evaluator \<Rightarrow> 'p option \<Rightarrow> mref \<Rightarrow> world \<Rightarrow> bool res \<times> world" where
  "evalCondition p ev prg m w =
     (case prg of
        None \<Rightarrow> (Inr True, w)
      | Some c \<Rightarrow>
          (case ensureParsed p m w of
             (Some err, w') \<Rightarrow> (Inl err, w')
           | (None, w') \<Rightarrow>
               (ev c (PayloadMap (wd_msgs w' m)) (wd_heap w') (ms_Metadata (wd_msgs w' m)), w')))"

text \<open>\<^verbatim>\<open>node.conditions[edge.To]\<close>.\<close>

definition edge_condition :: "('p, 'x) pipeline \<Rightarrow> string \<Rightarrow> edge_ir \<Rightarrow> 'p option" where
  "edge_condition p fromID e =
     (case map_of (rg_nodes (pl_graph p)) fromID of
        None \<Rightarrow> None
      | Some n \<Rightarrow> map_of (rn_conditions n) (ei_To e))"

text \<open>
  The loop of \<^verbatim>\<open>matchEdges\<close>. \<^const>\<open>None\<close> is the early return for a required edge whose
  condition cannot be evaluated: the message has been acknowledged with the error.
\<close>

fun match_loop ::
  "('p, 'x) pipeline \<Rightarrow> 'p evaluator \<Rightarrow> string \<Rightarrow> mref \<Rightarrow> edge_ir list \<Rightarrow> edge_ir list \<Rightarrow> world
     \<Rightarrow> edge_ir list option \<times> world" where
  "match_loop p ev fromID m [] matched w = (Some matched, w)"
| "match_loop p ev fromID m (e # es) matched w =
     (if ei_Condition e = '''' then match_loop p ev fromID m es (matched @ [e]) w
      else
        (case evalCondition p ev (edge_condition p fromID e) m w of
           (Inl err, w') \<Rightarrow>
             (case handleEvalError p fromID (Some err) of
                (True, _) \<Rightarrow> match_loop p ev fromID m es matched w'
              | (False, ackErr) \<Rightarrow>
                  if ei_Required e then (None, Ack m ackErr w')
                  else match_loop p ev fromID m es matched w')
         | (Inr ok, w') \<Rightarrow> match_loop p ev fromID m es (if ok then matched @ [e] else matched) w'))"

definition matchEdges ::
  "('p, 'x) pipeline \<Rightarrow> 'p evaluator \<Rightarrow> string \<Rightarrow> edge_ir list \<Rightarrow> mref \<Rightarrow> world \<Rightarrow> edge_ir list \<times> world" where
  "matchEdges p ev fromID edges m w =
     (case match_loop p ev fromID m edges [] w of
        (None, w') \<Rightarrow> ([], w')
      | (Some matched, w') \<Rightarrow> (matched, w'))"

section \<open>Actions\<close>

text \<open>
  What a goroutine does next: \<^verbatim>\<open>dispatchFrom\<close>; one branch of its loop, for a cell and the
  message it copies; \<^verbatim>\<open>sendToInbound\<close>; another turn of the wait for disk space; the body of
  \<^verbatim>\<open>runTransform\<close> on a batch; \<^verbatim>\<open>Process\<close>; and the two loops of
  \<^verbatim>\<open>dispatchTransformOutputs\<close> with their local variables (the ids of the outputs, the ids
  passed through, and the aggregators by id).
\<close>

datatype act =
    DispatchFrom string mref
  | Branch nat mref edge_ir
  | SendToInbound edge_ir mref
  | AwaitDisk nat mref
  | TransformBatch string "mref list"
  | Process string "mref list"
  | OutInputs string "mref list" "mref list" "string list" "string list" "(string \<times> nat) list"
  | OutOutputs string "mref list" "string list" "(string \<times> nat) list"

type_synonym estate = "world \<times> edge_inbound list"

text \<open>What an operation on an edge acknowledges.\<close>

definition ack_all :: "acks \<Rightarrow> world \<Rightarrow> world" where
  "ack_all acks w = foldl (\<lambda>w (m, err). Ack m err w) w acks"

definition dispatchFrom ::
  "('p, 'x) pipeline \<Rightarrow> 'p evaluator \<Rightarrow> string \<Rightarrow> mref \<Rightarrow> world \<Rightarrow> act list \<times> world" where
  "dispatchFrom p ev fromID m w =
     (let edges = rg_outgoing (pl_graph p) fromID in
      if edges = [] then ([], Ack m None w)
      else
        (case matchEdges p ev fromID edges m w of
           (matched, w') \<Rightarrow>
             if matched = [] then ([], Ack m None w')
             else
               (case new_cell (int (length matched)) m w' of
                  (c, w'') \<Rightarrow> (map (Branch c m) matched, w''))))"

text \<open>
  \<^verbatim>\<open>sendToInbound\<close>; \<open>env\<close> gives the float formats and the disk, and the message store is
  the current one. A turn of the wait for disk space never uses the error that started it.
\<close>

definition enqueue_outcomes :: "nat \<Rightarrow> mref \<Rightarrow> estate \<Rightarrow> enq_outcome list \<Rightarrow> (act list \<times> estate) list" where
  "enqueue_outcomes ptr m st outs =
     map (\<lambda>(acks, result, e').
       (case result of None \<Rightarrow> [AwaitDisk ptr m] | Some _ \<Rightarrow> [],
        (ack_all acks (fst st), (snd st)[ptr := e']))) outs"

definition sendToInbound ::
  "('p, 'x) pipeline \<Rightarrow> edge_env \<Rightarrow> goerr option \<Rightarrow> edge_ir \<Rightarrow> mref \<Rightarrow> estate \<Rightarrow> (act list \<times> estate) list" where
  "sendToInbound p env ctx e m st =
     (case map_of (rg_edgeInbounds (pl_graph p)) (edgeKey (ei_From e) (ei_To e)) of
        None \<Rightarrow>
          [([], (Ack m (Some (Err ''edge buffer %s->%s not found'' [ei_From e, ei_To e])) (fst st), snd st))]
      | Some ptr \<Rightarrow>
          enqueue_outcomes ptr m st
            (Enqueue (env\<lparr>ev_msg := wd_msgs (fst st)\<rparr>) ctx (snd st ! ptr) m))"

definition await_disk :: "edge_env \<Rightarrow> goerr option \<Rightarrow> nat \<Rightarrow> mref \<Rightarrow> estate \<Rightarrow> (act list \<times> estate) list" where
  "await_disk env ctx ptr m st =
     (case eb_disk (snd st ! ptr) of
        None \<Rightarrow> []
      | Some d \<Rightarrow>
          enqueue_outcomes ptr m st
            (handleDiskFull (env\<lparr>ev_msg := wd_msgs (fst st)\<rparr>) ctx (snd st ! ptr) d m (Err '''' [])))"

text \<open>The first loop of \<^verbatim>\<open>runTransform\<close>: who is filtered, who passes by.\<close>

fun classify_batch ::
  "('p, 'x) pipeline \<Rightarrow> 'p evaluator \<Rightarrow> string \<Rightarrow> 'p option \<Rightarrow> mref list \<Rightarrow> world
     \<Rightarrow> mref list \<times> mref list \<times> world" where
  "classify_batch p ev sid predicate [] w = ([], [], w)"
| "classify_batch p ev sid predicate (m # ms) w =
     (case ensureParsed p m w of
        (Some err, w1) \<Rightarrow> classify_batch p ev sid predicate ms (ackMessageError p sid m (Some err) w1)
      | (None, w1) \<Rightarrow>
          (case (if predicate = None then (Inr True, w1) else evalCondition p ev predicate m w1) of
             (Inl err, w2) \<Rightarrow> classify_batch p ev sid predicate ms (ackMessageError p sid m (Some err) w2)
           | (Inr ok, w2) \<Rightarrow>
               (case classify_batch p ev sid predicate ms w2 of
                  (filtered, passThrough, w3) \<Rightarrow>
                    if ok then (m # filtered, passThrough, w3) else (filtered, m # passThrough, w3))))"

definition runTransform_batch ::
  "('p, 'x) pipeline \<Rightarrow> 'p evaluator \<Rightarrow> string \<Rightarrow> mref list \<Rightarrow> world \<Rightarrow> act list \<times> world" where
  "runTransform_batch p ev sid batch w =
     (let predicate = (case map_of (rg_nodes (pl_graph p)) sid of None \<Rightarrow> None | Some n \<Rightarrow> rn_predicate n) in
      case classify_batch p ev sid predicate batch w of
        (filtered, passThrough, w') \<Rightarrow>
          (map (DispatchFrom sid) passThrough @ (if filtered = [] then [] else [Process sid filtered]), w'))"

definition out_ids :: "mref list \<Rightarrow> world \<Rightarrow> string list" where
  "out_ids outputs w = map (\<lambda>m. ms_ID (wd_msgs w m)) outputs"

definition process_batch :: "('p, 'x) pipeline \<Rightarrow> string \<Rightarrow> mref list \<Rightarrow> world \<Rightarrow> (act list \<times> world) option" where
  "process_batch p sid filtered w =
     (case map_of (pl_stages p) sid of
        Some st \<Rightarrow>
          (case sg_role st of
             TransformRole process \<Rightarrow>
               (case process filtered w of
                  (Inl err, w') \<Rightarrow> Some ([], ackBatchError p sid filtered (Some err) w')
                | (Inr outs, w') \<Rightarrow> Some ([OutInputs sid filtered outs (out_ids outs w') [] []], w'))
           | _ \<Rightarrow> None)
      | None \<Rightarrow> None)"

text \<open>The body of the loop over the inputs.\<close>

definition out_input ::
  "string \<Rightarrow> mref \<Rightarrow> mref list \<Rightarrow> mref list \<Rightarrow> string list \<Rightarrow> string list \<Rightarrow> (string \<times> nat) list \<Rightarrow> world
     \<Rightarrow> act list \<times> world" where
  "out_input sid m ms outs ids passed aggs w =
     (let mid = ms_ID (wd_msgs w m); count = count_list ids mid in
      if count = 0 then ([OutInputs sid ms outs ids passed aggs], Ack m None w)
      else if count = 1 \<and> (\<exists>o' \<in> set outs. ms_ID (wd_msgs w o') = mid \<and> o' = m) then
        ([DispatchFrom sid m, OutInputs sid ms outs ids (mid # passed) aggs], w)
      else if mid \<in> set passed then ([OutInputs sid ms outs ids passed aggs], w)
      else
        (case new_cell (int count) m w of
           (c, w') \<Rightarrow> ([OutInputs sid ms outs ids passed (AList.update mid c aggs)], w')))"

text \<open>The body of the loop over the outputs.\<close>

definition out_output ::
  "string \<Rightarrow> mref \<Rightarrow> mref list \<Rightarrow> string list \<Rightarrow> (string \<times> nat) list \<Rightarrow> world \<Rightarrow> act list \<times> world" where
  "out_output sid o' os passed aggs w =
     (let oid = ms_ID (wd_msgs w o') in
      if oid \<in> set passed then ([OutOutputs sid os passed aggs], w)
      else
        (case map_of aggs oid of
           None \<Rightarrow> ([OutOutputs sid os passed aggs], w)
         | Some c \<Rightarrow>
             ([DispatchFrom sid o', OutOutputs sid os passed aggs], upd_msg o' (SetAckFn [HChild c]) w)))"

definition exec ::
  "('p, 'x) pipeline \<Rightarrow> 'p evaluator \<Rightarrow> edge_env \<Rightarrow> goerr option \<Rightarrow> act \<Rightarrow> estate \<Rightarrow> (act list \<times> estate) list" where
  "exec p ev env ctx a st =
     (case st of (w, bufs) \<Rightarrow>
        case a of
          DispatchFrom fromID m \<Rightarrow> (case dispatchFrom p ev fromID m w of (acts, w') \<Rightarrow> [(acts, (w', bufs))])
        | Branch c m e \<Rightarrow> (case fan_child c m w of (child, w') \<Rightarrow> [([SendToInbound e child], (w', bufs))])
        | SendToInbound e m \<Rightarrow> sendToInbound p env ctx e m st
        | AwaitDisk ptr m \<Rightarrow> await_disk env ctx ptr m st
        | TransformBatch sid batch \<Rightarrow>
            (case runTransform_batch p ev sid batch w of (acts, w') \<Rightarrow> [(acts, (w', bufs))])
        | Process sid filtered \<Rightarrow>
            (case process_batch p sid filtered w of None \<Rightarrow> [] | Some (acts, w') \<Rightarrow> [(acts, (w', bufs))])
        | OutInputs sid ins outs ids passed aggs \<Rightarrow>
            (case ins of
               [] \<Rightarrow> [([OutOutputs sid outs passed aggs], st)]
             | m # ms \<Rightarrow> (case out_input sid m ms outs ids passed aggs w of (acts, w') \<Rightarrow> [(acts, (w', bufs))]))
        | OutOutputs sid outs passed aggs \<Rightarrow>
            (case outs of
               [] \<Rightarrow> [([], st)]
             | o' # os \<Rightarrow> (case out_output sid o' os passed aggs w of (acts, w') \<Rightarrow> [(acts, (w', bufs))])))"

end
