(* ===== verification/Workers.thy ===== *)
theory Workers
  imports Graph
begin

text \<open>
  \<^verbatim>\<open>internal/engine/workers.go\<close>: how the goroutines of the transforms are shared out. The
  list of transforms is in the order in which the map of nodes was visited. The sum of the
  requests is an \<^verbatim>\<open>int\<close> of 64 bits.
\<close>

definition wrap64 :: "int \<Rightarrow> int" where
  "wrap64 i = (i + 2 ^ 63) mod 2 ^ 64 - 2 ^ 63"

lemma wrap64_id: "- (2 ^ 63) \<le> i \<Longrightarrow> i < 2 ^ 63 \<Longrightarrow> wrap64 i = i"
  by (simp add: wrap64_def)

definition request :: "'p runtime_node \<Rightarrow> int" where
  "request n = (if rn_workers n < 1 then 1 else rn_workers n)"

text \<open>The loop over the transforms of a pipeline over budget: \<open>i\<close> and \<open>assigned\<close> are its variables.\<close>

definition worker_share :: "int \<Rightarrow> int \<Rightarrow> int \<Rightarrow> int \<Rightarrow> int \<Rightarrow> int" where
  "worker_share base extra maxWorkers i assigned =
     (let w1 = (if i < extra then base + 1 else base);
          w2 = (if assigned + w1 > maxWorkers then maxWorkers - assigned else w1) in
      if w2 < 1 \<and> assigned < maxWorkers then 1 else w2)"

fun assign_workers :: "int \<Rightarrow> int \<Rightarrow> int \<Rightarrow> int \<Rightarrow> int \<Rightarrow> 'p runtime_node list \<Rightarrow> (string \<times> int) list" where
  "assign_workers base extra maxWorkers i assigned [] = []"
| "assign_workers base extra maxWorkers i assigned (n # ns) =
     (let w = worker_share base extra maxWorkers i assigned in
      (rn_id n, w) # assign_workers base extra maxWorkers (i + 1) (assigned + w) ns)"

definition allocateTransformWorkers :: "'p runtime_node list \<Rightarrow> int \<Rightarrow> (string \<times> int) list" where
  "allocateTransformWorkers transforms max0 =
     (if transforms = [] then []
      else
        let maxWorkers = (if max0 \<le> 0 then 16 else max0);
            total = foldl (\<lambda>t n. wrap64 (t + request n)) 0 transforms in
        if total \<le> maxWorkers then map (\<lambda>n. (rn_id n, request n)) transforms
        else
          let base = maxWorkers div int (length transforms);
              extra = maxWorkers mod int (length transforms) in
          assign_workers (if base < 1 then 1 else base) extra maxWorkers 0 0 transforms)"

lemma total_requests:
  assumes "sum_list (map request ns) + t < 2 ^ 63" and "0 \<le> t"
  shows "foldl (\<lambda>t n. wrap64 (t + request n)) t ns = t + sum_list (map request ns)"
  using assms
proof (induction ns arbitrary: t)
  case (Cons n ns)
  have "0 \<le> sum_list (map request ns)" by (rule sum_list_nonneg) (auto simp: request_def)
  moreover have "1 \<le> request n" by (simp add: request_def)
  ultimately have "wrap64 (t + request n) = t + request n"
    using Cons.prems by (intro wrap64_id) auto
  then show ?case using Cons.IH [of "t + request n"] Cons.prems \<open>1 \<le> request n\<close> by simp
qed simp

text \<open>A budget of at least one worker for each transform is shared out evenly and completely.\<close>

lemma assign_even:
  assumes "1 \<le> base" and "assigned + base * int (length ns) + max 0 (min (extra - i) (int (length ns))) = maxWorkers"
  shows "map snd (assign_workers base extra maxWorkers i assigned ns)
      = map (\<lambda>k. if i + int k < extra then base + 1 else base) [0..<length ns]"
  using assms(2)
proof (induction ns arbitrary: i assigned)
  case (Cons n ns)
  define w1 where "w1 = (if i < extra then base + 1 else base)"
  have pos: "0 \<le> base * int (length ns)" using assms(1) by simp
  have b: "base * int (length (n # ns)) = base * int (length ns) + base" by (simp add: algebra_simps)
  have le: "assigned + w1 \<le> maxWorkers"
    using Cons.prems pos unfolding b w1_def by (auto simp: max_def min_def split: if_splits)
  have "w1 \<ge> 1" using assms(1) by (simp add: w1_def)
  have next_budget: "assigned + w1 + base * int (length ns) + max 0 (min (extra - (i + 1)) (int (length ns))) = maxWorkers"
    using Cons.prems unfolding b w1_def by (auto simp: max_def min_def split: if_splits)
  have "map snd (assign_workers base extra maxWorkers i assigned (n # ns))
      = w1 # map snd (assign_workers base extra maxWorkers (i + 1) (assigned + w1) ns)"
    using le \<open>w1 \<ge> 1\<close> by (simp add: Let_def worker_share_def w1_def)
  also have "\<dots> = w1 # map (\<lambda>k. if i + 1 + int k < extra then base + 1 else base) [0..<length ns]"
    using Cons.IH [OF next_budget] by simp
  also have "\<dots> = map (\<lambda>k. if i + int k < extra then base + 1 else base) [0..<length (n # ns)]"
    by (simp add: w1_def upt_conv_Cons map_Suc_upt [symmetric] comp_def algebra_simps del: upt_Suc)
  finally show ?case .
qed simp

text \<open>A smaller budget gives two workers to transforms from the front until it is used up.\<close>

lemma assign_scarce:
  assumes "0 \<le> assigned" "assigned \<le> maxWorkers" and "2 * i = assigned \<or> assigned = maxWorkers"
    and "0 \<le> i"
  shows "map snd (assign_workers 1 maxWorkers maxWorkers i assigned ns)
      = map (\<lambda>k. min 2 (max 0 (maxWorkers - assigned - 2 * int k))) [0..<length ns]"
  using assms
proof (induction ns arbitrary: i assigned)
  case (Cons n ns)
  define w where "w = min 2 (max 0 (maxWorkers - assigned))"
  have "worker_share 1 maxWorkers maxWorkers i assigned = w"
  proof (cases "assigned = maxWorkers")
    case True
    then show ?thesis by (simp add: worker_share_def w_def)
  next
    case False
    then have "i < maxWorkers" "assigned < maxWorkers" using Cons.prems by auto
    then show ?thesis by (simp add: worker_share_def w_def)
  qed
  then have "map snd (assign_workers 1 maxWorkers maxWorkers i assigned (n # ns))
      = w # map snd (assign_workers 1 maxWorkers maxWorkers (i + 1) (assigned + w) ns)"
    by simp
  also have "\<dots> = w # map (\<lambda>k. min 2 (max 0 (maxWorkers - (assigned + w) - 2 * int k))) [0..<length ns]"
  proof -
    have "2 * (i + 1) = assigned + w \<or> assigned + w = maxWorkers" using Cons.prems by (auto simp: w_def)
    then show ?thesis using Cons.IH [of "assigned + w" "i + 1"] Cons.prems by (simp add: w_def)
  qed
  also have "\<dots> = map (\<lambda>k. min 2 (max 0 (maxWorkers - assigned - 2 * int k))) [0..<length (n # ns)]"
  proof -
    have "min 2 (max 0 (maxWorkers - (assigned + w) - 2 * int k)) = min 2 (max 0 (maxWorkers - assigned - 2 * int (Suc k)))" for k
      by (auto simp: w_def)
    then show ?thesis
      by (simp add: w_def upt_conv_Cons map_Suc_upt [symmetric] comp_def del: upt_Suc)
  qed
  finally show ?case .
qed simp

lemma map_fst_assign: "map fst (assign_workers base extra maxWorkers i assigned ns) = map rn_id ns"
  by (induction ns arbitrary: i assigned) (simp_all add: Let_def)


lemma assign_budget:
  assumes "assigned \<le> maxWorkers"
  shows "assigned + sum_list (map snd (assign_workers base extra maxWorkers i assigned ns)) \<le> maxWorkers"
  using assms
proof (induction ns arbitrary: i assigned)
  case (Cons n ns)
  have "assigned + worker_share base extra maxWorkers i assigned \<le> maxWorkers"
    using Cons.prems by (simp add: worker_share_def Let_def)
  from Cons.IH [OF this, of "i + 1"] show ?case by (simp add: Let_def)
qed simp

definition budget :: "int \<Rightarrow> int" where
  "budget max0 = (if max0 \<le> 0 then 16 else max0)"


text \<open>
  With more transforms than workers the budget goes two by two to the transforms that happen
  to come first, and the others get none, although one worker each would serve twice as many: a
  transform without a worker never takes a message from its channel.
\<close>

theorem allocate_starves:
  assumes "sum_list (map request ns) < 2 ^ 63" and "budget max0 < int (length ns)" and "k < length ns"
  shows "allocateTransformWorkers ns max0 ! k
    = (rn_id (ns ! k), min 2 (max 0 (budget max0 - 2 * int k)))"
proof -
  let ?m = "budget max0" and ?n = "int (length ns)"
  have m: "0 < ?m" by (simp add: budget_def)
  have total: "foldl (\<lambda>t n. wrap64 (t + request n)) 0 ns = sum_list (map request ns)"
    using total_requests [of ns 0] assms(1) by simp
  have "int (length ns) \<le> sum_list (map request ns)"
  proof (induction ns)
    case (Cons a xs)
    have "1 \<le> request a" by (simp add: request_def)
    then show ?case using Cons by simp
  qed simp
  then have over: "\<not> sum_list (map request ns) \<le> ?m" using assms(2) by simp
  have div: "?m div ?n = 0" "?m mod ?n = ?m" using m assms(2) by simp_all
  have "allocateTransformWorkers ns max0 = assign_workers 1 ?m ?m 0 0 ns"
    unfolding allocateTransformWorkers_def budget_def [symmetric] Let_def total using over div assms(3) by auto
  moreover have "map snd (assign_workers 1 ?m ?m 0 0 ns) = map (\<lambda>k. min 2 (max 0 (?m - 0 - 2 * int k))) [0..<length ns]"
    by (rule assign_scarce) (use m in auto)
  moreover have "map fst (assign_workers 1 ?m ?m 0 0 ns) = map rn_id ns" by (rule map_fst_assign)
  moreover have "length (assign_workers 1 ?m ?m 0 0 ns) = length ns"
    using arg_cong [OF map_fst_assign, of length] by simp
  ultimately show ?thesis using assms(3)
    by (metis (no_types, lifting) diff_zero length_upt nth_map nth_upt plus_nat.add_0 prod.collapse)
qed

section \<open>Witnesses\<close>

definition demo_node :: "string \<Rightarrow> int \<Rightarrow> unit runtime_node" where
  "demo_node i w = \<lparr>rn_id = i, rn_kind = ''transform'', rn_inbound = 64, rn_inboundEdges = [], rn_batchIn = w,
     rn_outBuffer = 64, rn_workers = w, rn_conditions = [], rn_predicate = None\<rparr>"


theorem allocate_starves_witness:
  "allocateTransformWorkers [demo_node ''a'' 1, demo_node ''b'' 1, demo_node ''c'' 1] 2 ! 0 = (''a'', 2)
   \<and> allocateTransformWorkers [demo_node ''a'' 1, demo_node ''b'' 1, demo_node ''c'' 1] 2 ! 1 = (''b'', 0)"
  using allocate_starves [of "[demo_node ''a'' 1, demo_node ''b'' 1, demo_node ''c'' 1]" 2 0]
    allocate_starves [of "[demo_node ''a'' 1, demo_node ''b'' 1, demo_node ''c'' 1]" 2 1]
  by (simp add: request_def demo_node_def budget_def)

end
