(* ===== verification/Retry.thy ===== *)
theory Retry
  imports Workers
begin

text \<open>
  \<^verbatim>\<open>writeWithRetry\<close> and \<^verbatim>\<open>retryDelay\<close> of \<^verbatim>\<open>internal/engine/pipeline.go\<close>: a sink's
  write with its retries and the delays between them. The sink is an argument: \<open>write\<close> takes and
  returns the state of the outside world. Delays are nanoseconds in an \<^verbatim>\<open>int64\<close>.
\<close>

section \<open>Delays\<close>

text \<open>
  \<^verbatim>\<open>time.Duration(math.Pow(2, float64(attempt))) * base\<close>. The power is exact; from
  \<open>2 ^ 63\<close> on its conversion to an integer is left to the implementation (\<open>conv\<close>).
\<close>

definition retryDelay :: "(nat \<Rightarrow> int) \<Rightarrow> nat \<Rightarrow> string \<Rightarrow> int" where
  "retryDelay conv attempt backoff =
     (let base = 100 * 1000000 in
      if backoff = ''exponential'' then wrap64 ((if attempt < 63 then 2 ^ attempt else conv attempt) * base)
      else if backoff = ''linear'' then wrap64 ((int attempt + 1) * base)
      else base)"

lemma wrap64_range: "- (2 ^ 63) \<le> wrap64 i \<and> wrap64 i < 2 ^ 63"
  using pos_mod_bound [of "2 ^ 64" "i + 2 ^ 63"] pos_mod_sign [of "2 ^ 64" "i + 2 ^ 63"]
  by (simp add: wrap64_def)

lemma wrap64_multiple: "wrap64 (2 ^ 64 * i) = 0"
  unfolding wrap64_def mod_mult_self4 by simp

text \<open>
  The exponential delay doubles exactly up to the 37th wait and is wrong from the 38th on: there
  the product leaves 64 bits and the delay is negative, and from the 57th to the 63rd wait it is
  zero, so the sink would be called without a pause.
\<close>

theorem exponential_delay:
  shows "(attempt < 37 \<longrightarrow> retryDelay conv attempt ''exponential'' = 2 ^ attempt * 100000000) \<and>
    retryDelay conv 37 ''exponential'' < 0 \<and>
    (56 \<le> attempt \<longrightarrow> attempt < 63 \<longrightarrow> retryDelay conv attempt ''exponential'' = 0)"
proof (intro conjI impI)
  assume "attempt < 37"
  then have "(2::int) ^ attempt \<le> 2 ^ 36" by (intro power_increasing) auto
  then have "wrap64 (2 ^ attempt * 100000000) = 2 ^ attempt * 100000000"
    by (intro wrap64_id) (auto intro: order_trans [of _ 0])
  then show "retryDelay conv attempt ''exponential'' = 2 ^ attempt * 100000000"
    using \<open>attempt < 37\<close> by (simp add: retryDelay_def)
next
  show "retryDelay conv 37 ''exponential'' < 0" by (simp add: retryDelay_def wrap64_def)
next
  assume a: "56 \<le> attempt" "attempt < 63"
  then obtain k where k: "attempt = 56 + k" by (metis le_add_diff_inverse)
  have "(2::int) ^ attempt * 100000000 = 2 ^ 64 * (2 ^ k * 390625)"
    by (simp add: k power_add)
  then have "wrap64 (2 ^ attempt * 100000000) = 0" by (simp only: wrap64_multiple)
  then show "retryDelay conv attempt ''exponential'' = 0" using a by (simp add: retryDelay_def)
qed

text \<open>Applied at the ends of the three ranges.\<close>

theorem exponential_delay_witness:
  "retryDelay (\<lambda>_. 0) 3 ''exponential'' = 800000000 \<and> retryDelay (\<lambda>_. 0) 36 ''exponential'' = 2 ^ 36 * 100000000
   \<and> retryDelay (\<lambda>_. 0) 60 ''exponential'' = 0"
  using exponential_delay [of 3 "\<lambda>_. 0"] exponential_delay [of 36 "\<lambda>_. 0"] exponential_delay [of 60 "\<lambda>_. 0"] by simp

section \<open>Writing with retries\<close>

text \<open>
  The loop. \<open>write\<close> is one call of the sink, \<open>ctx attempt\<close> the error of the context when the wait
  after that attempt ends because the context is done, and \<open>last\<close> the last error, if any. The
  delays asked for are collected.
\<close>

function retry_loop ::
  "('s \<Rightarrow> goerr option \<times> 's) \<Rightarrow> (int \<Rightarrow> goerr option) \<Rightarrow> (int \<Rightarrow> int) \<Rightarrow> int \<Rightarrow> int \<Rightarrow> goerr option \<Rightarrow> 's
     \<Rightarrow> goerr option \<times> int list \<times> 's" where
  "retry_loop write ctx delay maxRetries attempt lastErr s =
     (if attempt \<le> maxRetries then
        (case write s of
           (None, s') \<Rightarrow> (None, [], s')
         | (Some err, s') \<Rightarrow>
             if attempt < maxRetries then
               (case ctx attempt of
                  Some cerr \<Rightarrow> (Some cerr, [delay attempt], s')
                | None \<Rightarrow>
                    (case retry_loop write ctx delay maxRetries (attempt + 1) (Some err) s' of
                       (r, ds, s'') \<Rightarrow> (r, delay attempt # ds, s'')))
             else
               retry_loop write ctx delay maxRetries (attempt + 1) (Some err) s')
      else
        (Some (case lastErr of
                 None \<Rightarrow> Err ''retries exhausted (%d attempts): %!w(<nil>)'' [Itoa (maxRetries + 1)]
               | Some err \<Rightarrow> Wrap ''retries exhausted (%d attempts): %w'' [Itoa (maxRetries + 1)] err), [], s))"
  by pat_completeness auto
termination
  by (relation "measure (\<lambda>(w, c, d, maxRetries, attempt, e, s). nat (maxRetries + 1 - attempt))") auto

declare retry_loop.simps [simp del]

definition max_retries :: "delivery_spec option \<Rightarrow> int" where
  "max_retries delivery =
     (case delivery of None \<Rightarrow> 0 | Some d \<Rightarrow> (case dv_Retry d of None \<Rightarrow> 0 | Some r \<Rightarrow> rt_Max r))"

definition retry_backoff :: "delivery_spec option \<Rightarrow> string" where
  "retry_backoff delivery =
     (case delivery of
        None \<Rightarrow> ''exponential''
      | Some d \<Rightarrow>
          (case dv_Retry d of
             None \<Rightarrow> ''exponential''
           | Some r \<Rightarrow> if rt_Backoff r = '''' then ''exponential'' else rt_Backoff r))"

definition writeWithRetry ::
  "('s \<Rightarrow> goerr option \<times> 's) \<Rightarrow> (int \<Rightarrow> goerr option) \<Rightarrow> (nat \<Rightarrow> int) \<Rightarrow> delivery_spec option \<Rightarrow> 's
     \<Rightarrow> goerr option \<times> int list \<times> 's" where
  "writeWithRetry write ctx conv delivery s =
     retry_loop write ctx (\<lambda>a. retryDelay conv (nat a) (retry_backoff delivery))
       (max_retries delivery) 0 None s"

text \<open>The first \<open>n\<close> calls of the sink all fail; the state after them and the last error.\<close>

fun failing :: "('s \<Rightarrow> goerr option \<times> 's) \<Rightarrow> nat \<Rightarrow> 's \<Rightarrow> (goerr option \<times> 's) option" where
  "failing write 0 s = Some (None, s)"
| "failing write (Suc n) s =
     (case failing write n s of
        None \<Rightarrow> None
      | Some (_, s') \<Rightarrow> (case write s' of (None, _) \<Rightarrow> None | (Some err, s'') \<Rightarrow> Some (Some err, s'')))"


text \<open>What a call of \<^verbatim>\<open>writeWithRetry\<close> may do: the result, the delays and the final state.\<close>

definition retry_outcome ::
  "('s \<Rightarrow> goerr option \<times> 's) \<Rightarrow> (int \<Rightarrow> goerr option) \<Rightarrow> (int \<Rightarrow> int) \<Rightarrow> int \<Rightarrow> 's
     \<Rightarrow> goerr option \<times> int list \<times> 's \<Rightarrow> bool" where
  "retry_outcome write ctx delay maxRetries s out \<longleftrightarrow>
     (\<exists>n e s1 s'. int n \<le> maxRetries \<and> failing write n s = Some (e, s1) \<and> write s1 = (None, s') \<and>
        out = (None, map (\<lambda>k. delay (int k)) [0..<n], s')) \<or>
     (\<exists>n e s' err. int n < maxRetries \<and> failing write (Suc n) s = Some (e, s') \<and> ctx (int n) = Some err \<and>
        out = (Some err, map (\<lambda>k. delay (int k)) [0..<Suc n], s')) \<or>
     (\<exists>e s'. failing write (nat (maxRetries + 1)) s = Some (Some e, s') \<and>
        out = (Some (Wrap ''retries exhausted (%d attempts): %w'' [Itoa (maxRetries + 1)] e),
               map (\<lambda>k. delay (int k)) [0..<nat maxRetries], s'))"

lemma retry_loop_outcome:
  assumes "failing write n s0 = Some (lastErr, s)" and "int n \<le> maxRetries + 1" and "0 < n \<longrightarrow> lastErr \<noteq> None"
    and "0 \<le> maxRetries"
    and "retry_loop write ctx delay maxRetries (int n) lastErr s = (r, ds, s')"
  shows "retry_outcome write ctx delay maxRetries s0
    (r, map (\<lambda>k. delay (int k)) [0..<min n (nat maxRetries)] @ ds, s')"
  using assms
proof (induction "nat maxRetries + 1 - n" arbitrary: n lastErr s r ds)
  case 0
  then have n: "int n = maxRetries + 1" by linarith
  then obtain e where e: "lastErr = Some e" using 0 by (cases n) auto
  have m: "min n (nat maxRetries) = nat maxRetries" "nat (maxRetries + 1) = n" using n by auto
  have out: "(r, ds, s') = (Some (Wrap ''retries exhausted (%d attempts): %w'' [Itoa (maxRetries + 1)] e), [], s)"
    using 0(6) unfolding n e by (subst (asm) retry_loop.simps) simp
  then show ?case
    using 0(2) e unfolding retry_outcome_def m by simp
next
  case (Suc k)
  then have n: "int n \<le> maxRetries" by linarith
  obtain we s1 where w: "write s = (we, s1)" by (cases "write s")
  have mn: "min n (nat maxRetries) = n" using n by linarith
  show ?case
  proof (cases we)
    case None
    then have "r = None" "ds = []" "s' = s1"
      using Suc.prems(5) n w by (simp_all add: retry_loop.simps [of _ _ _ _ "int n"])
    moreover have "write s = (None, s1)" using w None by simp
    ultimately show ?thesis
      using n mn Suc.prems(1) unfolding retry_outcome_def by auto
  next
    case (Some err)
    then have f: "failing write (Suc n) s0 = Some (Some err, s1)" using Suc.prems(1) w by simp
    show ?thesis
    proof (cases "int n < maxRetries")
      case True
      show ?thesis
      proof (cases "ctx (int n)")
        case (Some cerr)
        then have "r = Some cerr" "ds = [delay (int n)]" "s' = s1"
          using Suc.prems(5) n w \<open>we = Some err\<close> True by (simp_all add: retry_loop.simps [of _ _ _ _ "int n"])
        then show ?thesis
          using True Some f mn unfolding retry_outcome_def by (intro disjI2 disjI1) auto
      next
        case None
        obtain r1 ds1 s2 where rec: "retry_loop write ctx delay maxRetries (int (Suc n)) (Some err) s1 = (r1, ds1, s2)"
          by (metis prod_cases3)
        then have out: "r = r1" "ds = delay (int n) # ds1" "s' = s2"
          using Suc.prems(5) n w \<open>we = Some err\<close> True None
          by (simp_all add: retry_loop.simps [of _ _ _ _ "int n"] add.commute)
        have "retry_outcome write ctx delay maxRetries s0
            (r1, map (\<lambda>k. delay (int k)) [0..<min (Suc n) (nat maxRetries)] @ ds1, s')"
          using Suc.hyps(1) [of "Suc n" "Some err" s1 r1 ds1] Suc.hyps(2) f n Suc.prems(4) rec out(3) by simp
        moreover have "min (Suc n) (nat maxRetries) = Suc n" using True by linarith
        ultimately show ?thesis using out mn by simp
      qed
    next
      case False
      then have eq: "int n = maxRetries" using n by simp
      obtain r1 ds1 s2 where rec: "retry_loop write ctx delay maxRetries (int (Suc n)) (Some err) s1 = (r1, ds1, s2)"
        by (metis prod_cases3)
      have "(r, ds, s') = retry_loop write ctx delay maxRetries (int n + 1) (Some err) s1"
        using Suc.prems(5) w \<open>we = Some err\<close> False n by (subst (asm) retry_loop.simps) simp
      then have out: "r = r1" "ds = ds1" "s' = s2" using rec by (simp_all add: add.commute)
      have "retry_outcome write ctx delay maxRetries s0
          (r1, map (\<lambda>k. delay (int k)) [0..<min (Suc n) (nat maxRetries)] @ ds1, s')"
        using Suc.hyps(1) [of "Suc n" "Some err" s1 r1 ds1] Suc.hyps(2) f n Suc.prems(4) rec out(3) by simp
      moreover have "min (Suc n) (nat maxRetries) = n" using eq by linarith
      ultimately show ?thesis using out mn by simp
    qed
  qed
qed

text \<open>
  C12: a write with retries calls the sink at least once and at most \<open>max + 1\<close> times. It returns
  nil exactly when the last call succeeded; otherwise every call failed, and the result is either
  the error of the context that ended a wait, or, after \<open>max + 1\<close> calls, an error that wraps the
  last one. Between two calls it waits once, with the delay of that attempt. This holds for every
  sink and every cancellation.
\<close>

theorem writeWithRetry_outcome:
  assumes "0 \<le> max_retries delivery"
  shows "retry_outcome write ctx (\<lambda>a. retryDelay conv (nat a) (retry_backoff delivery)) (max_retries delivery) s
    (writeWithRetry write ctx conv delivery s)"
proof -
  obtain r ds s' where out: "writeWithRetry write ctx conv delivery s = (r, ds, s')"
    by (metis prod_cases3)
  show ?thesis
    using retry_loop_outcome [of "write" 0 s None s "max_retries delivery" ctx _ r ds s'] assms out
    by (simp add: writeWithRetry_def)
qed

text \<open>
  With a negative \<^verbatim>\<open>max\<close> the sink is not called at all and the batch fails: nothing
  rejects such a configuration, and every message of the sink then goes to the dead letter queue.
\<close>

theorem writeWithRetry_negative_max:
  assumes "max_retries delivery < 0"
  shows "\<exists>err. writeWithRetry write ctx conv delivery s = (Some err, [], s)"
  using assms
  by (simp add: writeWithRetry_def retry_loop.simps)

section \<open>Witnesses\<close>

text \<open>A sink that fails as long as its state is positive.\<close>

definition demo_write :: "nat \<Rightarrow> goerr option \<times> nat" where
  "demo_write s = (case s of 0 \<Rightarrow> (None, 0) | Suc k \<Rightarrow> (Some EOF, k))"

definition demo_delivery :: "int \<Rightarrow> delivery_spec option" where
  "demo_delivery n = Some \<lparr>dv_Retry = Some \<lparr>rt_Max = n, rt_Backoff = ''''\<rparr>, dv_Timeout = '''', dv_DLQ = ''''\<rparr>"

theorem writeWithRetry_outcome_witness:
  "retry_outcome demo_write (\<lambda>_. None) (\<lambda>a. retryDelay (\<lambda>_. 0) (nat a) ''exponential'') 3 2
     (None, [100000000, 200000000], 0)"
proof -
  have m: "max_retries (demo_delivery 3) = 3" "retry_backoff (demo_delivery 3) = ''exponential''"
    by (simp_all add: max_retries_def retry_backoff_def demo_delivery_def)
  have "writeWithRetry demo_write (\<lambda>_. None) (\<lambda>_. 0) (demo_delivery 3) 2 = (None, [100000000, 200000000], 0)"
    unfolding writeWithRetry_def m
    by (simp add: retry_loop.simps demo_write_def retryDelay_def wrap64_def numeral_2_eq_2)
  then show ?thesis
    using writeWithRetry_outcome [of "demo_delivery 3" demo_write "\<lambda>_. None" "\<lambda>_. 0" 2] unfolding m by simp
qed

theorem writeWithRetry_negative_max_witness:
  "\<exists>err. writeWithRetry demo_write (\<lambda>_. None) (\<lambda>_. 0) (demo_delivery (- 1)) 5 = (Some err, [], 5)"
  by (rule writeWithRetry_negative_max) (simp add: max_retries_def demo_delivery_def)

end
