(* ===== verification/Sink.thy ===== *)
theory Sink
  imports Dispatch Retry GoTime
begin

text \<open>
  The sinks of a pipeline: \<^verbatim>\<open>flushSinkBatch\<close>, \<^verbatim>\<open>findDeliveryForStage\<close>,
  \<^verbatim>\<open>deliverToDLQ\<close> and the loop of \<^verbatim>\<open>runSink\<close> in
  \<^verbatim>\<open>internal/engine/pipeline.go\<close>. The text of an error, the clock and the ids drawn for
  dead letters are arguments.
\<close>

section \<open>Flushing a batch\<close>

record dlq_env =
  dq_text :: "goerr \<Rightarrow> string"
  dq_now :: string
  dq_uuid :: "mref \<Rightarrow> string"

definition findDeliveryForStage :: "topology_ir \<Rightarrow> string \<Rightarrow> delivery_spec option" where
  "findDeliveryForStage ir stageID =
     (case filter (\<lambda>e. ei_To e = stageID \<and> ei_Delivery e \<noteq> None) (ir_Edges ir) of
        [] \<Rightarrow> None
      | e # _ \<Rightarrow> ei_Delivery e)"

definition dlq_message :: "dlq_env \<Rightarrow> string \<Rightarrow> goerr \<Rightarrow> string \<Rightarrow> mref \<Rightarrow> message \<Rightarrow> message" where
  "dlq_message env pipeline err stageID m msg =
     (message_New (OriginalPayload msg)
        (Some [(''er-error-reason'', GStr (dq_text env err)), (''er-error-stage'', GStr stageID),
               (''er-error-timestamp'', GStr (dq_now env)), (''er-original-pipeline'', GStr pipeline),
               (''er-retry-count'', GStr ''0'')]))\<lparr>ms_ID := dq_uuid env m\<rparr>"

definition dlq_sink :: "('p, 'x) pipeline \<Rightarrow> (mref list \<Rightarrow> world \<Rightarrow> 'x \<Rightarrow> goerr option \<times> 'x) option" where
  "dlq_sink p =
     (case ir_DLQ (pl_ir p) of
        None \<Rightarrow> None
      | Some d \<Rightarrow>
          if dl_Sink d = '''' then None
          else
            (case map_of (pl_stages p) (dl_Sink d) of
               None \<Rightarrow> None
             | Some st \<Rightarrow> (case sg_role st of SinkRole wr fl \<Rightarrow> Some wr | _ \<Rightarrow> None)))"

text \<open>One dead letter for each message, written alone; the sink's errors are ignored.\<close>

fun deliver_loop ::
  "dlq_env \<Rightarrow> string \<Rightarrow> goerr \<Rightarrow> string \<Rightarrow> (mref list \<Rightarrow> world \<Rightarrow> 'x \<Rightarrow> goerr option \<times> 'x) \<Rightarrow> mref list
     \<Rightarrow> world \<times> 'x \<Rightarrow> world \<times> 'x" where
  "deliver_loop env pipeline err stageID wr [] wx = wx"
| "deliver_loop env pipeline err stageID wr (m # ms) (w, x) =
     (case new_msg (dlq_message env pipeline err stageID m (wd_msgs w m)) w of
        (d, w') \<Rightarrow> deliver_loop env pipeline err stageID wr ms (w', snd (wr [d] w' x)))"

definition deliverToDLQ ::
  "('p, 'x) pipeline \<Rightarrow> dlq_env \<Rightarrow> mref list \<Rightarrow> goerr \<Rightarrow> string \<Rightarrow> world \<times> 'x \<Rightarrow> world \<times> 'x" where
  "deliverToDLQ p env batch err sourceStageID wx =
     (case dlq_sink p of
        None \<Rightarrow> wx
      | Some wr \<Rightarrow> deliver_loop env (ir_Name (pl_ir p)) err sourceStageID wr batch wx)"

definition reserialize_all :: "('p, 'x) pipeline \<Rightarrow> string \<Rightarrow> mref list \<Rightarrow> world \<Rightarrow> world" where
  "reserialize_all p sid batch w = foldl (\<lambda>w m. snd (reserializeIfDirty p sid m w)) w batch"

text \<open>\<open>ctx\<close> and \<open>conv\<close> are as in \<^const>\<open>writeWithRetry\<close>.\<close>

definition flushSinkBatch ::
  "('p, 'x) pipeline \<Rightarrow> dlq_env \<Rightarrow> (int \<Rightarrow> goerr option) \<Rightarrow> (nat \<Rightarrow> int) \<Rightarrow> string
     \<Rightarrow> (mref list \<Rightarrow> world \<Rightarrow> 'x \<Rightarrow> goerr option \<times> 'x) \<Rightarrow> mref list \<Rightarrow> world \<times> 'x \<Rightarrow> goerr option \<times> world \<times> 'x" where
  "flushSinkBatch p env ctx conv sid wr batch wx =
     (case wx of (w, x) \<Rightarrow>
        let w1 = reserialize_all p sid batch w in
        case writeWithRetry (wr batch w1) ctx conv (findDeliveryForStage (pl_ir p) sid) x of
          (err, _, x1) \<Rightarrow>
            (case (case err of None \<Rightarrow> (w1, x1) | Some e \<Rightarrow> deliverToDLQ p env batch e sid (w1, x1)) of
               (w2, x2) \<Rightarrow> (err, foldl (\<lambda>w m. Ack m err w) w2 batch, x2)))"

section \<open>What a flush does to the messages\<close>

lemma OriginalPayload_reserialize:
  "OriginalPayload (wd_msgs (snd (reserializeIfDirty p sid m w)) k) = OriginalPayload (wd_msgs w k)"
  by (auto simp: reserializeIfDirty_def Let_def upd_msg_def OriginalPayload_backup split: option.splits sum.splits)

lemma OriginalPayload_reserialize_all:
  "OriginalPayload (wd_msgs (reserialize_all p sid batch w) k) = OriginalPayload (wd_msgs w k)"
  by (induction batch arbitrary: w) (simp_all add: reserialize_all_def OriginalPayload_reserialize)

lemma data_step_reserialize: "data_step w (snd (reserializeIfDirty p sid m w))"
  by (auto simp: reserializeIfDirty_def Let_def BackupOriginalPayload_def
      intro!: data_step_upd split: option.splits sum.splits)

lemma data_step_reserialize_all: "data_step w (reserialize_all p sid batch w)"
  unfolding reserialize_all_def
  by (induction batch arbitrary: w) (auto intro: data_step_trans data_step_reserialize)

lemma deliver_loop_ok:
  "deliver_loop env pipeline err sid wr ms (w, x) = (w', x') \<Longrightarrow>
     data_step w w' \<and> wd_next w' = wd_next w + length ms \<and>
     (\<forall>k < wd_next w. wd_msgs w' k = wd_msgs w k) \<and>
     ((\<forall>m \<in> set ms. m < wd_next w) \<longrightarrow>
       (\<forall>i < length ms. wd_msgs w' (wd_next w + i) = dlq_message env pipeline err sid (ms ! i) (wd_msgs w (ms ! i))))"
proof (induction ms arbitrary: w x)
  case (Cons m ms)
  obtain d w1 where n: "new_msg (dlq_message env pipeline err sid m (wd_msgs w m)) w = (d, w1)"
    by (metis surj_pair)
  have w1: "wd_next w1 = Suc (wd_next w)" "wd_msgs w1 (wd_next w) = dlq_message env pipeline err sid m (wd_msgs w m)"
    "\<And>k. k < wd_next w \<Longrightarrow> wd_msgs w1 k = wd_msgs w k"
    using n by (auto simp: new_msg_def)
  have "deliver_loop env pipeline err sid wr ms (w1, snd (wr [d] w1 x)) = (w', x')"
    using Cons.prems n by simp
  note IH = Cons.IH [OF this]
  show ?case
  proof (intro conjI impI allI)
    show "data_step w w'" using data_step_trans [OF data_step_new_msg [OF n]] IH by blast
    show "wd_next w' = wd_next w + length (m # ms)" using IH w1(1) by simp
    show "wd_msgs w' k = wd_msgs w k" if "k < wd_next w" for k using IH w1 that by simp
    fix i assume a: "\<forall>k \<in> set (m # ms). k < wd_next w" and i: "i < length (m # ms)"
    show "wd_msgs w' (wd_next w + i) = dlq_message env pipeline err sid ((m # ms) ! i) (wd_msgs w ((m # ms) ! i))"
    proof (cases i)
      case 0
      then show ?thesis using IH w1 by simp
    next
      case (Suc j)
      have "\<forall>k \<in> set ms. k < wd_next w1" using a w1(1) by auto
      then have "wd_msgs w' (wd_next w1 + j) = dlq_message env pipeline err sid (ms ! j) (wd_msgs w1 (ms ! j))"
        using IH i Suc by simp
      moreover have "wd_msgs w1 (ms ! j) = wd_msgs w (ms ! j)" using w1(3) a i Suc by simp
      ultimately show ?thesis using Suc w1(1) by simp
    qed
  qed
qed simp


lemma foldl_Ack_msgs: "wd_msgs (foldl (\<lambda>w m. Ack m err w) w ms) = wd_msgs w \<and>
    wd_next (foldl (\<lambda>w m. Ack m err w) w ms) = wd_next w"
  by (induction ms arbitrary: w) simp_all

lemma reserialize_all_next: "wd_next (reserialize_all p sid batch w) = wd_next w"
proof -
  have "wd_next (snd (reserializeIfDirty p sid m w)) = wd_next w" for m w
    by (auto simp: reserializeIfDirty_def Let_def upd_msg_def split: option.splits sum.splits)
  then show ?thesis unfolding reserialize_all_def by (induction batch arbitrary: w) simp_all
qed


section \<open>The batching loop\<close>

text \<open>
  The goroutines of \<^verbatim>\<open>runSink\<close>: the loop that fills a batch from \<open>ingress\<close> and hands it
  to the channel \<open>jobs\<close> of capacity \<open>max_in_flight\<close>, and as many workers that take a job and
  flush it. \<open>hold\<close> is the copy of the batch while \<^verbatim>\<open>enqueue\<close> waits. The messages received
  and the batches whose flush has begun are recorded in order.
\<close>

record sink_settings =
  se_batchSize :: nat
  se_timer :: bool
  se_maxInFlight :: nat
  se_ingressCap :: nat

text \<open>The loop over the stages that reads the settings of a sink; \<^verbatim>\<open>outBuffer\<close> is the channel's.\<close>

definition stage_settings :: "stage_ir \<Rightarrow> sink_settings \<Rightarrow> sink_settings" where
  "stage_settings st se =
     (let se1 = (case st_Batch st of
                   None \<Rightarrow> se
                 | Some b \<Rightarrow>
                     se\<lparr>se_batchSize := (if 0 < bc_Size b then nat (bc_Size b) else se_batchSize se),
                        se_timer := (if bc_Timeout b = '''' then se_timer se
                           else case ParseDuration (bc_Timeout b) of Inl _ \<Rightarrow> False | Inr d \<Rightarrow> 0 < d)\<rparr>);
          se2 = (if 0 < st_MaxInFlight st then se1\<lparr>se_maxInFlight := nat (st_MaxInFlight st)\<rparr> else se1) in
      if st_Ordering st = ''ordered'' then se2\<lparr>se_maxInFlight := 1\<rparr> else se2)"

definition sink_settings_of :: "topology_ir \<Rightarrow> string \<Rightarrow> nat \<Rightarrow> sink_settings" where
  "sink_settings_of ir sid outBuffer =
     foldl (\<lambda>se st. if st_ID st = sid then stage_settings st se else se)
       \<lparr>se_batchSize = 1, se_timer = False, se_maxInFlight = 1, se_ingressCap = outBuffer\<rparr> (ir_Stages ir)"

record sink_run =
  sr_received :: "mref list"
  sr_ingress :: "mref list"
  sr_batch :: "mref list"
  sr_hold :: "mref list option"
  sr_jobs :: "mref list list"
  sr_started :: "mref list list"
  sr_workers :: nat
  sr_loop :: bool
  sr_ending :: bool

definition sink_start :: "sink_settings \<Rightarrow> sink_run" where
  "sink_start se = \<lparr>sr_received = [], sr_ingress = [], sr_batch = [], sr_hold = None, sr_jobs = [], sr_started = [],
     sr_workers = se_maxInFlight se, sr_loop = True, sr_ending = False\<rparr>"

text \<open>\<^verbatim>\<open>flush()\<close>: an empty batch is not handed on.\<close>

definition sink_flush :: "sink_run \<Rightarrow> sink_run" where
  "sink_flush s = (if sr_batch s = [] then s else s\<lparr>sr_hold := Some (sr_batch s), sr_batch := []\<rparr>)"

text \<open>The steps of the loop: where \<^verbatim>\<open>enqueue\<close> waits, in the \<^verbatim>\<open>select\<close>, and at its end.\<close>

definition loop_steps :: "sink_settings \<Rightarrow> bool \<Rightarrow> sink_run \<Rightarrow> sink_run list" where
  "loop_steps se ctxDone s =
     (if \<not> sr_loop s then []
      else
        case sr_hold s of
          Some b \<Rightarrow>
            (if ctxDone then [s\<lparr>sr_hold := None, sr_started := sr_started s @ [b]\<rparr>] else [])
            @ (if length (sr_jobs s) < se_maxInFlight se then [s\<lparr>sr_hold := None, sr_jobs := sr_jobs s @ [b]\<rparr>] else [])
        | None \<Rightarrow>
            if sr_ending s then [s\<lparr>sr_loop := False\<rparr>]
            else
              (if ctxDone then [(sink_flush s)\<lparr>sr_ending := True\<rparr>] else [])
              @ (if se_timer se then [sink_flush s] else [])
              @ (case sr_ingress s of
                   [] \<Rightarrow> []
                 | m # rest \<Rightarrow>
                     let s1 = s\<lparr>sr_ingress := rest, sr_batch := sr_batch s @ [m]\<rparr> in
                     [if se_batchSize se \<le> length (sr_batch s1) then sink_flush s1 else s1]))"

text \<open>A worker ends when the context is done or the channel is closed and empty, or takes a job.\<close>

definition worker_steps :: "bool \<Rightarrow> sink_run \<Rightarrow> sink_run list" where
  "worker_steps ctxDone s =
     (if sr_workers s = 0 then []
      else
        (if ctxDone then [s\<lparr>sr_workers := sr_workers s - 1\<rparr>] else [])
        @ (case sr_jobs s of
             [] \<Rightarrow> if sr_loop s then [] else [s\<lparr>sr_workers := sr_workers s - 1\<rparr>]
           | b # rest \<Rightarrow> [s\<lparr>sr_jobs := rest, sr_started := sr_started s @ [b]\<rparr>]))"

text \<open>A message arrives from an edge of the sink.\<close>

definition ingress_steps :: "sink_settings \<Rightarrow> mref \<Rightarrow> sink_run \<Rightarrow> sink_run list" where
  "ingress_steps se m s =
     (if length (sr_ingress s) < se_ingressCap se
      then [s\<lparr>sr_ingress := sr_ingress s @ [m], sr_received := sr_received s @ [m]\<rparr>] else [])"

inductive sink_step :: "sink_settings \<Rightarrow> bool \<Rightarrow> sink_run \<Rightarrow> sink_run \<Rightarrow> bool" for se where
  step_loop: "s' \<in> set (loop_steps se ctxDone s) \<Longrightarrow> sink_step se ctxDone s s'"
| step_worker: "s' \<in> set (worker_steps ctxDone s) \<Longrightarrow> sink_step se ctxDone s s'"
| step_ingress: "s' \<in> set (ingress_steps se m s) \<Longrightarrow> sink_step se ctxDone s s'"

inductive sink_reach :: "sink_settings \<Rightarrow> bool \<Rightarrow> sink_run \<Rightarrow> sink_run \<Rightarrow> bool" for se ctxDone s0 where
  sink_refl: "sink_reach se ctxDone s0 s0"
| sink_more: "sink_reach se ctxDone s0 s \<Longrightarrow> sink_step se ctxDone s s' \<Longrightarrow> sink_reach se ctxDone s0 s'"

interpretation sinking: transition_system "sink_step se ctxDone" "sink_reach se ctxDone" for se ctxDone
  by unfold_locales (rule sink_refl, erule (1) sink_more, erule sink_reach.induct, assumption, blast)

definition hold_list :: "sink_run \<Rightarrow> mref list" where
  "hold_list s = (case sr_hold s of None \<Rightarrow> [] | Some b \<Rightarrow> b)"

definition sink_inv :: "sink_settings \<Rightarrow> sink_run \<Rightarrow> bool" where
  "sink_inv se s \<longleftrightarrow>
     sr_received s = concat (sr_started s) @ concat (sr_jobs s) @ hold_list s @ sr_batch s @ sr_ingress s \<and>
     (sr_hold s \<noteq> None \<longrightarrow> sr_batch s = []) \<and>
     (\<forall>b \<in> set (sr_started s) \<union> set (sr_jobs s) \<union> set_option (sr_hold s). b \<noteq> [] \<and> length b \<le> se_batchSize se) \<and>
     length (sr_batch s) < se_batchSize se \<and> length (sr_jobs s) \<le> se_maxInFlight se \<and>
     length (sr_ingress s) \<le> se_ingressCap se \<and> sr_loop s \<and> \<not> sr_ending s \<and> sr_workers s = se_maxInFlight se"

lemma sink_flush_inv:
  assumes "sr_received s = concat (sr_started s) @ concat (sr_jobs s) @ sr_batch s @ sr_ingress s"
    and "sr_hold s = None" "\<forall>b \<in> set (sr_started s) \<union> set (sr_jobs s). b \<noteq> [] \<and> length b \<le> se_batchSize se"
    and "length (sr_batch s) \<le> se_batchSize se" "length (sr_jobs s) \<le> se_maxInFlight se" "0 < se_batchSize se"
    and "length (sr_ingress s) \<le> se_ingressCap se" "sr_loop s" "\<not> sr_ending s" "sr_workers s = se_maxInFlight se"
  shows "sink_inv se (sink_flush s)"
  using assms by (cases "sr_batch s") (auto simp: sink_inv_def sink_flush_def hold_list_def)

lemma sink_inv_step:
  assumes "sink_step se False s s'" and "0 < se_batchSize se" and "sink_inv se s"
  shows "sink_inv se s'"
  using assms
proof (induction "False" s s' rule: sink_step.induct)
  case (step_loop s' s)
  note I = step_loop.prems(2) [unfolded sink_inv_def]
  show ?case
  proof (cases "sr_hold s")
    case (Some b)
    then have "length (sr_jobs s) < se_maxInFlight se" "s' = s\<lparr>sr_hold := None, sr_jobs := sr_jobs s @ [b]\<rparr>"
      using step_loop I by (auto simp: loop_steps_def split: if_splits)
    then show ?thesis using I Some step_loop.prems(1) by (auto simp: sink_inv_def hold_list_def)
  next
    case None
    have fl: "sink_inv se (sink_flush s)"
      by (rule sink_flush_inv) (use I None step_loop.prems(1) in \<open>auto simp: hold_list_def\<close>)
    show ?thesis
    proof (cases "sr_ingress s")
      case Nil
      then show ?thesis using step_loop I None fl by (auto simp: loop_steps_def split: if_splits)
    next
      case (Cons m rest)
      let ?s1 = "s\<lparr>sr_ingress := rest, sr_batch := sr_batch s @ [m]\<rparr>"
      have "sink_inv se (sink_flush ?s1)"
        by (rule sink_flush_inv) (use I None Cons step_loop.prems(1) in \<open>auto simp: hold_list_def\<close>)
      moreover have "sink_inv se ?s1" if "\<not> se_batchSize se \<le> length (sr_batch ?s1)"
        using I None Cons that by (auto simp: sink_inv_def hold_list_def)
      ultimately show ?thesis using step_loop.hyps I None Cons fl
        by (auto simp: loop_steps_def Let_def split: if_splits)
    qed
  qed
next
  case (step_worker s' s)
  then show ?case
    by (cases "sr_jobs s") (auto simp: worker_steps_def sink_inv_def hold_list_def split: if_splits)
next
  case (step_ingress s' m s)
  then show ?case by (auto simp: ingress_steps_def sink_inv_def hold_list_def split: if_splits)
qed

text \<open>
  C13: until the context is cancelled a sink loses and reorders nothing and keeps its bounds. The
  messages it received are, in their order, those of the batches whose flush has begun, of the
  batches queued, of the batch being handed over, of the batch being filled and of the channel;
  no batch is empty or larger than the batch size, and no channel exceeds its capacity.
\<close>

theorem sink_batches_exact:
  assumes "sink_reach se False (sink_start se) s" and "0 < se_batchSize se"
  shows "sr_received s = concat (sr_started s) @ concat (sr_jobs s) @ hold_list s @ sr_batch s @ sr_ingress s \<and>
    (\<forall>b \<in> set (sr_started s) \<union> set (sr_jobs s). 0 < length b \<and> length b \<le> se_batchSize se) \<and>
    length (sr_batch s) < se_batchSize se \<and> length (sr_jobs s) \<le> se_maxInFlight se"
proof -
  have "sink_inv se (sink_start se)" using assms(2) by (simp add: sink_inv_def sink_start_def hold_list_def)
  from sinking.invariant [OF assms(1), of "sink_inv se", OF this] have "sink_inv se s"
    using sink_inv_step assms(2) by blast
  then show ?thesis by (auto simp: sink_inv_def)
qed


lemma workers_leave:
  "\<exists>s'. sink_reach se True s s' \<and> s' = s\<lparr>sr_workers := 0\<rparr>"
proof (induction "sr_workers s" arbitrary: s)
  case 0
  then have "s\<lparr>sr_workers := 0\<rparr> = s" by simp
  then show ?case using sink_refl [of se True s] by simp
next
  case (Suc n)
  let ?s1 = "s\<lparr>sr_workers := sr_workers s - 1\<rparr>"
  have step: "sink_step se True s ?s1"
    by (rule step_worker) (use Suc(2) in \<open>simp add: worker_steps_def\<close>)
  have "sink_reach se True ?s1 (?s1\<lparr>sr_workers := 0\<rparr>)" using Suc(1) [of ?s1] Suc(2) by simp
  from sinking.reach_trans [OF this sinking.reach_one [OF step]] show ?case by simp
qed

text \<open>
  Cancelling the context can lose a batch. The workers may leave first, because the context is
  done; the loop then flushes its batch into the queue, where both cases of the \<^verbatim>\<open>select\<close>
  are ready, and ends. The batch stays in the queue: it is never written, never given to the dead
  letter queue and never acknowledged, and no goroutine of the sink can take a step any more.
\<close>

theorem cancelled_batch_lost:
  assumes "sr_loop s" and "\<not> sr_ending s" and "sr_hold s = None" and "sr_batch s \<noteq> []"
    and "length (sr_jobs s) < se_maxInFlight se"
  shows "\<exists>s'. sink_reach se True s s' \<and> sr_jobs s' = sr_jobs s @ [sr_batch s] \<and> sr_started s' = sr_started s \<and>
    loop_steps se True s' = [] \<and> worker_steps True s' = []"
proof -
  let ?s1 = "s\<lparr>sr_workers := 0\<rparr>"
  let ?s2 = "(sink_flush ?s1)\<lparr>sr_ending := True\<rparr>"
  let ?s3 = "?s2\<lparr>sr_hold := None, sr_jobs := sr_jobs s @ [sr_batch s]\<rparr>"
  let ?s4 = "?s3\<lparr>sr_loop := False\<rparr>"
  have f: "sink_flush ?s1 = ?s1\<lparr>sr_hold := Some (sr_batch s), sr_batch := []\<rparr>"
    using assms(4) by (simp add: sink_flush_def)
  have 1: "sink_reach se True s ?s1" using workers_leave [of se s] by simp
  have 2: "sink_step se True ?s1 ?s2"
    by (rule step_loop) (use assms in \<open>simp add: loop_steps_def\<close>)
  have 3: "sink_step se True ?s2 ?s3"
    by (rule step_loop) (use assms in \<open>simp add: loop_steps_def f\<close>)
  have 4: "sink_step se True ?s3 ?s4"
    by (rule step_loop) (use assms in \<open>simp add: loop_steps_def f\<close>)
  have "sink_reach se True s ?s4"
    by (rule sink_more [OF sink_more [OF sink_more [OF 1 2] 3] 4])
  moreover have "loop_steps se True ?s4 = []" "worker_steps True ?s4 = []"
    by (simp_all add: loop_steps_def worker_steps_def f)
  moreover have "sr_jobs ?s4 = sr_jobs s @ [sr_batch s]" "sr_started ?s4 = sr_started s" by (simp_all add: f)
  ultimately show ?thesis by blast
qed

section \<open>Witnesses\<close>

definition demo_settings :: sink_settings where
  "demo_settings = \<lparr>se_batchSize = 2, se_timer = True, se_maxInFlight = 1, se_ingressCap = 64\<rparr>"

definition demo_sink_run :: sink_run where
  "demo_sink_run = (sink_start demo_settings)\<lparr>sr_received := [7], sr_batch := [7]\<rparr>"

lemma demo_sink_reach: "sink_reach demo_settings False (sink_start demo_settings) demo_sink_run"
proof -
  let ?s1 = "(sink_start demo_settings)\<lparr>sr_received := [7], sr_ingress := [7]\<rparr>"
  have 1: "sink_step demo_settings False (sink_start demo_settings) ?s1"
    by (rule step_ingress [where m = 7]) (simp add: ingress_steps_def sink_start_def demo_settings_def)
  have 2: "sink_step demo_settings False ?s1 demo_sink_run"
    by (rule step_loop) (simp add: loop_steps_def sink_start_def demo_settings_def demo_sink_run_def)
  show ?thesis by (rule sink_more [OF sink_more [OF sink_refl 1] 2])
qed

theorem sink_batches_exact_witness:
  "sr_received demo_sink_run = concat (sr_started demo_sink_run) @ concat (sr_jobs demo_sink_run) @
     hold_list demo_sink_run @ sr_batch demo_sink_run @ sr_ingress demo_sink_run \<and> sr_batch demo_sink_run = [7]"
  using sink_batches_exact [OF demo_sink_reach] by (simp add: demo_settings_def) (simp add: demo_sink_run_def)

theorem cancelled_batch_lost_witness:
  "\<exists>s'. sink_reach demo_settings True demo_sink_run s' \<and> sr_jobs s' = [[7]] \<and> sr_started s' = [] \<and>
    loop_steps demo_settings True s' = [] \<and> worker_steps True s' = []"
proof -
  have "sr_jobs demo_sink_run = []" "sr_batch demo_sink_run = [7]" "sr_started demo_sink_run = []"
    by (simp_all add: demo_sink_run_def sink_start_def)
  moreover have "\<exists>s'. sink_reach demo_settings True demo_sink_run s' \<and>
    sr_jobs s' = sr_jobs demo_sink_run @ [sr_batch demo_sink_run] \<and> sr_started s' = sr_started demo_sink_run \<and>
    loop_steps demo_settings True s' = [] \<and> worker_steps True s' = []"
    by (rule cancelled_batch_lost) (simp_all add: demo_sink_run_def sink_start_def demo_settings_def)
  ultimately show ?thesis by simp
qed

text \<open>A sink that refuses everything, with a dead letter sink that counts what it is given.\<close>

definition dlq_pipeline :: "(string, nat) pipeline" where
  "dlq_pipeline = broken_pipeline\<lparr>
     pl_ir := one_route\<lparr>ir_DLQ := Some \<lparr>dl_Sink = ''dead'', dl_IncludeCurrentPayload = False\<rparr>\<rparr>,
     pl_stages := [(''dead'', demo_inst (SinkRole (\<lambda>batch w n. (None, n + length batch)) (\<lambda>n. (None, n))))]\<rparr>"

definition demo_dlq_env :: dlq_env where
  "demo_dlq_env = \<lparr>dq_text = (\<lambda>_. ''refused''), dq_now = ''now'', dq_uuid = (\<lambda>_. ''id'')\<rparr>"

definition demo_batch_world :: world where
  "demo_batch_world = demo_world\<lparr>wd_next := 1, wd_msgs := (\<lambda>_. message_New ''payload'' None)\<rparr>"


end
