(* ===== verification/Flow.thy ===== *)
theory Flow
  imports Sink
begin

text \<open>
  The bookkeeping that connects the goroutines of \<^verbatim>\<open>internal/engine\<close> with the accounts of
  \<^verbatim>\<open>Ack\<close>: from a start state the engine can come to a world in which a multiset of
  messages is owned by somebody and a multiset of branches is still to be created.
\<close>

definition can ::
  "ack_run \<Rightarrow> world \<Rightarrow> mref multiset \<Rightarrow> nat multiset \<Rightarrow> (string \<times> mref \<times> bool) list \<Rightarrow> bool" where
  "can r0 w L T S \<longleftrightarrow>
     (\<exists>r. ack_reach r0 r \<and> ar_world r = w \<and> mset (ar_live r) = L \<and> mset (ar_tokens r) = T \<and> ar_sources r = S)"

text \<open>The messages that are held: the owned ones and the parents of open cells.\<close>

definition held_set :: "world \<Rightarrow> mref multiset \<Rightarrow> mref set" where
  "held_set w L = set_mset L \<union> (\<lambda>c. ce_parent (wd_cells w ! c)) ` {c. open_cell w c}"

lemma held_set_eq: "held_set w (mset live) = set (held w live)"
  by (simp add: held_set_def set_held)

lemma mset_split: "x \<in># mset xs \<Longrightarrow> \<exists>us vs. xs = us @ x # vs \<and> mset xs - {#x#} = mset (us @ vs)"
  by (metis add_mset_remove_trivial mset.simps(2) mset_append set_mset_mset split_list union_mset_add_mset_right)

lemma canI: "ack_reach r0 r \<Longrightarrow> can r0 (ar_world r) (mset (ar_live r)) (mset (ar_tokens r)) (ar_sources r)"
  by (auto simp: can_def)

lemma canE:
  assumes "can r0 w L T S"
  obtains r where "ack_reach r0 r" "w = ar_world r" "L = mset (ar_live r)" "T = mset (ar_tokens r)" "S = ar_sources r"
  using assms by (auto simp: can_def)

lemma can_ack:
  assumes "can r0 w L T S" and "m \<in># L"
  shows "can r0 (Ack m err w) (L - {#m#}) T S"
proof -
  obtain r where r: "ack_reach r0 r" "w = ar_world r" "L = mset (ar_live r)" "T = mset (ar_tokens r)" "S = ar_sources r"
    using assms(1) by (rule canE)
  have "m \<in># mset (ar_live r)" using assms(2) unfolding r(3) .
  from mset_split [OF this] obtain us vs where
    l: "ar_live r = us @ m # vs" "mset (ar_live r) - {#m#} = mset (us @ vs)" by blast
  show ?thesis using canI [OF ar_step [OF r(1) as_ack [OF l(1), of err]]] unfolding r l(2) by simp
qed

lemma can_fan:
  assumes "can r0 w L T S" and "m \<in># L" and "0 < n" and "new_cell (int n) m w = (c, w')"
  shows "can r0 w' (L - {#m#}) (T + replicate_mset n c) S"
proof -
  obtain r where r: "ack_reach r0 r" "w = ar_world r" "L = mset (ar_live r)" "T = mset (ar_tokens r)" "S = ar_sources r"
    using assms(1) by (rule canE)
  have "m \<in># mset (ar_live r)" using assms(2) unfolding r(3) .
  from mset_split [OF this] obtain us vs where
    l: "ar_live r = us @ m # vs" "mset (ar_live r) - {#m#} = mset (us @ vs)" by blast
  show ?thesis
    using canI [OF ar_step [OF r(1) as_fan [OF l(1) assms(3) assms(4) [unfolded r(2)]]]]
    unfolding r l(2) by (simp add: add.commute)
qed

lemma can_adopt:
  assumes "can r0 w L T S" and "c \<in># T" and "m < wd_next w" and "m \<notin> held_set w L"
  shows "can r0 (upd_msg m (SetAckFn [HChild c]) w) (add_mset m L) (T - {#c#}) S"
proof -
  obtain r where r: "ack_reach r0 r" "w = ar_world r" "L = mset (ar_live r)" "T = mset (ar_tokens r)" "S = ar_sources r"
    using assms(1) by (rule canE)
  have "c \<in># mset (ar_tokens r)" using assms(2) unfolding r(4) .
  from mset_split [OF this] obtain us vs where
    t: "ar_tokens r = us @ c # vs" "mset (ar_tokens r) - {#c#} = mset (us @ vs)" by blast
  have "m < wd_next (ar_world r)" "m \<notin> set (held (ar_world r) (ar_live r))"
    using assms(3,4) unfolding r held_set_eq by blast+
  from canI [OF ar_step [OF r(1) as_adopt [OF t(1) this]]] show ?thesis unfolding r t(2) by simp
qed

lemma can_data:
  assumes "can r0 w L T S" and "data_step w w'"
  shows "can r0 w' L T S"
proof -
  obtain r where r: "ack_reach r0 r" "w = ar_world r" "L = mset (ar_live r)" "T = mset (ar_tokens r)" "S = ar_sources r"
    using assms(1) by (rule canE)
  show ?thesis using canI [OF ar_step [OF r(1) as_data [OF assms(2) [unfolded r(2)]]]] unfolding r by simp
qed

lemma can_own:
  assumes "can r0 w L T S" and "m < wd_next w" and "ms_ackFn (wd_msgs w m) = []"
  shows "can r0 w (add_mset m L) T S"
proof -
  obtain r where r: "ack_reach r0 r" "w = ar_world r" "L = mset (ar_live r)" "T = mset (ar_tokens r)" "S = ar_sources r"
    using assms(1) by (rule canE)
  show ?thesis
    using canI [OF ar_step [OF r(1) as_own [OF assms(2,3) [unfolded r(2)]]]] unfolding r by simp
qed

lemma can_emit:
  assumes "can r0 w L T S" and "emit_source src acking msg w = (m, w')"
  shows "can r0 w' (add_mset m L) T (S @ [(src, m, acking)])"
proof -
  obtain r where r: "ack_reach r0 r" "w = ar_world r" "L = mset (ar_live r)" "T = mset (ar_tokens r)" "S = ar_sources r"
    using assms(1) by (rule canE)
  show ?thesis
    using canI [OF ar_step [OF r(1) as_emit [OF assms(2) [unfolded r(2)]]]] unfolding r by simp
qed

text \<open>A branch of \<^verbatim>\<open>dispatchFrom\<close>: a new message takes over a token.\<close>

lemma can_child:
  assumes can: "can r0 w L T S" and c: "c \<in># T" and f: "fan_child c m w = (child, w')"
    and held: "\<forall>k \<in> held_set w L. k < wd_next w"
  shows "can r0 w' (add_mset child L) (T - {#c#}) S"
proof -
  have new: "child = wd_next w" "wd_next w' = Suc (wd_next w)" "ms_ackFn (wd_msgs w' child) = [HChild c]"
    "wd_cells w' = wd_cells w"
    using f by (auto simp: fan_child_def new_msg_def SetAckFn_def)
  have "data_step w w'" using f unfolding fan_child_def by (rule data_step_new_msg)
  then have "can r0 w' L T S" by (rule can_data [OF can])
  moreover have "child \<notin> held_set w' L"
  proof -
    have "held_set w' L = held_set w L" by (simp add: held_set_def open_cell_cong [OF new(4)] new(4))
    then show ?thesis using held new(1) by auto
  qed
  ultimately have "can r0 (upd_msg child (SetAckFn [HChild c]) w') (add_mset child L) (T - {#c#}) S"
    using c new(1,2) by (intro can_adopt) auto
  moreover have "upd_msg child (SetAckFn [HChild c]) w' = w'"
  proof -
    have "SetAckFn [HChild c] (wd_msgs w' child) = wd_msgs w' child"
      using new(3) by (simp add: SetAckFn_def)
    then show ?thesis by (simp add: upd_msg_def)
  qed
  ultimately show ?thesis by simp
qed

text \<open>The messages acknowledged by an operation on an edge, or a whole batch.\<close>

lemma can_ack_all: "can r0 w L T S \<Longrightarrow> mset (map fst acks) \<subseteq># L \<Longrightarrow>
   can r0 (ack_all acks w) (L - mset (map fst acks)) T S"
proof (induction acks arbitrary: w L)
  case (Cons a acks)
  obtain m err where a: "a = (m, err)" by (cases a)
  have m: "m \<in># L" using Cons.prems(2) a by (simp add: insert_subset_eq_iff)
  have "mset (map fst acks) \<subseteq># L - {#m#}" using Cons.prems(2) a by (simp add: insert_subset_eq_iff)
  from Cons.IH [OF can_ack [OF Cons.prems(1) m, of err] this] show ?case
    by (simp add: ack_all_def a)
qed (simp add: ack_all_def)

lemma can_ack_batch: "can r0 w L T S \<Longrightarrow> mset ms \<subseteq># L \<Longrightarrow>
   can r0 (foldl (\<lambda>w m. Ack m err w) w ms) (L - mset ms) T S"
proof -
  have "foldl (\<lambda>w m. Ack m err w) w ms = ack_all (map (\<lambda>m. (m, err)) ms) w" for w
    by (induction ms arbitrary: w) (simp_all add: ack_all_def)
  moreover assume "can r0 w L T S" "mset ms \<subseteq># L"
  ultimately show ?thesis using can_ack_all [of r0 w L T S "map (\<lambda>m. (m, err)) ms"] by (simp add: comp_def)
qed

section \<open>What a step may change\<close>

text \<open>
  Identities and allocated messages stay, and no message becomes held that was not, except the
  ones in \<open>N\<close> and new ones.
\<close>

definition frame :: "world \<Rightarrow> world \<Rightarrow> bool" where
  "frame w w' \<longleftrightarrow> wd_next w \<le> wd_next w' \<and> (\<forall>m < wd_next w. ms_ID (wd_msgs w' m) = ms_ID (wd_msgs w m))"

definition keeps :: "world \<Rightarrow> mref multiset \<Rightarrow> world \<Rightarrow> mref multiset \<Rightarrow> mref set \<Rightarrow> bool" where
  "keeps w L w' L' N \<longleftrightarrow> frame w w' \<and> held_set w' L' \<subseteq> held_set w L \<union> N \<union> {m. wd_next w \<le> m}"

lemma frame_refl [simp]: "frame w w"
  by (simp add: frame_def)

lemma frame_trans: "frame u v \<Longrightarrow> frame v w \<Longrightarrow> frame u w"
  by (auto simp: frame_def)

lemma keeps_trans: "keeps u K v L N \<Longrightarrow> keeps v L w M N' \<Longrightarrow> keeps u K w M (N \<union> N')"
proof -
  assume a: "keeps u K v L N" "keeps v L w M N'"
  then have "wd_next u \<le> wd_next v" "frame u w" by (auto simp: keeps_def intro: frame_trans) (simp add: frame_def)
  moreover have "held_set w M \<subseteq> held_set u K \<union> (N \<union> N') \<union> {m. wd_next u \<le> m}"
  proof
    fix k assume "k \<in> held_set w M"
    then have "k \<in> held_set v L \<or> k \<in> N' \<or> wd_next v \<le> k" using a(2) by (auto simp: keeps_def)
    moreover have "k \<in> held_set v L \<Longrightarrow> k \<in> held_set u K \<or> k \<in> N \<or> wd_next u \<le> k" using a(1) by (auto simp: keeps_def)
    ultimately show "k \<in> held_set u K \<union> (N \<union> N') \<union> {m. wd_next u \<le> m}" using \<open>wd_next u \<le> wd_next v\<close> by auto
  qed
  ultimately show ?thesis by (simp add: keeps_def)
qed

lemma keeps_refl [simp]: "keeps w L w L N"
  by (auto simp: keeps_def)

lemma keeps_less: "keeps w L w' L' N \<Longrightarrow> M \<subseteq># L' \<Longrightarrow> keeps w L w' M N"
proof -
  assume k: "keeps w L w' L' N" and "M \<subseteq># L'"
  then have "held_set w' M \<subseteq> held_set w' L'" using set_mset_mono [of M L'] by (auto simp: held_set_def)
  then show ?thesis using k by (auto simp: keeps_def)
qed

lemma keeps_data: "data_step w w' \<Longrightarrow> keeps w L w' L N"
proof -
  assume d: "data_step w w'"
  then have c: "wd_cells w' = wd_cells w" by (simp add: data_step_def)
  show ?thesis using d
    by (auto simp: keeps_def frame_def data_step_def held_set_def open_cell_cong [OF c])
qed

lemma held_Ack: "held_set (Ack m err w) (L - {#m#}) \<subseteq> held_set w L"
proof -
  obtain live where l: "mset live = L" using ex_mset by blast
  have "held_set (Ack m err w) (L - {#m#}) \<subseteq> held_set (Ack m err w) L"
    by (auto simp: held_set_def dest: in_diffD)
  also have "\<dots> \<subseteq> held_set w L" using Ack_held [of m err w live] unfolding held_set_eq [symmetric] l .
  finally show ?thesis .
qed

lemma keeps_Ack: "keeps w L (Ack m err w) (L - {#m#}) N"
  using held_Ack [of m err w L] by (auto simp: keeps_def frame_def)

lemma held_new_cell:
  assumes "new_cell n m w = (c, w')" and "m \<in># L"
  shows "held_set w' (L - {#m#}) \<subseteq> held_set w L"
proof
  have w': "wd_cells w' = wd_cells w @ [\<lparr>ce_pending = n, ce_errStored = False, ce_firstErr = None, ce_parent = m\<rparr>]"
    using assms(1) by (auto simp: new_cell_def)
  fix k assume "k \<in> held_set w' (L - {#m#})"
  then consider "k \<in># L" | d where "open_cell w' d" "k = ce_parent (wd_cells w' ! d)"
    by (auto simp: held_set_def dest: in_diffD)
  then show "k \<in> held_set w L"
  proof cases
    case (2 d)
    show ?thesis
    proof (cases "d < length (wd_cells w)")
      case True
      then have "open_cell w d \<and> k = ce_parent (wd_cells w ! d)"
        using 2 by (simp add: open_cell_def w' nth_append)
      then show ?thesis by (auto simp: held_set_def)
    next
      case False
      then have "k = m" using 2 by (auto simp: open_cell_def w' nth_append)
      then show ?thesis using assms(2) by (simp add: held_set_def)
    qed
  qed (simp add: held_set_def)
qed

lemma keeps_new_cell:
  assumes "new_cell n m w = (c, w')" and "m \<in># L"
  shows "keeps w L w' (L - {#m#}) N"
proof -
  have "wd_next w' = wd_next w" "wd_msgs w' = wd_msgs w" using assms(1) by (auto simp: new_cell_def)
  then show ?thesis using held_new_cell [OF assms] by (auto simp: keeps_def frame_def)
qed

lemma keeps_add: "keeps w L w (add_mset m L) {m}"
  by (auto simp: keeps_def held_set_def)

lemma keeps_ack_all: "keeps w L (ack_all acks w) (L - mset (map fst acks)) N"
proof (induction acks arbitrary: w L)
  case (Cons a acks)
  obtain m err where a: "a = (m, err)" by (cases a)
  have "keeps w L (ack_all acks (Ack m err w)) (L - {#m#} - mset (map fst acks)) (N \<union> N)"
    by (rule keeps_trans [OF keeps_Ack Cons.IH])
  then show ?case by (simp add: ack_all_def a)
qed (simp add: ack_all_def)

text \<open>Everything held was allocated, in every world the engine can come to.\<close>

lemma can_held:
  assumes "can r0 w L T S" and "acks_inv i0 r0" and "k \<in> held_set w L"
  shows "k < wd_next w"
proof -
  obtain r where r: "ack_reach r0 r" "ar_world r = w" "mset (ar_live r) = L"
    using assms(1) by (auto simp: can_def)
  have "acks_inv i0 r" by (rule acks_inv_reach [OF r(1) assms(2)])
  then show ?thesis using assms(3) r(2,3) by (auto simp: acks_inv_def parents_ok_def held_set_eq [symmetric])
qed

end
