(* ===== verification/Accounts.thy ===== *)
theory Accounts
  imports Flow
begin

text \<open>
  The accounts of each action of a goroutine (\<^verbatim>\<open>Dispatch\<close>): every outcome of
  \<^verbatim>\<open>dispatchFrom\<close>, of its branches, of an enqueue, of \<^verbatim>\<open>runTransform\<close>'s
  body and of \<^verbatim>\<open>dispatchTransformOutputs\<close> is a sequence of \<^verbatim>\<open>Ack\<close>'s
  operations, after which every message is owned by a later action or an edge, held as the parent of
  an open fan-out, acknowledged, or written to a disk log.
\<close>

section \<open>Who owns what\<close>

definition item_refs :: "edge_item list \<Rightarrow> mref list" where
  "item_refs its = concat (map (\<lambda>it. case it of MemMsg m \<Rightarrow> [m] | DiskMsg _ \<Rightarrow> []) its)"

text \<open>The messages in an edge buffer: in its channel, in the drainer's hand and on the way out.\<close>

definition buf_owns :: "edge_inbound \<Rightarrow> mref list" where
  "buf_owns e = eb_mem e @ item_refs (in_hand e) @ item_refs (eb_out e)"

definition bufs_own :: "edge_inbound list \<Rightarrow> mref list" where
  "bufs_own bufs = concat (map buf_owns bufs)"

lemma item_refs_append [simp]: "item_refs (xs @ ys) = item_refs xs @ item_refs ys"
  by (simp add: item_refs_def)

lemma item_refs_simps [simp]: "item_refs [] = []" "item_refs (MemMsg m # its) = m # item_refs its"
  "item_refs (DiskMsg d # its) = item_refs its"
  by (simp_all add: item_refs_def)

section \<open>Accounts of an edge\<close>

text \<open>
  What an operation with message \<open>m\<close> in hand does: everything is acknowledged, still in the
  buffer, still in hand, or gone to the disk log.
\<close>

definition enq_account :: "edge_inbound \<Rightarrow> mref \<Rightarrow> enq_outcome \<Rightarrow> bool" where
  "enq_account e m out \<longleftrightarrow>
     (case out of (acks, result, e') \<Rightarrow>
        \<exists>lost. mset (map fst acks) + mset (buf_owns e') + (if result = None then {#m#} else {#}) + lost
            = add_mset m (mset (buf_owns e)) \<and>
          (eb_disk e = None \<longrightarrow> lost = {#} \<and> eb_disk e' = None))"

lemma disk_append_owns:
  "disk_append ev e d m = (r, e') \<Longrightarrow> buf_owns e' = buf_owns e \<and> eb_disk e' \<noteq> None"
  by (auto simp: disk_append_def buf_owns_def in_hand_def split: prod.splits)

lemma mem_push_owns: "mset (buf_owns (mem_push e m)) = add_mset m (mset (buf_owns e)) \<and> eb_disk (mem_push e m) = eb_disk e"
  by (simp add: mem_push_def buf_owns_def in_hand_def)

lemma send_cases_account: "out \<in> set (send_cases ctx e m) \<Longrightarrow> enq_account e m out"
  using mem_push_owns [of e m] by (auto simp: send_cases_def enq_account_def split: option.splits if_splits)

lemma sendToMemory_account: "out \<in> set (sendToMemory ctx e m) \<Longrightarrow> enq_account e m out"
proof -
  assume o: "out \<in> set (sendToMemory ctx e m)"
  show ?thesis
  proof (cases "out \<in> set (send_cases ctx e m)")
    case True
    then show ?thesis by (rule send_cases_account)
  next
    case False
    then consider "out = ([(m, None)], Some (True, ''drop_newest'', None), e)"
      | old rest where "eb_mem e = old # rest"
        "out = ([(old, None)], Some (True, ''drop_oldest'', None), mem_push (e\<lparr>eb_mem := rest\<rparr>) m)"
      using o by (cases "eb_mem e") (auto simp: sendToMemory_def split: if_splits list.splits)
    then show ?thesis
      by cases (auto simp: enq_account_def mem_push_def buf_owns_def in_hand_def)
  qed
qed

lemma handleDiskFull_account:
  assumes "out \<in> set (handleDiskFull ev ctx e d m derr)" and "eb_disk e = Some d"
  shows "enq_account e m out"
proof -
  obtain r e' where da: "disk_append ev e d m = (r, e')" by (metis surj_pair)
  obtain x d1 where rd: "WAL_ReadNext (ev_nf ev) d = (x, d1)" by (metis surj_pair)
  obtain r2 e2 where da2: "disk_append ev (e\<lparr>eb_disk := Some d1\<rparr>) d1 m = (r2, e2)" by (metis surj_pair)
  have o1: "buf_owns e' = buf_owns e" using disk_append_owns [OF da] by blast
  have o2: "buf_owns e2 = buf_owns e" using disk_append_owns [OF da2] by (simp add: buf_owns_def in_hand_def)
  show ?thesis
    using assms o1 o2
    by (auto simp: handleDiskFull_def da rd da2 enq_account_def split: if_splits option.splits)
qed

lemma enq_account_lost:
  "mset (buf_owns e') = mset (buf_owns e) \<Longrightarrow> eb_disk e \<noteq> None \<Longrightarrow> enq_account e m ([], Some r, e')"
  by (auto simp: enq_account_def)

lemma Enqueue_account:
  assumes "out \<in> set (Enqueue ev ctx e m)"
  shows "enq_account e m out"
proof -
  have closed: "enq_account e m ([(m, Some Canceled)], Some (False, '''', Some Canceled), e)"
    by (simp add: enq_account_def)
  have push: "enq_account e m ([], Some (False, '''', None), mem_push e m)"
    using mem_push_owns [of e m] by (auto simp: enq_account_def)
  have disk: "enq_account e m out'"
    if d: "eb_disk e = Some d" and o: "out' \<in> set (case disk_append ev e d m of
        (None, e') \<Rightarrow> [([], Some (False, reason, None), e')]
      | (Some err, e') \<Rightarrow> (case eb_disk e' of None \<Rightarrow> [] | Some d' \<Rightarrow> handleDiskFull ev ctx e' d' m err))"
    for d reason out'
  proof -
    obtain r e' where da: "disk_append ev e d m = (r, e')" by (metis surj_pair)
    note A = disk_append_owns [OF da]
    show ?thesis
    proof (cases r)
      case None
      then have "out' = ([], Some (False, reason, None), e')" using o da by simp
      then show ?thesis using A d by (simp add: enq_account_lost)
    next
      case (Some err)
      then obtain d' where d': "eb_disk e' = Some d'" "out' \<in> set (handleDiskFull ev ctx e' d' m err)"
        using o da by (cases "eb_disk e'") auto
      from handleDiskFull_account [OF d'(2,1)] show ?thesis
        using A d by (auto simp: enq_account_def)
    qed
  qed
  show ?thesis
  proof (cases "eb_closed e")
    case True
    then show ?thesis using assms closed by (simp add: Enqueue_def)
  next
    case False
    show ?thesis
    proof (cases "eb_disk e")
      case None
      then show ?thesis using assms False push sendToMemory_account
        by (auto simp: Enqueue_def split: if_splits)
    next
      case (Some d)
      consider "eb_bufType e = ''disk''" | "eb_bufType e = ''overflow''" "\<not> mem_room e"
        | "eb_bufType e \<noteq> ''disk''" "eb_bufType e = ''overflow'' \<longrightarrow> mem_room e" by blast
      then show ?thesis
      proof cases
        case 1
        then show ?thesis using assms False Some disk [OF Some, where reason = "''''" and out' = out] by (simp add: Enqueue_def)
      next
        case 2
        then show ?thesis using assms False Some disk [OF Some, where reason = "''overflow_spill''" and out' = out] by (simp add: Enqueue_def)
      next
        case 3
        then show ?thesis using assms False Some push sendToMemory_account
          by (auto simp: Enqueue_def split: if_splits)
      qed
    qed
  qed
qed

lemma drain_account:
  assumes "(acks, e') \<in> set (drain_turn ev ctx e)"
  shows "mset (map fst acks) + mset (buf_owns e') = mset (buf_owns e) \<and> (eb_disk e = None \<longrightarrow> eb_disk e' = None)"
proof -
  have emit: "mset (map fst acks) + mset (buf_owns e') = mset (buf_owns e) \<and> (eb_disk e = None \<longrightarrow> eb_disk e' = None)"
    if "(acks, e') \<in> set (emit ctx e it)" "eb_drainer e = DrainEmit it" for it
    using that by (cases it) (auto simp: emit_def item_acks_def buf_owns_def in_hand_def split: option.splits if_splits)
  show ?thesis
  proof (cases "eb_drainer e")
    case DrainLoop
    obtain r e1 where r: "(case eb_disk e of None \<Rightarrow> (Inr None, e)
        | Some d \<Rightarrow> (case WAL_ReadNext (ev_nf ev) d of (r, d') \<Rightarrow> (r, e\<lparr>eb_disk := Some d'\<rparr>))) = (r, e1)"
      by (metis surj_pair)
    have e1: "buf_owns e1 = buf_owns e" "eb_drainer e1 = DrainLoop" "eb_mem e1 = eb_mem e" "eb_out e1 = eb_out e"
      "eb_disk e = None \<longrightarrow> eb_disk e1 = None"
      using r DrainLoop by (auto simp: buf_owns_def in_hand_def split: option.splits prod.splits)
    show ?thesis
    proof (cases "eb_mem e")
      case Nil
      then show ?thesis using assms e1 DrainLoop unfolding drain_turn_def r
        by (auto simp: buf_owns_def in_hand_def split: if_splits sum.splits option.splits)
    next
      case (Cons m rest)
      then have m: "eb_mem e1 = m # rest" using e1 by simp
      show ?thesis using assms e1 DrainLoop Cons m unfolding drain_turn_def r
        by (auto simp: buf_owns_def in_hand_def split: if_splits sum.splits option.splits)
    qed
  next
    case (DrainEmit it)
    then show ?thesis using assms emit by (simp add: drain_turn_def)
  next
    case DrainEnded
    then show ?thesis using assms by (simp add: drain_turn_def)
  qed
qed

section \<open>Accounts of an action\<close>

text \<open>The outputs of a transform that a branch is still due for, and the ones nobody holds yet.\<close>

definition due_tokens :: "world \<Rightarrow> mref list \<Rightarrow> string list \<Rightarrow> (string \<times> nat) list \<Rightarrow> nat list" where
  "due_tokens w outs passed aggs =
     concat (map (\<lambda>m. if ms_ID (wd_msgs w m) \<in> set passed then []
        else case map_of aggs (ms_ID (wd_msgs w m)) of None \<Rightarrow> [] | Some c \<Rightarrow> [c]) outs)"

definition due_outs :: "world \<Rightarrow> mref list \<Rightarrow> string list \<Rightarrow> mref list" where
  "due_outs w outs passed = filter (\<lambda>m. ms_ID (wd_msgs w m) \<notin> set passed) outs"

fun owns :: "act \<Rightarrow> mref list" where
  "owns (DispatchFrom _ m) = [m]"
| "owns (Branch _ _ _) = []"
| "owns (SendToInbound _ m) = [m]"
| "owns (AwaitDisk _ m) = [m]"
| "owns (TransformBatch _ ms) = ms"
| "owns (Process _ ms) = ms"
| "owns (OutInputs _ ins _ _ _ _) = ins"
| "owns (OutOutputs _ _ _ _) = []"

fun toks :: "world \<Rightarrow> act \<Rightarrow> nat list" where
  "toks w (Branch c _ _) = [c]"
| "toks w (OutInputs _ _ outs _ passed aggs) = due_tokens w outs passed aggs"
| "toks w (OutOutputs _ outs passed aggs) = due_tokens w outs passed aggs"
| "toks w _ = []"

fun resv :: "world \<Rightarrow> act \<Rightarrow> mref list" where
  "resv w (OutInputs _ ins outs _ passed _) = filter (\<lambda>m. m \<notin> set ins) (due_outs w outs passed)"
| "resv w (OutOutputs _ outs passed _) = due_outs w outs passed"
| "resv w _ = []"

text \<open>
  Well-formed actions: batches have one message, as the fan-in makes them, and the outputs of a
  transform are distinct and allocated.
\<close>

fun act_ok :: "nat \<Rightarrow> world \<Rightarrow> act \<Rightarrow> bool" where
  "act_ok nb w (AwaitDisk ptr _) = (ptr < nb)"
| "act_ok nb w (TransformBatch _ ms) = (length ms = 1)"
| "act_ok nb w (Process _ ms) = (length ms = 1)"
| "act_ok nb w (OutInputs _ ins outs ids passed aggs) =
     (distinct outs \<and> (\<forall>m \<in> set outs. m < wd_next w) \<and> ids = out_ids outs w \<and> length ins \<le> 1 \<and>
      (ins \<noteq> [] \<longrightarrow> passed = [] \<and> aggs = [] \<and> (outs = ins \<or> set outs \<inter> set ins = {})))"
| "act_ok nb w (OutOutputs _ outs passed aggs) = (distinct outs \<and> (\<forall>m \<in> set outs. m < wd_next w))"
| "act_ok nb w _ = True"

lemma frame_ID: "frame w w' \<Longrightarrow> m < wd_next w \<Longrightarrow> ms_ID (wd_msgs w' m) = ms_ID (wd_msgs w m)"
  by (simp add: frame_def)

lemma frame_outs:
  assumes "frame w w'" and "\<forall>m \<in> set outs. m < wd_next w"
  shows "due_tokens w' outs passed aggs = due_tokens w outs passed aggs"
    and "due_outs w' outs passed = due_outs w outs passed" and "out_ids outs w' = out_ids outs w"
    and "\<forall>m \<in> set outs. m < wd_next w'"
proof -
  have id: "\<And>m. m \<in> set outs \<Longrightarrow> ms_ID (wd_msgs w' m) = ms_ID (wd_msgs w m)"
    using assms frame_ID by blast
  show "due_tokens w' outs passed aggs = due_tokens w outs passed aggs"
    unfolding due_tokens_def by (intro arg_cong [where f = concat] map_cong) (simp_all add: id)
  show "due_outs w' outs passed = due_outs w outs passed"
    unfolding due_outs_def by (rule filter_cong) (simp_all add: id)
  show "out_ids outs w' = out_ids outs w" by (simp add: out_ids_def id)
  show "\<forall>m \<in> set outs. m < wd_next w'" using assms by (auto simp: frame_def)
qed

lemma frame_act_all:
  assumes "frame w w'" and "act_ok nb w a"
  shows "act_ok nb w' a \<and> toks w' a = toks w a \<and> resv w' a = resv w a"
proof (cases a)
  case (OutInputs sid ins outs ids passed aggs)
  then have "\<forall>m \<in> set outs. m < wd_next w" using assms(2) by simp
  note F = frame_outs [OF assms(1) this]
  show ?thesis using assms(2) F(4) unfolding OutInputs by (simp add: F(1-3))
next
  case (OutOutputs sid outs passed aggs)
  then have "\<forall>m \<in> set outs. m < wd_next w" using assms(2) by simp
  note F = frame_outs [OF assms(1) this]
  show ?thesis using assms(2) F(4) unfolding OutOutputs by (simp add: F(1-3))
qed (use assms(2) in simp_all)

lemma frame_act:
  assumes "frame w w'" and "act_ok nb w a"
  shows "act_ok nb w' a" and "toks w' a = toks w a" and "resv w' a = resv w a"
  using frame_act_all [OF assms] by blast+

text \<open>
  The outcome of an action is accounted for: the engine can come to the new world, what was owned
  is owned, held as a parent, acknowledged or lost to a disk log, and the branches due are those
  the new cells count.
\<close>

definition mem_only :: "edge_inbound list \<Rightarrow> bool" where
  "mem_only bufs \<longleftrightarrow> (\<forall>e \<in> set bufs. eb_disk e = None)"

definition accounted ::
  "ack_run \<Rightarrow> estate \<Rightarrow> mref multiset \<Rightarrow> nat multiset \<Rightarrow> (string \<times> mref \<times> bool) list \<Rightarrow> act \<Rightarrow> act list \<times> estate \<Rightarrow> bool" where
  "accounted r0 st L T S a out \<longleftrightarrow>
     (case (st, out) of ((w, bufs), (acts, (w', bufs'))) \<Rightarrow>
       \<exists>L' T' lost. can r0 w' L' T' S \<and> keeps w L w' L' (set (resv w a)) \<and>
         L' + mset (owns a) + mset (bufs_own bufs) = L + mset (concat (map owns acts)) + mset (bufs_own bufs') + lost \<and>
         T' + mset (toks w a) = T + mset (concat (map (toks w') acts)) \<and>
         (mem_only bufs \<longrightarrow> lost = {#} \<and> mem_only bufs') \<and> length bufs' = length bufs \<and>
         (\<forall>b \<in> set acts. act_ok (length bufs) w' b) \<and> distinct (concat (map (resv w') acts)) \<and>
         set (concat (map (resv w') acts)) \<subseteq> set (resv w a) \<union> {m. wd_next w \<le> m \<and> m < wd_next w'} \<and>
         set (concat (map (resv w') acts)) \<inter> held_set w' L' = {})"

text \<open>An action that changes no edge and reserves nothing new.\<close>

lemma accountedI:
  assumes "can r0 w' L' T' S" and "keeps w L w' L' (set (resv w a))"
    and "L' + mset (owns a) = L + mset (concat (map owns acts))"
    and "T' + mset (toks w a) = T + mset (concat (map (toks w') acts))"
    and "\<forall>b \<in> set acts. act_ok (length bufs) w' b" and "distinct (concat (map (resv w') acts))"
    and "set (concat (map (resv w') acts)) \<subseteq> set (resv w a) \<union> {m. wd_next w \<le> m \<and> m < wd_next w'}"
    and "set (concat (map (resv w') acts)) \<inter> held_set w' L' = {}"
  shows "accounted r0 (w, bufs) L T S a (acts, (w', bufs))"
  unfolding accounted_def prod.case
  by (intro exI [of _ L'] exI [of _ T'] exI [of _ "{#}"] conjI) (use assms in \<open>simp_all add: ac_simps\<close>)

lemma accounted_ack:
  assumes "can r0 w L T S" and "owns a = [m]" and "m \<in># L" and "toks w a = []" and "data_step w w1"
  shows "accounted r0 (w, bufs) L T S a ([], (Ack m err w1, bufs))"
proof (rule accountedI)
  show "can r0 (Ack m err w1) (L - {#m#}) T S" by (rule can_ack [OF can_data [OF assms(1,5)] assms(3)])
  have "keeps w L (Ack m err w1) (L - {#m#}) (set (resv w a) \<union> set (resv w a))"
    by (rule keeps_trans [OF keeps_data [OF assms(5)] keeps_Ack])
  then show "keeps w L (Ack m err w1) (L - {#m#}) (set (resv w a))" by simp
  show "L - {#m#} + mset (owns a) = L + mset (concat (map owns []))" using assms(2,3) by simp
qed (use assms(4) in simp_all)

section \<open>Each action is accounted for\<close>

text \<open>What the engine relies on, stated of a pipeline.\<close>

definition quiet_conditions :: "('p, 'x) pipeline \<Rightarrow> bool" where
  "quiet_conditions p \<longleftrightarrow>
     (\<forall>fromID. \<forall>e \<in> set (rg_outgoing (pl_graph p) fromID).
        ei_Condition e = '''' \<or> \<not> ei_Required e \<or> errorModeForStage p fromID \<noteq> errModePropagate)"

text \<open>
  The contract of a transform for one message: it changes content only, and gives back the message
  itself, or new messages.
\<close>

definition process_ok :: "(mref list \<Rightarrow> world \<Rightarrow> mref list res \<times> world) \<Rightarrow> bool" where
  "process_ok process \<longleftrightarrow>
     (\<forall>m w. m < wd_next w \<longrightarrow>
        (case process [m] w of
           (Inl err, w') \<Rightarrow> data_step w w'
         | (Inr outs, w') \<Rightarrow> data_step w w' \<and>
             (outs = [m] \<or> distinct outs \<and> (\<forall>k \<in> set outs. wd_next w \<le> k \<and> k < wd_next w'))))"

definition transforms_ok :: "('p, 'x) pipeline \<Rightarrow> bool" where
  "transforms_ok p \<longleftrightarrow>
     (\<forall>(sid, st) \<in> set (pl_stages p). case sg_role st of TransformRole process \<Rightarrow> process_ok process | _ \<Rightarrow> True)"

definition buffers_ok :: "('p, 'x) pipeline \<Rightarrow> nat \<Rightarrow> bool" where
  "buffers_ok p nb \<longleftrightarrow> (\<forall>(key, ptr) \<in> set (rg_edgeInbounds (pl_graph p)). ptr < nb)"

lemma ensureParsed_data: "data_step w (snd (ensureParsed p m w))"
  by (auto simp: ensureParsed_def Let_def SetParsedData_def data_step_def upd_msg_def split: option.splits sum.splits)

lemma evalCondition_data: "data_step w (snd (evalCondition p ev prg m w))"
  using ensureParsed_data [of w p m] by (auto simp: evalCondition_def split: option.splits prod.splits)

lemma match_loop_data:
  assumes "\<forall>e \<in> set es. ei_Condition e = '''' \<or> \<not> ei_Required e \<or> errorModeForStage p fromID \<noteq> errModePropagate"
  shows "\<exists>matched' w'. match_loop p ev fromID m es matched w = (Some matched', w') \<and> data_step w w'"
  using assms
proof (induction es arbitrary: matched w)
  case (Cons e es)
  note IH = Cons.IH [OF ballI [OF Cons.prems [rule_format]]]
  have IH: "\<exists>matched' w'. match_loop p ev fromID m es mt u = (Some matched', w') \<and> data_step u w'" for mt u
    using Cons by simp
  show ?case
  proof (cases "ei_Condition e = ''''")
    case True
    then show ?thesis using IH by simp
  next
    case False
    obtain r w1 where ec: "evalCondition p ev (edge_condition p fromID e) m w = (r, w1)" by (metis surj_pair)
    have d: "data_step w w1" using evalCondition_data [of w p ev _ m] ec by (metis snd_conv)
    have rest: "\<exists>matched' w'. match_loop p ev fromID m es mt w1 = (Some matched', w') \<and> data_step w w'" for mt
      using IH [of mt w1] data_step_trans [OF d] by blast
    show ?thesis
    proof (cases r)
      case (Inl err)
      show ?thesis
      proof (cases rule: handleEvalError_cases [of p fromID err])
        case swallow
        then show ?thesis using False ec Inl rest by simp
      next
        case raise
        then have "\<not> ei_Required e" using Cons.prems False by simp
        then show ?thesis using False ec Inl rest raise by simp
      qed
    next
      case (Inr ok)
      then show ?thesis using False ec rest by simp
    qed
  qed
qed simp

lemma dispatchFrom_accounted:
  assumes can: "can r0 w L T S" and m: "m \<in># L" and q: "quiet_conditions p"
    and d: "dispatchFrom p ev fromID m w = (acts, w')"
  shows "accounted r0 (w, bufs) L T S (DispatchFrom fromID m) (acts, (w', bufs))"
proof -
  let ?es = "rg_outgoing (pl_graph p) fromID"
  obtain matched w1 where ml: "match_loop p ev fromID m ?es [] w = (Some matched, w1)" and w1: "data_step w w1"
    using match_loop_data [of ?es p fromID ev m "[]" w] q by (auto simp: quiet_conditions_def)
  have ack: "accounted r0 (w, bufs) L T S (DispatchFrom fromID m) ([], (Ack m None u, bufs))" if "data_step w u" for u
    by (rule accounted_ack [OF can _ m _ that]) simp_all
  show ?thesis
  proof (cases "?es = [] \<or> matched = []")
    case True
    then have "acts = [] \<and> (w' = Ack m None w \<or> w' = Ack m None w1)"
      using d ml by (auto simp: dispatchFrom_def matchEdges_def Let_def split: if_splits)
    then show ?thesis using ack [OF w1] ack [OF data_step_refl] by blast
  next
    case False
    obtain c w2 where nc: "new_cell (int (length matched)) m w1 = (c, w2)" by (metis surj_pair)
    have out: "acts = map (Branch c m) matched" "w' = w2"
      using d ml False nc by (auto simp: dispatchFrom_def matchEdges_def Let_def)
    have n: "0 < length matched" using False by simp
    have can2: "can r0 w2 (L - {#m#}) (T + replicate_mset (length matched) c) S"
      by (rule can_fan [OF can_data [OF can w1] m n nc])
    have tk: "concat (map (toks w2) (map (Branch c m) matched)) = replicate (length matched) c"
      by (induction matched) simp_all
    have ow: "concat (map owns (map (Branch c m) matched)) = []" "concat (map (resv w2) (map (Branch c m) matched)) = []"
      "\<forall>b \<in> set (map (Branch c m) matched). act_ok (length bufs) w2 b"
      by (induction matched) simp_all
    show ?thesis
      unfolding out
    proof (rule accountedI [OF can2])
      have "keeps w L w2 (L - {#m#}) (set (resv w (DispatchFrom fromID m)) \<union> {})"
        by (rule keeps_trans [OF keeps_data [OF w1] keeps_new_cell [OF nc m]])
      then show "keeps w L w2 (L - {#m#}) (set (resv w (DispatchFrom fromID m)))" by simp
      show "T + replicate_mset (length matched) c + mset (toks w (DispatchFrom fromID m)) =
          T + mset (concat (map (toks w2) (map (Branch c m) matched)))"
        unfolding tk by simp
      show "L - {#m#} + mset (owns (DispatchFrom fromID m)) = L + mset (concat (map owns (map (Branch c m) matched)))"
        unfolding ow using m by simp
    qed (simp_all only: ow, simp_all)
  qed
qed


lemma keeps_weaken: "keeps w L w' L' N \<Longrightarrow> N \<subseteq> M \<union> {m. wd_next w \<le> m} \<Longrightarrow> keeps w L w' L' M"
  by (auto simp: keeps_def)

lemma branch_accounted:
  assumes can: "can r0 w L T S" and c: "c \<in># T" and f: "fan_child c m w = (child, w')"
    and held: "\<forall>k \<in> held_set w L. k < wd_next w"
  shows "accounted r0 (w, bufs) L T S (Branch c m e) ([SendToInbound e child], (w', bufs))"
proof (rule accountedI [OF can_child [OF can c f held]])
  have d: "data_step w w'" using f unfolding fan_child_def by (rule data_step_new_msg)
  have "child = wd_next w" using f by (auto simp: fan_child_def new_msg_def)
  then show "keeps w L w' (add_mset child L) (set (resv w (Branch c m e)))"
    by (intro keeps_weaken [OF keeps_trans [OF keeps_data [OF d, where N = "{}"] keeps_add]]) simp
qed (use c in simp_all)

lemma bufs_own_update:
  assumes "ptr < length bufs"
  shows "mset (bufs_own (bufs[ptr := e'])) + mset (buf_owns (bufs ! ptr)) = mset (bufs_own bufs) + mset (buf_owns e')"
proof -
  have "bufs = take ptr bufs @ bufs ! ptr # drop (Suc ptr) bufs" using assms by (rule id_take_nth_drop)
  then have "mset (bufs_own bufs) = mset (bufs_own (take ptr bufs)) + mset (buf_owns (bufs ! ptr)) + mset (bufs_own (drop (Suc ptr) bufs))"
    by (metis (no_types, lifting) bufs_own_def concat.simps(2) concat_append list.simps(9) map_append mset_append add.assoc)
  moreover have "mset (bufs_own (bufs[ptr := e'])) = mset (bufs_own (take ptr bufs)) + mset (buf_owns e') + mset (bufs_own (drop (Suc ptr) bufs))"
    using assms by (simp add: upd_conv_take_nth_drop bufs_own_def)
  ultimately show ?thesis by (simp add: ac_simps)
qed

lemma mem_only_update:
  "mem_only bufs \<Longrightarrow> ptr < length bufs \<Longrightarrow> (eb_disk (bufs ! ptr) = None \<longrightarrow> eb_disk e' = None) \<Longrightarrow> mem_only (bufs[ptr := e'])"
  by (auto simp: mem_only_def dest!: set_update_subset_insert [THEN subsetD])

lemma edge_arith:
  fixes A :: "mref multiset"
  assumes "A + O' + R + X = M + O1" and "B' + O1 = B + O'" and "A \<subseteq># L"
  shows "L - A + M + B = L + R + B' + X"
proof -
  obtain K where K: "L = A + K" using assms(3) by (auto simp: mset_subset_eq_exists_conv)
  have "K + M + B + O1 = K + B + (A + O' + R + X)" using assms(1) by (simp add: ac_simps)
  also have "\<dots> = K + A + R + X + (B + O')" by (simp add: ac_simps)
  also have "\<dots> = K + A + R + X + (B' + O1)" using assms(2) by simp
  finally have "K + M + B + O1 = K + A + R + B' + X + O1" by (simp add: ac_simps)
  then have "K + M + B = K + A + R + B' + X" by simp
  then show ?thesis unfolding K by (simp add: ac_simps)
qed

lemma enqueue_accounted:
  assumes can: "can r0 w L T S" and own: "mset (owns a) + mset (bufs_own bufs) \<subseteq># L" and ptr: "ptr < length bufs"
    and a: "owns a = [m]" "toks w a = []" "resv w a = []"
    and outs: "out \<in> set (enqueue_outcomes ptr m (w, bufs) os)" and acc: "\<forall>oc \<in> set os. enq_account (bufs ! ptr) m oc"
  shows "accounted r0 (w, bufs) L T S a out"
proof -
  obtain acks result e' where oc: "(acks, result, e') \<in> set os"
    and out: "out = (case result of None \<Rightarrow> [AwaitDisk ptr m] | Some _ \<Rightarrow> [], (ack_all acks w, bufs[ptr := e']))"
    using outs by (auto simp: enqueue_outcomes_def)
  define R where "R = (if result = None then {#m#} else {#})"
  obtain lost where lost: "mset (map fst acks) + mset (buf_owns e') + R + lost = add_mset m (mset (buf_owns (bufs ! ptr)))"
    "eb_disk (bufs ! ptr) = None \<longrightarrow> lost = {#} \<and> eb_disk e' = None"
    using acc oc by (auto simp: enq_account_def R_def)
  have sub: "mset (map fst acks) \<subseteq># L"
  proof -
    have "mset (map fst acks) \<subseteq># add_mset m (mset (buf_owns (bufs ! ptr)))"
      unfolding lost(1) [symmetric] by (simp add: add.assoc)
    moreover have "mset (buf_owns (bufs ! ptr)) \<subseteq># mset (bufs_own bufs)"
      using bufs_own_update [OF ptr, of "(bufs ! ptr)\<lparr>eb_mem := [], eb_out := [], eb_drainer := DrainLoop\<rparr>"]
      by (simp add: buf_owns_def in_hand_def) (metis mset_subset_eq_add_right)
    ultimately have "mset (map fst acks) \<subseteq># add_mset m (mset (bufs_own bufs))"
      by (meson mset_subset_eq_add_mset_cancel subset_mset.order_trans)
    then show ?thesis using own a(1) subset_mset.order_trans by fastforce
  qed
  have eq: "L - mset (map fst acks) + {#m#} + mset (bufs_own bufs) = L + R + mset (bufs_own (bufs[ptr := e'])) + lost"
    by (rule edge_arith [OF _ bufs_own_update [OF ptr] sub]) (use lost(1) in simp)
  let ?acts = "case result of None \<Rightarrow> [AwaitDisk ptr m] | Some _ \<Rightarrow> []"
  have acts: "mset (concat (map owns ?acts)) = R" "concat (map (toks u) ?acts) = []" "concat (map (resv u) ?acts) = []"
    "\<forall>b \<in> set ?acts. act_ok (length bufs) u b" for u
    using ptr by (auto simp: R_def split: option.splits)
  show ?thesis
    unfolding accounted_def out prod.case
  proof (intro exI conjI)
    show "can r0 (ack_all acks w) (L - mset (map fst acks)) T S" by (rule can_ack_all [OF can sub])
    show "keeps w L (ack_all acks w) (L - mset (map fst acks)) (set (resv w a))" by (rule keeps_ack_all)
    show "L - mset (map fst acks) + mset (owns a) + mset (bufs_own bufs) = L + mset (concat (map owns ?acts))
        + mset (bufs_own (bufs[ptr := e'])) + lost"
      unfolding acts using eq a(1) by simp
    show "mem_only bufs \<longrightarrow> lost = {#} \<and> mem_only (bufs[ptr := e'])"
      using lost(2) ptr mem_only_update [of bufs ptr e'] by (auto simp: mem_only_def)
  qed (simp_all only: acts a, simp_all add: acts ptr)
qed

lemma sendToInbound_accounted:
  assumes can: "can r0 w L T S" and own: "mset (owns (SendToInbound e m)) + mset (bufs_own bufs) \<subseteq># L"
    and b: "buffers_ok p (length bufs)" and out: "out \<in> set (sendToInbound p env ctx e m (w, bufs))"
  shows "accounted r0 (w, bufs) L T S (SendToInbound e m) out"
proof (cases "map_of (rg_edgeInbounds (pl_graph p)) (edgeKey (ei_From e) (ei_To e))")
  case None
  have "m \<in># L" using own by (simp add: insert_subset_eq_iff)
  then show ?thesis
    using out None accounted_ack [OF can _ _ _ data_step_refl, of "SendToInbound e m" m] by (simp add: sendToInbound_def)
next
  case (Some ptr)
  then have ptr: "ptr < length bufs" using b map_of_SomeD [OF Some] by (auto simp: buffers_ok_def)
  show ?thesis
    by (rule enqueue_accounted [OF can own ptr]) (use out Some Enqueue_account in \<open>auto simp: sendToInbound_def\<close>)
qed

lemma await_disk_accounted:
  assumes can: "can r0 w L T S" and own: "mset (owns (AwaitDisk ptr m)) + mset (bufs_own bufs) \<subseteq># L"
    and ptr: "ptr < length bufs" and out: "out \<in> set (await_disk env ctx ptr m (w, bufs))"
  shows "accounted r0 (w, bufs) L T S (AwaitDisk ptr m) out"
proof -
  obtain d where d: "eb_disk (bufs ! ptr) = Some d"
    using out by (cases "eb_disk (bufs ! ptr)") (auto simp: await_disk_def)
  show ?thesis
    by (rule enqueue_accounted [OF can own ptr])
      (use out d handleDiskFull_account [OF _ d] in \<open>auto simp: await_disk_def\<close>)
qed


lemma ackMessageError_Ack: "\<exists>e. ackMessageError p sid m err w = Ack m e w"
  by (auto simp: ackMessageError_def split: prod.splits)

lemma ackBatchError_Ack: "\<exists>e. ackBatchError p sid [m] err w = Ack m e w"
  by (auto simp: ackBatchError_def split: prod.splits)

lemma classify_single:
  obtains (acked) w1 e where "classify_batch p ev sid pr [m] w = ([], [], Ack m e w1)" "data_step w w1"
  | (filtered) w1 where "classify_batch p ev sid pr [m] w = ([m], [], w1)" "data_step w w1"
  | (passed) w1 where "classify_batch p ev sid pr [m] w = ([], [m], w1)" "data_step w w1"
proof -
  obtain r w1 where ep: "ensureParsed p m w = (r, w1)" by (metis surj_pair)
  have d1: "data_step w w1" using ensureParsed_data [of w p m] ep by simp
  obtain q w2 where ec: "(if pr = None then (Inr True, w1) else evalCondition p ev pr m w1) = (q, w2)" by (metis surj_pair)
  have d2: "data_step w w2"
    using ec data_step_trans [OF d1] evalCondition_data [of w1 p ev pr m] by (cases "pr = None") auto
  show thesis
  proof (cases r)
    case (Some err)
    obtain e where "ackMessageError p sid m (Some err) w1 = Ack m e w1" using ackMessageError_Ack by blast
    then show thesis using acked [of e w1] d1 ep Some by simp
  next
    case None
    show thesis
    proof (cases q)
      case (Inl err)
      obtain e where "ackMessageError p sid m (Some err) w2 = Ack m e w2" using ackMessageError_Ack by blast
      then show thesis using acked [of e w2] d2 ep None ec Inl by simp
    next
      case (Inr ok)
      then show thesis using filtered [of w2] passed [of w2] d2 ep None ec by (cases ok) auto
    qed
  qed
qed

lemma transform_batch_accounted:
  assumes can: "can r0 w L T S" and m: "m \<in># L"
    and out: "runTransform_batch p ev sid [m] w = (acts, w')"
  shows "accounted r0 (w, bufs) L T S (TransformBatch sid [m]) (acts, (w', bufs))"
proof -
  define pr where "pr = (case map_of (rg_nodes (pl_graph p)) sid of None \<Rightarrow> None | Some n \<Rightarrow> rn_predicate n)"
  have o: "(case classify_batch p ev sid pr [m] w of (filtered, passThrough, w') \<Rightarrow>
      (map (DispatchFrom sid) passThrough @ (if filtered = [] then [] else [Process sid filtered]), w')) = (acts, w')"
    using out by (simp add: runTransform_batch_def pr_def Let_def)
  show ?thesis
  proof (cases rule: classify_single [of p ev sid pr m w])
    case (acked w1 e)
    then have "acts = [] \<and> w' = Ack m e w1" using o by simp
    then show ?thesis using accounted_ack [OF can _ m _ acked(2), of "TransformBatch sid [m]"] by simp
  next
    case (filtered w1)
    then have a: "acts = [Process sid [m]]" "w' = w1" using o by auto
    show ?thesis unfolding a
      by (rule accountedI [OF can_data [OF can filtered(2)] keeps_data [OF filtered(2)]]) simp_all
  next
    case (passed w1)
    then have a: "acts = [DispatchFrom sid m]" "w' = w1" using o by auto
    show ?thesis unfolding a
      by (rule accountedI [OF can_data [OF can passed(2)] keeps_data [OF passed(2)]]) simp_all
  qed
qed

lemma due_tokens_none [simp]: "due_tokens w outs passed [] = []"
  by (simp add: due_tokens_def concat_eq_Nil_conv cong: if_cong)

lemma due_outs_none [simp]: "due_outs w outs [] = outs"
  by (simp add: due_outs_def)

lemma process_accounted:
  assumes can: "can r0 w L T S" and m: "m \<in># L" and held: "\<forall>k \<in> held_set w L. k < wd_next w"
    and t: "transforms_ok p" and out: "process_batch p sid [m] w = Some (acts, w')"
  shows "accounted r0 (w, bufs) L T S (Process sid [m]) (acts, (w', bufs))"
proof -
  obtain st process where st: "map_of (pl_stages p) sid = Some st" "sg_role st = TransformRole process"
    using out by (auto simp: process_batch_def split: option.splits stage_role.splits)
  have ok: "process_ok process" using t map_of_SomeD [OF st(1)] st(2) by (auto simp: transforms_ok_def)
  have mn: "m < wd_next w" using held m by (simp add: held_set_def)
  obtain r w1 where pr: "process [m] w = (r, w1)" by (metis surj_pair)
  show ?thesis
  proof (cases r)
    case (Inl err)
    then have d: "data_step w w1" using ok mn pr unfolding process_ok_def by fastforce
    obtain e where "ackBatchError p sid [m] (Some err) w1 = Ack m e w1" using ackBatchError_Ack by blast
    then have "acts = [] \<and> w' = Ack m e w1" using out st pr Inl by (auto simp: process_batch_def)
    then show ?thesis using accounted_ack [OF can _ m _ d, of "Process sid [m]"] by simp
  next
    case (Inr outs)
    then have d: "data_step w w1"
      and o: "outs = [m] \<or> distinct outs \<and> (\<forall>k \<in> set outs. wd_next w \<le> k \<and> k < wd_next w1)"
      using ok mn pr unfolding process_ok_def by fastforce+
    have a: "acts = [OutInputs sid [m] outs (out_ids outs w1) [] []]" "w' = w1"
      using out st pr Inr by (auto simp: process_batch_def)
    have next1: "wd_next w \<le> wd_next w1" using d by (simp add: data_step_def)
    have h: "held_set w1 L \<subseteq> {k. k < wd_next w}"
    proof -
      have "wd_cells w1 = wd_cells w" using d by (simp add: data_step_def)
      then have "held_set w1 L = held_set w L" by (simp add: held_set_def open_cell_def)
      then show ?thesis using held by auto
    qed
    show ?thesis unfolding a
    proof (rule accountedI [OF can_data [OF can d] keeps_data [OF d]])
      show "\<forall>b \<in> set [OutInputs sid [m] outs (out_ids outs w1) [] []]. act_ok (length bufs) w1 b"
        using o mn next1 by auto
      have r: "concat (map (resv w1) [OutInputs sid [m] outs (out_ids outs w1) [] []]) = filter (\<lambda>k. k \<noteq> m) outs" by simp
      show "distinct (concat (map (resv w1) [OutInputs sid [m] outs (out_ids outs w1) [] []]))" using o unfolding r by auto
      show "set (concat (map (resv w1) [OutInputs sid [m] outs (out_ids outs w1) [] []]))
          \<subseteq> set (resv w (Process sid [m])) \<union> {k. wd_next w \<le> k \<and> k < wd_next w1}" using o unfolding r by auto
      show "set (concat (map (resv w1) [OutInputs sid [m] outs (out_ids outs w1) [] []])) \<inter> held_set w1 L = {}"
        using o h unfolding r by fastforce
    qed simp_all
  qed
qed

lemma due_tokens_single:
  "due_tokens w outs [] [(mid, c)] = replicate (count_list (out_ids outs w) mid) c"
proof (induction outs)
  case (Cons k outs)
  then show ?case by (auto simp: due_tokens_def out_ids_def replicate_append_same [symmetric])
qed (simp add: due_tokens_def out_ids_def)

lemma out_input_accounted:
  assumes can: "can r0 w L T S" and m: "m \<in># L"
    and ok: "act_ok (length bufs) w (OutInputs sid [m] outs ids passed aggs)"
    and rs: "distinct (resv w (OutInputs sid [m] outs ids passed aggs))"
      "\<forall>k \<in> set (resv w (OutInputs sid [m] outs ids passed aggs)). k < wd_next w \<and> k \<notin> held_set w L"
    and out: "out_input sid m [] outs ids passed aggs w = (acts, w')"
  shows "accounted r0 (w, bufs) L T S (OutInputs sid [m] outs ids passed aggs) (acts, (w', bufs))"
proof -
  let ?mid = "ms_ID (wd_msgs w m)"
  have p: "passed = []" "aggs = []" "ids = out_ids outs w" "distinct outs" "\<forall>k \<in> set outs. k < wd_next w"
    and alt: "outs = [m] \<or> m \<notin> set outs" using ok by auto
  have r0: "resv w (OutInputs sid [m] outs ids passed aggs) = filter (\<lambda>k. k \<noteq> m) outs" using p by simp
  show ?thesis
  proof (cases "count_list ids ?mid = 0")
    case True
    then have a: "acts = [OutInputs sid [] outs ids passed aggs]" "w' = Ack m None w"
      using out by (simp_all add: out_input_def Let_def)
    have "m \<notin> set outs" using True p(3) alt by (auto simp: out_ids_def)
    then have r: "filter (\<lambda>k. k \<noteq> m) outs = outs" by (auto simp: filter_id_conv)
    have k: "keeps w L (Ack m None w) (L - {#m#}) (set (resv w (OutInputs sid [m] outs ids passed aggs)))"
      by (rule keeps_Ack)
    show ?thesis unfolding a
    proof (rule accountedI [OF can_ack [OF can m] k])
      show "set (concat (map (resv (Ack m None w)) [OutInputs sid [] outs ids passed aggs])) \<inter> held_set (Ack m None w) (L - {#m#}) = {}"
        using held_Ack [of m None w L] rs(2) p unfolding r0 r by auto
    qed (use m p r in \<open>simp_all add: out_ids_def\<close>)
  next
    case False
    show ?thesis
    proof (cases "m \<in> set outs")
      case True
      then have o: "outs = [m]" using alt by blast
      have "out_input sid m [] outs ids passed aggs w = ([DispatchFrom sid m, OutInputs sid [] outs ids [?mid] aggs], w)"
        using p by (simp add: o out_input_def Let_def out_ids_def)
      then have a: "acts = [DispatchFrom sid m, OutInputs sid [] outs ids [?mid] aggs]" "w' = w"
        using out by (metis Pair_inject)+
      show ?thesis unfolding a
        by (rule accountedI [OF can keeps_refl]) (use o p in \<open>simp_all add: due_outs_def out_ids_def\<close>)
    next
      case notin: False
      then have r: "filter (\<lambda>k. k \<noteq> m) outs = outs" by (auto simp: filter_id_conv)
      obtain c w1 where nc: "new_cell (int (count_list ids ?mid)) m w = (c, w1)" by (metis surj_pair)
      have a: "acts = [OutInputs sid [] outs ids [] [(?mid, c)]]" "w' = w1"
        using out nc False notin p by (auto simp: out_input_def Let_def)
      have w1: "wd_msgs w1 = wd_msgs w" "wd_next w1 = wd_next w" using nc by (auto simp: new_cell_def)
      have id1: "out_ids outs w1 = out_ids outs w" by (simp add: out_ids_def w1)
      have k: "keeps w L w1 (L - {#m#}) (set (resv w (OutInputs sid [m] outs ids passed aggs)))"
        by (rule keeps_new_cell [OF nc m])
      have can1: "can r0 w1 (L - {#m#}) (T + replicate_mset (count_list ids ?mid) c) S"
        by (rule can_fan [OF can m _ nc]) (use False in simp)
      have h: "held_set w1 (L - {#m#}) \<subseteq> held_set w L"
        by (rule held_new_cell [OF nc m])
      show ?thesis unfolding a
      proof (rule accountedI [OF can1 k])
        show "T + replicate_mset (count_list ids ?mid) c + mset (toks w (OutInputs sid [m] outs ids passed aggs))
            = T + mset (concat (map (toks w1) [OutInputs sid [] outs ids [] [(?mid, c)]]))"
          using p(3) by (simp add: p(1,2) due_tokens_single id1)
        show "set (concat (map (resv w1) [OutInputs sid [] outs ids [] [(?mid, c)]])) \<inter> held_set w1 (L - {#m#}) = {}"
          using h rs(2) unfolding r0 r by auto
      qed (use m p r w1 id1 in simp_all)
    qed
  qed
qed

lemma out_output_accounted:
  assumes can: "can r0 w L T S"
    and ok: "act_ok (length bufs) w (OutOutputs sid (k # os) passed aggs)"
    and tk: "mset (toks w (OutOutputs sid (k # os) passed aggs)) \<subseteq># T"
    and rs: "\<forall>i \<in> set (resv w (OutOutputs sid (k # os) passed aggs)). i < wd_next w \<and> i \<notin> held_set w L"
    and out: "out_output sid k os passed aggs w = (acts, w')"
  shows "accounted r0 (w, bufs) L T S (OutOutputs sid (k # os) passed aggs) (acts, (w', bufs))"
proof -
  let ?id = "ms_ID (wd_msgs w k)"
  have d: "distinct (k # os)" "\<forall>i \<in> set (k # os). i < wd_next w" using ok by auto
  have sub: "set (due_outs w os passed) \<subseteq> set os" by (auto simp: due_outs_def)
  have du: "distinct (due_outs w os passed)" using d by (simp add: due_outs_def)
  show ?thesis
  proof (cases "?id \<in> set passed \<or> map_of aggs ?id = None")
    case True
    then have a: "acts = [OutOutputs sid os passed aggs]" "w' = w"
      using out by (auto simp: out_output_def Let_def split: option.splits)
    have t: "toks w (OutOutputs sid (k # os) passed aggs) = toks w (OutOutputs sid os passed aggs)"
      using True by (auto simp: due_tokens_def)
    have r: "set (resv w (OutOutputs sid os passed aggs)) \<subseteq> set (resv w (OutOutputs sid (k # os) passed aggs))"
      by (auto simp: due_outs_def)
    show ?thesis unfolding a
      by (rule accountedI [OF can keeps_refl]) (use t r rs d du in auto)
  next
    case False
    then obtain c where c: "map_of aggs ?id = Some c" "?id \<notin> set passed" by auto
    let ?w = "upd_msg k (SetAckFn [HChild c]) w"
    have a: "acts = [DispatchFrom sid k, OutOutputs sid os passed aggs]" "w' = ?w"
      using out c by (auto simp: out_output_def Let_def)
    have f: "frame w ?w" by (auto simp: frame_def upd_msg_def SetAckFn_def)
    note F = frame_outs [OF f, of os]
    have cell: "wd_cells ?w = wd_cells w" by (simp add: upd_msg_def)
    have hs: "held_set ?w (add_mset k L) = insert k (held_set w L)"
      by (auto simp: held_set_def cell open_cell_cong [OF cell])
    have kr: "k \<in> set (resv w (OutOutputs sid (k # os) passed aggs))" using c by (simp add: due_outs_def)
    have kk: "k < wd_next w" "k \<notin> held_set w L" using rs kr by auto
    have t: "toks w (OutOutputs sid (k # os) passed aggs) = c # toks w (OutOutputs sid os passed aggs)"
      using c by (simp add: due_tokens_def)
    have ct: "c \<in># T" using tk unfolding t by (simp add: insert_subset_eq_iff)
    have id: "due_tokens ?w os passed aggs = due_tokens w os passed aggs" "due_outs ?w os passed = due_outs w os passed"
      using F d by auto
    show ?thesis unfolding a
    proof (rule accountedI [OF can_adopt [OF can ct kk]])
      show "keeps w L ?w (add_mset k L) (set (resv w (OutOutputs sid (k # os) passed aggs)))"
        using f kr by (auto simp: keeps_def hs)
      show "T - {#c#} + mset (toks w (OutOutputs sid (k # os) passed aggs))
          = T + mset (concat (map (toks ?w) [DispatchFrom sid k, OutOutputs sid os passed aggs]))"
        unfolding t using ct by (simp add: id)
      show "\<forall>b \<in> set [DispatchFrom sid k, OutOutputs sid os passed aggs]. act_ok (length bufs) ?w b"
        using d by (simp add: upd_msg_def)
      show "set (concat (map (resv ?w) [DispatchFrom sid k, OutOutputs sid os passed aggs])) \<inter> held_set ?w (add_mset k L) = {}"
      proof -
        have "set (due_outs w os passed) \<subseteq> set (resv w (OutOutputs sid (k # os) passed aggs))"
          by (auto simp: due_outs_def)
        then have "set (due_outs w os passed) \<inter> held_set w L = {}" using rs by blast
        moreover have "k \<notin> set (due_outs w os passed)" using d sub by auto
        ultimately show ?thesis by (simp add: id hs)
      qed
      show "set (concat (map (resv ?w) [DispatchFrom sid k, OutOutputs sid os passed aggs]))
          \<subseteq> set (resv w (OutOutputs sid (k # os) passed aggs)) \<union> {m. wd_next w \<le> m \<and> m < wd_next ?w}"
        unfolding list.map concat.simps set_append resv.simps id by (auto simp: due_outs_def)
    qed (use du in \<open>simp_all add: id\<close>)
  qed
qed


definition act_valid :: "world \<Rightarrow> edge_inbound list \<Rightarrow> mref multiset \<Rightarrow> nat multiset \<Rightarrow> act \<Rightarrow> bool" where
  "act_valid w bufs L T a \<longleftrightarrow>
     act_ok (length bufs) w a \<and> mset (owns a) + mset (bufs_own bufs) \<subseteq># L \<and> mset (toks w a) \<subseteq># T \<and>
     distinct (resv w a) \<and> (\<forall>k \<in> set (resv w a). k < wd_next w \<and> k \<notin> held_set w L)"

definition engine_ok :: "('p, 'x) pipeline \<Rightarrow> nat \<Rightarrow> bool" where
  "engine_ok p nb \<longleftrightarrow> quiet_conditions p \<and> transforms_ok p \<and> buffers_ok p nb"

text \<open>Every outcome of every action is accounted for.\<close>

lemma exec_accounted:
  assumes can: "can r0 w L T S" and held: "\<forall>k \<in> held_set w L. k < wd_next w"
    and v: "act_valid w bufs L T a" and e: "engine_ok p (length bufs)"
    and out: "out \<in> set (exec p ev env ctx a (w, bufs))"
  shows "accounted r0 (w, bufs) L T S a out"
proof -
  note V = v [unfolded act_valid_def]
  have own: "mset (owns a) + mset (bufs_own bufs) \<subseteq># L" using V by blast
  have mine: "mset (owns a) \<subseteq># L" by (rule subset_mset.order_trans [OF mset_subset_eq_add_left own])
  have E: "quiet_conditions p" "transforms_ok p" "buffers_ok p (length bufs)" using e by (simp_all add: engine_ok_def)
  show ?thesis
  proof (cases a)
    case (DispatchFrom sid m)
    obtain acts w' where d: "dispatchFrom p ev sid m w = (acts, w')" by (metis surj_pair)
    have o: "out = (acts, (w', bufs))" using out by (simp add: exec_def DispatchFrom d)
    have "m \<in># L" using mine by (simp add: DispatchFrom)
    from dispatchFrom_accounted [OF can this E(1) d] show ?thesis unfolding o DispatchFrom .
  next
    case (Branch c m eg)
    obtain child w' where f: "fan_child c m w = (child, w')" by (metis surj_pair)
    have o: "out = ([SendToInbound eg child], (w', bufs))" using out by (simp add: exec_def Branch f)
    have "c \<in># T" using V by (simp add: Branch)
    from branch_accounted [OF can this f held] show ?thesis unfolding o Branch .
  next
    case (SendToInbound eg m)
    show ?thesis
      using sendToInbound_accounted [OF can _ E(3), of eg m out env ctx] own out by (simp add: exec_def SendToInbound)
  next
    case (AwaitDisk ptr m)
    show ?thesis
      using await_disk_accounted [OF can, of ptr m bufs out env ctx] own out V by (simp add: exec_def AwaitDisk)
  next
    case (TransformBatch sid ms)
    then obtain m where m: "ms = [m]" using V by (auto simp: length_Suc_conv)
    obtain acts w' where d: "runTransform_batch p ev sid [m] w = (acts, w')" by (metis surj_pair)
    have o: "out = (acts, (w', bufs))" using out by (simp add: exec_def TransformBatch m d)
    have "m \<in># L" using mine by (simp add: TransformBatch m)
    from transform_batch_accounted [OF can this d] show ?thesis unfolding o TransformBatch m .
  next
    case (Process sid ms)
    then obtain m where m: "ms = [m]" using V by (auto simp: length_Suc_conv)
    obtain acts w' where d: "process_batch p sid [m] w = Some (acts, w')" and o: "out = (acts, (w', bufs))"
      using out by (cases "process_batch p sid [m] w") (auto simp: exec_def Process m)
    have "m \<in># L" using mine by (simp add: Process m)
    from process_accounted [OF can this held E(2) d] show ?thesis unfolding o Process m .
  next
    case (OutInputs sid ins outs ids passed aggs)
    show ?thesis
    proof (cases ins)
      case Nil
      have o: "out = ([OutOutputs sid outs passed aggs], (w, bufs))" using out by (simp add: exec_def OutInputs Nil)
      show ?thesis unfolding o OutInputs Nil
        by (rule accountedI [OF can keeps_refl]) (use V in \<open>auto simp: OutInputs Nil\<close>)
    next
      case (Cons m ms)
      then have ms: "ins = [m]" using V by (simp add: OutInputs)
      obtain acts w' where d: "out_input sid m [] outs ids passed aggs w = (acts, w')" by (metis surj_pair)
      have o: "out = (acts, (w', bufs))" using out by (simp add: exec_def OutInputs ms d)
      show ?thesis unfolding o OutInputs ms
        by (rule out_input_accounted [OF can _ _ _ _ d]) (use V mine in \<open>simp_all add: OutInputs ms\<close>)
    qed
  next
    case (OutOutputs sid outs passed aggs)
    show ?thesis
    proof (cases outs)
      case Nil
      have o: "out = ([], (w, bufs))" using out by (simp add: exec_def OutOutputs Nil)
      show ?thesis unfolding o OutOutputs Nil
        by (rule accountedI [OF can keeps_refl]) (simp_all add: due_tokens_def)
    next
      case (Cons k os)
      obtain acts w' where d: "out_output sid k os passed aggs w = (acts, w')" by (metis surj_pair)
      have o: "out = (acts, (w', bufs))" using out by (simp add: exec_def OutOutputs Cons d)
      show ?thesis unfolding o OutOutputs Cons
        by (rule out_output_accounted [OF can _ _ _ d]) (use V in \<open>simp_all only: OutOutputs Cons, blast+\<close>)
    qed
  qed
qed

end
