(* ===== verification/Engine.thy ===== *)
theory Engine
  imports Accounts
begin

text \<open>
  The running pipeline: the goroutines of the sources, edges, transforms and sinks, one atomic
  step at a time (\<^verbatim>\<open>runSource\<close>, \<^verbatim>\<open>startTransformFanIn\<close>,
  \<^verbatim>\<open>runTransform\<close>, \<^verbatim>\<open>runSink\<close> of \<^verbatim>\<open>internal/engine/pipeline.go\<close>
  and the drainers of \<^verbatim>\<open>internal/buffer\<close>), and the proof that every run of it keeps the
  accounts of \<^verbatim>\<open>Ack\<close>: each step is a sequence of emissions, fan-outs, new branches and
  acknowledgements of messages somebody owns.
\<close>

section \<open>The goroutines\<close>

text \<open>
  What \<^verbatim>\<open>runSource\<close> does to a message of source \<open>sid\<close> before it registers the callback:
  an id, and the codec that parses it.
\<close>

definition admit_message :: "('p, 'x) pipeline \<Rightarrow> string \<Rightarrow> string \<Rightarrow> message \<Rightarrow> message" where
  "admit_message p sid uuid msg =
     (let msg1 = (if ms_ID msg = '''' then msg\<lparr>ms_ID := uuid\<rparr> else msg) in
      case map_of (pl_decoders p) sid of
        None \<Rightarrow> msg1
      | Some dec \<Rightarrow>
          let msg2 = (if ms_parsedCodec msg1 = '''' then msg1\<lparr>ms_parsedCodec := cd_Name dec\<rparr> else msg1) in
          if ms_decoderStageID msg2 = '''' then msg2\<lparr>ms_decoderStageID := sid\<rparr> else msg2)"

text \<open>Taking an item from the out channel of an edge; a message from the disk has no callback.\<close>

definition receive_item :: "edge_item \<Rightarrow> world \<Rightarrow> mref \<times> world" where
  "receive_item it w = (case it of MemMsg m \<Rightarrow> (m, w) | DiskMsg msg \<Rightarrow> new_msg (msg\<lparr>ms_ackFn := []\<rparr>) w)"

text \<open>
  The running pipeline: the messages and the edges; for each goroutine of a source or a transform
  worker, what it still has to do; the messages that the fan-in of a transform or the ingress of a
  sink has received and not yet handed on; the outside world. Two ghost components record the
  messages of the sources and the ones that a cancelled sink has left behind.
\<close>

record 'x engine_run =
  en_world :: world
  en_bufs :: "edge_inbound list"
  en_threads :: "act list list"
  en_hands :: "(string \<times> mref) list"
  en_outside :: 'x
  en_sources :: "(string \<times> mref \<times> bool) list"
  en_dropped :: "mref list"

text \<open>
  One step of one goroutine: \<^verbatim>\<open>runSource\<close> admits a message; a goroutine does its next
  action; an edge's drainer makes a turn, or the edge is closed; a message is received from an edge
  by the stage it leads to; the fan-in of a transform hands it to a worker, or the context has
  ended and it is acknowledged with the context's error; a sink flushes some of its messages, or
  its goroutines have ended and leave a message behind. Any goroutine may go next, and the context
  may end at any time: \<open>ctx\<close> is its error, if any, as the step sees it.
\<close>

inductive engine_step ::
  "('p, 'x) pipeline \<Rightarrow> 'p evaluator \<Rightarrow> edge_env \<Rightarrow> dlq_env \<Rightarrow> 'x engine_run \<Rightarrow> 'x engine_run \<Rightarrow> bool"
  for p ev env denv where
  es_source: "map_of (pl_stages p) sid = Some st \<Longrightarrow> sg_role st = SourceRole acking \<Longrightarrow>
     emit_source sid acking (admit_message p sid uuid msg) (en_world s) = (m, w) \<Longrightarrow>
     engine_step p ev env denv s (s\<lparr>en_world := w, en_threads := [DispatchFrom sid m] # en_threads s,
       en_sources := en_sources s @ [(sid, m, acking)]\<rparr>)"
| es_act: "en_threads s = us @ (a # as) # vs \<Longrightarrow>
     (acts, (w, bufs)) \<in> set (exec p ev env ctx a (en_world s, en_bufs s)) \<Longrightarrow>
     engine_step p ev env denv s (s\<lparr>en_world := w, en_bufs := bufs, en_threads := us @ (acts @ as) # vs\<rparr>)"
| es_drain: "i < length (en_bufs s) \<Longrightarrow> (acks, e) \<in> set (drain_turn env ctx (en_bufs s ! i)) \<Longrightarrow>
     engine_step p ev env denv s (s\<lparr>en_world := ack_all acks (en_world s), en_bufs := (en_bufs s)[i := e]\<rparr>)"
| es_close: "i < length (en_bufs s) \<Longrightarrow>
     engine_step p ev env denv s (s\<lparr>en_bufs := (en_bufs s)[i := Edge_Close_begin (en_bufs s ! i)]\<rparr>)"
| es_receive: "(sid, n) \<in> set (rg_nodes (pl_graph p)) \<Longrightarrow> i \<in> set (rn_inboundEdges n) \<Longrightarrow>
     i < length (en_bufs s) \<Longrightarrow> eb_out (en_bufs s ! i) = it # rest \<Longrightarrow> receive_item it (en_world s) = (m, w) \<Longrightarrow>
     engine_step p ev env denv s (s\<lparr>en_world := w, en_bufs := (en_bufs s)[i := (en_bufs s ! i)\<lparr>eb_out := rest\<rparr>],
       en_hands := (sid, m) # en_hands s\<rparr>)"
| es_batch: "map_of (rg_nodes (pl_graph p)) sid = Some n \<Longrightarrow> rn_kind n = ''transform'' \<Longrightarrow>
     en_hands s = us @ (sid, m) # vs \<Longrightarrow>
     engine_step p ev env denv s (s\<lparr>en_hands := us @ vs, en_threads := [TransformBatch sid [m]] # en_threads s\<rparr>)"
| es_cancel: "en_hands s = us @ (sid, m) # vs \<Longrightarrow>
     engine_step p ev env denv s (s\<lparr>en_hands := us @ vs, en_world := Ack m (Some ctxErr) (en_world s)\<rparr>)"
| es_flush: "map_of (pl_stages p) sid = Some st \<Longrightarrow> sg_role st = SinkRole wr fl \<Longrightarrow>
     mset (en_hands s) = mset (map (Pair sid) batch) + mset rest \<Longrightarrow>
     flushSinkBatch p denv ctx conv sid wr batch (en_world s, en_outside s) = (err, w, x) \<Longrightarrow>
     engine_step p ev env denv s (s\<lparr>en_hands := rest, en_world := w, en_outside := x\<rparr>)"
| es_drop: "map_of (rg_nodes (pl_graph p)) sid = Some n \<Longrightarrow> rn_kind n = ''sink'' \<Longrightarrow> en_hands s = us @ (sid, m) # vs \<Longrightarrow>
     engine_step p ev env denv s (s\<lparr>en_hands := us @ vs, en_dropped := m # en_dropped s\<rparr>)"

inductive engine_reach ::
  "('p, 'x) pipeline \<Rightarrow> 'p evaluator \<Rightarrow> edge_env \<Rightarrow> dlq_env \<Rightarrow> 'x engine_run \<Rightarrow> 'x engine_run \<Rightarrow> bool"
  for p ev env denv s0 where
  en_refl: "engine_reach p ev env denv s0 s0"
| en_more: "engine_reach p ev env denv s0 s \<Longrightarrow> engine_step p ev env denv s s' \<Longrightarrow> engine_reach p ev env denv s0 s'"

interpretation running: transition_system "engine_step p ev env denv" "engine_reach p ev env denv" for p ev env denv
  by unfold_locales (rule en_refl, erule (1) en_more, erule engine_reach.induct, assumption, blast)

definition engine_start :: "world \<Rightarrow> edge_inbound list \<Rightarrow> 'x \<Rightarrow> 'x engine_run" where
  "engine_start w bufs x = \<lparr>en_world = w, en_bufs = bufs, en_threads = [], en_hands = [], en_outside = x,
     en_sources = [], en_dropped = []\<rparr>"

definition acts_of :: "'x engine_run \<Rightarrow> act list" where
  "acts_of s = concat (en_threads s)"

text \<open>The messages somebody owns: an action, an edge, a stage's hands or the ones left behind.\<close>

definition owned :: "'x engine_run \<Rightarrow> mref multiset" where
  "owned s = mset (concat (map owns (acts_of s))) + mset (bufs_own (en_bufs s)) + mset (map snd (en_hands s))
     + mset (en_dropped s)"

definition run_toks :: "'x engine_run \<Rightarrow> nat multiset" where
  "run_toks s = mset (concat (map (toks (en_world s)) (acts_of s)))"

definition run_resv :: "'x engine_run \<Rightarrow> mref list" where
  "run_resv s = concat (map (resv (en_world s)) (acts_of s))"

text \<open>
  The refinement: what the engine has done since the account \<open>r0\<close> is a run of \<^verbatim>\<open>Ack\<close>'s operations in which every
  message that somebody owns is live, the tokens are the branches still due, and, as long as no edge
  has a disk log, nothing else is live.
\<close>

definition engine_inv :: "('p, 'x) pipeline \<Rightarrow> ack_run \<Rightarrow> edge_inbound list \<Rightarrow> 'x engine_run \<Rightarrow> bool" where
  "engine_inv p r0 bufs0 s \<longleftrightarrow>
     engine_ok p (length (en_bufs s)) \<and>
     (mem_only bufs0 \<longrightarrow> mem_only (en_bufs s)) \<and>
     (\<forall>a \<in> set (acts_of s). act_ok (length (en_bufs s)) (en_world s) a) \<and> distinct (run_resv s) \<and>
     (\<exists>lost. can r0 (en_world s) (owned s + lost) (run_toks s) (en_sources s) \<and>
        set (run_resv s) \<inter> held_set (en_world s) (owned s + lost) = {} \<and>
        (mem_only bufs0 \<longrightarrow> lost = {#}))"


lemma frame_acts:
  assumes "frame w w'" and "\<forall>a \<in> set as. act_ok nb w a"
  shows "\<forall>a \<in> set as. act_ok nb w' a" and "concat (map (toks w') as) = concat (map (toks w) as)"
    and "concat (map (resv w') as) = concat (map (resv w) as)"
proof -
  show "\<forall>a \<in> set as. act_ok nb w' a" using assms frame_act(1) by blast
  show "concat (map (toks w') as) = concat (map (toks w) as)"
    by (intro arg_cong [where f = concat] map_cong refl) (use assms frame_act(2) in blast)
  show "concat (map (resv w') as) = concat (map (resv w) as)"
    by (intro arg_cong [where f = concat] map_cong refl) (use assms frame_act(3) in blast)
qed

lemma resv_alloc: "act_ok nb w a \<Longrightarrow> m \<in> set (resv w a) \<Longrightarrow> m < wd_next w"
  by (cases a) (auto simp: due_outs_def)

lemma run_resv_alloc: "\<forall>a \<in> set (acts_of s). act_ok nb (en_world s) a \<Longrightarrow> m \<in> set (run_resv s) \<Longrightarrow> m < wd_next (en_world s)"
  by (auto simp: run_resv_def dest: resv_alloc)

definition plain_act :: "act \<Rightarrow> bool" where
  "plain_act a \<longleftrightarrow> (case a of DispatchFrom _ _ \<Rightarrow> True | TransformBatch _ ms \<Rightarrow> length ms = 1 | _ \<Rightarrow> False)"

lemma plain_actD: "plain_act a \<Longrightarrow> toks w a = [] \<and> resv w a = [] \<and> act_ok nb w a"
  by (cases a) (simp_all add: plain_act_def)

text \<open>A step that starts goroutines, if any, and changes what the others see only within the frame.\<close>

lemma engine_invI:
  assumes I: "engine_inv p r0 bufs0 s" and acts: "acts_of s' = new @ acts_of s" "\<forall>a \<in> set new. plain_act a"
    and bufs: "length (en_bufs s') = length (en_bufs s)" "mem_only (en_bufs s) \<Longrightarrow> mem_only (en_bufs s')"
    and step: "\<And>lost. can r0 (en_world s) (owned s + lost) (run_toks s) (en_sources s) \<Longrightarrow>
      can r0 (en_world s') (owned s' + lost) (run_toks s) (en_sources s') \<and>
      keeps (en_world s) (owned s + lost) (en_world s') (owned s' + lost) {}"
  shows "engine_inv p r0 bufs0 s'"
proof -
  let ?w = "en_world s" and ?w' = "en_world s'"
  obtain lost where can: "can r0 ?w (owned s + lost) (run_toks s) (en_sources s)"
    and dis: "set (run_resv s) \<inter> held_set ?w (owned s + lost) = {}" and lost: "mem_only bufs0 \<longrightarrow> lost = {#}"
    using I by (auto simp: engine_inv_def)
  note st = step [OF can]
  have f: "frame ?w ?w'" and h: "held_set ?w' (owned s' + lost) \<subseteq> held_set ?w (owned s + lost) \<union> {m. wd_next ?w \<le> m}"
    using st by (auto simp: keeps_def)
  have ok: "\<forall>a \<in> set (acts_of s). act_ok (length (en_bufs s)) ?w a" and d: "distinct (run_resv s)"
    using I by (simp_all add: engine_inv_def)
  have nt: "concat (map (toks ?w') new) = []" "concat (map (resv ?w') new) = []"
    using acts(2) plain_actD by (auto simp: concat_eq_Nil_conv)
  have t: "run_toks s' = run_toks s" unfolding run_toks_def acts by (simp add: nt frame_acts(2) [OF f ok])
  have r: "run_resv s' = run_resv s" unfolding run_resv_def acts by (simp add: nt frame_acts(3) [OF f ok])
  have "set (run_resv s) \<inter> held_set ?w' (owned s' + lost) = {}"
    using dis h run_resv_alloc [OF ok] by fastforce
  moreover have "\<forall>a \<in> set (acts_of s'). act_ok (length (en_bufs s)) ?w' a"
    using frame_acts(1) [OF f ok] acts plain_actD by auto
  ultimately show ?thesis
    using I st lost d bufs unfolding engine_inv_def t r by auto
qed

lemma keeps_emit:
  assumes "emit_source src acking msg w = (m, w')"
  shows "keeps w L w' (add_mset m L) {}"
proof -
  have "m = wd_next w" "wd_next w' = Suc (wd_next w)" "wd_cells w' = wd_cells w"
    "\<And>k. k < wd_next w \<Longrightarrow> ms_ID (wd_msgs w' k) = ms_ID (wd_msgs w k)"
    using assms by (auto simp: emit_source_def new_msg_def begin_lifecycle_def upd_msg_def split: if_splits)
  then show ?thesis by (auto simp: keeps_def frame_def held_set_def open_cell_def)
qed


lemma receive_can:
  assumes "receive_item it w = (m, w')" and "can r0 w L T S"
  shows "can r0 w' (mset (case it of MemMsg _ \<Rightarrow> [] | DiskMsg _ \<Rightarrow> [m]) + L) T S \<and>
    keeps w L w' (mset (case it of MemMsg _ \<Rightarrow> [] | DiskMsg _ \<Rightarrow> [m]) + L) {}"
proof (cases it)
  case (MemMsg k)
  then show ?thesis using assms by (simp add: receive_item_def)
next
  case (DiskMsg msg)
  then have n: "new_msg (msg\<lparr>ms_ackFn := []\<rparr>) w = (m, w')" using assms(1) by (simp add: receive_item_def)
  note d = data_step_new_msg [OF n]
  have m: "m = wd_next w" "m < wd_next w'" "ms_ackFn (wd_msgs w' m) = []" using n by (auto simp: new_msg_def)
  have "keeps w L w' (add_mset m L) ({} \<union> {m})" by (rule keeps_trans [OF keeps_data [OF d] keeps_add])
  then have "keeps w L w' (add_mset m L) {}" by (rule keeps_weaken) (simp add: m)
  then show ?thesis using can_own [OF can_data [OF assms(2) d] m(2,3)] DiskMsg by simp
qed

text \<open>A flush is a change of content followed by the acknowledgement of the batch.\<close>

lemma flush_can:
  assumes f: "flushSinkBatch p denv ctx conv sid wr batch (w, x) = (err, w', x')" and c: "can r0 w (mset batch + L) T S"
  shows "can r0 w' L T S \<and> keeps w (mset batch + L) w' L {}"
proof -
  obtain err' k x1 where wr: "writeWithRetry (wr batch (reserialize_all p sid batch w)) ctx conv
      (findDeliveryForStage (pl_ir p) sid) x = (err', k, x1)" by (metis surj_pair)
  obtain w2 x2 where d: "(case err' of None \<Rightarrow> (reserialize_all p sid batch w, x1)
      | Some e \<Rightarrow> deliverToDLQ p denv batch e sid (reserialize_all p sid batch w, x1)) = (w2, x2)" by (metis surj_pair)
  have o: "w' = foldl (\<lambda>w m. Ack m err' w) w2 batch"
    using f wr d by (auto simp: flushSinkBatch_def Let_def)
  have "data_step (reserialize_all p sid batch w) w2"
    using d deliver_loop_ok by (fastforce simp: deliverToDLQ_def split: option.splits)
  then have s: "data_step w w2" by (rule data_step_trans [OF data_step_reserialize_all])
  have eq: "foldl (\<lambda>w m. Ack m err' w) u batch = ack_all (map (\<lambda>m. (m, err')) batch) u" for u
    by (induction batch arbitrary: u) (simp_all add: ack_all_def)
  have "keeps w (mset batch + L) w' (mset batch + L - mset (map fst (map (\<lambda>m. (m, err')) batch))) ({} \<union> {})"
    unfolding o eq by (rule keeps_trans [OF keeps_data [OF s] keeps_ack_all])
  moreover have "can r0 w' (mset batch + L - mset batch) T S"
    unfolding o by (rule can_ack_batch [OF can_data [OF c s]]) simp
  ultimately show ?thesis by (simp add: comp_def)
qed

lemma bufs_own_drain:
  assumes "i < length bufs" and "mset (map fst acks) + mset (buf_owns e) = mset (buf_owns (bufs ! i))"
  shows "mset (bufs_own bufs) = mset (map fst acks) + mset (bufs_own (bufs[i := e]))"
proof -
  have "mset (bufs_own (bufs[i := e])) + (mset (map fst acks) + mset (buf_owns e)) = mset (bufs_own bufs) + mset (buf_owns e)"
    using bufs_own_update [OF assms(1), of e] unfolding assms(2) .
  then have "mset (bufs_own (bufs[i := e])) + mset (map fst acks) + mset (buf_owns e) = mset (bufs_own bufs) + mset (buf_owns e)"
    by (simp add: ac_simps)
  then show ?thesis by (simp add: ac_simps)
qed


text \<open>The action of a goroutine, in the middle of the others'.\<close>

lemma act_step_inv:
  assumes I: "engine_inv p r0 bufs0 s" and start: "acks_inv i0 r0" and th: "en_threads s = us @ (a # as) # vs"
    and ex: "(acts, (w, bufs)) \<in> set (exec p ev env ctx a (en_world s, en_bufs s))"
  shows "engine_inv p r0 bufs0 (s\<lparr>en_world := w, en_bufs := bufs, en_threads := us @ (acts @ as) # vs\<rparr>) \<and>
      frame (en_world s) w \<and> length bufs = length (en_bufs s)"
    (is "engine_inv p r0 bufs0 ?s' \<and> _")
proof -
  let ?w = "en_world s" and ?rest = "concat us @ as @ concat vs" and ?nb = "length (en_bufs s)"
  define Ow where "Ow = mset (concat (map owns ?rest)) + mset (map snd (en_hands s)) + mset (en_dropped s)"
  define T0 where "T0 = mset (concat (map (toks ?w) ?rest))"
  define R0 where "R0 = concat (map (resv ?w) ?rest)"
  obtain lost where can: "can r0 ?w (owned s + lost) (run_toks s) (en_sources s)"
    and dis: "set (run_resv s) \<inter> held_set ?w (owned s + lost) = {}" and lost: "mem_only bufs0 \<longrightarrow> lost = {#}"
    using I by (auto simp: engine_inv_def)
  have ok: "act_ok ?nb ?w a" "\<forall>b \<in> set ?rest. act_ok ?nb ?w b"
    and d: "distinct (run_resv s)" and e: "engine_ok p ?nb" and mem: "mem_only bufs0 \<longrightarrow> mem_only (en_bufs s)"
    using I by (auto simp: engine_inv_def acts_of_def th)
  have own: "owned s = mset (owns a) + mset (bufs_own (en_bufs s)) + Ow"
    by (simp add: owned_def acts_of_def th Ow_def ac_simps)
  have tok: "run_toks s = mset (toks ?w a) + T0"
    by (simp add: run_toks_def acts_of_def th T0_def ac_simps)
  have res: "mset (run_resv s) = mset (resv ?w a) + mset R0"
    by (simp add: run_resv_def acts_of_def th R0_def ac_simps)
  have res_set: "set (run_resv s) = set (resv ?w a) \<union> set R0" using arg_cong [OF res, of set_mset] by simp
  have dR: "distinct (resv ?w a)" "distinct R0" "set (resv ?w a) \<inter> set R0 = {}"
  proof -
    have "distinct (resv ?w a @ R0)" using d res by (metis mset_append mset_eq_imp_distinct_iff)
    then show "distinct (resv ?w a)" "distinct R0" "set (resv ?w a) \<inter> set R0 = {}" by simp_all
  qed
  have alloc: "k < wd_next ?w" if "k \<in> set R0" for k
    using that ok(2) resv_alloc by (force simp: R0_def)
  have v: "act_valid ?w (en_bufs s) (owned s + lost) (run_toks s) a"
    using ok(1) dR(1) dis resv_alloc [OF ok(1)] unfolding act_valid_def own tok res_set
    by (auto simp: add.assoc)
  have held: "\<forall>k \<in> held_set ?w (owned s + lost). k < wd_next ?w" using can_held [OF can start] by blast
  from exec_accounted [OF can held v e ex]
  obtain L' T' more where can': "can r0 w L' T' (en_sources s)"
    and keeps: "keeps ?w (owned s + lost) w L' (set (resv ?w a))"
    and L': "L' + mset (owns a) + mset (bufs_own (en_bufs s)) = owned s + lost + mset (concat (map owns acts)) + mset (bufs_own bufs) + more"
    and T': "T' + mset (toks ?w a) = run_toks s + mset (concat (map (toks w) acts))"
    and mem': "mem_only (en_bufs s) \<longrightarrow> more = {#} \<and> mem_only bufs" and len: "length bufs = ?nb"
    and ok': "\<forall>b \<in> set acts. act_ok ?nb w b" and dacts: "distinct (concat (map (resv w) acts))"
    and sub: "set (concat (map (resv w) acts)) \<subseteq> set (resv ?w a) \<union> {m. wd_next ?w \<le> m \<and> m < wd_next w}"
    and dis': "set (concat (map (resv w) acts)) \<inter> held_set w L' = {}"
    unfolding accounted_def prod.case by blast
  have f: "frame ?w w" and h: "held_set w L' \<subseteq> held_set ?w (owned s + lost) \<union> set (resv ?w a) \<union> {m. wd_next ?w \<le> m}"
    using keeps by (auto simp: keeps_def)
  note F = frame_acts [OF f ok(2)]
  have L2: "L' = owned ?s' + (lost + more)"
  proof -
    have "L' + (mset (owns a) + mset (bufs_own (en_bufs s)))
        = (Ow + mset (concat (map owns acts)) + mset (bufs_own bufs) + (lost + more)) + (mset (owns a) + mset (bufs_own (en_bufs s)))"
      using L' unfolding own by (simp add: ac_simps)
    then have "L' = Ow + mset (concat (map owns acts)) + mset (bufs_own bufs) + (lost + more)" by (simp only: add_right_cancel)
    then show ?thesis by (simp add: owned_def acts_of_def Ow_def ac_simps)
  qed
  have T2: "T' = run_toks ?s'"
  proof -
    have "T' + mset (toks ?w a) = (T0 + mset (concat (map (toks w) acts))) + mset (toks ?w a)"
      using T' unfolding tok by (simp add: ac_simps)
    then have "T' = T0 + mset (concat (map (toks w) acts))" by (simp only: add_right_cancel)
    also have "T0 = mset (concat (map (toks w) ?rest))" unfolding T0_def F(2) ..
    finally show ?thesis by (simp add: run_toks_def acts_of_def ac_simps)
  qed
  have R2: "mset (run_resv ?s') = mset (concat (map (resv w) acts)) + mset R0"
    unfolding R0_def F(3) [symmetric] by (simp add: run_resv_def acts_of_def ac_simps)
  have R2s: "set (run_resv ?s') = set (concat (map (resv w) acts)) \<union> set R0"
    using arg_cong [OF R2, of set_mset] by (simp only: set_mset_mset set_mset_union)
  have apart: "set (concat (map (resv w) acts)) \<inter> set R0 = {}"
    using sub dR(3) alloc by fastforce
  have "distinct (concat (map (resv w) acts) @ R0)" using dacts dR(2) apart by simp
  then have "distinct (run_resv ?s')" using R2 by (metis mset_append mset_eq_imp_distinct_iff)
  moreover have "set R0 \<inter> held_set w L' = {}"
    using h dis alloc dR(3) unfolding res_set by fastforce
  then have "set (run_resv ?s') \<inter> held_set w L' = {}" using dis' unfolding R2s by blast
  moreover have "\<forall>b \<in> set (acts_of ?s'). act_ok ?nb w b" using F(1) ok' by (auto simp: acts_of_def)
  moreover have "mem_only bufs0 \<longrightarrow> lost + more = {#} \<and> mem_only bufs" using lost mem mem' by auto
  ultimately show ?thesis
    using can' e len f unfolding engine_inv_def L2 T2 by (auto intro!: exI [of _ "lost + more"])
qed


lemma engine_step_inv:
  assumes "engine_step p ev env denv s s'" and "engine_inv p r0 bufs0 s" and "acks_inv i0 r0"
  shows "engine_inv p r0 bufs0 s'"
  using assms(1,2)
proof cases
  case (es_source sid st acking uuid msg m w)
  show ?thesis
  proof (rule engine_invI [OF assms(2), where new = "[DispatchFrom sid m]"])
    fix lost assume c: "can r0 (en_world s) (owned s + lost) (run_toks s) (en_sources s)"
    show "can r0 (en_world s') (owned s' + lost) (run_toks s) (en_sources s') \<and>
        keeps (en_world s) (owned s + lost) (en_world s') (owned s' + lost) {}"
      using can_emit [OF c es_source(4)] keeps_emit [OF es_source(4), of "owned s + lost"]
      by (simp add: es_source(1) owned_def acts_of_def)
  qed (simp_all add: es_source(1) acts_of_def plain_act_def)
next
  case (es_act us a as vs acts w bufs ctx)
  show ?thesis unfolding es_act(1) by (rule conjunct1 [OF act_step_inv [OF assms(2,3) es_act(2,3)]])
next
  case (es_drain i acks e ctx)
  note D = drain_account [OF es_drain(3)]
  note B = bufs_own_drain [OF es_drain(2) conjunct1 [OF D]]
  show ?thesis
  proof (rule engine_invI [OF assms(2), where new = "[]"])
    fix lost assume c: "can r0 (en_world s) (owned s + lost) (run_toks s) (en_sources s)"
    have o: "owned s + lost = mset (map fst acks) + (owned s' + lost)"
      unfolding owned_def B by (simp add: es_drain(1) acts_of_def)
    show "can r0 (en_world s') (owned s' + lost) (run_toks s) (en_sources s') \<and>
        keeps (en_world s) (owned s + lost) (en_world s') (owned s' + lost) {}"
      using can_ack_all [OF c, of acks] keeps_ack_all [of "en_world s" "owned s + lost" acks "{}"] unfolding o
      by (simp add: es_drain(1))
  next
    show "mem_only (en_bufs s) \<Longrightarrow> mem_only (en_bufs s')"
      using mem_only_update [OF _ es_drain(2) conjunct2 [OF D]] by (simp add: es_drain(1))
  qed (simp_all add: es_drain(1) acts_of_def)
next
  case (es_close i)
  have b: "mset (bufs_own ((en_bufs s)[i := Edge_Close_begin (en_bufs s ! i)])) = mset (bufs_own (en_bufs s))"
  proof -
    have "buf_owns (Edge_Close_begin e) = buf_owns e" for e by (simp add: Edge_Close_begin_def buf_owns_def in_hand_def)
    from bufs_own_drain [OF es_close(2), of "[]" "Edge_Close_begin (en_bufs s ! i)", unfolded this] show ?thesis by simp
  qed
  show ?thesis
  proof (rule engine_invI [OF assms(2), where new = "[]"])
    show "mem_only (en_bufs s) \<Longrightarrow> mem_only (en_bufs s')"
      using mem_only_update [OF _ es_close(2), where e' = "Edge_Close_begin (en_bufs s ! i)"]
      by (simp add: es_close(1) Edge_Close_begin_def)
  qed (simp_all add: es_close(1) acts_of_def owned_def b)
next
  case (es_receive sid n i it rest m w)
  let ?new = "case it of MemMsg _ \<Rightarrow> [] | DiskMsg _ \<Rightarrow> [m]" and ?e = "(en_bufs s ! i)\<lparr>eb_out := rest\<rparr>"
  have "mset (buf_owns (en_bufs s ! i)) = mset (item_refs [it]) + mset (buf_owns ?e)"
    using es_receive(5) by (cases it) (simp_all add: buf_owns_def in_hand_def)
  then have b: "mset (bufs_own (en_bufs s)) = mset (item_refs [it]) + mset (bufs_own ((en_bufs s)[i := ?e]))"
    using bufs_own_drain [OF es_receive(4), of "map (\<lambda>m. (m, None)) (item_refs [it])" ?e] by (simp add: comp_def)
  have nm: "mset ?new + mset (item_refs [it]) = {#m#}"
    using es_receive(6) by (cases it) (simp_all add: receive_item_def)
  show ?thesis
  proof (rule engine_invI [OF assms(2), where new = "[]"])
    fix lost assume c: "can r0 (en_world s) (owned s + lost) (run_toks s) (en_sources s)"
    have "owned s' = mset ?new + mset (item_refs [it]) + (mset (concat (map owns (acts_of s)))
        + mset (bufs_own ((en_bufs s)[i := ?e])) + mset (map snd (en_hands s)) + mset (en_dropped s))"
      unfolding nm by (simp add: es_receive(1) owned_def acts_of_def)
    also have "\<dots> = mset ?new + owned s" unfolding owned_def b by (simp only: ac_simps)
    finally have o: "owned s' + lost = mset ?new + (owned s + lost)" by (simp only: ac_simps)
    show "can r0 (en_world s') (owned s' + lost) (run_toks s) (en_sources s') \<and>
        keeps (en_world s) (owned s + lost) (en_world s') (owned s' + lost) {}"
      using receive_can [OF es_receive(6) c] unfolding o by (simp add: es_receive(1))
  next
    show "mem_only (en_bufs s) \<Longrightarrow> mem_only (en_bufs s')"
      using mem_only_update [OF _ es_receive(4), where e' = ?e] es_receive(4)
      by (auto simp: es_receive(1) mem_only_def)
  qed (simp_all add: es_receive(1) acts_of_def)
next
  case (es_batch sid n us m vs)
  show ?thesis
    by (rule engine_invI [OF assms(2), where new = "[TransformBatch sid [m]]"])
      (simp_all add: es_batch(1,4) acts_of_def owned_def plain_act_def)
next
  case (es_cancel us sid m vs ctxErr)
  show ?thesis
  proof (rule engine_invI [OF assms(2), where new = "[]"])
    fix lost assume c: "can r0 (en_world s) (owned s + lost) (run_toks s) (en_sources s)"
    have o: "owned s + lost = add_mset m (owned s' + lost)"
      by (simp add: es_cancel owned_def acts_of_def)
    show "can r0 (en_world s') (owned s' + lost) (run_toks s) (en_sources s') \<and>
        keeps (en_world s) (owned s + lost) (en_world s') (owned s' + lost) {}"
      using can_ack [OF c, of m "Some ctxErr"] keeps_Ack [of "en_world s" "owned s + lost" m "Some ctxErr" "{}"]
      unfolding o by (simp add: es_cancel(1))
  qed (simp_all add: es_cancel(1) acts_of_def)
next
  case (es_flush sid st wr fl batch rest ctx conv err w x)
  have h: "mset (map snd (en_hands s)) = mset batch + mset (map snd rest)"
    using arg_cong [OF es_flush(4), of "image_mset snd"] by (simp add: image_mset.compositionality comp_def flip: mset_map)
  show ?thesis
  proof (rule engine_invI [OF assms(2), where new = "[]"])
    fix lost assume c: "can r0 (en_world s) (owned s + lost) (run_toks s) (en_sources s)"
    have o: "owned s + lost = mset batch + (owned s' + lost)"
      unfolding owned_def h by (simp add: es_flush(1) acts_of_def)
    show "can r0 (en_world s') (owned s' + lost) (run_toks s) (en_sources s') \<and>
        keeps (en_world s) (owned s + lost) (en_world s') (owned s' + lost) {}"
      using flush_can [OF es_flush(5) c [unfolded o]] unfolding o by (simp add: es_flush(1))
  qed (simp_all add: es_flush(1) acts_of_def)
next
  case (es_drop sid n us m vs)
  show ?thesis
    by (rule engine_invI [OF assms(2), where new = "[]"]) (simp_all add: es_drop(1,4) acts_of_def owned_def)
qed


text \<open>A step allocates messages and frees none, and makes no edge.\<close>

lemma engine_step_frame:
  assumes "engine_step p ev env denv s s'" and "engine_inv p r0 bufs0 s" and "acks_inv i0 r0"
  shows "frame (en_world s) (en_world s') \<and> length (en_bufs s') = length (en_bufs s)"
  using assms(1)
proof cases
  case (es_source sid st acking uuid msg m w)
  then show ?thesis using keeps_emit [OF es_source(4), of "{#}"] by (simp add: keeps_def)
next
  case (es_act us a as vs acts w bufs ctx)
  then show ?thesis using act_step_inv [OF assms(2,3) es_act(2,3)] by simp
next
  case (es_drain i acks e ctx)
  then show ?thesis using keeps_ack_all [of "en_world s" "mset (map fst acks)" acks "{}"] by (simp add: keeps_def)
next
  case (es_receive sid n i it rest m w)
  then show ?thesis by (cases it) (auto simp: receive_item_def new_msg_def frame_def upd_msg_def)
next
  case (es_cancel us sid m vs ctxErr)
  then show ?thesis using keeps_Ack [of "en_world s" "{#}" m "Some ctxErr" "{}"] by (simp add: keeps_def)
next
  case (es_flush sid st wr fl batch rest ctx conv err w x)
  obtain lost where c: "can r0 (en_world s) (owned s + lost) (run_toks s) (en_sources s)"
    using assms(2) by (auto simp: engine_inv_def)
  have "mset (map snd (en_hands s)) = mset batch + mset (map snd rest)"
    using arg_cong [OF es_flush(4), of "image_mset snd"] by (simp add: image_mset.compositionality comp_def flip: mset_map)
  then have "owned s + lost = mset batch + (owned s + lost - mset batch)"
    by (simp add: owned_def)
  then show ?thesis using flush_can [OF es_flush(5), of r0 "owned s + lost - mset batch"] c es_flush(1)
    by (simp add: keeps_def)
qed simp_all

lemma engine_inv_start:
  assumes "world_start w0" and "bufs_own bufs = []" and "engine_ok p (length bufs)"
  shows "engine_inv p (ack_start w0) bufs (engine_start w0 bufs x)"
proof -
  have "can (ack_start w0) w0 {#} {#} []"
    using canI [OF ar_refl [of "ack_start w0"]] by (simp add: ack_start_def)
  then show ?thesis using assms(2,3)
    by (auto simp: engine_inv_def engine_start_def acts_of_def owned_def run_toks_def run_resv_def intro!: exI [of _ "{#}"])
qed

lemma engine_inv_reach:
  "engine_reach p ev env denv s0 s \<Longrightarrow> engine_inv p r0 bufs0 s0 \<Longrightarrow> acks_inv i0 r0 \<Longrightarrow> engine_inv p r0 bufs0 s"
  by (rule running.invariant) (auto intro: engine_step_inv)

lemma engine_refines:
  assumes "world_start w0" and "bufs_own bufs = []" and "engine_ok p (length bufs)"
    and "engine_reach p ev env denv (engine_start w0 bufs x) s"
  obtains r lost where "ack_reach (ack_start w0) r" "ar_world r = en_world s" "mset (ar_live r) = owned s + lost"
    "mset (ar_tokens r) = run_toks s" "ar_sources r = en_sources s" "mem_only bufs \<longrightarrow> lost = {#}"
  using engine_inv_reach [OF assms(4) engine_inv_start [OF assms(1-3)] acks_inv_start [OF assms(1)]]
  unfolding engine_inv_def can_def by blast

section \<open>Delivery\<close>

text \<open>Nothing is left: no action, no message in an edge or a stage's hands, none left behind.\<close>

definition drained :: "'x engine_run \<Rightarrow> bool" where
  "drained s \<longleftrightarrow> acts_of s = [] \<and> bufs_own (en_bufs s) = [] \<and> en_hands s = [] \<and> en_dropped s = []"

lemma delivered_at_most_once:
  assumes "world_start w0" and "bufs_own bufs = []" and "engine_ok p (length bufs)"
    and "engine_reach p ev env denv (engine_start w0 bufs x) s"
  shows "image_mset (\<lambda>(src, m, e). HOnAck src m) (mset (wd_onacks (en_world s))) \<subseteq># expected_acks (en_sources s)
    \<and> (\<exists>n. wd_inflight (en_world s) = wd_inflight w0 + of_nat n
         \<and> n + length (wd_released (en_world s)) = length (en_sources s))"
proof (rule engine_refines [OF assms])
  fix r lost assume r: "ack_reach (ack_start w0) r" "ar_world r = en_world s" "ar_sources r = en_sources s"
  from acks_at_most_once [OF assms(1) r(1)] show ?thesis unfolding r(2,3) .
qed

lemma delivered_exactly_once:
  assumes "world_start w0" and "bufs_own bufs = []" and "engine_ok p (length bufs)" and "mem_only bufs"
    and "engine_reach p ev env denv (engine_start w0 bufs x) s" and "drained s"
  shows "image_mset (\<lambda>(src, m, e). HOnAck src m) (mset (wd_onacks (en_world s))) = expected_acks (en_sources s)
    \<and> length (wd_released (en_world s)) = length (en_sources s)
    \<and> wd_inflight (en_world s) = wd_inflight w0"
proof (rule engine_refines [OF assms(1-3,5)])
  fix r lost
  assume r: "ack_reach (ack_start w0) r" "ar_world r = en_world s" "mset (ar_live r) = owned s + lost"
    "mset (ar_tokens r) = run_toks s" "ar_sources r = en_sources s" "mem_only bufs \<longrightarrow> lost = {#}"
  have "ar_live r = []" "ar_tokens r = []"
    using r(3,4,6) assms(4,6) by (simp_all add: drained_def owned_def run_toks_def)
  from acks_exactly_once [OF assms(1) r(1) this] show ?thesis unfolding r(2,5) .
qed



section \<open>A schedule of the goroutines\<close>

text \<open>An executable choice among the steps: the first outcome of the goroutine that is named.\<close>

datatype turn = TSource string string message | TAct nat | TDrain nat | TReceive string nat | TBatch | TFlush string

fun take_turn ::
  "('p, 'x) pipeline \<Rightarrow> 'p evaluator \<Rightarrow> edge_env \<Rightarrow> dlq_env \<Rightarrow> 'x engine_run \<Rightarrow> turn \<Rightarrow> 'x engine_run" where
  "take_turn p ev env denv s (TSource sid uuid msg) =
     (case map_of (pl_stages p) sid of
        Some st \<Rightarrow>
          (case sg_role st of
             SourceRole acking \<Rightarrow>
               (case emit_source sid acking (admit_message p sid uuid msg) (en_world s) of
                  (m, w) \<Rightarrow> s\<lparr>en_world := w, en_threads := [DispatchFrom sid m] # en_threads s,
                      en_sources := en_sources s @ [(sid, m, acking)]\<rparr>)
           | _ \<Rightarrow> s)
      | None \<Rightarrow> s)"
| "take_turn p ev env denv s (TAct i) =
     (if i < length (en_threads s) then
        (case en_threads s ! i of
           [] \<Rightarrow> s
         | a # as \<Rightarrow>
             (case exec p ev env None a (en_world s, en_bufs s) of
                [] \<Rightarrow> s
              | (acts, (w, bufs)) # _ \<Rightarrow>
                  s\<lparr>en_world := w, en_bufs := bufs,
                     en_threads := take i (en_threads s) @ (acts @ as) # drop (Suc i) (en_threads s)\<rparr>))
      else s)"
| "take_turn p ev env denv s (TDrain i) =
     (if i < length (en_bufs s) then
        (case drain_turn env None (en_bufs s ! i) of
           [] \<Rightarrow> s
         | (acks, e) # _ \<Rightarrow> s\<lparr>en_world := ack_all acks (en_world s), en_bufs := (en_bufs s)[i := e]\<rparr>)
      else s)"
| "take_turn p ev env denv s (TReceive sid i) =
     (case map_of (rg_nodes (pl_graph p)) sid of
        None \<Rightarrow> s
      | Some n \<Rightarrow>
          if i \<in> set (rn_inboundEdges n) \<and> i < length (en_bufs s) then
            (case eb_out (en_bufs s ! i) of
               [] \<Rightarrow> s
             | it # rest \<Rightarrow>
                 (case receive_item it (en_world s) of
                    (m, w) \<Rightarrow> s\<lparr>en_world := w, en_bufs := (en_bufs s)[i := (en_bufs s ! i)\<lparr>eb_out := rest\<rparr>],
                        en_hands := (sid, m) # en_hands s\<rparr>))
          else s)"
| "take_turn p ev env denv s TBatch =
     (case en_hands s of
        [] \<Rightarrow> s
      | (sid, m) # vs \<Rightarrow>
          (case map_of (rg_nodes (pl_graph p)) sid of
             None \<Rightarrow> s
           | Some n \<Rightarrow>
               if rn_kind n = ''transform''
               then s\<lparr>en_hands := vs, en_threads := [TransformBatch sid [m]] # en_threads s\<rparr> else s))"
| "take_turn p ev env denv s (TFlush sid) =
     (case map_of (pl_stages p) sid of
        None \<Rightarrow> s
      | Some st \<Rightarrow>
          (case sg_role st of
             SinkRole wr fl \<Rightarrow>
               (case flushSinkBatch p denv (\<lambda>_. None) int sid wr
                   (map snd (filter (\<lambda>(k, _). k = sid) (en_hands s))) (en_world s, en_outside s) of
                  (err, w, x) \<Rightarrow>
                    s\<lparr>en_hands := filter (\<lambda>(k, _). k \<noteq> sid) (en_hands s), en_world := w, en_outside := x\<rparr>)
           | _ \<Rightarrow> s))"


lemma take_turn_reach:
  assumes "engine_reach p ev env denv s0 s"
  shows "engine_reach p ev env denv s0 (take_turn p ev env denv s t)"
proof (cases t)
  case (TSource sid uuid msg)
  show ?thesis
  proof (cases "map_of (pl_stages p) sid")
    case (Some st)
    show ?thesis
    proof (cases "sg_role st")
      case (SourceRole acking)
      obtain m w where e: "emit_source sid acking (admit_message p sid uuid msg) (en_world s) = (m, w)" by (metis surj_pair)
      show ?thesis using en_more [OF assms es_source [OF Some SourceRole e]] by (simp add: TSource Some SourceRole e)
    qed (use assms in \<open>simp_all add: TSource Some\<close>)
  qed (use assms in \<open>simp add: TSource\<close>)
next
  case (TAct i)
  show ?thesis
  proof (cases "i < length (en_threads s)")
    case True
    show ?thesis
    proof (cases "en_threads s ! i")
      case (Cons a as)
      have th: "en_threads s = take i (en_threads s) @ (a # as) # drop (Suc i) (en_threads s)"
        using id_take_nth_drop [OF True] Cons by simp
      show ?thesis
      proof (cases "exec p ev env None a (en_world s, en_bufs s)")
        case o: (Cons out rest)
        obtain acts w bufs where out: "out = (acts, (w, bufs))" by (metis surj_pair)
        have "(acts, (w, bufs)) \<in> set (exec p ev env None a (en_world s, en_bufs s))" by (simp add: o out)
        from en_more [OF assms es_act [OF th this]] show ?thesis by (simp add: TAct True Cons o out)
      qed (use assms in \<open>simp add: TAct True Cons\<close>)
    qed (use assms in \<open>simp add: TAct True\<close>)
  qed (use assms in \<open>simp add: TAct\<close>)
next
  case (TDrain i)
  show ?thesis
  proof (cases "i < length (en_bufs s) \<and> drain_turn env None (en_bufs s ! i) \<noteq> []")
    case True
    then obtain acks e rest where o: "drain_turn env None (en_bufs s ! i) = (acks, e) # rest"
      by (cases "drain_turn env None (en_bufs s ! i)") auto
    from en_more [OF assms es_drain [of i s acks e env None]] show ?thesis using True by (simp add: TDrain o)
  qed (use assms in \<open>auto simp: TDrain\<close>)
next
  case (TReceive sid i)
  show ?thesis
  proof (cases "map_of (rg_nodes (pl_graph p)) sid")
    case (Some n)
    show ?thesis
    proof (cases "i \<in> set (rn_inboundEdges n) \<and> i < length (en_bufs s) \<and> eb_out (en_bufs s ! i) \<noteq> []")
      case True
      then obtain it rest where o: "eb_out (en_bufs s ! i) = it # rest" by (auto simp: neq_Nil_conv)
      obtain m w where r: "receive_item it (en_world s) = (m, w)" by (metis surj_pair)
      from True have "i \<in> set (rn_inboundEdges n)" "i < length (en_bufs s)" by auto
      from en_more [OF assms es_receive [OF map_of_SomeD [OF Some] this o r]] show ?thesis
        using True by (simp add: TReceive Some o r)
    qed (use assms in \<open>auto simp: TReceive Some\<close>)
  qed (use assms in \<open>simp add: TReceive\<close>)
next
  case TBatch
  show ?thesis
  proof (cases "en_hands s")
    case (Cons h vs)
    obtain sid m where h: "h = (sid, m)" by (metis surj_pair)
    show ?thesis
    proof (cases "map_of (rg_nodes (pl_graph p)) sid")
      case (Some n)
      have "en_hands s = [] @ (sid, m) # vs" by (simp add: Cons h)
      from en_more [OF assms es_batch [OF Some _ this]] assms show ?thesis by (simp add: TBatch Cons h Some)
    qed (use assms in \<open>simp add: TBatch Cons h\<close>)
  qed (use assms in \<open>simp add: TBatch\<close>)
next
  case (TFlush sid)
  show ?thesis
  proof (cases "map_of (pl_stages p) sid")
    case (Some st)
    show ?thesis
    proof (cases "sg_role st")
      case (SinkRole wr fl)
      let ?mine = "filter (\<lambda>(k, _). k = sid) (en_hands s)" and ?rest = "filter (\<lambda>(k, _). k \<noteq> sid) (en_hands s)"
      obtain err w x where f: "flushSinkBatch p denv (\<lambda>_. None) int sid wr (map snd ?mine) (en_world s, en_outside s) = (err, w, x)"
        by (metis surj_pair)
      have "map (Pair sid) (map snd hs) = hs" if "\<forall>h \<in> set hs. fst h = sid" for hs :: "(string \<times> mref) list"
        using that by (induction hs) auto
      from this [of ?mine] have "map (Pair sid) (map snd ?mine) = ?mine" by auto
      moreover have "mset ?mine + mset ?rest = mset (en_hands s)"
        by (induction "en_hands s") (auto simp: mset_filter case_prod_beta)
      ultimately have "mset (en_hands s) = mset (map (Pair sid) (map snd ?mine)) + mset ?rest" by simp
      from en_more [OF assms es_flush [OF Some SinkRole this f]] show ?thesis by (simp add: TFlush Some SinkRole f)
    qed (use assms in \<open>simp_all add: TFlush Some\<close>)
  qed (use assms in \<open>simp add: TFlush\<close>)
qed

lemma schedule_reach: "engine_reach p ev env denv s0 (foldl (take_turn p ev env denv) s0 ts)"
  by (rule running.reach_schedule) (rule take_turn_reach)

section \<open>A required edge whose condition fails\<close>

lemma match_loop_plain:
  "\<forall>e \<in> set us. ei_Condition e = '''' \<Longrightarrow>
     match_loop p ev f m (us @ es) matched w = match_loop p ev f m es (matched @ us) w"
  by (induction us arbitrary: matched) simp_all

text \<open>
  C33: a source message that meets a required edge whose condition cannot be evaluated is
  acknowledged twice, first with the error and then with success, and gives back two inflight
  slots for the one it took: \<^verbatim>\<open>matchEdges\<close> acknowledges it and returns no edge, and
  \<^verbatim>\<open>dispatchFrom\<close> acknowledges every message that matches no edge. This is why the theorems
  about the running pipeline exclude such edges.
\<close>

theorem required_edge_acks_twice:
  assumes "rg_outgoing (pl_graph p) f = us @ e # vs" and "\<forall>u \<in> set us. ei_Condition u = ''''"
    and "ei_Condition e \<noteq> ''''" and "ei_Required e" and "errorModeForStage p f = errModePropagate"
    and "fst (evalCondition p ev (edge_condition p f e) m w) = Inl err"
    and "ms_ackFn (wd_msgs w m) = [HRelease, HOnAck src k]"
  shows "\<exists>w'. dispatchFrom p ev f m w = ([], w') \<and>
      wd_onacks w' = wd_onacks w @ [(src, k, Some err), (src, k, None)] \<and>
      wd_released w' = wd_released w @ [Some err, None] \<and> wd_inflight w' = wd_inflight w - 2"
proof -
  obtain w1 where ec: "evalCondition p ev (edge_condition p f e) m w = (Inl err, w1)"
    using assms(6) by (metis prod.collapse)
  have d: "data_step w w1" using evalCondition_data [of w p ev "edge_condition p f e" m] ec by simp
  have "handleEvalError p f (Some err) = (False, Some err)" using assms(5) by (simp add: handleEvalError_def)
  then have "match_loop p ev f m (us @ e # vs) [] w = (None, Ack m (Some err) w1)"
    using assms(3,4) ec by (simp add: match_loop_plain [OF assms(2)])
  then have out: "dispatchFrom p ev f m w = ([], Ack m None (Ack m (Some err) w1))"
    by (simp add: dispatchFrom_def matchEdges_def assms(1))
  have fn: "ms_ackFn (wd_msgs w1 m) = [HRelease, HOnAck src k]"
    and same: "wd_onacks w1 = wd_onacks w" "wd_released w1 = wd_released w" "wd_inflight w1 = wd_inflight w"
    using ensureParsed_data [of w p m] ec assms(7) d
    by (auto simp: data_step_def evalCondition_def ensureParsed_def Let_def upd_msg_def SetParsedData_def
        split: option.splits sum.splits if_splits prod.splits)
  have A: "wd_msgs (Ack m r u) = wd_msgs u" "wd_onacks (Ack m r u) = wd_onacks u @ [(src, k, r)]"
    "wd_released (Ack m r u) = wd_released u @ [r]" "wd_inflight (Ack m r u) = wd_inflight u - 1"
    if "ms_ackFn (wd_msgs u m) = [HRelease, HOnAck src k]" for r u
    using that by (simp_all add: Ack_def releaseInflight_def)
  have "ms_ackFn (wd_msgs (Ack m (Some err) w1) m) = [HRelease, HOnAck src k]" using A(1) [OF fn] fn by simp
  note B = A(2-4) [OF this] A(2-4) [OF fn]
  have "wd_onacks (Ack m None (Ack m (Some err) w1)) = wd_onacks w @ [(src, k, Some err), (src, k, None)]"
    "wd_released (Ack m None (Ack m (Some err) w1)) = wd_released w @ [Some err, None]"
    "wd_inflight (Ack m None (Ack m (Some err) w1)) = wd_inflight w - 2"
    unfolding B same by simp_all
  then show ?thesis using out by blast
qed

section \<open>Witnesses\<close>

text \<open>A source, a transform and a sink in a row; a message and its schedule.\<close>

definition relay_ir :: topology_ir where
  "relay_ir = two_routes\<lparr>ir_Edges := [demo_edge ''s'' ''t'', demo_edge ''t'' ''k'']\<rparr>"

definition relay :: "(string, nat) pipeline" where
  "relay = (case NewPipeline demo_compiler no_dirs demo_registry relay_ir of Inr p \<Rightarrow> p
     | Inl _ \<Rightarrow> \<lparr>pl_ir = relay_ir, pl_stages = [], pl_stageErrorMode = [],
          pl_graph = empty_graph, pl_decoders = [],
          pl_encoders = [], pl_started = False, pl_cancelled = False\<rparr>)"

definition demo_denv :: dlq_env where
  "demo_denv = \<lparr>dq_text = (\<lambda>_. ''''), dq_now = '''', dq_uuid = (\<lambda>_. ''d'')\<rparr>"

definition relay_turns :: "turn list" where
  "relay_turns = [TSource ''s'' ''u'' (message_New ''x'' None), TAct 0, TAct 0, TAct 0, TDrain 0, TDrain 0,
     TReceive ''t'' 0, TBatch, TAct 0, TAct 0, TAct 0, TAct 0, TAct 0, TAct 0, TAct 0, TAct 0, TDrain 1, TDrain 1,
     TReceive ''k'' 1, TFlush ''k'', TAct 0]"

definition relay_run :: "nat engine_run" where
  "relay_run = foldl (take_turn relay (\<lambda>_ _ _ _. Inr True) demo_ev demo_denv)
     (engine_start demo_world (rg_buffers (pl_graph relay)) 0) relay_turns"


lemma relay_stages:
  "pl_stages relay = [(''s'', demo_inst (SourceRole True)), (''t'', demo_inst (TransformRole (\<lambda>batch w. (Inr batch, w)))),
     (''k'', demo_inst (SinkRole (\<lambda>batch w n. (None, n + length batch)) (\<lambda>n. (None, n))))]"
  and relay_graph: "buildRuntimeGraph demo_compiler no_dirs relay_ir = Inr (pl_graph relay)"
proof -
  have "is_ok (buildRuntimeGraph demo_compiler no_dirs relay_ir)" by code_simp
  then obtain g where g: "buildRuntimeGraph demo_compiler no_dirs relay_ir = Inr g" by (auto simp: is_ok_iff)
  have st: "ir_Stages relay_ir = [demo_stage ''s'' ''source'', demo_stage ''t'' ''transform'', demo_stage ''k'' ''sink'']"
    by (simp add: relay_ir_def two_routes_def)
  have made: "create_stage demo_registry (demo_stage ''s'' ''source'') = Inr (demo_inst (SourceRole True))"
    "create_stage demo_registry (demo_stage ''t'' ''transform'') = Inr (demo_inst (TransformRole (\<lambda>batch w. (Inr batch, w))))"
    "create_stage demo_registry (demo_stage ''k'' ''sink'')
       = Inr (demo_inst (SinkRole (\<lambda>batch w n. (None, n + length batch)) (\<lambda>n. (None, n))))"
    by (simp_all add: demo_stage_def create_stage_def demo_registry_def RegisterSource_def RegisterTransform_def RegisterSink_def
        CreateSource_def CreateTransform_def CreateSink_def registry_New_def)
  have ids: "st_ID (demo_stage i k) = i" for i k by (simp add: demo_stage_def)
  have "rfold (instantiateStage demo_registry) [] (ir_Stages relay_ir)
    = Inr [(''s'', demo_inst (SourceRole True)), (''t'', demo_inst (TransformRole (\<lambda>batch w. (Inr batch, w)))),
       (''k'', demo_inst (SinkRole (\<lambda>batch w n. (None, n + length batch)) (\<lambda>n. (None, n))))]"
    by (simp add: st instantiateStage_def made ids)
  moreover have "resolveCodecs demo_registry relay_ir = Inr ([], [])"
    by (simp add: resolveCodecs_def st resolve_stage_codecs_def resolveCodecRef_def demo_stage_def)
  ultimately have p: "relay = \<lparr>pl_ir = relay_ir,
      pl_stages = [(''s'', demo_inst (SourceRole True)), (''t'', demo_inst (TransformRole (\<lambda>batch w. (Inr batch, w)))),
        (''k'', demo_inst (SinkRole (\<lambda>batch w n. (None, n + length batch)) (\<lambda>n. (None, n))))],
      pl_stageErrorMode = stage_error_modes (ir_Stages relay_ir), pl_graph = g, pl_decoders = [], pl_encoders = [],
      pl_started = False, pl_cancelled = False\<rparr>"
    using g by (simp add: relay_def NewPipeline_def)
  show "pl_stages relay = [(''s'', demo_inst (SourceRole True)), (''t'', demo_inst (TransformRole (\<lambda>batch w. (Inr batch, w)))),
     (''k'', demo_inst (SinkRole (\<lambda>batch w n. (None, n + length batch)) (\<lambda>n. (None, n))))]"
    "buildRuntimeGraph demo_compiler no_dirs relay_ir = Inr (pl_graph relay)"
    by (simp_all add: p g)
qed

lemma relay_ok: "engine_ok relay (length (rg_buffers (pl_graph relay)))"
proof -
  have "rg_outgoing (pl_graph relay) f = filter (\<lambda>e. ei_From e = f) (ir_Edges relay_ir)" for f
    using build_exact(1) [OF relay_graph] by (simp add: graph_exact_def)
  then have "quiet_conditions relay" by (simp add: quiet_conditions_def relay_ir_def demo_edge_def)
  moreover have "transforms_ok relay"
    by (simp add: transforms_ok_def relay_stages demo_inst_def process_ok_def)
  moreover have "buffers_ok relay (length (rg_buffers (pl_graph relay)))" unfolding buffers_ok_def by code_simp
  ultimately show ?thesis by (simp add: engine_ok_def)
qed

lemma relay_start: "world_start demo_world" "bufs_own (rg_buffers (pl_graph relay)) = []" "mem_only (rg_buffers (pl_graph relay))"
  subgoal by (simp add: world_start_def demo_world_def)
  subgoal by code_simp
  subgoal unfolding mem_only_def by code_simp
  done

lemma relay_reach:
  "engine_reach relay (\<lambda>_ _ _ _. Inr True) demo_ev demo_denv (engine_start demo_world (rg_buffers (pl_graph relay)) 0) relay_run"
  unfolding relay_run_def by (rule schedule_reach)

definition run_summary :: "'x engine_run \<Rightarrow> bool \<times> (string \<times> mref \<times> goerr option) list \<times> 'x \<times> (string \<times> mref \<times> bool) list" where
  "run_summary s = (drained s, wd_onacks (en_world s), en_outside s, en_sources s)"

lemma relay_end: "run_summary relay_run = (True, [(''s'', 0, None)], 1, [(''s'', 0, True)])"
  by code_simp



definition strict_ir :: topology_ir where
  "strict_ir = two_routes\<lparr>ir_Edges := [(demo_edge ''s'' ''t'')\<lparr>ei_Condition := ''c'', ei_Required := True\<rparr>, demo_edge ''t'' ''k'']\<rparr>"

definition strict :: "(string, nat) pipeline" where
  "strict = relay\<lparr>pl_ir := strict_ir, pl_graph := (case buildRuntimeGraph demo_compiler no_dirs strict_ir of Inr g \<Rightarrow> g | Inl _ \<Rightarrow> empty_graph)\<rparr>"

definition strict_eval :: "string evaluator" where
  "strict_eval c payload h md = Inl (Err ''type error'' [c])"

definition strict_world :: world where
  "strict_world = snd (emit_source ''s'' True (message_New ''x'' None) demo_world)"

theorem required_edge_acks_twice_witness:
  "\<exists>w'. dispatchFrom strict strict_eval ''s'' 0 strict_world = ([], w') \<and>
     wd_onacks w' = [(''s'', 0, Some (Err ''type error'' [''c''])), (''s'', 0, None)] \<and>
     wd_inflight strict_world = 1 \<and> wd_inflight w' = - 1"
proof -
  have "rg_outgoing (pl_graph strict) ''s'' = [] @ (demo_edge ''s'' ''t'')\<lparr>ei_Condition := ''c'', ei_Required := True\<rparr> # []"
    by code_simp
  moreover have "errorModeForStage strict ''s'' = errModePropagate" by code_simp
  moreover have "fst (evalCondition strict strict_eval (edge_condition strict ''s'' ((demo_edge ''s'' ''t'')
      \<lparr>ei_Condition := ''c'', ei_Required := True\<rparr>)) 0 strict_world) = Inl (Err ''type error'' [''c''])"
    by code_simp
  moreover have "ms_ackFn (wd_msgs strict_world 0) = [HRelease, HOnAck ''s'' 0]"
    and i: "wd_inflight strict_world = 1" "wd_onacks strict_world = []"
    by (simp_all add: strict_world_def emit_source_def new_msg_def begin_lifecycle_def upd_msg_def WrapAckFn_def SetAckFn_def demo_world_def)
  ultimately show ?thesis
    using required_edge_acks_twice [of strict "''s''" "[]" _ "[]" strict_eval 0 strict_world "Err ''type error'' [''c'']" "''s''" 0] i
    by auto
qed

end
