(* ===== verification/Eql.thy ===== *)
theory Eql
  imports Ack Json
begin

text \<open>
  The expression language of \<^verbatim>\<open>internal/eql\<close>: the statements of a mapping, the paths
  they assign to and delete, and their execution on the shared heap of parsed payloads
  (\<^verbatim>\<open>eql.go\<close>, \<^verbatim>\<open>msgadapter.go\<close>). The CEL library is an argument: how it compiles the
  text of an expression and what a compiled one evaluates to, with the objects it allocates.
\<close>

section \<open>Programs\<close>

datatype ProgramKind = KindFilter | KindMapping | KindCondition

datatype 'e statement = AssignStmt string 'e | DeleteStmt string

record 'e program =
  pg_Kind :: ProgramKind
  pg_Statements :: "'e statement list"
  pg_Expr :: "'e option"

text \<open>The bindings of an evaluation are the payload, the metadata and the input.\<close>

record 'e cel =
  cl_Compile :: "string \<Rightarrow> 'e res"
  cl_Eval :: "'e \<Rightarrow> jv \<Rightarrow> gmap \<Rightarrow> jv \<Rightarrow> goheap \<Rightarrow> (jv \<times> goheap) res"

text \<open>\<^verbatim>\<open>delRe\<close>: the group between the parentheses of \<^verbatim>\<open>del(...)\<close>.\<close>

definition match_del :: "string \<Rightarrow> string option" where
  "match_del line =
     (let m = drop 4 line in
      if HasPrefix line ''del('' \<and> 2 \<le> length m \<and> last m = CHR '')'' then Some (butlast m) else None)"

definition is_letter :: "char \<Rightarrow> bool" where
  "is_letter c = ((CHR ''a'' \<le> c \<and> c \<le> CHR ''z'') \<or> (CHR ''A'' \<le> c \<and> c \<le> CHR ''Z'') \<or> c = CHR ''_'')"

definition path_char :: "char \<Rightarrow> bool" where
  "path_char c = (is_letter c \<or> (CHR ''0'' \<le> c \<and> c \<le> CHR ''9'') \<or>
     c \<in> {CHR ''['', CHR '']'', CHR 0x22, CHR 0x27, CHR ''.'', CHR ''-''})"

definition re_space :: "char \<Rightarrow> bool" where
  "re_space c = (c \<in> {CHR '' '', CHR 0x09, CHR 0x0A, CHR 0x0C, CHR 0x0D})"

text \<open>
  \<^verbatim>\<open>assignRe\<close>: the class of the first group excludes spaces and the equals sign, so the group
  is the longest run of it; the second is what follows the equals sign and the spaces after it,
  which give back a character when nothing else is left.
\<close>

definition match_assign :: "string \<Rightarrow> (string \<times> string) option" where
  "match_assign line =
     (let path = takeWhile path_char line; rest = dropWhile re_space (dropWhile path_char line) in
      if path \<noteq> [] \<and> is_letter (hd path) \<and> rest \<noteq> [] \<and> hd rest = CHR ''='' \<and> tl rest \<noteq> [] then
        let expr = dropWhile re_space (tl rest) in
        Some (path, if expr = [] then [last (tl rest)] else expr)
      else None)"

definition splitLines :: "string \<Rightarrow> string list" where
  "splitLines dsl =
     filter (\<lambda>line. line \<noteq> '''' \<and> \<not> HasPrefix line ''#'') (map TrimSpace (split_char (CHR 0x0A) dsl))"

definition parse_statement :: "'e cel \<Rightarrow> string \<Rightarrow> 'e statement res" where
  "parse_statement cl line =
     (case match_del line of
        Some path \<Rightarrow> Inr (DeleteStmt (TrimSpace path))
      | None \<Rightarrow>
          (case match_assign line of
             Some (path, text) \<Rightarrow>
               (case cl_Compile cl text of
                  Inl err \<Rightarrow> Inl (Wrap ''compile %q: %w'' [text] err)
                | Inr e \<Rightarrow> Inr (AssignStmt (TrimSpace path) e))
           | None \<Rightarrow> Inl (Err ''unsupported statement: %q'' [line])))"

definition parseStatements :: "'e cel \<Rightarrow> string \<Rightarrow> 'e statement list res" where
  "parseStatements cl dsl =
     rfold (\<lambda>out line. map_sum id (\<lambda>s. out @ [s]) (parse_statement cl line)) [] (splitLines dsl)"

definition CompileMapping :: "'e cel \<Rightarrow> string \<Rightarrow> 'e program res" where
  "CompileMapping cl dsl =
     map_sum id (\<lambda>stmts. \<lparr>pg_Kind = KindMapping, pg_Statements = stmts, pg_Expr = None\<rparr>) (parseStatements cl dsl)"

definition CompileFilter :: "'e cel \<Rightarrow> string \<Rightarrow> 'e program res" where
  "CompileFilter cl dsl =
     map_sum id (\<lambda>e. \<lparr>pg_Kind = KindFilter, pg_Statements = [], pg_Expr = Some e\<rparr>) (cl_Compile cl (TrimSpace dsl))"

definition CompileCondition :: "'e cel \<Rightarrow> string \<Rightarrow> 'e program res" where
  "CompileCondition cl dsl =
     (if TrimSpace dsl = '''' then Inr \<lparr>pg_Kind = KindCondition, pg_Statements = [], pg_Expr = None\<rparr>
      else map_sum id (\<lambda>p. p\<lparr>pg_Kind := KindCondition\<rparr>) (CompileFilter cl dsl))"

section \<open>Paths\<close>

definition Trim_char :: "char \<Rightarrow> string \<Rightarrow> string" where
  "Trim_char c s = rev (dropWhile (\<lambda>x. x = c) (rev (dropWhile (\<lambda>x. x = c) s)))"

definition trimRoot :: "string \<Rightarrow> string \<Rightarrow> string" where
  "trimRoot path root =
     (let p = TrimPrefix (TrimPrefix path root) ''.'' in
      if HasPrefix p [CHR ''['', CHR 0x22] then TrimSuffix (TrimPrefix p [CHR ''['', CHR 0x22]) [CHR 0x22, CHR '']'']
      else if HasPrefix p ''['' \<and> HasSuffix p '']'' then
        Trim_char (CHR 0x22) (TrimSuffix (TrimPrefix p ''['') '']'')
      else p)"

definition splitPath :: "string \<Rightarrow> string list" where
  "splitPath path = (if path = '''' then [] else split_char (CHR ''.'') path)"

text \<open>The entries of the map at an address.\<close>

definition map_at :: "goheap \<Rightarrow> nat \<Rightarrow> (string \<times> jv) list" where
  "map_at h a = (case hp_objs h a of Some (OMap t) \<Rightarrow> t | _ \<Rightarrow> [])"

fun set_parts :: "nat \<Rightarrow> string list \<Rightarrow> jv \<Rightarrow> goheap \<Rightarrow> goheap" where
  "set_parts cur [] v h = h"
| "set_parts cur [part] v h = hwrite cur (OMap (AList.update part v (map_at h cur))) h"
| "set_parts cur (part # parts) v h =
     (case map_of (map_at h cur) part of
        Some (JMap nxt) \<Rightarrow> set_parts nxt parts v h
      | _ \<Rightarrow>
          (case halloc (OMap []) h of
             (nxt, h1) \<Rightarrow> set_parts nxt parts v (hwrite cur (OMap (AList.update part (JMap nxt) (map_at h1 cur))) h1)))"

definition setPath :: "nat \<Rightarrow> string \<Rightarrow> jv \<Rightarrow> goheap \<Rightarrow> goheap" where
  "setPath root path v h = set_parts root (splitPath path) v h"

fun del_parts :: "nat \<Rightarrow> string list \<Rightarrow> goheap \<Rightarrow> goheap" where
  "del_parts cur [] h = h"
| "del_parts cur [part] h = hwrite cur (OMap (AList.delete part (map_at h cur))) h"
| "del_parts cur (part # parts) h =
     (case map_of (map_at h cur) part of Some (JMap nxt) \<Rightarrow> del_parts nxt parts h | _ \<Rightarrow> h)"

definition delPath :: "nat \<Rightarrow> string \<Rightarrow> goheap \<Rightarrow> goheap" where
  "delPath root path h = del_parts root (splitPath path) h"

text \<open>
  The same on metadata, whose values are trees here: nested maps of metadata are not shared with
  another message in the model.
\<close>

fun set_meta :: "gmap \<Rightarrow> string list \<Rightarrow> gval \<Rightarrow> gmap" where
  "set_meta m [] v = m"
| "set_meta m [part] v = AList.update part v m"
| "set_meta m (part # parts) v =
     AList.update part (GMap (set_meta (case map_of m part of Some (GMap n) \<Rightarrow> n | _ \<Rightarrow> []) parts v)) m"

fun del_meta :: "gmap \<Rightarrow> string list \<Rightarrow> gmap" where
  "del_meta m [] = m"
| "del_meta m [part] = AList.delete part m"
| "del_meta m (part # parts) =
     (case map_of m part of Some (GMap n) \<Rightarrow> AList.update part (GMap (del_meta n parts)) m | _ \<Rightarrow> m)"

section \<open>Execution\<close>

text \<open>
  The context of an evaluation is built around a message everywhere in the program, and its
  metadata is that message's. A nil payload is \<^const>\<open>JNil\<close>.
\<close>

record eval_ctx =
  ec_Msg :: mref
  ec_Input :: jv
  ec_Payload :: jv

text \<open>
  A value that needs more levels than the heap has objects contains itself; copying it overflows
  the stack.
\<close>

definition heap_depth :: "goheap \<Rightarrow> nat" where
  "heap_depth h = hp_next h + 2"

definition stack_overflow :: goerr where
  "stack_overflow = Err ''fatal: stack overflow'' []"

definition ensure_writable :: "mref \<Rightarrow> world \<Rightarrow> world option" where
  "ensure_writable m w =
     map_option (\<lambda>(msg, h). upd_msg m (\<lambda>_. msg) (w\<lparr>wd_heap := h\<rparr>))
       (EnsureWritable (heap_depth (wd_heap w)) (wd_msgs w m) (wd_heap w))"

definition ensureMap :: "jv \<Rightarrow> world \<Rightarrow> nat \<times> world" where
  "ensureMap v w =
     (case v of JMap a \<Rightarrow> (a, w) | _ \<Rightarrow> (case halloc (OMap []) (wd_heap w) of (a, h) \<Rightarrow> (a, w\<lparr>wd_heap := h\<rparr>)))"

definition eval :: "'e cel \<Rightarrow> 'e \<Rightarrow> eval_ctx \<Rightarrow> world \<Rightarrow> (jv \<times> goheap) res" where
  "eval cl e ctx w = cl_Eval cl e (ec_Payload ctx) (ms_Metadata (wd_msgs w (ec_Msg ctx))) (ec_Input ctx) (wd_heap w)"

definition EvalFilter :: "'e cel \<Rightarrow> 'e program \<Rightarrow> eval_ctx \<Rightarrow> world \<Rightarrow> bool res \<times> world" where
  "EvalFilter cl p ctx w =
     (case pg_Expr p of
        None \<Rightarrow> (Inr True, w)
      | Some e \<Rightarrow>
          (case eval cl e ctx w of
             Inl err \<Rightarrow> (Inl err, w)
           | Inr (v, h) \<Rightarrow> (Inr (case v of JBool b \<Rightarrow> b | _ \<Rightarrow> False), w\<lparr>wd_heap := h\<rparr>)))"

definition assign_payload :: "string \<Rightarrow> jv \<Rightarrow> eval_ctx \<Rightarrow> world \<Rightarrow> goerr option \<times> eval_ctx \<times> world" where
  "assign_payload path v ctx w =
     (case ensureMap (ec_Payload ctx) w of
        (root, w1) \<Rightarrow>
          if path = ''payload'' then
            (case v of
               JMap a \<Rightarrow> (None, ctx\<lparr>ec_Payload := v\<rparr>, upd_msg (ec_Msg ctx) (SetParsedData v) w1)
             | _ \<Rightarrow> (Some (Err ''payload assignment expects map value'' []), ctx, w1))
          else
            (None, ctx\<lparr>ec_Payload := JMap root\<rparr>,
             upd_msg (ec_Msg ctx) (SetParsedData (JMap root))
               (w1\<lparr>wd_heap := setPath root (trimRoot path ''payload'') v (wd_heap w1)\<rparr>)))"

definition execute_assign :: "'e cel \<Rightarrow> string \<Rightarrow> 'e \<Rightarrow> eval_ctx \<Rightarrow> world \<Rightarrow> goerr option \<times> eval_ctx \<times> world" where
  "execute_assign cl path e ctx w =
     (case eval cl e ctx w of
        Inl err \<Rightarrow> (Some err, ctx, w)
      | Inr (v, h) \<Rightarrow>
          (case ensure_writable (ec_Msg ctx) (w\<lparr>wd_heap := h\<rparr>) of
             None \<Rightarrow> (Some stack_overflow, ctx, w\<lparr>wd_heap := h\<rparr>)
           | Some w1 \<Rightarrow>
               if HasPrefix path ''payload'' then assign_payload path v ctx w1
               else if HasPrefix path ''metadata'' then
                 (case jv_tree (heap_depth (wd_heap w1)) (wd_heap w1) v of
                    None \<Rightarrow> (Some stack_overflow, ctx, w1)
                  | Some g \<Rightarrow>
                      (None, ctx, upd_msg (ec_Msg ctx)
                         (\<lambda>msg. msg\<lparr>ms_Metadata := set_meta (ms_Metadata msg) (splitPath (trimRoot path ''metadata'')) g\<rparr>) w1))
               else (Some (Err ''assignment path must start with payload or metadata'' []), ctx, w1)))"

definition execute_delete :: "string \<Rightarrow> eval_ctx \<Rightarrow> world \<Rightarrow> goerr option \<times> eval_ctx \<times> world" where
  "execute_delete raw ctx w =
     (case ensure_writable (ec_Msg ctx) w of
        None \<Rightarrow> (Some stack_overflow, ctx, w)
      | Some w1 \<Rightarrow>
          let path = TrimSpace raw in
          if HasPrefix path ''payload'' then
            (case ensureMap (ec_Payload ctx) w1 of
               (root, w2) \<Rightarrow>
                 (None, ctx, upd_msg (ec_Msg ctx) (SetParsedData (ec_Payload ctx))
                    (w2\<lparr>wd_heap := delPath root (trimRoot path ''payload'') (wd_heap w2)\<rparr>)))
          else if HasPrefix path ''metadata'' then
            (None, ctx, upd_msg (ec_Msg ctx)
               (\<lambda>msg. msg\<lparr>ms_Metadata := del_meta (ms_Metadata msg) (splitPath (trimRoot path ''metadata''))\<rparr>) w1)
          else (Some (Err ''delete path must start with payload or metadata'' []), ctx, w1))"

definition execute :: "'e cel \<Rightarrow> 'e statement \<Rightarrow> eval_ctx \<Rightarrow> world \<Rightarrow> goerr option \<times> eval_ctx \<times> world" where
  "execute cl s ctx w =
     (case s of AssignStmt path e \<Rightarrow> execute_assign cl path e ctx w | DeleteStmt path \<Rightarrow> execute_delete path ctx w)"

fun EvalMapping :: "'e cel \<Rightarrow> 'e statement list \<Rightarrow> eval_ctx \<Rightarrow> world \<Rightarrow> goerr option \<times> eval_ctx \<times> world" where
  "EvalMapping cl [] ctx w = (None, ctx, w)"
| "EvalMapping cl (s # stmts) ctx w =
     (case execute cl s ctx w of
        (Some err, ctx', w') \<Rightarrow> (Some err, ctx', w')
      | (None, ctx', w') \<Rightarrow> EvalMapping cl stmts ctx' w')"

end
