(* ===== verification/Plugins.thy ===== *)
theory Plugins
  imports Eql Accounts
begin

text \<open>
  The plugins that need nothing outside the process: the transforms \<^verbatim>\<open>map\<close>,
  \<^verbatim>\<open>filter\<close> and \<^verbatim>\<open>route\<close>, the codecs \<^verbatim>\<open>json\<close> and \<^verbatim>\<open>raw\<close>
  and the sink \<^verbatim>\<open>drop\<close> of \<^verbatim>\<open>plugins/\<close>, as the registry creates them.
\<close>

section \<open>JSON and the heap\<close>

text \<open>Building the objects of a decoded value.\<close>

fun thaw :: "gval \<Rightarrow> goheap \<Rightarrow> jv \<times> goheap"
and thaw_entries :: "gmap \<Rightarrow> goheap \<Rightarrow> (string \<times> jv) list \<times> goheap"
and thaw_items :: "gval list \<Rightarrow> goheap \<Rightarrow> jv list \<times> goheap" where
  "thaw GNil h = (JNil, h)"
| "thaw (GBool b) h = (JBool b, h)"
| "thaw (GInt i) h = (JInt i, h)"
| "thaw (GInt64 i) h = (JInt i, h)"
| "thaw (GFloat32 f) h = (JFloat f, h)"
| "thaw (GFloat64 f) h = (JFloat f, h)"
| "thaw (GStr s) h = (JStr s, h)"
| "thaw (GStrs ss) h = (case halloc (OList (map JStr ss)) h of (a, h') \<Rightarrow> (JList a, h'))"
| "thaw (GList vs) h =
     (case thaw_items vs h of (js, h1) \<Rightarrow> (case halloc (OList js) h1 of (a, h2) \<Rightarrow> (JList a, h2)))"
| "thaw (GMap m) h =
     (case thaw_entries m h of (t, h1) \<Rightarrow> (case halloc (OMap t) h1 of (a, h2) \<Rightarrow> (JMap a, h2)))"
| "thaw_entries [] h = ([], h)"
| "thaw_entries ((k, v) # m) h =
     (case thaw v h of (j, h1) \<Rightarrow> (case thaw_entries m h1 of (t, h2) \<Rightarrow> ((k, j) # t, h2)))"
| "thaw_items [] h = ([], h)"
| "thaw_items (v # vs) h =
     (case thaw v h of (j, h1) \<Rightarrow> (case thaw_items vs h1 of (js, h2) \<Rightarrow> (j # js, h2)))"

text \<open>\<^verbatim>\<open>json.Marshal\<close> writes bytes in base 64.\<close>

definition base64_digits :: string where
  "base64_digits = ''ABCDEFGHIJKLMNOPQRSTUVWXYZabcdefghijklmnopqrstuvwxyz0123456789+/''"

fun base64 :: "nat list \<Rightarrow> string" where
  "base64 (a # b # c # rest) =
     [base64_digits ! (a div 4), base64_digits ! (a mod 4 * 16 + b div 16),
      base64_digits ! (b mod 16 * 4 + c div 64), base64_digits ! (c mod 64)] @ base64 rest"
| "base64 [a, b] =
     [base64_digits ! (a div 4), base64_digits ! (a mod 4 * 16 + b div 16), base64_digits ! (b mod 16 * 4), CHR ''='']"
| "base64 [a] = [base64_digits ! (a div 4), base64_digits ! (a mod 4 * 16), CHR ''='', CHR ''='']"
| "base64 [] = []"

text \<open>The tree of a value that is to be encoded; a cycle runs past every bound.\<close>

fun freeze :: "nat \<Rightarrow> goheap \<Rightarrow> jv \<Rightarrow> gval option"
and freeze_entries :: "nat \<Rightarrow> goheap \<Rightarrow> (string \<times> jv) list \<Rightarrow> gmap option"
and freeze_items :: "nat \<Rightarrow> goheap \<Rightarrow> jv list \<Rightarrow> gval list option" where
  "freeze 0 h v = None"
| "freeze (Suc n) h v =
     (case v of
        JNil \<Rightarrow> Some GNil
      | JBool b \<Rightarrow> Some (GBool b)
      | JInt i \<Rightarrow> Some (GInt i)
      | JFloat f \<Rightarrow> Some (GFloat64 f)
      | JStr s \<Rightarrow> Some (GStr s)
      | JBytes s \<Rightarrow> Some (GStr (base64 (map of_char s)))
      | JMap a \<Rightarrow>
          (case hp_objs h a of Some (OMap t) \<Rightarrow> map_option GMap (freeze_entries n h t) | _ \<Rightarrow> None)
      | JList a \<Rightarrow>
          (case hp_objs h a of Some (OList t) \<Rightarrow> map_option GList (freeze_items n h t) | _ \<Rightarrow> None))"
| "freeze_entries n h [] = Some []"
| "freeze_entries n h ((k, v) # t) =
     (case freeze n h v of
        None \<Rightarrow> None
      | Some x \<Rightarrow> (case freeze_entries n h t of None \<Rightarrow> None | Some xs \<Rightarrow> Some ((k, x) # xs)))"
| "freeze_items n h [] = Some []"
| "freeze_items n h (v # t) =
     (case freeze n h v of
        None \<Rightarrow> None
      | Some x \<Rightarrow> (case freeze_items n h t of None \<Rightarrow> None | Some xs \<Rightarrow> Some (x # xs)))"

definition json_Marshal :: "(gfloat \<Rightarrow> string) \<Rightarrow> jv \<Rightarrow> goheap \<Rightarrow> string res" where
  "json_Marshal ff v h =
     (case freeze (heap_depth h) h v of
        None \<Rightarrow> Inl (Err ''json: unsupported value: encountered a cycle'' [])
      | Some g \<Rightarrow> Inr (marshal ff g))"

section \<open>Codecs\<close>

text \<open>The texts of floats, both ways.\<close>

record json_env =
  je_format :: "gfloat \<Rightarrow> string"
  je_parse :: "string \<Rightarrow> gfloat option"

definition json_codec :: "json_env \<Rightarrow> codec" where
  "json_codec je =
     \<lparr>cd_Name = ''json'',
      cd_Decode = (\<lambda>payload h. map_sum id (\<lambda>g. thaw g h) (unmarshal (je_parse je) payload)),
      cd_Encode = (\<lambda>data h. json_Marshal (je_format je) data h)\<rparr>"

definition raw_codec :: codec where
  "raw_codec =
     \<lparr>cd_Name = ''raw'',
      cd_Decode = (\<lambda>payload h. Inr (JBytes payload, h)),
      cd_Encode = (\<lambda>data h. Inr (case data of JBytes v \<Rightarrow> v | JStr v \<Rightarrow> v | _ \<Rightarrow> ''''))\<rparr>"

section \<open>The map transform\<close>

text \<open>
  \<^verbatim>\<open>payloadMap\<close>: the parsed map itself, or the decoded payload, or an empty map; and a copy
  of its entries as the input.
\<close>

definition payloadMap :: "json_env \<Rightarrow> message \<Rightarrow> goheap \<Rightarrow> jv \<times> jv \<times> goheap" where
  "payloadMap je msg h =
     (let decoded = (if ms_Payload msg = '''' then None
          else (case unmarshal_map (je_parse je) (ms_Payload msg) of Inr (Some m) \<Rightarrow> Some m | _ \<Rightarrow> None)) in
      case (case ms_parsedData msg of
              JMap a \<Rightarrow> (JMap a, map_at h a, h)
            | _ \<Rightarrow>
                (case decoded of
                   Some m \<Rightarrow> (case thaw (GMap m) h of (v, h1) \<Rightarrow>
                       (v, case v of JMap a \<Rightarrow> map_at h1 a | _ \<Rightarrow> [], h1))
                 | None \<Rightarrow> (case halloc (OMap []) h of (a, h1) \<Rightarrow> (JMap a, [], h1)))) of
        (payload, entries, h1) \<Rightarrow>
          (case halloc (OMap entries) h1 of (b, h2) \<Rightarrow> (payload, JMap b, h2)))"

definition map_message :: "'e cel \<Rightarrow> json_env \<Rightarrow> 'e program \<Rightarrow> mref \<Rightarrow> world \<Rightarrow> mref res \<times> world" where
  "map_message cl je prg m w =
     (case new_msg (ShallowCopy (wd_msgs w m)) w of
        (cp, w1) \<Rightarrow>
          (case payloadMap je (wd_msgs w1 cp) (wd_heap w1) of
             (payload, input, h) \<Rightarrow>
               (case EvalMapping cl (pg_Statements prg) \<lparr>ec_Msg = cp, ec_Input = input, ec_Payload = payload\<rparr>
                       (w1\<lparr>wd_heap := h\<rparr>) of
                  (Some err, ctx, w2) \<Rightarrow> (Inl err, w2)
                | (None, ctx, w2) \<Rightarrow>
                    if \<not> ms_parsedDirty (wd_msgs w2 cp) then (Inr cp, w2)
                    else
                      (case json_Marshal (je_format je) (ec_Payload ctx) (wd_heap w2) of
                         Inl err \<Rightarrow> (Inl err, w2)
                       | Inr b \<Rightarrow> (Inr cp, upd_msg cp (\<lambda>msg. (BackupOriginalPayload msg)\<lparr>ms_Payload := b\<rparr>) w2)))))"

text \<open>The loop over a batch: each message gives an output or none, or the batch fails.\<close>

fun process_loop :: "(mref \<Rightarrow> world \<Rightarrow> mref option res \<times> world) \<Rightarrow> mref list \<Rightarrow> world \<Rightarrow> mref list res \<times> world" where
  "process_loop f [] w = (Inr [], w)"
| "process_loop f (m # ms) w =
     (case f m w of
        (Inl err, w1) \<Rightarrow> (Inl err, w1)
      | (Inr r, w1) \<Rightarrow>
          (case process_loop f ms w1 of
             (Inl err, w2) \<Rightarrow> (Inl err, w2)
           | (Inr out, w2) \<Rightarrow> (Inr (case r of None \<Rightarrow> out | Some k \<Rightarrow> k # out), w2)))"

definition map_Process :: "'e cel \<Rightarrow> json_env \<Rightarrow> 'e program \<Rightarrow> mref list \<Rightarrow> world \<Rightarrow> mref list res \<times> world" where
  "map_Process cl je prg batch w =
     process_loop (\<lambda>m w. case map_message cl je prg m w of (r, w1) \<Rightarrow> (map_sum id Some r, w1)) batch w"

section \<open>The filter transform\<close>

text \<open>The payload of an evaluation; \<^const>\<open>JNil\<close> is an empty or nil map.\<close>

definition eval_payload :: "json_env \<Rightarrow> message \<Rightarrow> goheap \<Rightarrow> jv \<times> goheap" where
  "eval_payload je msg h =
     (case ms_parsedData msg of
        JMap a \<Rightarrow> (JMap a, h)
      | JNil \<Rightarrow>
          if ms_Payload msg = '''' then (JNil, h)
          else (case unmarshal_map (je_parse je) (ms_Payload msg) of
                  Inr (Some m) \<Rightarrow> thaw (GMap m) h
                | _ \<Rightarrow> (JNil, h))
      | _ \<Rightarrow> (JNil, h))"

definition filter_message :: "'e cel \<Rightarrow> json_env \<Rightarrow> 'e program \<Rightarrow> mref \<Rightarrow> world \<Rightarrow> mref option res \<times> world" where
  "filter_message cl je prg m w =
     (case eval_payload je (wd_msgs w m) (wd_heap w) of
        (payload, h) \<Rightarrow>
          (case EvalFilter cl prg \<lparr>ec_Msg = m, ec_Input = payload, ec_Payload = payload\<rparr> (w\<lparr>wd_heap := h\<rparr>) of
             (Inl err, w1) \<Rightarrow> (Inl err, w1)
           | (Inr ok, w1) \<Rightarrow> (Inr (if ok then Some m else None), w1)))"

definition filter_Process :: "'e cel \<Rightarrow> json_env \<Rightarrow> 'e program \<Rightarrow> mref list \<Rightarrow> world \<Rightarrow> mref list res \<times> world" where
  "filter_Process cl je prg batch w = process_loop (filter_message cl je prg) batch w"

section \<open>The route transform\<close>

fun order_listed ::
  "(string \<times> 'e program) list \<Rightarrow> gval list \<Rightarrow> string list \<Rightarrow> string list res" where
  "order_listed routes [] out = Inr out"
| "order_listed routes (item # raw) out =
     (case item of
        GStr name \<Rightarrow>
          if name = '''' then order_listed routes raw out
          else if map_of routes name = None then Inl (Err ''route_order: unknown route %q'' [name])
          else if name \<in> set out then order_listed routes raw out
          else order_listed routes raw (out @ [name])
      | _ \<Rightarrow> order_listed routes raw out)"

definition routeOrder :: "gmap \<Rightarrow> (string \<times> 'e program) list \<Rightarrow> string list res" where
  "routeOrder cfg routes =
     (let has_default = (map_of routes ''_default'' \<noteq> None) in
      case mget cfg ''route_order'' of
        GList raw \<Rightarrow>
          map_sum id (\<lambda>out. if has_default \<and> ''_default'' \<notin> set out then out @ [''_default''] else out)
            (order_listed routes raw [])
      | _ \<Rightarrow>
          Inr (sort_key id (filter (\<lambda>n. n \<noteq> ''_default'') (map fst routes))
               @ (if has_default then [''_default''] else [])))"

text \<open>The first route of the order whose expression holds.\<close>

fun first_route ::
  "'e cel \<Rightarrow> (string \<times> 'e program) list \<Rightarrow> eval_ctx \<Rightarrow> string list \<Rightarrow> world \<Rightarrow> string option res \<times> world" where
  "first_route cl routes ctx [] w = (Inr None, w)"
| "first_route cl routes ctx (name # order) w =
     (case map_of routes name of
        None \<Rightarrow> (Inl (Err ''panic: invalid memory address or nil pointer dereference'' []), w)
      | Some prg \<Rightarrow>
          (case EvalFilter cl prg ctx w of
             (Inl err, w1) \<Rightarrow> (Inl err, w1)
           | (Inr ok, w1) \<Rightarrow> if ok then (Inr (Some name), w1) else first_route cl routes ctx order w1))"

definition route_message ::
  "'e cel \<Rightarrow> json_env \<Rightarrow> (string \<times> 'e program) list \<Rightarrow> string list \<Rightarrow> mref \<Rightarrow> world \<Rightarrow> mref option res \<times> world" where
  "route_message cl je routes order m w =
     (case new_msg (ShallowCopy (wd_msgs w m)) w of
        (cp, w1) \<Rightarrow>
          (case eval_payload je (wd_msgs w1 cp) (wd_heap w1) of
             (payload, h) \<Rightarrow>
               (case first_route cl routes \<lparr>ec_Msg = cp, ec_Input = payload, ec_Payload = payload\<rparr> order
                       (w1\<lparr>wd_heap := h\<rparr>) of
                  (Inl err, w2) \<Rightarrow> (Inl err, w2)
                | (Inr None, w2) \<Rightarrow> (Inr None, w2)
                | (Inr (Some name), w2) \<Rightarrow>
                    if name = '''' then (Inr None, w2)
                    else
                      (Inr (Some cp), upd_msg cp (\<lambda>msg. msg\<lparr>ms_Metadata := AList.update ''er-route'' (GStr name) (ms_Metadata msg)\<rparr>) w2))))"

definition route_Process ::
  "'e cel \<Rightarrow> json_env \<Rightarrow> (string \<times> 'e program) list \<Rightarrow> string list \<Rightarrow> mref list \<Rightarrow> world \<Rightarrow> mref list res \<times> world" where
  "route_Process cl je routes order batch w = process_loop (route_message cl je routes order) batch w"

section \<open>Registration\<close>

text \<open>
  The factories, in the order of their checks. A stage of these plugins has the hooks of
  \<^verbatim>\<open>basestage.Base\<close>, which do nothing.
\<close>

definition base_stage :: "(world, 'x) stage_role \<Rightarrow> (world, 'x) stage_inst" where
  "base_stage role = \<lparr>sg_Init = (\<lambda>x. (None, x)), sg_Stop = (\<lambda>x. (None, x)), sg_role = role\<rparr>"

text \<open>The values of a stage's configuration map, without the engine's own keys.\<close>

definition plain_config :: "stage_cfg \<Rightarrow> gmap" where
  "plain_config cfg = concat (map (\<lambda>(k, v). case v of CfgVal g \<Rightarrow> [(k, g)] | _ \<Rightarrow> []) cfg)"

definition cfg_string :: "gmap \<Rightarrow> string \<Rightarrow> string" where
  "cfg_string cfg key = (case mget cfg key of GStr s \<Rightarrow> s | _ \<Rightarrow> '''')"

definition map_factory :: "'e cel \<Rightarrow> json_env \<Rightarrow> (world, 'x) stage_factory" where
  "map_factory cl je = (\<lambda>(sid, cfg).
     let dsl = cfg_string (plain_config cfg) ''dsl'' in
     if dsl = '''' then Inl (Err ''map transform: dsl is required'' [])
     else map_sum id (\<lambda>prg. base_stage (TransformRole (map_Process cl je prg))) (CompileMapping cl dsl))"

definition filter_factory :: "'e cel \<Rightarrow> json_env \<Rightarrow> (world, 'x) stage_factory" where
  "filter_factory cl je = (\<lambda>(sid, cfg).
     let dsl = cfg_string (plain_config cfg) ''dsl'' in
     if dsl = '''' then Inl (Err ''filter transform: dsl is required'' [])
     else map_sum id (\<lambda>prg. base_stage (TransformRole (filter_Process cl je prg))) (CompileFilter cl dsl))"

definition compile_route :: "'e cel \<Rightarrow> (string \<times> 'e program) list \<Rightarrow> string \<times> gval \<Rightarrow> (string \<times> 'e program) list res" where
  "compile_route cl compiled entry =
     (case entry of (name, expr) \<Rightarrow>
        (case expr of
           GStr s \<Rightarrow>
             (case CompileFilter cl s of
                Inl err \<Rightarrow> Inl (Wrap ''route %q: %w'' [name] err)
              | Inr prg \<Rightarrow> Inr (AList.update name prg compiled))
         | _ \<Rightarrow> Inl (Err ''route %q: expression must be string'' [name])))"

definition route_factory :: "'e cel \<Rightarrow> json_env \<Rightarrow> (world, 'x) stage_factory" where
  "route_factory cl je = (\<lambda>(sid, cfg).
     (case mget (plain_config cfg) ''routes'' of
        GMap routes \<Rightarrow>
          if routes = [] then Inl (Err ''route transform: routes is required'' [])
          else
            (case rfold (compile_route cl) [] routes of
               Inl err \<Rightarrow> Inl err
             | Inr compiled \<Rightarrow>
                 map_sum id (\<lambda>order. base_stage (TransformRole (route_Process cl je compiled order)))
                   (routeOrder (plain_config cfg) compiled))
      | _ \<Rightarrow> Inl (Err ''route transform: routes is required'' [])))"

definition drop_factory :: "(world, 'x) stage_factory" where
  "drop_factory = (\<lambda>(sid, cfg). Inr (base_stage (SinkRole (\<lambda>batch w x. (None, x)) (\<lambda>x. (None, x)))))"

definition builtin_registry :: "'e cel \<Rightarrow> json_env \<Rightarrow> (world, 'x) registry" where
  "builtin_registry cl je =
     RegisterTransform ''map'' (map_factory cl je)
       (RegisterTransform ''filter'' (filter_factory cl je)
         (RegisterTransform ''route'' (route_factory cl je)
           (RegisterSink ''drop'' drop_factory
             (RegisterCodec ''json'' (\<lambda>_. Inr (json_codec je))
               (RegisterCodec ''raw'' (\<lambda>_. Inr raw_codec) registry_New)))))"

text \<open>What \<^verbatim>\<open>eql\<close> is to the runtime graph and to \<^verbatim>\<open>evalCondition\<close>.\<close>

definition eql_compiler :: "'e cel \<Rightarrow> 'e program compiler" where
  "eql_compiler cl = \<lparr>cp_filter = CompileFilter cl, cp_condition = CompileCondition cl\<rparr>"


section \<open>What the transforms change\<close>

lemma data_step_heap [simp]: "data_step w (w\<lparr>wd_heap := h\<rparr>)"
  by (simp add: data_step_def)

lemma ensure_writable_data: "ensure_writable m w = Some w1 \<Longrightarrow> data_step w w1"
  by (auto simp: ensure_writable_def EnsureWritable_def data_step_def upd_msg_def split: if_splits option.splits)

lemma ensureMap_data: "ensureMap v w = (a, w1) \<Longrightarrow> data_step w w1"
  by (auto simp: ensureMap_def split: jv.splits prod.splits)

lemma data_step_msg: "data_step w w1 \<Longrightarrow> (\<And>x. ms_ackFn (f x) = ms_ackFn x \<and> ms_ID (f x) = ms_ID x) \<Longrightarrow> data_step w (upd_msg m f w1)"
  by (rule data_step_trans [OF _ data_step_upd])

lemma data_step_msg_heap: "data_step w w1 \<Longrightarrow> (\<And>x. ms_ackFn (f x) = ms_ackFn x \<and> ms_ID (f x) = ms_ID x) \<Longrightarrow>
   data_step w (upd_msg m f (w1\<lparr>wd_heap := h\<rparr>))"
  by (rule data_step_msg [OF data_step_trans [OF _ data_step_heap]]) simp_all

lemma assign_payload_data:
  assumes "assign_payload path v ctx w = (r, ctx', w')"
  shows "data_step w w' \<and> ec_Msg ctx' = ec_Msg ctx"
proof -
  obtain root w1 where e: "ensureMap (ec_Payload ctx) w = (root, w1)" by (metis surj_pair)
  note D = ensureMap_data [OF e]
  have s: "ms_ackFn (SetParsedData u x) = ms_ackFn x \<and> ms_ID (SetParsedData u x) = ms_ID x" for u x
    by (simp add: SetParsedData_def)
  show ?thesis using assms e D data_step_msg [OF D s] data_step_msg_heap [OF D s]
    by (auto simp: assign_payload_def split: if_splits jv.splits)
qed

lemma execute_data:
  assumes "execute cl s ctx w = (r, ctx', w')"
  shows "data_step w w' \<and> ec_Msg ctx' = ec_Msg ctx"
proof (cases s)
  case (AssignStmt path e)
  then have x: "execute_assign cl path e ctx w = (r, ctx', w')" using assms by (simp add: execute_def)
  show ?thesis
  proof (cases "eval cl e ctx w")
    case (Inl err)
    then show ?thesis using x by (simp add: execute_assign_def)
  next
    case (Inr vh)
    obtain v h where vh: "vh = (v, h)" by (metis surj_pair)
    show ?thesis
    proof (cases "ensure_writable (ec_Msg ctx) (w\<lparr>wd_heap := h\<rparr>)")
      case None
      then show ?thesis using x Inr vh by (auto simp: execute_assign_def)
    next
      case (Some w1)
      note D = data_step_trans [OF data_step_heap [of w h] ensure_writable_data [OF Some]]
      show ?thesis
      proof (cases "HasPrefix path ''payload''")
        case True
        then have "assign_payload path v ctx w1 = (r, ctx', w')" using x Inr vh Some by (simp add: execute_assign_def)
        from assign_payload_data [OF this] show ?thesis using data_step_trans [OF D] by blast
      next
        case False
        have md: "data_step w (upd_msg (ec_Msg ctx)
            (\<lambda>msg. msg\<lparr>ms_Metadata := set_meta (ms_Metadata msg) (splitPath (trimRoot path ''metadata'')) g\<rparr>) w1)" for g
          by (rule data_step_msg [OF D]) simp
        show ?thesis using x Inr vh Some False D md
          by (auto simp: execute_assign_def split: if_splits option.splits)
      qed
    qed
  qed
next
  case (DeleteStmt path)
  then have x: "execute_delete path ctx w = (r, ctx', w')" using assms by (simp add: execute_def)
  show ?thesis
  proof (cases "ensure_writable (ec_Msg ctx) w")
    case None
    then show ?thesis using x by (simp add: execute_delete_def)
  next
    case (Some w1)
    note D = ensure_writable_data [OF Some]
    obtain root w2 where e: "ensureMap (ec_Payload ctx) w1 = (root, w2)" by (metis surj_pair)
    have "data_step w (upd_msg (ec_Msg ctx) (SetParsedData (ec_Payload ctx)) (w2\<lparr>wd_heap := h\<rparr>))" for h
      by (rule data_step_msg_heap [OF data_step_trans [OF D ensureMap_data [OF e]]]) (simp add: SetParsedData_def)
    moreover have "data_step w (upd_msg (ec_Msg ctx) (\<lambda>msg. msg\<lparr>ms_Metadata := del_meta (ms_Metadata msg) parts\<rparr>) w1)" for parts
      by (rule data_step_msg [OF D]) simp
    ultimately show ?thesis using x Some e D by (auto simp: execute_delete_def Let_def split: if_splits)
  qed
qed

lemma EvalMapping_data: "EvalMapping cl ss ctx w = (r, ctx', w') \<Longrightarrow> data_step w w' \<and> ec_Msg ctx' = ec_Msg ctx"
proof (induction ss arbitrary: ctx w)
  case (Cons s ss)
  obtain r1 ctx1 w1 where e: "execute cl s ctx w = (r1, ctx1, w1)" by (metis surj_pair)
  note D = execute_data [OF e]
  show ?case
  proof (cases r1)
    case None
    then have "EvalMapping cl ss ctx1 w1 = (r, ctx', w')" using Cons.prems e by simp
    from Cons.IH [OF this] show ?thesis using D data_step_trans by auto
  next
    case (Some err)
    then show ?thesis using Cons.prems e D by auto
  qed
qed simp

lemma EvalFilter_data: "EvalFilter cl p ctx w = (r, w') \<Longrightarrow> data_step w w'"
  by (auto simp: EvalFilter_def split: option.splits sum.splits prod.splits)

text \<open>A new message or the message itself, and nothing else but content.\<close>

definition step_ok :: "(mref \<Rightarrow> world \<Rightarrow> mref option res \<times> world) \<Rightarrow> bool" where
  "step_ok f \<longleftrightarrow> (\<forall>m w. m < wd_next w \<longrightarrow>
     (case f m w of (r, w') \<Rightarrow> data_step w w' \<and>
        (\<forall>k. r = Inr (Some k) \<longrightarrow> k = m \<or> wd_next w \<le> k \<and> k < wd_next w')))"

lemma process_ok_loop:
  assumes "step_ok f"
  shows "process_ok (process_loop f)"
  unfolding process_ok_def
proof (intro allI impI)
  fix m and w :: world assume m: "m < wd_next w"
  obtain r w1 where r: "f m w = (r, w1)" by (metis surj_pair)
  have "data_step w w1 \<and> (\<forall>k. r = Inr (Some k) \<longrightarrow> k = m \<or> wd_next w \<le> k \<and> k < wd_next w1)"
    using assms m r unfolding step_ok_def by fastforce
  then show "case process_loop f [m] w of
      (Inl err, w') \<Rightarrow> data_step w w'
    | (Inr outs, w') \<Rightarrow> data_step w w' \<and> (outs = [m] \<or> distinct outs \<and> (\<forall>k \<in> set outs. wd_next w \<le> k \<and> k < wd_next w'))"
    by (auto simp: r split: sum.splits option.splits)
qed

lemma new_msg_facts: "new_msg msg w = (k, w') \<Longrightarrow> data_step w w' \<and> k = wd_next w \<and> wd_next w' = Suc k"
  by (auto simp: new_msg_def data_step_def)

lemma data_step_next: "data_step w w' \<Longrightarrow> k < wd_next w \<Longrightarrow> k < wd_next w'"
  by (simp add: data_step_def)

lemma map_step_ok: "step_ok (\<lambda>m w. case map_message cl je prg m w of (r, w1) \<Rightarrow> (map_sum id Some r, w1))"
  unfolding step_ok_def
proof (intro allI impI)
  fix m and w :: world assume "m < wd_next w"
  obtain cp w1 where n: "new_msg (ShallowCopy (wd_msgs w m)) w = (cp, w1)" by (metis surj_pair)
  obtain payload input h where pm: "payloadMap je (wd_msgs w1 cp) (wd_heap w1) = (payload, input, h)" by (metis surj_pair)
  obtain r ctx w2 where em: "EvalMapping cl (pg_Statements prg) \<lparr>ec_Msg = cp, ec_Input = input, ec_Payload = payload\<rparr>
      (w1\<lparr>wd_heap := h\<rparr>) = (r, ctx, w2)" by (metis surj_pair)
  note N = new_msg_facts [OF n]
  have h: "data_step w (w1\<lparr>wd_heap := h\<rparr>)" by (rule data_step_trans [OF conjunct1 [OF N] data_step_heap])
  have e: "data_step (w1\<lparr>wd_heap := h\<rparr>) w2" using EvalMapping_data [OF em] by blast
  note D = data_step_trans [OF h e]
  have "cp < wd_next (w1\<lparr>wd_heap := h\<rparr>)" using N by simp
  then have cp: "wd_next w \<le> cp" "cp < wd_next w2" using data_step_next [OF e] N by auto
  have b: "data_step w (upd_msg cp (\<lambda>msg. (BackupOriginalPayload msg)\<lparr>ms_Payload := b\<rparr>) w2)" for b
    by (rule data_step_msg [OF D]) (simp add: BackupOriginalPayload_def)
  have u: "wd_next (upd_msg cp f w2) = wd_next w2" for f by (simp add: upd_msg_def)
  show "case (case map_message cl je prg m w of (r, w1) \<Rightarrow> (map_sum id Some r, w1)) of
      (r, w') \<Rightarrow> data_step w w' \<and> (\<forall>k. r = Inr (Some k) \<longrightarrow> k = m \<or> wd_next w \<le> k \<and> k < wd_next w')"
    using D b cp u by (auto simp: map_message_def n pm em split: option.splits sum.splits)
qed

lemma filter_step_ok: "step_ok (filter_message cl je prg)"
  unfolding step_ok_def
proof (intro allI impI)
  fix m and w :: world assume "m < wd_next w"
  obtain payload h where ep: "eval_payload je (wd_msgs w m) (wd_heap w) = (payload, h)" by (metis surj_pair)
  obtain r w1 where ef: "EvalFilter cl prg \<lparr>ec_Msg = m, ec_Input = payload, ec_Payload = payload\<rparr> (w\<lparr>wd_heap := h\<rparr>) = (r, w1)"
    by (metis surj_pair)
  have "data_step w w1" by (rule data_step_trans [OF data_step_heap EvalFilter_data [OF ef]])
  then show "case filter_message cl je prg m w of
      (r, w') \<Rightarrow> data_step w w' \<and> (\<forall>k. r = Inr (Some k) \<longrightarrow> k = m \<or> wd_next w \<le> k \<and> k < wd_next w')"
    by (auto simp: filter_message_def ep ef split: sum.splits)
qed

lemma first_route_data: "first_route cl routes ctx order w = (r, w') \<Longrightarrow> data_step w w'"
proof (induction order arbitrary: w)
  case (Cons name order)
  show ?case
  proof (cases "map_of routes name")
    case (Some prg)
    obtain q w1 where ef: "EvalFilter cl prg ctx w = (q, w1)" by (metis surj_pair)
    note D = EvalFilter_data [OF ef]
    show ?thesis using Cons Some ef D data_step_trans [OF D] by (auto split: sum.splits if_splits)
  qed (use Cons in simp)
qed simp

lemma route_step_ok: "step_ok (route_message cl je routes order)"
  unfolding step_ok_def
proof (intro allI impI)
  fix m and w :: world assume "m < wd_next w"
  obtain cp w1 where n: "new_msg (ShallowCopy (wd_msgs w m)) w = (cp, w1)" by (metis surj_pair)
  obtain payload h where ep: "eval_payload je (wd_msgs w1 cp) (wd_heap w1) = (payload, h)" by (metis surj_pair)
  obtain r w2 where fr: "first_route cl routes \<lparr>ec_Msg = cp, ec_Input = payload, ec_Payload = payload\<rparr> order
      (w1\<lparr>wd_heap := h\<rparr>) = (r, w2)" by (metis surj_pair)
  note N = new_msg_facts [OF n]
  have h: "data_step w (w1\<lparr>wd_heap := h\<rparr>)" by (rule data_step_trans [OF conjunct1 [OF N] data_step_heap])
  note D = data_step_trans [OF h first_route_data [OF fr]]
  have "cp < wd_next (w1\<lparr>wd_heap := h\<rparr>)" using N by simp
  then have cp: "wd_next w \<le> cp" "cp < wd_next w2" using data_step_next [OF first_route_data [OF fr]] N by auto
  have b: "data_step w (upd_msg cp (\<lambda>msg. msg\<lparr>ms_Metadata := AList.update ''er-route'' (GStr name) (ms_Metadata msg)\<rparr>) w2)" for name
    by (rule data_step_msg [OF D]) simp
  have u: "wd_next (upd_msg cp f w2) = wd_next w2" for f by (simp add: upd_msg_def)
  show "case route_message cl je routes order m w of
      (r, w') \<Rightarrow> data_step w w' \<and> (\<forall>k. r = Inr (Some k) \<longrightarrow> k = m \<or> wd_next w \<le> k \<and> k < wd_next w')"
    using D b cp u by (auto simp: route_message_def n ep fr split: option.splits sum.splits)
qed

lemma builtin_process_ok:
  "process_ok (map_Process cl je prg)" "process_ok (filter_Process cl je prg)" "process_ok (route_Process cl je routes order)"
  using process_ok_loop [OF map_step_ok, of cl je prg] process_ok_loop [OF filter_step_ok, of cl je prg]
    process_ok_loop [OF route_step_ok, of cl je routes order]
  by (simp_all add: map_Process_def filter_Process_def route_Process_def process_ok_def)

lemma builtin_transform_factories:
  "map_of (re_transforms (builtin_registry cl je)) typ = Some f \<Longrightarrow>
     f = map_factory cl je \<or> f = filter_factory cl je \<or> f = route_factory cl je"
  by (auto simp: builtin_registry_def RegisterTransform_def RegisterSink_def RegisterCodec_def registry_New_def split: if_splits)

lemma set_update_entries: "x \<in> set (AList.update k v m) \<Longrightarrow> x = (k, v) \<or> x \<in> set m"
  by (induction m) (auto split: if_splits)

text \<open>What the types of the factories guarantee in Go.\<close>

definition typed_registry :: "(world, 'x) registry \<Rightarrow> bool" where
  "typed_registry reg \<longleftrightarrow>
     (\<forall>f \<in> snd ` set (re_sources reg). \<forall>arg s. f arg = Inr s \<longrightarrow> (\<exists>acking. sg_role s = SourceRole acking)) \<and>
     (\<forall>f \<in> snd ` set (re_sinks reg). \<forall>arg s. f arg = Inr s \<longrightarrow> (\<exists>wr fl. sg_role s = SinkRole wr fl))"

definition stage_ok :: "(world, 'x) stage_inst \<Rightarrow> bool" where
  "stage_ok st \<longleftrightarrow> (case sg_role st of TransformRole process \<Rightarrow> process_ok process | _ \<Rightarrow> True)"

lemma map_sum_Inr: "map_sum id g r = Inr s \<longleftrightarrow> (\<exists>x. r = Inr x \<and> s = g x)"
  by (cases r) auto

lemma builtin_created_ok:
  assumes "map_of (re_transforms (builtin_registry cl je)) typ = Some f" and "f arg = Inr s"
  shows "stage_ok s"
  using builtin_transform_factories [OF assms(1)] assms(2) builtin_process_ok
  by (auto simp: map_factory_def filter_factory_def route_factory_def stage_ok_def base_stage_def Let_def map_sum_Inr
      split: if_splits gval.splits sum.splits prod.splits)

lemma create_stage_ok_gen:
  assumes typed: "typed_registry reg"
    and tr: "\<And>f arg. map_of (re_transforms reg) (st_Type st) = Some f \<Longrightarrow> f arg = Inr s \<Longrightarrow> stage_ok s"
    and st: "create_stage reg st = Inr s"
  shows "stage_ok s"
proof -
  consider (src) arg where "CreateSource reg (st_Type st) arg = Inr s" | (tr) arg where "CreateTransform reg (st_Type st) arg = Inr s"
    | (snk) arg where "CreateSink reg (st_Type st) arg = Inr s"
    using st by (auto simp: create_stage_def Let_def split: if_splits sum.splits)
  then show ?thesis
  proof cases
    case src
    then obtain f where "f \<in> snd ` set (re_sources reg)" "f arg = Inr s"
      by (force simp: CreateSource_def dest: map_of_SomeD split: option.splits)
    then obtain acking where "sg_role s = SourceRole acking" using typed unfolding typed_registry_def by blast
    then show ?thesis by (simp add: stage_ok_def)
  next
    case snk
    then obtain f where "f \<in> snd ` set (re_sinks reg)" "f arg = Inr s"
      by (force simp: CreateSink_def dest: map_of_SomeD split: option.splits)
    then obtain wr fl where "sg_role s = SinkRole wr fl" using typed unfolding typed_registry_def by blast
    then show ?thesis by (simp add: stage_ok_def)
  next
    case tr
    then show ?thesis using assms(2) by (auto simp: CreateTransform_def split: option.splits)
  qed
qed

lemma NewPipeline_transforms_ok:
  assumes "\<And>st s. create_stage reg st = Inr s \<Longrightarrow> stage_ok s" and "NewPipeline cp dirs reg ir = Inr p"
  shows "transforms_ok p"
proof -
  have "rfold (instantiateStage reg) [] (ir_Stages ir) = Inr (pl_stages p)"
    using assms(2) by (auto simp: NewPipeline_def split: sum.splits)
  then have "\<forall>st \<in> snd ` set (pl_stages p). stage_ok st"
  proof (rule rfold_ok_inv)
    fix stages st stages' assume "\<forall>st \<in> snd ` set stages. stage_ok st" and "instantiateStage reg stages st = Inr stages'"
    then show "\<forall>st \<in> snd ` set stages'. stage_ok st"
      using assms(1) set_update_entries by (fastforce simp: instantiateStage_Inr)
  qed simp
  then show ?thesis by (auto simp: transforms_ok_def stage_ok_def)
qed

text \<open>
  C36: the built-in transforms keep the contract that the engine's delivery theorems need. Every
  pipeline that is built from a registry whose transforms are \<^verbatim>\<open>map\<close>,
  \<^verbatim>\<open>filter\<close> and \<^verbatim>\<open>route\<close> has only stages that change nothing but the content
  of messages and give back their input or a new message, whatever the expressions compute.
\<close>

theorem builtin_transforms_ok:
  assumes "re_transforms reg = re_transforms (builtin_registry cl je)" and "typed_registry reg"
    and "NewPipeline cp dirs reg ir = Inr p"
  shows "transforms_ok p"
proof (rule NewPipeline_transforms_ok [OF _ assms(3)])
  show "stage_ok s" if "create_stage reg st = Inr s" for st s
    using create_stage_ok_gen [OF assms(2) _ that] builtin_created_ok [of cl je] by (metis assms(1))
qed

section \<open>Copy on write and the map transform\<close>

lemma deepCopy_grows:
  shows "deepCopyValue n v h = Some (v', h1) \<Longrightarrow> heap_ok h \<Longrightarrow> copy_ok h h1"
    and "deepCopy_entries n t h = Some (t', h2) \<Longrightarrow> heap_ok h \<Longrightarrow> copy_ok h h2"
    and "deepCopy_items n l h = Some (l', h3) \<Longrightarrow> heap_ok h \<Longrightarrow> copy_ok h h3"
proof (induction n v h and n t h and n l h arbitrary: v' h1 and t' h2 and l' h3
    rule: deepCopyValue_deepCopy_entries_deepCopy_items.induct)
  case (2 n v h)
  have alloc: "copy_ok h h1" if "copy_ok h h2" and "halloc obj h2 = (b, h1)" for obj h2 b
    using that halloc_le [of obj h2 b h1] by (auto simp: copy_ok_def intro: heap_le_trans)
  show ?case
  proof (cases v)
    case (JMap a)
    then obtain t t' h2 b where "hp_objs h a = Some (OMap t)" "deepCopy_entries n t h = Some (t', h2)" "halloc (OMap t') h2 = (b, h1)"
      using 2(3) by (auto split: option.splits gobj.splits prod.splits)
    then show ?thesis using 2(1) [OF JMap _ refl] 2(4) alloc by blast
  next
    case (JList a)
    then obtain t t' h2 b where "hp_objs h a = Some (OList t)" "deepCopy_items n t h = Some (t', h2)" "halloc (OList t') h2 = (b, h1)"
      using 2(3) by (auto split: option.splits gobj.splits prod.splits)
    then show ?thesis using 2(2) [OF JList _ refl] 2(4) alloc by blast
  qed (use 2(3,4) in \<open>auto simp: copy_ok_def\<close>)
next
  case (4 n k val t h)
  then obtain v' h1 t1 where c: "deepCopyValue n val h = Some (v', h1)" "deepCopy_entries n t h1 = Some (t1, h2)"
    by (auto split: option.splits)
  have c1: "copy_ok h h1" by (rule 4(1) [OF c(1) 4(4)])
  then have "copy_ok h1 h2" by (intro 4(2) [OF c(1) refl c(2)]) (simp add: copy_ok_def)
  then show ?case by (rule copy_ok_trans [OF c1])
next
  case (6 n val t h)
  then obtain v' h1 t1 where c: "deepCopyValue n val h = Some (v', h1)" "deepCopy_items n t h1 = Some (t1, h3)"
    by (auto split: option.splits)
  have c1: "copy_ok h h1" by (rule 6(1) [OF c(1) 6(4)])
  then have "copy_ok h1 h3" by (intro 6(2) [OF c(1) refl c(2)]) (simp add: copy_ok_def)
  then show ?case by (rule copy_ok_trans [OF c1])
qed (auto simp: copy_ok_def)

lemma ensure_writable_heap:
  assumes "ensure_writable m w = Some w1" and "heap_ok (wd_heap w)" and "hp_objs (wd_heap w) a = Some obj"
  shows "hp_objs (wd_heap w1) a = Some obj \<and> (\<forall>k. k \<noteq> m \<longrightarrow> wd_msgs w1 k = wd_msgs w k)"
proof -
  obtain msg h where e: "EnsureWritable (heap_depth (wd_heap w)) (wd_msgs w m) (wd_heap w) = Some (msg, h)"
    and w1: "w1 = upd_msg m (\<lambda>_. msg) (w\<lparr>wd_heap := h\<rparr>)"
    using assms(1) by (auto simp: ensure_writable_def)
  have "h = wd_heap w \<or> copy_ok (wd_heap w) h"
    using e deepCopy_grows(1) [OF _ assms(2)] by (auto simp: EnsureWritable_def split: if_splits option.splits)
  then have "hp_objs h a = Some obj"
    using heap_le_obj [OF _ assms(2,3)] assms(3) by (auto simp: copy_ok_def)
  then show ?thesis by (simp add: w1 upd_msg_def)
qed

lemma splitPath_single: "k \<noteq> '''' \<Longrightarrow> CHR ''.'' \<notin> set k \<Longrightarrow> splitPath k = [k]"
proof -
  have "split_char c k = [k]" if "c \<notin> set k" for c using that by (induction k) auto
  then show "k \<noteq> '''' \<Longrightarrow> CHR ''.'' \<notin> set k \<Longrightarrow> splitPath k = [k]" by (simp add: splitPath_def)
qed

lemma trimRoot_field:
  assumes "k \<noteq> ''''" and "hd k \<noteq> CHR ''[''"
  shows "trimRoot (''payload.'' @ k) ''payload'' = k"
proof -
  have p: "TrimPrefix (TrimPrefix (''payload.'' @ k) ''payload'') ''.'' = k" by (simp add: TrimPrefix_def)
  obtain c cs where k: "k = c # cs" "c \<noteq> CHR ''[''" using assms by (cases k) auto
  have "\<not> HasPrefix k [CHR ''['', CHR 0x22]" "\<not> HasPrefix k ''[''" using k by simp_all
  then show ?thesis unfolding trimRoot_def p Let_def by simp
qed

text \<open>
  Copy on write does not protect a payload from the map transform. The transform works on a
  copy of the message, and an assignment first gives that copy a payload of its own; but it then
  writes to the map that the evaluation started from, which the original message and every
  message that shares its payload still hold, and puts that map back into the copy. So a mapping
  on one branch of a fan-out changes the payload on all of them.
\<close>

theorem map_writes_shared_payload:
  assumes heap: "heap_ok (wd_heap w)" and m: "m < wd_next w"
    and data: "ms_parsedData (wd_msgs w m) = JMap a" "hp_objs (wd_heap w) a = Some (OMap t)"
    and key: "k \<noteq> ''''" "CHR ''.'' \<notin> set k" "hd k \<noteq> CHR ''[''"
    and prg: "pg_Statements prg = [AssignStmt (''payload.'' @ k) e]"
    and ev: "\<forall>payload md input h. cl_Eval cl e payload md input h = Inr (v, h)"
    and out: "map_message cl je prg m w = (Inr cp, w')"
  shows "cp \<noteq> m \<and> ms_parsedData (wd_msgs w' cp) = JMap a \<and>
    (\<forall>s < wd_next w. wd_msgs w' s = wd_msgs w s) \<and>
    hp_objs (wd_heap w') a = Some (OMap (AList.update k v t))"
proof -
  obtain k1 w1 where n: "new_msg (ShallowCopy (wd_msgs w m)) w = (k1, w1)" by (metis surj_pair)
  have w1: "k1 = wd_next w" "wd_msgs w1 k1 = ShallowCopy (wd_msgs w m)" "wd_heap w1 = wd_heap w"
    "\<forall>s < wd_next w. wd_msgs w1 s = wd_msgs w s"
    using n by (auto simp: new_msg_def)
  obtain b h where b: "halloc (OMap t) (wd_heap w) = (b, h)" by (metis surj_pair)
  note B = halloc_le [OF b heap]
  have pm: "payloadMap je (wd_msgs w1 k1) (wd_heap w1) = (JMap a, JMap b, h)"
  proof -
    have "ms_parsedData (wd_msgs w1 k1) = JMap a" by (simp add: w1(2) ShallowCopy_def data)
    moreover have "map_at (wd_heap w) a = t" by (simp add: map_at_def data(2))
    ultimately show ?thesis by (simp add: payloadMap_def Let_def w1(3) b)
  qed
  let ?ctx = "\<lparr>ec_Msg = k1, ec_Input = JMap b, ec_Payload = JMap a\<rparr>"
  let ?w = "w1\<lparr>wd_heap := h\<rparr>"
  have ha: "hp_objs h a = Some (OMap t)" using heap_le_obj [OF _ heap data(2)] B by blast
  have x: "EvalMapping cl (pg_Statements prg) ?ctx ?w = (case execute_assign cl (''payload.'' @ k) e ?ctx ?w of
      (Some err, ctx', w') \<Rightarrow> (Some err, ctx', w') | (None, ctx', w') \<Rightarrow> (None, ctx', w'))"
    unfolding prg EvalMapping.simps execute_def statement.case by (rule refl)
  have hw: "?w\<lparr>wd_heap := h\<rparr> = ?w" by simp
  show ?thesis
  proof (cases "ensure_writable k1 ?w")
    case None
    then have "execute_assign cl (''payload.'' @ k) e ?ctx ?w = (Some stack_overflow, ?ctx, ?w)"
      by (simp add: execute_assign_def eval_def ev)
    then show ?thesis using out x by (simp add: map_message_def n pm)
  next
    case (Some w2)
    have hok: "heap_ok (wd_heap ?w)" "hp_objs (wd_heap ?w) a = Some (OMap t)" using B ha by simp_all
    note E = ensure_writable_heap [OF Some hok]
    let ?h3 = "hwrite a (OMap (AList.update k v t)) (wd_heap w2)"
    let ?w3 = "upd_msg k1 (SetParsedData (JMap a)) (w2\<lparr>wd_heap := ?h3\<rparr>)"
    have pre: "HasPrefix (''payload.'' @ k) ''payload''" "''payload.'' @ k \<noteq> ''payload''" by simp_all
    have set: "setPath a k v (wd_heap w2) = ?h3"
      using E by (simp add: setPath_def splitPath_single [OF key(1,2)] map_at_def)
    have "assign_payload (''payload.'' @ k) v ?ctx w2 = (None, ?ctx\<lparr>ec_Payload := JMap a\<rparr>, ?w3)"
      unfolding assign_payload_def using pre(2) trimRoot_field [OF key(1,3)] set by (simp add: ensureMap_def)
    moreover have "execute_assign cl (''payload.'' @ k) e ?ctx ?w = assign_payload (''payload.'' @ k) v ?ctx w2"
      unfolding execute_assign_def using pre(1) Some by (simp add: eval_def ev)
    ultimately have em: "EvalMapping cl (pg_Statements prg) ?ctx ?w = (None, ?ctx\<lparr>ec_Payload := JMap a\<rparr>, ?w3)"
      unfolding x by simp
    have dirty: "ms_parsedDirty (wd_msgs ?w3 k1)" by (simp add: upd_msg_def SetParsedData_def)
    obtain by' where w': "cp = k1" "w' = upd_msg k1 (\<lambda>msg. (BackupOriginalPayload msg)\<lparr>ms_Payload := by'\<rparr>) ?w3"
      using out em dirty by (auto simp: map_message_def n pm split: sum.splits)
    have "\<forall>s < wd_next w. wd_msgs w' s = wd_msgs w s"
      using E w1 by (auto simp: w' upd_msg_def)
    moreover have "ms_parsedData (wd_msgs w' cp) = JMap a"
      by (simp add: w' upd_msg_def SetParsedData_def BackupOriginalPayload_def)
    moreover have "hp_objs (wd_heap w') a = Some (OMap (AList.update k v t))"
      by (simp add: w' upd_msg_def hwrite_def)
    ultimately show ?thesis using m w1(1) w'(1) by simp
  qed
qed

section \<open>The JSON codec\<close>

lemma freeze_mono_all:
  assumes "heap_le h h'" and "heap_ok h"
  shows "\<forall>x k. freeze n h v = Some x \<longrightarrow> freeze (n + k) h' v = Some x"
    and "\<forall>xs k. freeze_entries n h t = Some xs \<longrightarrow> freeze_entries (n + k) h' t = Some xs"
    and "\<forall>ys k. freeze_items n h l = Some ys \<longrightarrow> freeze_items (n + k) h' l = Some ys"
  using assms
proof (induction n h v and n h t and n h l rule: freeze_freeze_entries_freeze_items.induct)
  case (2 n h v)
  then show ?case
    using heap_le_obj [OF 2(3,4)] by (auto split: jv.splits option.splits gobj.splits)
qed (auto split: option.splits)

lemma freeze_mono: "heap_le h h' \<Longrightarrow> heap_ok h \<Longrightarrow> freeze n h v = Some x \<Longrightarrow> n \<le> n' \<Longrightarrow> freeze n' h' v = Some x"
  using freeze_mono_all(1) [of h h' n v] by (metis le_add_diff_inverse)

lemma freeze_entries_mono:
  "heap_le h h' \<Longrightarrow> heap_ok h \<Longrightarrow> freeze_entries n h t = Some xs \<Longrightarrow> n \<le> n' \<Longrightarrow> freeze_entries n' h' t = Some xs"
  using freeze_mono_all(2) [of h h' n t] by (metis le_add_diff_inverse)

lemma freeze_items_mono:
  "heap_le h h' \<Longrightarrow> heap_ok h \<Longrightarrow> freeze_items n h l = Some ys \<Longrightarrow> n \<le> n' \<Longrightarrow> freeze_items n' h' l = Some ys"
  using freeze_mono_all(3) [of h h' n l] by (metis le_add_diff_inverse)

text \<open>The values that \<^verbatim>\<open>json.Unmarshal\<close> builds.\<close>

fun json_plain :: "gval \<Rightarrow> bool" where
  "json_plain (GList vs) = list_all json_plain vs"
| "json_plain (GMap m) = list_all (\<lambda>(k, v). json_plain v) m"
| "json_plain GNil = True"
| "json_plain (GBool b) = True"
| "json_plain (GFloat64 f) = True"
| "json_plain (GStr s) = True"
| "json_plain v = False"

definition thawed :: "goheap \<Rightarrow> goheap \<Rightarrow> nat" where
  "thawed h h' = hp_next h' - hp_next h + 1"

lemma thaw_freeze:
  shows "thaw g h = (v, h1) \<Longrightarrow> heap_ok h \<Longrightarrow> json_plain g \<Longrightarrow> copy_ok h h1 \<and> freeze (thawed h h1) h1 v = Some g"
    and "thaw_entries m h = (t, h2) \<Longrightarrow> heap_ok h \<Longrightarrow> list_all (\<lambda>(k, v). json_plain v) m \<Longrightarrow>
      copy_ok h h2 \<and> freeze_entries (thawed h h2) h2 t = Some m"
    and "thaw_items vs h = (l, h3) \<Longrightarrow> heap_ok h \<Longrightarrow> list_all json_plain vs \<Longrightarrow>
      copy_ok h h3 \<and> freeze_items (thawed h h3) h3 l = Some vs"
proof (induction g h and m h and vs h arbitrary: v h1 and t h2 and l h3 rule: thaw_thaw_entries_thaw_items.induct)
  case (9 vs h)
  obtain js h' b where o: "thaw_items vs h = (js, h')" "halloc (OList js) h' = (b, h1)" "v = JList b"
    using 9(2) by (auto split: prod.splits)
  have A: "copy_ok h h'" "freeze_items (thawed h h') h' js = Some vs" using 9(1) [OF o(1) 9(3)] 9(4) by simp_all
  have B: "heap_le h' h1 \<and> heap_ok h1 \<and> b = hp_next h' \<and> hp_next h1 = Suc b \<and> hp_objs h1 b = Some (OList js)"
    using halloc_le [OF o(2)] A(1) unfolding copy_ok_def by blast
  have n: "thawed h h1 = Suc (thawed h h')" using A(1) B by (auto simp: thawed_def copy_ok_def heap_le_def)
  have "freeze_items (thawed h h') h1 js = Some vs"
    using freeze_items_mono [OF _ _ A(2)] B A(1) by (simp add: copy_ok_def)
  then show ?case using A(1) B n o(3) by (auto simp: copy_ok_def intro: heap_le_trans)
next
  case (10 m h)
  obtain t h' b where o: "thaw_entries m h = (t, h')" "halloc (OMap t) h' = (b, h1)" "v = JMap b"
    using 10(2) by (auto split: prod.splits)
  have A: "copy_ok h h'" "freeze_entries (thawed h h') h' t = Some m" using 10(1) [OF o(1) 10(3)] 10(4) by simp_all
  have B: "heap_le h' h1 \<and> heap_ok h1 \<and> b = hp_next h' \<and> hp_next h1 = Suc b \<and> hp_objs h1 b = Some (OMap t)"
    using halloc_le [OF o(2)] A(1) unfolding copy_ok_def by blast
  have n: "thawed h h1 = Suc (thawed h h')" using A(1) B by (auto simp: thawed_def copy_ok_def heap_le_def)
  have "freeze_entries (thawed h h') h1 t = Some m"
    using freeze_entries_mono [OF _ _ A(2)] B A(1) by (simp add: copy_ok_def)
  then show ?case using A(1) B n o(3) by (auto simp: copy_ok_def intro: heap_le_trans)
next
  case (12 k g m h)
  obtain j h' t' where o: "thaw g h = (j, h')" "thaw_entries m h' = (t', h2)" "t = (k, j) # t'"
    using 12(3) by (auto split: prod.splits)
  have A: "copy_ok h h'" "freeze (thawed h h') h' j = Some g" using 12(1) [OF o(1) 12(4)] 12(5) by simp_all
  have B: "copy_ok h' h2" "freeze_entries (thawed h' h2) h2 t' = Some m"
    using 12(2) [OF o(1) [symmetric] o(2)] A(1) 12(5) by (simp_all add: copy_ok_def)
  have n: "thawed h h' \<le> thawed h h2" "thawed h' h2 \<le> thawed h h2"
    using A(1) B(1) by (auto simp: thawed_def copy_ok_def heap_le_def)
  have "freeze (thawed h h2) h2 j = Some g" using freeze_mono [OF _ _ A(2) n(1)] A(1) B(1) by (simp add: copy_ok_def)
  moreover have "freeze_entries (thawed h h2) h2 t' = Some m"
    using freeze_entries_mono [OF _ _ B(2) n(2)] B(1) by (simp add: copy_ok_def)
  ultimately show ?case using copy_ok_trans [OF A(1) B(1)] o(3) by simp
next
  case (14 g vs h)
  obtain j h' l' where o: "thaw g h = (j, h')" "thaw_items vs h' = (l', h3)" "l = j # l'"
    using 14(3) by (auto split: prod.splits)
  have A: "copy_ok h h'" "freeze (thawed h h') h' j = Some g" using 14(1) [OF o(1) 14(4)] 14(5) by simp_all
  have B: "copy_ok h' h3" "freeze_items (thawed h' h3) h3 l' = Some vs"
    using 14(2) [OF o(1) [symmetric] o(2)] A(1) 14(5) by (simp_all add: copy_ok_def)
  have n: "thawed h h' \<le> thawed h h3" "thawed h' h3 \<le> thawed h h3"
    using A(1) B(1) by (auto simp: thawed_def copy_ok_def heap_le_def)
  have "freeze (thawed h h3) h3 j = Some g" using freeze_mono [OF _ _ A(2) n(1)] A(1) B(1) by (simp add: copy_ok_def)
  moreover have "freeze_items (thawed h h3) h3 l' = Some vs"
    using freeze_items_mono [OF _ _ B(2) n(2)] B(1) by (simp add: copy_ok_def)
  ultimately show ?case using copy_ok_trans [OF A(1) B(1)] o(3) by simp
qed (auto simp: copy_ok_def thawed_def)

lemma json_norm_plain: "json_plain (json_norm g)"
proof (induction g)
  case (GMap m)
  have "\<forall>(k, v) \<in> set m. json_plain (json_norm v)" using GMap by (fastforce simp: prod_set_simps)
  then show ?case by (auto simp: list_all_iff)
qed (auto simp: list_all_iff)

text \<open>
  C37: the JSON codec reads back what was marshalled, in fresh memory and with its normal form (keys
  sorted, numbers as floats), and encodes that normal form. As decoding marks a message as
  changed, this is also what a sink with a JSON encoder writes for a message nobody changed.
\<close>

theorem json_codec_roundtrip:
  assumes "json_ok (je_format je) (je_parse je) g" and "heap_ok h"
  shows "\<exists>v h'. cd_Decode (json_codec je) (marshal (je_format je) g) h = Inr (v, h') \<and> heap_le h h' \<and> heap_ok h' \<and>
    freeze (heap_depth h') h' v = Some (json_norm g) \<and>
    cd_Encode (json_codec je) v h' = Inr (marshal (je_format je) (json_norm g))"
proof -
  obtain v h' where t: "thaw (json_norm g) h = (v, h')" by (metis surj_pair)
  note T = thaw_freeze(1) [OF t assms(2) json_norm_plain]
  have c: "heap_le h h'" "heap_ok h'" using T by (simp_all add: copy_ok_def)
  have f: "freeze (heap_depth h') h' v = Some (json_norm g)"
    by (rule freeze_mono [OF heap_le_refl c(2) conjunct2 [OF T]]) (simp add: thawed_def heap_depth_def)
  have "unmarshal (je_parse je) (marshal (je_format je) g) = Inr (json_norm g)"
    by (rule unmarshal_marshal [OF assms(1)])
  then show ?thesis using t c f by (simp add: json_codec_def json_Marshal_def)
qed

section \<open>Witnesses\<close>

definition const_cel :: "jv \<Rightarrow> unit cel" where
  "const_cel v = \<lparr>cl_Compile = (\<lambda>_. Inr ()), cl_Eval = (\<lambda>_ _ _ _ h. Inr (v, h))\<rparr>"

definition plain_json :: json_env where
  "plain_json = \<lparr>je_format = (\<lambda>_. ''''), je_parse = (\<lambda>_. None)\<rparr>"

text \<open>A pipeline with a \<^verbatim>\<open>map\<close> stage.\<close>

definition mapped_registry :: "(world, nat) registry" where
  "mapped_registry = RegisterSource ''drop'' (\<lambda>_. Inr (base_stage (SourceRole True))) (builtin_registry (const_cel (JBool True)) plain_json)"

definition mapped_ir :: topology_ir where
  "mapped_ir = one_route\<lparr>ir_Stages := [demo_stage ''s'' ''source'',
     (demo_stage ''t'' ''transform'')\<lparr>st_Type := ''map'', st_Config := Some [(''dsl'', GStr ''payload.x = true'')]\<rparr>,
     demo_stage ''k'' ''sink'']\<rparr>"

theorem builtin_transforms_ok_witness:
  "\<exists>p. NewPipeline demo_compiler no_dirs mapped_registry mapped_ir = Inr p \<and> transforms_ok p"
proof -
  have "is_ok (NewPipeline demo_compiler no_dirs mapped_registry mapped_ir)" by code_simp
  then obtain p where p: "NewPipeline demo_compiler no_dirs mapped_registry mapped_ir = Inr p" by (auto simp: is_ok_iff)
  have "re_transforms mapped_registry = re_transforms (builtin_registry (const_cel (JBool True)) plain_json :: (world, nat) registry)"
    by (simp add: mapped_registry_def RegisterSource_def)
  moreover have "typed_registry mapped_registry"
    by (auto simp: typed_registry_def mapped_registry_def builtin_registry_def RegisterSource_def RegisterTransform_def
        RegisterSink_def RegisterCodec_def registry_New_def drop_factory_def base_stage_def)
  ultimately show ?thesis using builtin_transforms_ok [OF _ _ p] p by blast
qed

text \<open>Messages 0 and 1 share the payload at address 0, and message 0 goes through a mapping.\<close>

definition shared_world :: world where
  "shared_world = demo_world\<lparr>wd_msgs := (\<lambda>_. (message_New ''{}'' None)\<lparr>ms_parsedData := JMap 0, ms_readOnly := True\<rparr>),
     wd_next := 2, wd_heap := demo_heap\<rparr>"

definition shared_program :: "unit program" where
  "shared_program = \<lparr>pg_Kind = KindMapping, pg_Statements = [AssignStmt (''payload.'' @ ''a'') ()], pg_Expr = None\<rparr>"

theorem map_writes_shared_payload_witness:
  "\<exists>w'. map_message (const_cel (JStr ''new'')) plain_json shared_program 0 shared_world = (Inr 2, w') \<and>
     hp_objs (wd_heap shared_world) 0 = Some (OMap [(''a'', JInt 1), (''l'', JList 1)]) \<and>
     ms_parsedData (wd_msgs w' 1) = JMap 0 \<and>
     hp_objs (wd_heap w') 0 = Some (OMap [(''a'', JStr ''new''), (''l'', JList 1)])"
proof -
  have r: "fst (map_message (const_cel (JStr ''new'')) plain_json shared_program 0 shared_world) = Inr 2" by code_simp
  then obtain w' where out: "map_message (const_cel (JStr ''new'')) plain_json shared_program 0 shared_world = (Inr 2, w')"
    by (metis prod.collapse)
  have h: "heap_ok (wd_heap shared_world)" by (simp add: shared_world_def heap_ok_def demo_heap_def)
  have o: "hp_objs (wd_heap shared_world) 0 = Some (OMap [(''a'', JInt 1), (''l'', JList 1)])"
    by (simp add: shared_world_def demo_heap_def)
  have d: "ms_parsedData (wd_msgs shared_world 0) = JMap 0" "0 < wd_next shared_world" "1 < wd_next shared_world"
    "ms_parsedData (wd_msgs shared_world 1) = JMap 0"
    by (simp_all add: shared_world_def)
  have p: "pg_Statements shared_program = [AssignStmt (''payload.'' @ ''a'') ()]" by (simp add: shared_program_def)
  have e: "\<forall>payload md input h. cl_Eval (const_cel (JStr ''new'')) () payload md input h = Inr (JStr ''new'', h)"
    by (simp add: const_cel_def)
  from map_writes_shared_payload [OF h d(2,1) o _ _ _ p e out] show ?thesis using out o d(3,4) by simp
qed

theorem json_codec_roundtrip_witness:
  "\<exists>v h. cd_Decode (json_codec plain_json) (marshal (\<lambda>_. '''') (GMap [(''b'', GBool True), (''a'', GList [GStr ''x'', GNil])])) demo_heap = Inr (v, h) \<and>
     cd_Encode (json_codec plain_json) v h = Inr (marshal (\<lambda>_. '''') (GMap [(''a'', GList [GStr ''x'', GNil]), (''b'', GBool True)]))"
proof -
  let ?g = "GMap [(''b'', GBool True), (''a'', GList [GStr ''x'', GNil])]"
  have j: "json_ok (je_format plain_json) (je_parse plain_json) ?g" by simp
  have h: "heap_ok demo_heap" by (simp add: heap_ok_def demo_heap_def)
  have n: "json_norm ?g = GMap [(''a'', GList [GStr ''x'', GNil]), (''b'', GBool True)]" by code_simp
  show ?thesis using json_codec_roundtrip [OF j h] unfolding n by (auto simp: plain_json_def)
qed

end
