(* ===== verification/Connectors.thy ===== *)
theory Connectors
  imports Plugins
begin

text \<open>
  The plugins that talk to the world: the Kafka source and sink, the HTTP sink, the HTTP server
  and the cron source of \<^verbatim>\<open>plugins/\<close>, and the registration of all plugins. The Kafka and
  HTTP clients, the cron parser and the time zones are arguments; what the plugins keep, send and
  answer is modelled. \<open>'x\<close> is the outside world the clients act on.
\<close>

definition strs :: "string list option \<Rightarrow> string list" where
  "strs v = (case v of None \<Rightarrow> [] | Some ss \<Rightarrow> ss)"

section \<open>The Kafka source\<close>

text \<open>The fields of a Kafka message that the source reads and the sink sets.\<close>

record kafka_message =
  km_Topic :: string
  km_Partition :: int
  km_Offset :: int
  km_Key :: string
  km_Value :: string

record kafka_source =
  ks_id :: string
  ks_brokers :: "string list"
  ks_topics :: "string list"
  ks_groupID :: string
  ks_minBytes :: int
  ks_maxBytes :: int
  ks_reader :: bool
  ks_pending :: "(string \<times> kafka_message) list"

definition kafka_newSource :: "(gfloat \<Rightarrow> string) \<Rightarrow> string \<Rightarrow> gmap option \<Rightarrow> kafka_source res" where
  "kafka_newSource ff sid cfg =
     (let brokers = strs (ConfigStringSlice ff cfg ''brokers'');
          topics = strs (ConfigStringSlice ff cfg ''topics'');
          topics' = (if topics = [] then strs (ConfigStringSlice ff cfg ''topic'') else topics);
          group = ConfigString cfg ''group_id'' in
      if brokers = [] then Inl (Err ''kafka source: brokers is required'' [])
      else if topics' = [] then Inl (Err ''kafka source: topics is required'' [])
      else Inr \<lparr>ks_id = sid, ks_brokers = brokers, ks_topics = topics',
             ks_groupID = (if group = '''' then sid else group),
             ks_minBytes = ConfigInt cfg ''min_bytes'' 1, ks_maxBytes = ConfigInt cfg ''max_bytes'' 10000000,
             ks_reader = False, ks_pending = []\<rparr>)"

definition kafka_Init :: "kafka_source \<Rightarrow> kafka_source" where
  "kafka_Init s = s\<lparr>ks_reader := True\<rparr>"

text \<open>A turn of \<^verbatim>\<open>Consume\<close> with a fetched message: what is sent, and the source.\<close>

definition kafka_read :: "string \<Rightarrow> kafka_message \<Rightarrow> kafka_source \<Rightarrow> message \<times> kafka_source" where
  "kafka_read uuid km s =
     ((message_New (km_Value km)
        (Some [(''kafka.topic'', GStr (km_Topic km)), (''kafka.partition'', GInt (km_Partition km)),
               (''kafka.offset'', GInt64 (km_Offset km)), (''kafka.key'', GStr (km_Key km))]))\<lparr>ms_ID := uuid\<rparr>,
      s\<lparr>ks_pending := AList.update uuid km (ks_pending s)\<rparr>)"

text \<open>\<^verbatim>\<open>OnAck\<close> for the message with an id, or nil: what is given to \<^verbatim>\<open>CommitMessages\<close>.\<close>

definition kafka_OnAck :: "string option \<Rightarrow> goerr option \<Rightarrow> kafka_source \<Rightarrow> kafka_message option \<times> kafka_source" where
  "kafka_OnAck msg err s =
     (case msg of
        None \<Rightarrow> (None, s)
      | Some mid \<Rightarrow>
          if err \<noteq> None then (None, s)
          else
            (case map_of (ks_pending s) mid of
               None \<Rightarrow> (None, s)
             | Some km \<Rightarrow>
                 (if ks_reader s then Some km else None, s\<lparr>ks_pending := AList.delete mid (ks_pending s)\<rparr>)))"

text \<open>
  A run of a started source: the messages read, with their ids, the acknowledgements received and
  what was committed, each in its order. The ids are drawn at random and are assumed to differ.
\<close>

record kafka_run =
  kr_src :: kafka_source
  kr_read :: "(string \<times> kafka_message) list"
  kr_acks :: "(string \<times> goerr option) list"
  kr_commits :: "kafka_message list"

inductive kafka_step :: "kafka_run \<Rightarrow> kafka_run \<Rightarrow> bool" where
  kafka_consume: "kafka_read uuid km (kr_src r) = (msg, src) \<Longrightarrow> uuid \<notin> fst ` set (kr_read r) \<Longrightarrow>
     kafka_step r (r\<lparr>kr_src := src, kr_read := kr_read r @ [(uuid, km)]\<rparr>)"
| kafka_ack: "kafka_OnAck (Some mid) err (kr_src r) = (c, src) \<Longrightarrow> mid \<in> fst ` set (kr_read r) \<Longrightarrow>
     kafka_step r (r\<lparr>kr_src := src, kr_acks := kr_acks r @ [(mid, err)],
       kr_commits := kr_commits r @ (case c of None \<Rightarrow> [] | Some km \<Rightarrow> [km])\<rparr>)"

inductive kafka_reach :: "kafka_run \<Rightarrow> kafka_run \<Rightarrow> bool" for r0 where
  kafka_refl: "kafka_reach r0 r0"
| kafka_more: "kafka_reach r0 r \<Longrightarrow> kafka_step r r' \<Longrightarrow> kafka_reach r0 r'"

interpretation committing: transition_system "kafka_step" "kafka_reach"
  by unfold_locales (rule kafka_refl, erule (1) kafka_more, erule kafka_reach.induct, assumption, blast)

definition kafka_start :: "kafka_source \<Rightarrow> kafka_run" where
  "kafka_start s = \<lparr>kr_src = s, kr_read = [], kr_acks = [], kr_commits = []\<rparr>"

text \<open>The ids that were acknowledged without an error, in the order of the first time.\<close>

definition succeeded :: "(string \<times> goerr option) list \<Rightarrow> string list" where
  "succeeded acks = rev (remdups (rev (map fst (filter (\<lambda>a. snd a = None) acks))))"

section \<open>The Kafka sink\<close>

record kafka_sink =
  kw_brokers :: "string list"
  kw_topic :: string
  kw_hash :: bool
  kw_writer :: bool

definition kafka_newSink :: "(gfloat \<Rightarrow> string) \<Rightarrow> gmap option \<Rightarrow> kafka_sink res" where
  "kafka_newSink ff cfg =
     (let brokers = strs (ConfigStringSlice ff cfg ''brokers''); topic = ConfigString cfg ''topic'' in
      if brokers = [] then Inl (Err ''kafka sink: brokers is required'' [])
      else if topic = '''' then Inl (Err ''kafka sink: topic is required'' [])
      else Inr \<lparr>kw_brokers = brokers, kw_topic = topic, kw_hash = (ConfigString cfg ''balancer'' = ''hash''),
             kw_writer = False\<rparr>)"

definition kafka_out :: "kafka_sink \<Rightarrow> message \<Rightarrow> kafka_message" where
  "kafka_out s msg = \<lparr>km_Topic = kw_topic s, km_Partition = 0, km_Offset = 0,
     km_Key = (case mget (ms_Metadata msg) ''kafka.key'' of GStr key \<Rightarrow> key | _ \<Rightarrow> ''''),
     km_Value = ms_Payload msg\<rparr>"

definition kafka_Write ::
  "(kafka_sink \<Rightarrow> kafka_message list \<Rightarrow> 'x \<Rightarrow> goerr option \<times> 'x) \<Rightarrow> kafka_sink \<Rightarrow> mref list \<Rightarrow> world \<Rightarrow> 'x \<Rightarrow> goerr option \<times> 'x" where
  "kafka_Write write_messages s batch w x =
     (if \<not> kw_writer s then (Some (Err ''kafka sink: not initialized'' []), x)
      else write_messages s (map (\<lambda>m. kafka_out s (wd_msgs w m)) batch) x)"

section \<open>The HTTP sink\<close>

text \<open>The error of building a request, and sending one: an error or the status of the response.\<close>

record 'x http_client =
  ht_NewRequest :: "string \<Rightarrow> string \<Rightarrow> goerr option"
  ht_Do :: "string \<Rightarrow> string \<Rightarrow> string \<Rightarrow> 'x \<Rightarrow> int res \<times> 'x"

fun http_posts :: "'x http_client \<Rightarrow> string \<Rightarrow> string \<Rightarrow> string list \<Rightarrow> 'x \<Rightarrow> goerr option \<times> 'x" where
  "http_posts client verb url [] x = (None, x)"
| "http_posts client verb url (payload # rest) x =
     (case ht_NewRequest client verb url of
        Some err \<Rightarrow> (Some err, x)
      | None \<Rightarrow>
          (case ht_Do client verb url payload x of
             (Inl err, x1) \<Rightarrow> (Some err, x1)
           | (Inr status, x1) \<Rightarrow>
               if 400 \<le> status then (Some (Err ''http sink: status %d'' [Itoa status]), x1)
               else http_posts client verb url rest x1))"

definition http_Write ::
  "'x http_client \<Rightarrow> string \<Rightarrow> string \<Rightarrow> mref list \<Rightarrow> world \<Rightarrow> 'x \<Rightarrow> goerr option \<times> 'x" where
  "http_Write client verb url batch w = http_posts client verb url (map (\<lambda>m. ms_Payload (wd_msgs w m)) batch)"

text \<open>The factory's settings: the URL and the method.\<close>

definition http_newSink :: "gmap option \<Rightarrow> (string \<times> string) res" where
  "http_newSink cfg =
     (let url = ConfigString cfg ''url''; verb = ConfigString cfg ''method'' in
      if url = '''' then Inl (Err ''http sink: url is required'' [])
      else Inr (url, if verb = '''' then ''POST'' else verb))"

section \<open>The HTTP server\<close>

text \<open>The channel of \<^verbatim>\<open>Consume\<close>, once it is called, with what was sent to it.\<close>

record http_source =
  hs_addr :: string
  hs_path :: string
  hs_server :: bool
  hs_out :: "mref list option"

definition http_newSource :: "gmap option \<Rightarrow> http_source" where
  "http_newSource cfg =
     (let addr = ConfigString cfg ''address'';
          addr' = (if addr = '''' then ConfigString cfg ''listen'' else addr);
          path = ConfigString cfg ''path'' in
      \<lparr>hs_addr = (if addr' = '''' then '':8080'' else addr'), hs_path = (if path = '''' then ''/'' else path),
       hs_server = False, hs_out = None\<rparr>)"

text \<open>\<open>room\<close> tells whether the channel takes a message at once.\<close>

definition http_handle ::
  "bool \<Rightarrow> (goerr \<Rightarrow> string) \<Rightarrow> string \<Rightarrow> string \<Rightarrow> string res \<Rightarrow> http_source \<Rightarrow> world \<Rightarrow> (int \<times> string) \<times> http_source \<times> world" where
  "http_handle room text verb path body s w =
     (case body of
        Inl err \<Rightarrow> ((400, text err), s, w)
      | Inr data \<Rightarrow>
          (case hs_out s of
             None \<Rightarrow> ((503, ''source not ready''), s, w)
           | Some out \<Rightarrow>
               if room then
                 (case new_msg (message_New data (Some [(''http.method'', GStr verb), (''http.path'', GStr path)])) w of
                    (m, w') \<Rightarrow> ((202, ''{\"status\":\"accepted\"}''), s\<lparr>hs_out := Some (out @ [m])\<rparr>, w'))
               else ((429, ''backpressure''), s, w)))"

definition http_Consume :: "http_source \<Rightarrow> http_source" where
  "http_Consume s = s\<lparr>hs_out := Some []\<rparr>"

definition http_HealthCheck :: "http_source \<Rightarrow> bool \<times> string" where
  "http_HealthCheck s = (if \<not> hs_server s then (False, ''not started'') else (True, ''''))"

section \<open>The cron source\<close>

record 'l cron_env =
  ce_LoadLocation :: "string \<Rightarrow> 'l res"
  ce_UTC :: 'l
  ce_Parse :: "string \<Rightarrow> goerr option"

record 'l cron_source =
  cn_schedule :: string
  cn_loc :: 'l
  cn_body :: string
  cn_stopped :: bool
  cn_out :: "mref list option"

definition cron_newSource :: "'l cron_env \<Rightarrow> gmap option \<Rightarrow> 'l cron_source res" where
  "cron_newSource ce cfg =
     (let s1 = ConfigString cfg ''schedule'';
          schedule = (if s1 = '''' then ConfigString cfg ''cron'' else s1);
          tz = ConfigString cfg ''timezone'' in
      if schedule = '''' then
        Inl (Err ''cron source: schedule is required (6-field cron with seconds, e.g. \"0 */1 * * * *\")'' [])
      else
        (case (if tz = '''' then Inr (ce_UTC ce) else ce_LoadLocation ce tz) of
           Inl err \<Rightarrow> Inl (Wrap ''cron source: invalid timezone %q: %w'' [tz] err)
         | Inr loc \<Rightarrow>
             (case ce_Parse ce schedule of
                Some err \<Rightarrow> Inl (Wrap ''cron source: invalid schedule %q: %w'' [schedule] err)
              | None \<Rightarrow> Inr \<lparr>cn_schedule = schedule, cn_loc = loc, cn_body = ConfigString cfg ''payload'',
                             cn_stopped = False, cn_out = None\<rparr>)))"

text \<open>\<^verbatim>\<open>Consume\<close> before it waits for the context, and after.\<close>

definition cron_begin :: "'l cron_source \<Rightarrow> 'l cron_source" where
  "cron_begin s = s\<lparr>cn_out := Some [], cn_stopped := False\<rparr>"

definition cron_end :: "'l cron_source \<Rightarrow> 'l cron_source" where
  "cron_end s = s\<lparr>cn_stopped := True\<rparr>"

definition cron_message :: "json_env \<Rightarrow> 'l cron_source \<Rightarrow> goheap \<Rightarrow> message \<times> goheap" where
  "cron_message je s h =
     (let payload = (if cn_body s = '''' then ''{\"tick\":true}'' else cn_body s);
          msg = (message_New payload (Some [(''source'', GStr ''cron''), (''cron.schedule'', GStr (cn_schedule s))]))
                  \<lparr>ms_parsedCodec := ''json''\<rparr> in
      case unmarshal_map (je_parse je) payload of
        Inr (Some m) \<Rightarrow> (case thaw (GMap m) h of (v, h') \<Rightarrow> (SetParsedData v msg, h'))
      | _ \<Rightarrow> (msg, h))"

text \<open>The outcomes of a tick: \<open>room\<close> as before, \<open>ended\<close> when the context has ended.\<close>

definition cron_emit :: "json_env \<Rightarrow> bool \<Rightarrow> bool \<Rightarrow> 'l cron_source \<Rightarrow> world \<Rightarrow> ('l cron_source \<times> world) list" where
  "cron_emit je room ended s w =
     (if cn_stopped s then [(s, w)]
      else
        (case cron_message je s (wd_heap w) of
           (msg, h) \<Rightarrow>
             (case cn_out s of
                None \<Rightarrow> [(s, w\<lparr>wd_heap := h\<rparr>)]
              | Some out \<Rightarrow>
                  (if ended \<or> \<not> room then [(s, w\<lparr>wd_heap := h\<rparr>)] else [])
                  @ (if room then
                       (case new_msg msg (w\<lparr>wd_heap := h\<rparr>) of (m, w') \<Rightarrow> [(s\<lparr>cn_out := Some (out @ [m])\<rparr>, w')])
                     else []))))"

section \<open>All plugins\<close>

text \<open>
  What the client libraries do when a stage is initialised or stopped. The engine initialises a
  stage before it uses it, so the sink of the registry has its writer.
\<close>

record ('l, 'x) plugin_env =
  pe_float :: "gfloat \<Rightarrow> string"
  pe_cron :: "'l cron_env"
  pe_http :: "'x http_client"
  pe_WriteMessages :: "kafka_sink \<Rightarrow> kafka_message list \<Rightarrow> 'x \<Rightarrow> goerr option \<times> 'x"
  pe_CloseReader :: "kafka_source \<Rightarrow> 'x \<Rightarrow> goerr option \<times> 'x"
  pe_CloseWriter :: "kafka_sink \<Rightarrow> 'x \<Rightarrow> goerr option \<times> 'x"
  pe_Listen :: "http_source \<Rightarrow> 'x \<Rightarrow> 'x"
  pe_Shutdown :: "http_source \<Rightarrow> 'x \<Rightarrow> goerr option \<times> 'x"

definition kafka_source_factory :: "('l, 'x) plugin_env \<Rightarrow> (world, 'x) stage_factory" where
  "kafka_source_factory pe = (\<lambda>(sid, cfg).
     map_sum id (\<lambda>s. (base_stage (SourceRole True))\<lparr>sg_Stop := pe_CloseReader pe (kafka_Init s)\<rparr>)
       (kafka_newSource (pe_float pe) sid (Some (plain_config cfg))))"

definition kafka_sink_factory :: "('l, 'x) plugin_env \<Rightarrow> (world, 'x) stage_factory" where
  "kafka_sink_factory pe = (\<lambda>(sid, cfg).
     map_sum id
       (\<lambda>s. (base_stage (SinkRole (kafka_Write (pe_WriteMessages pe) (s\<lparr>kw_writer := True\<rparr>)) (\<lambda>x. (None, x))))
              \<lparr>sg_Stop := pe_CloseWriter pe (s\<lparr>kw_writer := True\<rparr>)\<rparr>)
       (kafka_newSink (pe_float pe) (Some (plain_config cfg))))"

definition http_sink_factory :: "('l, 'x) plugin_env \<Rightarrow> (world, 'x) stage_factory" where
  "http_sink_factory pe = (\<lambda>(sid, cfg).
     map_sum id (\<lambda>(url, verb). base_stage (SinkRole (http_Write (pe_http pe) verb url) (\<lambda>x. (None, x))))
       (http_newSink (Some (plain_config cfg))))"

definition http_source_factory :: "('l, 'x) plugin_env \<Rightarrow> (world, 'x) stage_factory" where
  "http_source_factory pe = (\<lambda>(sid, cfg).
     let s = http_newSource (Some (plain_config cfg)) in
     Inr ((base_stage (SourceRole False))\<lparr>sg_Init := (\<lambda>x. (None, pe_Listen pe s x)),
            sg_Stop := pe_Shutdown pe (s\<lparr>hs_server := True\<rparr>)\<rparr>))"

definition cron_source_factory :: "('l, 'x) plugin_env \<Rightarrow> (world, 'x) stage_factory" where
  "cron_source_factory pe = (\<lambda>(sid, cfg).
     map_sum id (\<lambda>s. base_stage (SourceRole False)) (cron_newSource (pe_cron pe) (Some (plain_config cfg))))"

definition wasm_factory :: "(world, 'x) stage_factory" where
  "wasm_factory = (\<lambda>(sid, cfg). Inl (Err ''wasm transform: not implemented in v2.0-alpha'' []))"

definition plugins_all :: "'e cel \<Rightarrow> json_env \<Rightarrow> ('l, 'x) plugin_env \<Rightarrow> (world, 'x) registry" where
  "plugins_all cl je pe =
     RegisterSink ''http'' (http_sink_factory pe)
       (RegisterSink ''kafka'' (kafka_sink_factory pe)
         (RegisterSource ''cron'' (cron_source_factory pe)
           (RegisterSource ''http_server'' (http_source_factory pe)
             (RegisterSource ''kafka'' (kafka_source_factory pe)
               (RegisterTransform ''wasm'' wasm_factory (builtin_registry cl je))))))"

section \<open>What the Kafka source commits\<close>

lemma succeeded_snoc:
  "succeeded (acks @ [(mid, err)]) =
     (if err = None \<and> (mid, None) \<notin> set acks then succeeded acks @ [mid] else succeeded acks)"
  by (auto simp: succeeded_def image_iff)

definition kafka_inv :: "kafka_run \<Rightarrow> bool" where
  "kafka_inv r \<longleftrightarrow> ks_reader (kr_src r) \<and>
     (\<forall>a \<in> set (kr_acks r). fst a \<in> fst ` set (kr_read r)) \<and>
     kr_commits r = map (\<lambda>mid. the (map_of (kr_read r) mid)) (succeeded (kr_acks r)) \<and>
     (\<forall>mid. map_of (ks_pending (kr_src r)) mid =
        (if (mid, None) \<in> set (kr_acks r) then None else map_of (kr_read r) mid))"

lemma succeeded_set: "set (succeeded acks) = {mid. (mid, None) \<in> set acks}"
  by (force simp: succeeded_def)

lemma map_of_snoc: "map_of (xs @ [(k, v)]) i = (case map_of xs i of None \<Rightarrow> if i = k then Some v else None | Some u \<Rightarrow> Some u)"
  by (simp add: map_add_def split: option.splits)

lemma kafka_inv_step: "kafka_step r r' \<Longrightarrow> kafka_inv r \<Longrightarrow> kafka_inv r'"
proof (induction rule: kafka_step.induct)
  case (kafka_consume uuid km r msg src)
  have src: "src = (kr_src r)\<lparr>ks_pending := AList.update uuid km (ks_pending (kr_src r))\<rparr>"
    using kafka_consume(1) by (auto simp: kafka_read_def)
  have old: "mid \<noteq> uuid" if "(mid, err) \<in> set (kr_acks r)" for mid err
    using that kafka_consume(2,3) by (force simp: kafka_inv_def)
  have new: "map_of (kr_read r) uuid = None" using kafka_consume(2) by (simp add: map_of_eq_None_iff)
  have keep: "map_of (kr_read r @ [(uuid, km)]) mid = map_of (kr_read r) mid" if "mid \<noteq> uuid" for mid
    unfolding map_of_snoc using that by (simp split: option.splits)
  have "map (\<lambda>mid. the (map_of (kr_read r @ [(uuid, km)]) mid)) (succeeded (kr_acks r))
      = map (\<lambda>mid. the (map_of (kr_read r) mid)) (succeeded (kr_acks r))"
    using old keep by (auto simp: succeeded_set)
  then show ?case
    using kafka_consume(3) old new keep unfolding kafka_inv_def src
    by (auto simp: map_of_snoc split: option.splits simp del: map_of_append)
next
  case (kafka_ack mid err r c src)
  note I = kafka_ack(3) [unfolded kafka_inv_def]
  obtain km where km: "map_of (kr_read r) mid = Some km" using kafka_ack(2) by (metis map_of_eq_None_iff option.exhaust)
  show ?case
  proof (cases "err = None \<and> (mid, None) \<notin> set (kr_acks r)")
    case True
    then have "map_of (ks_pending (kr_src r)) mid = Some km" using I km by simp
    then have "c = Some km" "src = (kr_src r)\<lparr>ks_pending := AList.delete mid (ks_pending (kr_src r))\<rparr>"
      using kafka_ack(1) True I by (auto simp: kafka_OnAck_def)
    then show ?thesis using I True km kafka_ack(2) by (auto simp: kafka_inv_def succeeded_snoc)
  next
    case False
    then have "err \<noteq> None \<or> map_of (ks_pending (kr_src r)) mid = None" using I by auto
    then have "c = None" "src = kr_src r" using kafka_ack(1) by (auto simp: kafka_OnAck_def split: if_splits)
    moreover have "((k, None) \<in> set (kr_acks r @ [(mid, err)])) = ((k, None) \<in> set (kr_acks r))" for k using False by auto
    ultimately show ?thesis using I False kafka_ack(2) by (auto simp: kafka_inv_def succeeded_snoc)
  qed
qed

lemma kafka_inv_reach: "kafka_reach r0 r \<Longrightarrow> kafka_inv r0 \<Longrightarrow> kafka_inv r"
  by (rule committing.invariant) (auto intro: kafka_inv_step)

text \<open>
  C18: the Kafka source commits exactly the messages that were acknowledged without an error, each
  once, in the order of their acknowledgements and not of their offsets. A message acknowledged
  only with errors is never committed itself and stays pending for ever, while later messages of
  its partition are committed past it, which tells Kafka that it was consumed.
\<close>

theorem kafka_commits_acknowledged:
  assumes "kafka_reach (kafka_start s) r" and "ks_reader s" and "ks_pending s = []"
  shows "kr_commits r = map (\<lambda>mid. the (map_of (kr_read r) mid)) (succeeded (kr_acks r)) \<and>
    distinct (succeeded (kr_acks r)) \<and> set (succeeded (kr_acks r)) = {mid. (mid, None) \<in> set (kr_acks r)} \<and>
    (\<forall>mid. map_of (ks_pending (kr_src r)) mid =
       (if (mid, None) \<in> set (kr_acks r) then None else map_of (kr_read r) mid))"
proof -
  have "kafka_inv (kafka_start s)" using assms(2,3) by (simp add: kafka_inv_def kafka_start_def succeeded_def)
  then have "kafka_inv r" by (rule kafka_inv_reach [OF assms(1)])
  then show ?thesis by (simp add: kafka_inv_def succeeded_set) (simp add: succeeded_def)
qed

section \<open>Retries of the HTTP sink\<close>

text \<open>A server whose answer depends on the payload only, and that remembers what it was sent.\<close>

definition http_log :: "(string \<Rightarrow> int res) \<Rightarrow> string list http_client" where
  "http_log answer = \<lparr>ht_NewRequest = (\<lambda>_ _. None), ht_Do = (\<lambda>_ _ payload log. (answer payload, log @ [payload]))\<rparr>"

definition accepts :: "(string \<Rightarrow> int res) \<Rightarrow> string \<Rightarrow> bool" where
  "accepts answer payload = (case answer payload of Inl _ \<Rightarrow> False | Inr status \<Rightarrow> status < 400)"

lemma http_posts_log:
  assumes "list_all (accepts answer) pre" and "\<not> accepts answer bad"
  shows "\<exists>err. http_posts (http_log answer) verb url (pre @ bad # post) log = (Some err, log @ pre @ [bad])"
  using assms(1)
proof (induction pre arbitrary: log)
  case Nil
  then show ?case using assms(2) by (auto simp: http_log_def accepts_def split: sum.splits)
next
  case (Cons p pre)
  then obtain status where "answer p = Inr status" "status < 400" by (auto simp: accepts_def split: sum.splits)
  then show ?case using Cons.IH [of "log @ [p]"] Cons.prems by (simp add: http_log_def)
qed

lemma failing_http_posts:
  assumes "list_all (accepts answer) pre" and "\<not> accepts answer bad"
  shows "\<exists>e. failing (http_posts (http_log answer) verb url (pre @ bad # post)) n log =
      Some (e, log @ concat (replicate n (pre @ [bad])))"
proof (induction n)
  case (Suc n)
  then obtain e where "failing (http_posts (http_log answer) verb url (pre @ bad # post)) n log =
      Some (e, log @ concat (replicate n (pre @ [bad])))" by blast
  moreover obtain err where "http_posts (http_log answer) verb url (pre @ bad # post) (log @ concat (replicate n (pre @ [bad])))
      = (Some err, (log @ concat (replicate n (pre @ [bad]))) @ pre @ [bad])"
    using http_posts_log [OF assms] by blast
  moreover have "concat (replicate (Suc n) (pre @ [bad])) = concat (replicate n (pre @ [bad])) @ pre @ [bad]"
    by (simp only: replicate_Suc replicate_append_same [symmetric] concat_append) simp
  ultimately show ?case by (simp del: replicate_Suc)
qed simp

text \<open>
  A retried HTTP batch is delivered again from its beginning. The sink posts the messages of a
  batch one by one and stops at the first that the server refuses; when that is not the first
  message, each retry posts the accepted ones before it once more, so the server gets them
  \<open>max + 1\<close> times, the messages after it never, and the whole batch is reported as failed.
\<close>

theorem http_retry_reposts:
  assumes "list_all (accepts answer) pre" and "\<not> accepts answer bad"
    and "0 \<le> max_retries delivery" and "map (\<lambda>m. ms_Payload (wd_msgs w m)) batch = pre @ bad # post"
  shows "\<exists>err ds. writeWithRetry (http_Write (http_log answer) verb url batch w) (\<lambda>_. None) conv delivery log =
    (Some err, ds, log @ concat (replicate (nat (max_retries delivery) + 1) (pre @ [bad])))"
proof -
  let ?f = "http_posts (http_log answer) verb url (pre @ bad # post)"
  obtain r ds log' where out: "writeWithRetry ?f (\<lambda>_. None) conv delivery log = (r, ds, log')" by (metis prod_cases3)
  have "retry_outcome ?f (\<lambda>_. None) (\<lambda>a. retryDelay conv (nat a) (retry_backoff delivery)) (max_retries delivery) log (r, ds, log')"
    using retry_loop_outcome [of ?f 0 log None log "max_retries delivery" "\<lambda>_. None" _ r ds log'] assms(3) out
    by (simp add: writeWithRetry_def)
  moreover have "\<not> (\<exists>s s'. ?f s = (None, s'))"
    using http_posts_log [OF assms(1,2)] by (metis Pair_inject option.distinct(1))
  ultimately obtain e where e: "failing ?f (nat (max_retries delivery + 1)) log = Some (Some e, log')"
    and r: "r = Some (Wrap ''retries exhausted (%d attempts): %w'' [Itoa (max_retries delivery + 1)] e)"
    unfolding retry_outcome_def by auto
  have n: "nat (max_retries delivery + 1) = nat (max_retries delivery) + 1" using assms(3) by simp
  have "log' = log @ concat (replicate (nat (max_retries delivery) + 1) (pre @ [bad]))"
    using failing_http_posts [OF assms(1,2), of verb url post "nat (max_retries delivery) + 1" log] e
    unfolding n by fastforce
  then show ?thesis using out r unfolding http_Write_def assms(4) by blast
qed

section \<open>The built-in plugins and the contract of transforms\<close>

lemma plugins_typed: "typed_registry (plugins_all cl je pe)"
  by (auto simp: typed_registry_def plugins_all_def builtin_registry_def RegisterSource_def RegisterTransform_def
      RegisterSink_def RegisterCodec_def registry_New_def drop_factory_def base_stage_def http_sink_factory_def
      kafka_sink_factory_def cron_source_factory_def http_source_factory_def kafka_source_factory_def map_sum_Inr Let_def
      split: prod.splits)

lemma plugins_create_ok:
  assumes "create_stage (plugins_all cl je pe) st = Inr s"
  shows "stage_ok s"
proof -
  have "f arg = Inr s \<Longrightarrow> stage_ok s" if "map_of (re_transforms (plugins_all cl je pe)) (st_Type st) = Some f" for f arg
  proof -
    assume f: "f arg = Inr s"
    then have "f \<noteq> wasm_factory" by (auto simp: wasm_factory_def)
    then have "map_of (re_transforms (builtin_registry cl je)) (st_Type st) = Some f"
      using that by (auto simp: plugins_all_def RegisterSource_def RegisterTransform_def RegisterSink_def split: if_splits)
    from builtin_created_ok [OF this f] show ?thesis .
  qed
  then show ?thesis using create_stage_ok_gen [OF plugins_typed _ assms] by blast
qed

lemma plugins_transforms_ok:
  "NewPipeline cp dirs (plugins_all cl je pe) ir = Inr p \<Longrightarrow> transforms_ok p"
  by (rule NewPipeline_transforms_ok [OF plugins_create_ok])

section \<open>Witnesses\<close>

definition demo_km :: "int \<Rightarrow> kafka_message" where
  "demo_km i = \<lparr>km_Topic = ''t'', km_Partition = 0, km_Offset = i, km_Key = '''', km_Value = ''v''\<rparr>"

definition demo_ks :: kafka_source where
  "demo_ks = \<lparr>ks_id = ''k'', ks_brokers = [''b''], ks_topics = [''t''], ks_groupID = ''g'', ks_minBytes = 1,
     ks_maxBytes = 10, ks_reader = True, ks_pending = []\<rparr>"

text \<open>Two messages of a partition; the first fails and the second succeeds.\<close>

definition demo_kr :: kafka_run where
  "demo_kr = \<lparr>kr_src = demo_ks\<lparr>ks_pending := [(''x'', demo_km 0)]\<rparr>, kr_read = [(''x'', demo_km 0), (''y'', demo_km 1)],
     kr_acks = [(''x'', Some EOF), (''y'', None)], kr_commits = [demo_km 1]\<rparr>"

lemma demo_kafka_reach: "kafka_reach (kafka_start demo_ks) demo_kr"
proof -
  let ?s0 = "kafka_start demo_ks"
  let ?s1 = "?s0\<lparr>kr_src := demo_ks\<lparr>ks_pending := [(''x'', demo_km 0)]\<rparr>, kr_read := [(''x'', demo_km 0)]\<rparr>"
  let ?s2 = "?s1\<lparr>kr_src := demo_ks\<lparr>ks_pending := [(''x'', demo_km 0), (''y'', demo_km 1)]\<rparr>,
      kr_read := [(''x'', demo_km 0), (''y'', demo_km 1)]\<rparr>"
  let ?s3 = "?s2\<lparr>kr_acks := [(''x'', Some EOF)]\<rparr>"
  have "kafka_step ?s0 ?s1"
    using kafka_consume [of "''x''" "demo_km 0" ?s0] by (simp add: kafka_read_def kafka_start_def demo_ks_def)
  moreover have "kafka_step ?s1 ?s2"
    using kafka_consume [of "''y''" "demo_km 1" ?s1] by (simp add: kafka_read_def kafka_start_def demo_ks_def)
  moreover have "kafka_step ?s2 ?s3"
    using kafka_ack [of "''x''" "Some EOF" ?s2] by (simp add: kafka_OnAck_def kafka_start_def demo_ks_def)
  moreover have "kafka_step ?s3 demo_kr"
    using kafka_ack [of "''y''" None ?s3] by (simp add: kafka_OnAck_def kafka_start_def demo_ks_def demo_kr_def)
  ultimately show ?thesis by (meson kafka_reach.intros)
qed

theorem kafka_commits_acknowledged_witness:
  "kafka_reach (kafka_start demo_ks) demo_kr \<and> kr_commits demo_kr = [demo_km 1] \<and>
     map_of (ks_pending (kr_src demo_kr)) ''x'' = Some (demo_km 0)"
  using kafka_commits_acknowledged [OF demo_kafka_reach] demo_kafka_reach
  by (simp add: demo_ks_def demo_kr_def)

definition demo_answer :: "string \<Rightarrow> int res" where
  "demo_answer payload = Inr (if payload = ''b'' then 500 else 200)"

definition demo_batch_world :: world where
  "demo_batch_world = demo_world\<lparr>wd_msgs := (\<lambda>m. message_New (if m = 0 then ''a'' else if m = 1 then ''b'' else ''c'') None)\<rparr>"

theorem http_retry_reposts_witness:
  "\<exists>err ds. writeWithRetry (http_Write (http_log demo_answer) ''POST'' ''u'' [0, 1, 2] demo_batch_world) (\<lambda>_. None) int
     (demo_delivery 1) [] = (Some err, ds, [''a'', ''b'', ''a'', ''b''])"
  using http_retry_reposts [of demo_answer "[''a'']" "''b''" "demo_delivery 1" demo_batch_world "[0, 1, 2]" "[''c'']"
      "''POST''" "''u''" int "[]"]
  by (simp add: demo_answer_def accepts_def max_retries_def demo_delivery_def demo_batch_world_def message_New_def
      eval_nat_numeral)

end
