(* ===== verification/Delivery.thy ===== *)
theory Delivery
  imports Engine Connectors
begin

text \<open>
  What holds of a pipeline because of how it was built: its edges start empty, every edge of the
  graph has its buffer, and an edge with a memory buffer has no disk log. With the contract of the
  built-in transforms these are the conditions of the delivery theorems.
\<close>

lemma key_index_less: "key_index edges key = Some i \<Longrightarrow> i < length edges"
proof -
  assume "key_index edges key = Some i"
  then have "i \<in> set (positions (\<lambda>e. edgeKey (ei_From e) (ei_To e) = key) edges)"
    by (auto simp: key_index_def split: list.splits)
  then show "i < length edges" by (simp add: positions_def)
qed

definition memory_edge :: "edge_ir \<Rightarrow> bool" where
  "memory_edge e \<longleftrightarrow> bf_Type (ei_Buffer e) \<noteq> ''disk'' \<and> bf_Type (ei_Buffer e) \<noteq> ''overflow''"

lemma NewEdgeInbound_fresh:
  "NewEdgeInbound dirs name from to cfg = Inr eb \<Longrightarrow>
     buf_owns eb = [] \<and> (bf_Type cfg \<noteq> ''disk'' \<and> bf_Type cfg \<noteq> ''overflow'' \<longrightarrow> eb_disk eb = None)"
  by (auto simp: NewEdgeInbound_def Let_def buf_owns_def in_hand_def DefaultBuffer_def split: if_splits sum.splits)

lemma add_edge_buffers:
  "add_edge cp dirs name g e = Inr g' \<Longrightarrow>
     \<exists>eb. NewEdgeInbound dirs name (ei_From e) (ei_To e) (ei_Buffer e) = Inr eb \<and> rg_buffers g' = rg_buffers g @ [eb]"
  by (auto simp: add_edge_def Let_def split: sum.splits option.splits if_splits)

lemma add_node_buffers: "add_node cp es g st = Inr g' \<Longrightarrow> rg_buffers g' = rg_buffers g"
  by (auto simp: add_node_def Let_def split: sum.splits option.splits if_splits)

lemma build_buffers:
  assumes "buildRuntimeGraph cp dirs ir = Inr g"
  shows "bufs_own (rg_buffers g) = []" and "\<forall>e \<in> set (ir_Edges ir). memory_edge e \<Longrightarrow> mem_only (rg_buffers g)"
proof -
  obtain g0 where nodes: "rfold (add_node cp (ir_Edges ir)) empty_graph (ir_Stages ir) = Inr g0"
    and edges: "rfold (add_edge cp dirs (ir_Name ir)) g0 (ir_Edges ir) = Inr g"
    using assms by (auto simp: buildRuntimeGraph_def split: sum.splits)
  have none: "rg_buffers g0 = []"
    by (rule rfold_ok_inv [OF nodes, of "\<lambda>g. rg_buffers g = []"]) (auto simp: empty_graph_def dest: add_node_buffers)
  have "\<forall>eb \<in> set (rg_buffers g). buf_owns eb = []"
    by (rule rfold_ok_inv [OF edges, of "\<lambda>g. \<forall>eb \<in> set (rg_buffers g). buf_owns eb = []"])
       (auto simp: none dest!: add_edge_buffers NewEdgeInbound_fresh)
  then show "bufs_own (rg_buffers g) = []" by (simp add: bufs_own_def)
  assume mem: "\<forall>e \<in> set (ir_Edges ir). memory_edge e"
  have "\<forall>eb \<in> set (rg_buffers g). eb_disk eb = None"
  proof (rule rfold_ok_inv [OF edges, of "\<lambda>g. \<forall>eb \<in> set (rg_buffers g). eb_disk eb = None"])
    fix g1 e g2 assume e: "e \<in> set (ir_Edges ir)" "\<forall>eb \<in> set (rg_buffers g1). eb_disk eb = None"
      and add: "add_edge cp dirs (ir_Name ir) g1 e = Inr g2"
    obtain eb where eb: "NewEdgeInbound dirs (ir_Name ir) (ei_From e) (ei_To e) (ei_Buffer e) = Inr eb"
      "rg_buffers g2 = rg_buffers g1 @ [eb]" using add_edge_buffers [OF add] by blast
    have "eb_disk eb = None" using NewEdgeInbound_fresh [OF eb(1)] e(1) mem by (simp add: memory_edge_def)
    then show "\<forall>eb \<in> set (rg_buffers g2). eb_disk eb = None" using e(2) eb(2) by simp
  qed (simp add: none)
  then show "mem_only (rg_buffers g)" by (simp add: mem_only_def)
qed

lemma NewPipeline_graph: "NewPipeline cp dirs reg ir = Inr p \<Longrightarrow> buildRuntimeGraph cp dirs ir = Inr (pl_graph p)"
  by (auto simp: NewPipeline_def split: sum.splits)

text \<open>A pipeline whose transforms keep the contract and that has no required conditional edge.\<close>

lemma built_engine_ok:
  assumes "NewPipeline cp dirs reg ir = Inr p" and "transforms_ok p"
    and "\<forall>e \<in> set (ir_Edges ir). ei_Condition e = '''' \<or> \<not> ei_Required e"
  shows "engine_ok p (length (rg_buffers (pl_graph p)))"
proof -
  note G = build_exact(1) [OF NewPipeline_graph [OF assms(1)], unfolded graph_exact_def]
  have "quiet_conditions p" using G assms(3) by (auto simp: quiet_conditions_def)
  moreover have "buffers_ok p (length (rg_buffers (pl_graph p)))"
    unfolding buffers_ok_def
  proof clarify
    fix key ptr assume "(key, ptr) \<in> set (rg_edgeInbounds (pl_graph p))"
    then have "key_index (ir_Edges ir) key = Some ptr" using G by (metis map_of_is_SomeI)
    then show "ptr < length (rg_buffers (pl_graph p))" using key_index_less G by metis
  qed
  ultimately show ?thesis using assms(2) by (simp add: engine_ok_def)
qed

end
