(* ===== verification/Composition.thy ===== *)
theory Composition
  imports Delivery
begin

text \<open>
  The edges of a running pipeline: what the engine (\<^verbatim>\<open>Engine\<close>) does to one of its
  memory buffers is a run of that buffer alone (\<^verbatim>\<open>EdgeBuf\<close>), so the buffer keeps in the
  pipeline what it promises by itself.
\<close>

section \<open>What an action does to an edge\<close>

text \<open>The message an action is about to enqueue.\<close>

definition sending :: "act \<Rightarrow> mref list" where
  "sending a = (case a of SendToInbound e m \<Rightarrow> [m] | _ \<Rightarrow> [])"

lemma sending_simps [simp]:
  "sending (DispatchFrom sid m) = []" "sending (Branch c m e) = []" "sending (SendToInbound e m) = [m]"
  "sending (AwaitDisk ptr m) = []" "sending (TransformBatch sid ms) = []" "sending (Process sid ms) = []"
  "sending (OutInputs sid ins outs ids passed aggs) = []" "sending (OutOutputs sid outs passed aggs) = []"
  by (simp_all add: sending_def)

definition sends :: "'x engine_run \<Rightarrow> mref list" where
  "sends s = concat (map sending (acts_of s))"

text \<open>Only a branch prepares a message to be enqueued, and that message is new.\<close>

lemma exec_sends:
  assumes "(acts, (w', bufs')) \<in> set (exec p ev env ctx a (w, bufs))"
  shows "concat (map sending acts) = (case a of Branch c m e \<Rightarrow> [wd_next w] | _ \<Rightarrow> []) \<and>
    (\<forall>c m e. a = Branch c m e \<longrightarrow> wd_next w < wd_next w')"
proof (cases a)
  case (DispatchFrom sid m)
  then show ?thesis using assms
    by (auto simp: exec_def dispatchFrom_def Let_def comp_def split: prod.splits if_splits)
next
  case (Branch c m e)
  then show ?thesis using assms by (auto simp: exec_def fan_child_def new_msg_def upd_msg_def Let_def split: prod.splits)
next
  case (SendToInbound e m)
  then show ?thesis using assms
    by (auto simp: exec_def sendToInbound_def enqueue_outcomes_def split: option.splits)
next
  case (AwaitDisk ptr m)
  then show ?thesis using assms by (auto simp: exec_def await_disk_def enqueue_outcomes_def split: option.splits)
next
  case (TransformBatch sid ms)
  then show ?thesis using assms
    by (auto simp: exec_def runTransform_batch_def Let_def comp_def split: prod.splits if_splits)
next
  case (Process sid ms)
  then show ?thesis using assms
    by (auto simp: exec_def process_batch_def split: option.splits stage_role.splits prod.splits sum.splits)
next
  case (OutInputs sid ins outs ids passed aggs)
  then show ?thesis using assms
    by (auto simp: exec_def out_input_def Let_def split: list.splits prod.splits if_splits)
next
  case (OutOutputs sid outs passed aggs)
  then show ?thesis using assms
    by (auto simp: exec_def out_output_def Let_def split: list.splits prod.splits if_splits option.splits)
qed

text \<open>A memory buffer never looks at the disk, and enqueueing never goes around the disk loop.\<close>

lemma sendToMemory_memory:
  "(acks, r, e') \<in> set (sendToMemory ctx e m) \<Longrightarrow> r \<noteq> None \<and> eb_disk e' = eb_disk e"
  by (auto simp: sendToMemory_def send_cases_def mem_push_def split: if_splits option.splits list.splits)

lemma Enqueue_memory:
  assumes "eb_disk e = None"
  shows "Enqueue ev ctx e m = Enqueue ev' ctx e m"
    and "(acks, r, e') \<in> set (Enqueue ev ctx e m) \<Longrightarrow> r \<noteq> None \<and> eb_disk e' = None"
proof -
  show "Enqueue ev ctx e m = Enqueue ev' ctx e m" using assms by (simp add: Enqueue_def)
  assume "(acks, r, e') \<in> set (Enqueue ev ctx e m)"
  then show "r \<noteq> None \<and> eb_disk e' = None"
    using assms sendToMemory_memory [of acks r e' ctx e m]
    by (auto simp: Enqueue_def mem_push_def split: if_splits)
qed

text \<open>So an action leaves a memory buffer as it is, or enqueues its message there.\<close>

lemma exec_edge:
  assumes "(acts, (w', bufs')) \<in> set (exec p ev env ctx a (w, bufs))" and "i < length bufs" and "eb_disk (bufs ! i) = None"
  shows "bufs' ! i = bufs ! i \<or>
    (\<exists>e m acks r. a = SendToInbound e m \<and> (acks, Some r, bufs' ! i) \<in> set (Enqueue env ctx (bufs ! i) m))"
proof (cases a)
  case (SendToInbound e m)
  then consider "bufs' = bufs"
    | ptr acks r e' where "(acks, r, e') \<in> set (Enqueue (env\<lparr>ev_msg := wd_msgs w\<rparr>) ctx (bufs ! ptr) m)" "bufs' = bufs[ptr := e']"
    using assms(1) by (auto simp: exec_def sendToInbound_def enqueue_outcomes_def split: option.splits)
  then show ?thesis
  proof cases
    case (2 ptr acks r e')
    show ?thesis
    proof (cases "ptr = i")
      case True
      have "(acks, r, e') \<in> set (Enqueue env ctx (bufs ! i) m)"
        using 2(1) Enqueue_memory(1) [OF assms(3), of "env\<lparr>ev_msg := wd_msgs w\<rparr>" ctx m env] True by simp
      moreover obtain r' where "r = Some r'" using Enqueue_memory(2) [OF assms(3) calculation] by auto
      moreover have "bufs' ! i = e'" using 2(2) True assms(2) by simp
      ultimately show ?thesis using SendToInbound by blast
    qed (use 2(2) in simp)
  qed simp
next
  case (AwaitDisk ptr m)
  then show ?thesis using assms
    by (cases "ptr = i") (auto simp: exec_def await_disk_def enqueue_outcomes_def split: option.splits)
qed (use assms(1) in \<open>auto simp: exec_def split: prod.splits option.splits list.splits\<close>)

section \<open>The simulation\<close>

text \<open>
  An edge's own run goes with the engine when it is in the state the edge is in, and when the
  messages that went into it and the ones about to be enqueued are all different and allocated.
\<close>

definition carries :: "('p, 'x) pipeline \<Rightarrow> ack_run \<Rightarrow> edge_inbound list \<Rightarrow> nat \<Rightarrow> 'x engine_run \<Rightarrow> edge_run \<Rightarrow> bool" where
  "carries p r0 bufs0 i s h \<longleftrightarrow>
     engine_inv p r0 bufs0 s \<and> (\<exists>i0. acks_inv i0 r0) \<and> i < length (en_bufs s) \<and>
     er_edge h = en_bufs s ! i \<and> eb_disk (en_bufs s ! i) = None \<and>
     distinct (sends s @ er_in h) \<and> (\<forall>m \<in> set (sends s @ er_in h). m < wd_next (en_world s))"

text \<open>
  A step goes with a run of the edge if the messages to be enqueued and taken in are among those
  before it, with one new message at most.
\<close>

lemma distinct_sub:
  assumes "mset ys \<subseteq># mset xs" and "distinct xs"
  shows "distinct ys"
  unfolding distinct_count_atmost_1
proof
  fix a
  have "count (mset ys) a \<le> 1"
    using mset_subset_eq_count [OF assms(1), of a] assms(2)
    by (auto simp: distinct_count_atmost_1 elim!: order_trans)
  moreover have "1 \<le> count (mset ys) a \<longleftrightarrow> a \<in> set ys" by (simp add: Suc_le_eq)
  ultimately show "count (mset ys) a = (if a \<in> set ys then 1 else 0)" by (cases "a \<in> set ys") (simp_all add: le_antisym)
qed

lemma carries_run:
  assumes "carries p r0 bufs0 i s h" and "engine_step p ev env denv s s'"
    and "mset (sends s' @ er_in h') \<subseteq># mset (sends s @ er_in h) \<or>
      (mset (sends s' @ er_in h') \<subseteq># mset (wd_next (en_world s) # sends s @ er_in h) \<and> wd_next (en_world s) < wd_next (en_world s'))"
    and "edge_reach env h h'" and "er_edge h' = en_bufs s' ! i" and "eb_disk (en_bufs s' ! i) = None"
  shows "\<exists>h'. edge_reach env h h' \<and> carries p r0 bufs0 i s' h'"
proof -
  obtain i0 where w: "acks_inv i0 r0" using assms(1) unfolding carries_def by blast
  have I: "engine_inv p r0 bufs0 s" and i: "i < length (en_bufs s)"
    and d: "distinct (sends s @ er_in h)" and lt: "\<And>m. m \<in> set (sends s @ er_in h) \<Longrightarrow> m < wd_next (en_world s)"
    using assms(1) unfolding carries_def by blast+
  note F = engine_step_frame [OF assms(2) I w] and I' = engine_step_inv [OF assms(2) I w]
  have grow: "wd_next (en_world s) \<le> wd_next (en_world s')" using F by (simp add: frame_def)
  have new: "distinct (wd_next (en_world s) # sends s @ er_in h)" using d lt by fastforce
  have "distinct (sends s' @ er_in h') \<and> (\<forall>m \<in> set (sends s' @ er_in h'). m < wd_next (en_world s'))"
    using assms(3)
  proof
    assume m: "mset (sends s' @ er_in h') \<subseteq># mset (sends s @ er_in h)"
    have "set (sends s' @ er_in h') \<subseteq> set (sends s @ er_in h)" using set_mset_mono [OF m] by simp
    then show ?thesis using distinct_sub [OF m d] lt grow by (meson less_le_trans subsetD)
  next
    assume m: "mset (sends s' @ er_in h') \<subseteq># mset (wd_next (en_world s) # sends s @ er_in h) \<and>
      wd_next (en_world s) < wd_next (en_world s')"
    have "set (sends s' @ er_in h') \<subseteq> insert (wd_next (en_world s)) (set (sends s @ er_in h))"
      using set_mset_mono [OF conjunct1 [OF m]] by simp
    then have "m < wd_next (en_world s')" if "m \<in> set (sends s' @ er_in h')" for m
      using that lt [of m] m by fastforce
    then show ?thesis using distinct_sub [OF conjunct1 [OF m] new] by blast
  qed
  then have "carries p r0 bufs0 i s' h'" using I' w F i assms(5,6) by (auto simp: carries_def simp del: set_append distinct_append)
  then show ?thesis using assms(4) by blast
qed

lemma carries_same:
  assumes "carries p r0 bufs0 i s h" and "engine_step p ev env denv s s'" and "sends s' = sends s"
    and "edge_reach env h h'" and "er_in h' = er_in h" and "er_edge h' = en_bufs s' ! i" and "eb_disk (en_bufs s' ! i) = None"
  shows "\<exists>h'. edge_reach env h h' \<and> carries p r0 bufs0 i s' h'"
  by (rule carries_run [OF assms(1,2) _ assms(4,6,7)]) (simp add: assms(3,5))

lemma carries_quiet:
  assumes "carries p r0 bufs0 i s h" and "engine_step p ev env denv s s'" and "sends s' = sends s" and "en_bufs s' ! i = en_bufs s ! i"
  shows "\<exists>h'. edge_reach env h h' \<and> carries p r0 bufs0 i s' h'"
  by (rule carries_same [OF assms(1-3) reach_refl]) (use assms(1,4) in \<open>simp_all add: carries_def\<close>)

text \<open>The context of an operation, and then the operation.\<close>

lemma edge_with_context: "edge_step env (h\<lparr>er_ctx := ctx\<rparr>) h' \<Longrightarrow> edge_reach env h h'"
  by (rule reach_step [OF edge.reach_one [OF step_context]])

lemma carries_step:
  assumes R: "carries p r0 bufs0 i s h" and step: "engine_step p ev env denv s s'"
  shows "\<exists>h'. edge_reach env h h' \<and> carries p r0 bufs0 i s' h'"
  using step
proof cases
  case (es_source sid st acking uuid msg m w)
  then show ?thesis by (intro carries_quiet [OF R step]) (simp_all add: sends_def acts_of_def)
next
  case (es_act us a as vs acts w bufs ctx)
  have i: "i < length (en_bufs s)" "eb_disk (en_bufs s ! i) = None" "er_edge h = en_bufs s ! i"
    using R by (simp_all add: carries_def)
  have before: "mset (sends s) = mset (sending a) + mset (concat (map sending (concat us @ as @ concat vs)))"
    by (simp add: sends_def acts_of_def es_act(2))
  note E = exec_sends [OF es_act(3)]
  have "mset (sends s') = mset (concat (map sending acts)) + mset (concat (map sending (concat us @ as @ concat vs)))"
    by (simp add: sends_def acts_of_def es_act(1))
  then have after: "mset (sends s') = mset (case a of Branch c m e \<Rightarrow> [wd_next (en_world s)] | _ \<Rightarrow> [])
      + mset (concat (map sending (concat us @ as @ concat vs)))"
    by (simp only: conjunct1 [OF E])
  show ?thesis using exec_edge [OF es_act(3) i(1,2)]
  proof
    assume same: "bufs ! i = en_bufs s ! i"
    show ?thesis
    proof (rule carries_run [OF R step _ reach_refl])
      show "mset (sends s' @ er_in h) \<subseteq># mset (sends s @ er_in h) \<or>
          (mset (sends s' @ er_in h) \<subseteq># mset (wd_next (en_world s) # sends s @ er_in h) \<and> wd_next (en_world s) < wd_next (en_world s'))"
        unfolding mset_append mset.simps after before by (cases a) (use conjunct2 [OF E] in \<open>simp_all add: es_act(1)\<close>)
    qed (simp_all add: es_act(1) same i)
  next
    assume "\<exists>e m acks r. a = SendToInbound e m \<and> (acks, Some r, bufs ! i) \<in> set (Enqueue env ctx (en_bufs s ! i) m)"
    then obtain e m acks r where a: "a = SendToInbound e m" and enq: "(acks, Some r, bufs ! i) \<in> set (Enqueue env ctx (en_bufs s ! i) m)"
      by blast
    let ?h = "h\<lparr>er_ctx := ctx, er_edge := bufs ! i, er_in := er_in h @ [m], er_acks := er_acks h @ acks\<rparr>"
    have "edge_step env (h\<lparr>er_ctx := ctx\<rparr>) ?h"
      using edge_step.step_enqueue [of acks r "bufs ! i" env "h\<lparr>er_ctx := ctx\<rparr>" m] enq i(3) by simp
    note run = edge_with_context [OF this]
    show ?thesis
    proof (rule carries_run [OF R step _ run])
      show "mset (sends s' @ er_in ?h) \<subseteq># mset (sends s @ er_in h) \<or>
          (mset (sends s' @ er_in ?h) \<subseteq># mset (wd_next (en_world s) # sends s @ er_in h) \<and> wd_next (en_world s) < wd_next (en_world s'))"
        unfolding mset_append after before by (simp add: a)
    qed (use Enqueue_memory(2) [OF i(2) enq] in \<open>simp_all add: es_act(1)\<close>)
  qed
next
  case (es_drain j acks e ctx)
  show ?thesis
  proof (cases "j = i")
    case True
    have "edge_step env (h\<lparr>er_ctx := ctx\<rparr>) (h\<lparr>er_ctx := ctx, er_edge := e, er_acks := er_acks h @ acks\<rparr>)"
      using edge_step.step_drain [of acks e env "h\<lparr>er_ctx := ctx\<rparr>"] R es_drain(3) True by (simp add: carries_def)
    note run = edge_with_context [OF this]
    show ?thesis
      by (rule carries_same [OF R step _ run])
        (use R es_drain(1,2) True drain_account [OF es_drain(3)] in \<open>simp_all add: carries_def sends_def acts_of_def\<close>)
  qed (intro carries_quiet [OF R step], simp_all add: es_drain(1) sends_def acts_of_def)
next
  case (es_close j)
  show ?thesis
  proof (cases "j = i")
    case True
    show ?thesis
      by (rule carries_same [OF R step _ edge.reach_one [OF step_close]])
        (use R es_close True in \<open>simp_all add: carries_def sends_def acts_of_def Edge_Close_begin_def\<close>)
  qed (intro carries_quiet [OF R step], simp_all add: es_close(1) sends_def acts_of_def)
next
  case (es_receive sid n j it rest m w)
  show ?thesis
  proof (cases "j = i")
    case True
    have out: "eb_out (er_edge h) = it # rest" using R es_receive(5) True by (simp add: carries_def)
    show ?thesis
      by (rule carries_same [OF R step _ edge.reach_one [OF step_deliver [OF out]]])
        (use R es_receive(1,4) True in \<open>simp_all add: carries_def sends_def acts_of_def\<close>)
  qed (intro carries_quiet [OF R step], simp_all add: es_receive(1) sends_def acts_of_def)
next
  case (es_batch sid n us m vs)
  then show ?thesis by (intro carries_quiet [OF R step]) (simp_all add: sends_def acts_of_def)
next
  case (es_cancel us sid m vs ctxErr)
  then show ?thesis by (intro carries_quiet [OF R step]) (simp_all add: sends_def acts_of_def)
next
  case (es_flush sid st wr fl batch rest ctx conv err w x)
  then show ?thesis by (intro carries_quiet [OF R step]) (simp_all add: sends_def acts_of_def)
next
  case (es_drop sid n us m vs)
  then show ?thesis by (intro carries_quiet [OF R step]) (simp_all add: sends_def acts_of_def)
qed

interpretation edge_in_engine: simulation "engine_step p ev env denv" "engine_reach p ev env denv" "edge_step env" "edge_reach env"
    "carries p r0 bufs0 i" for p ev env denv r0 bufs0 i
  by unfold_locales (rule carries_step)

section \<open>Order and bounds of the edges of a running pipeline\<close>

lemma built_buffers:
  assumes "buildRuntimeGraph cp dirs ir = Inr g" and "b \<in> set (rg_buffers g)"
  shows "\<exists>e \<in> set (ir_Edges ir). NewEdgeInbound dirs (ir_Name ir) (ei_From e) (ei_To e) (ei_Buffer e) = Inr b"
proof -
  obtain g0 where nodes: "rfold (add_node cp (ir_Edges ir)) empty_graph (ir_Stages ir) = Inr g0"
    and edges: "rfold (add_edge cp dirs (ir_Name ir)) g0 (ir_Edges ir) = Inr g"
    using assms(1) by (auto simp: buildRuntimeGraph_def split: sum.splits)
  have none: "rg_buffers g0 = []"
    by (rule rfold_ok_inv [OF nodes, of "\<lambda>g. rg_buffers g = []"]) (auto simp: empty_graph_def dest: add_node_buffers)
  let ?P = "\<lambda>g. \<forall>b \<in> set (rg_buffers g). \<exists>e \<in> set (ir_Edges ir). NewEdgeInbound dirs (ir_Name ir) (ei_From e) (ei_To e) (ei_Buffer e) = Inr b"
  have "?P g" by (rule rfold_ok_inv [OF edges, of ?P]) (auto simp: none dest!: add_edge_buffers)
  then show ?thesis using assms(2) by blast
qed


section \<open>Witnesses\<close>

text \<open>The relay pipeline after its source's message has gone into the first edge.\<close>

definition relay_part :: "nat engine_run" where
  "relay_part = foldl (take_turn relay (\<lambda>_ _ _ _. Inr True) demo_ev demo_denv)
     (engine_start demo_world (rg_buffers (pl_graph relay)) 0) (take 4 relay_turns)"

lemma relay_built: "NewPipeline demo_compiler no_dirs demo_registry relay_ir = Inr relay"
proof -
  have "is_ok (NewPipeline demo_compiler no_dirs demo_registry relay_ir)" by code_simp
  then show ?thesis by (auto simp: relay_def is_ok_iff)
qed


end
