(* ===== verification/AckErrors.thy ===== *)
theory AckErrors
  imports Ack
begin

text \<open>
  Errors in the tree of acknowledgements: when a message that came from a source's message is
  acknowledged with an error, the source is not told that its message succeeded, whatever else
  happens. A cell keeps its first error until its last branch is done and gives it to its parent.
\<close>

section \<open>Where an acknowledgement leads\<close>

text \<open>The source's message, as the source's name and the pointer, that a handler will acknowledge in the end.\<close>

inductive leads :: "world \<Rightarrow> ack_handler \<Rightarrow> string \<times> mref \<Rightarrow> bool" for w where
  leads_source: "leads w (HOnAck src m) (src, m)"
| leads_child: "c < length (wd_cells w) \<Longrightarrow> h \<in> set (ms_ackFn (wd_msgs w (ce_parent (wd_cells w ! c)))) \<Longrightarrow> leads w h t \<Longrightarrow>
     leads w (HChild c) t"

inductive_cases leads_HReleaseE: "leads w HRelease t"
inductive_cases leads_HOnAckE: "leads w (HOnAck src m) t"
inductive_cases leads_HChildE: "leads w (HChild c) t"

definition source_of :: "world \<Rightarrow> mref \<Rightarrow> string \<times> mref \<Rightarrow> bool" where
  "source_of w m t \<longleftrightarrow> (\<exists>h \<in> set (ms_ackFn (wd_msgs w m)). leads w h t)"

lemma leads_cong:
  assumes "leads w h t" and "wd_msgs w' = wd_msgs w" and "map ce_parent (wd_cells w') = map ce_parent (wd_cells w)"
  shows "leads w' h t"
  using assms(1)
proof (induction rule: leads.induct)
  case (leads_source src m)
  show ?case by (rule leads.leads_source)
next
  case (leads_child c h t)
  have "length (wd_cells w') = length (wd_cells w)" using assms(3) by (rule map_eq_imp_length_eq)
  moreover have "ce_parent (wd_cells w' ! c) = ce_parent (wd_cells w ! c)"
    using arg_cong [OF assms(3), of "\<lambda>xs. xs ! c"] calculation leads_child(1) by simp
  ultimately show ?case using leads_child assms(2) by (intro leads.leads_child) simp_all
qed

text \<open>
  A source that was told of an error, an open cell that keeps one on the way to it, or an error
  that is just being handed on.
\<close>

definition taint :: "(ack_handler \<times> goerr option) list \<Rightarrow> world \<Rightarrow> string \<times> mref \<Rightarrow> bool" where
  "taint hs w t \<longleftrightarrow>
     (\<exists>e. (fst t, snd t, Some e) \<in> set (wd_onacks w)) \<or>
     (\<exists>c. open_cell w c \<and> ce_firstErr (wd_cells w ! c) \<noteq> None \<and> leads w (HChild c) t) \<or>
     (\<exists>h e. (h, Some e) \<in> set hs \<and> leads w h t)"

definition cells_err :: "world \<Rightarrow> bool" where
  "cells_err w \<longleftrightarrow> (\<forall>ce \<in> set (wd_cells w). ce_errStored ce \<longrightarrow> ce_firstErr ce \<noteq> None)"

lemma ack_ok_child_open:
  assumes "ack_ok w live tokens hs" and "HChild c \<in># owed w live hs"
  shows "open_cell w c"
proof -
  have "0 < count (owed w live hs) (HChild c)" using assms(2) by simp
  then show ?thesis using assms(1) unfolding ack_ok_def by (metis add_is_0 less_numeral_extra(3) of_nat_eq_0_iff)
qed

section \<open>Calling handlers keeps an error on its way\<close>

lemma child_done_cell:
  assumes "child_done c err w = (fire, w')" and "c < length (wd_cells w)"
  obtains ce where "w' = w\<lparr>wd_cells := (wd_cells w)[c := ce]\<rparr>" "ce_parent ce = ce_parent (wd_cells w ! c)"
    "ce_pending ce = ce_pending (wd_cells w ! c) - 1"
    "fire = (if ce_pending ce = 0 then Some (ce_parent ce, ce_firstErr ce) else None)"
    "ce_firstErr ce = (if err \<noteq> None \<and> \<not> ce_errStored (wd_cells w ! c) then err else ce_firstErr (wd_cells w ! c))"
    "ce_errStored ce \<longleftrightarrow> ce_errStored (wd_cells w ! c) \<or> err \<noteq> None"
proof -
  let ?ce0 = "wd_cells w ! c"
  let ?ce1 = "if err \<noteq> None \<and> \<not> ce_errStored ?ce0 then ?ce0\<lparr>ce_errStored := True, ce_firstErr := err\<rparr> else ?ce0"
  let ?ce = "?ce1\<lparr>ce_pending := ce_pending ?ce1 - 1\<rparr>"
  have "(fire, w') = (if ce_pending ?ce = 0 then Some (ce_parent ?ce, ce_firstErr ?ce) else None,
      w\<lparr>wd_cells := (wd_cells w)[c := ?ce]\<rparr>)"
    using assms unfolding child_done_def Let_def by (simp only: if_True)
  then show thesis by (intro that [of ?ce]) (simp_all split: if_splits)
qed

lemma child_done_taint:
  assumes ok: "ack_ok w live tokens (HChild c # hs0)" and err: "cells_err w" and cd: "child_done c err w = (fire, w')"
    and t: "taint ((HChild c, err) # hs) w t"
  shows "cells_err w' \<and> taint (case fire of None \<Rightarrow> hs | Some (p, e) \<Rightarrow> map (\<lambda>h. (h, e)) (ms_ackFn (wd_msgs w' p)) @ hs) w' t"
proof -
  have op: "open_cell w c" using ok by (rule ack_ok_child_open) (simp add: owed_Cons)
  then have c: "c < length (wd_cells w)" "0 < ce_pending (wd_cells w ! c)" by (simp_all add: open_cell_def)
  obtain ce where w': "w' = w\<lparr>wd_cells := (wd_cells w)[c := ce]\<rparr>" and par: "ce_parent ce = ce_parent (wd_cells w ! c)"
    and pend: "ce_pending ce = ce_pending (wd_cells w ! c) - 1"
    and fire: "fire = (if ce_pending ce = 0 then Some (ce_parent ce, ce_firstErr ce) else None)"
    and first: "ce_firstErr ce = (if err \<noteq> None \<and> \<not> ce_errStored (wd_cells w ! c) then err else ce_firstErr (wd_cells w ! c))"
    and stored: "ce_errStored ce \<longleftrightarrow> ce_errStored (wd_cells w ! c) \<or> err \<noteq> None"
    by (rule child_done_cell [OF cd c(1)])
  have kept: "ce_errStored (wd_cells w ! c) \<Longrightarrow> ce_firstErr (wd_cells w ! c) \<noteq> None"
    using err c(1) by (simp add: cells_err_def)
  have "cells_err w'"
    using err kept first stored set_update_subset_insert [of "wd_cells w" c ce] unfolding cells_err_def w' by fastforce
  have cells: "map ce_parent (wd_cells w') = map ce_parent (wd_cells w)"
    using c(1) par by (simp add: w' map_update list_update_same_conv)
  have L: "leads w' h t" if "leads w h t" for h
    by (rule leads_cong [OF that _ cells]) (simp add: w')
  have same: "wd_msgs w' = wd_msgs w" "wd_onacks w' = wd_onacks w" by (simp_all add: w')
  let ?hs' = "case fire of None \<Rightarrow> hs | Some (p, e) \<Rightarrow> map (\<lambda>h. (h, e)) (ms_ackFn (wd_msgs w' p)) @ hs"
  have sub: "set hs \<subseteq> set ?hs'" by (auto split: option.splits)
  text \<open>The cell itself carries an error now: it stays open, or hands the error on.\<close>
  have here: "taint ?hs' w' t" if e: "ce_firstErr ce \<noteq> None" and l: "leads w (HChild c) t"
  proof (cases "ce_pending ce = 0")
    case True
    obtain h where h: "h \<in> set (ms_ackFn (wd_msgs w (ce_parent (wd_cells w ! c))))" "leads w h t"
      using l by (rule leads_HChildE)
    obtain x where x: "ce_firstErr ce = Some x" using e by auto
    have "(h, Some x) \<in> set ?hs'" using h(1) by (simp add: fire True x same par)
    then show ?thesis using L [OF h(2)] unfolding taint_def by blast
  next
    case False
    then have "open_cell w' c" using c pend by (simp add: open_cell_def w')
    moreover have "wd_cells w' ! c = ce" using c(1) by (simp add: w')
    ultimately show ?thesis using e L [OF l] unfolding taint_def by auto
  qed
  have "taint ?hs' w' t"
  proof -
    consider e where "(fst t, snd t, Some e) \<in> set (wd_onacks w)"
      | d where "open_cell w d" "ce_firstErr (wd_cells w ! d) \<noteq> None" "leads w (HChild d) t"
      | e where "err = Some e" "leads w (HChild c) t"
      | h e where "(h, Some e) \<in> set hs" "leads w h t"
      using t unfolding taint_def by auto
    then show ?thesis
    proof cases
      case 1
      then show ?thesis unfolding taint_def same by blast
    next
      case (2 d)
      show ?thesis
      proof (cases "d = c")
        case True
        then show ?thesis using here 2(2,3) first by (auto split: if_splits)
      next
        case False
        then have "open_cell w' d \<and> wd_cells w' ! d = wd_cells w ! d" using 2(1) by (simp add: open_cell_def w')
        then show ?thesis using 2(2) L [OF 2(3)] unfolding taint_def by auto
      qed
    next
      case (3 e)
      then show ?thesis using here first kept by (auto split: if_splits)
    next
      case (4 h e)
      then show ?thesis using sub L unfolding taint_def by blast
    qed
  qed
  with \<open>cells_err w'\<close> show ?thesis by blast
qed

lemma run_acks_taint:
  "ack_ok w live tokens (map fst hs) \<Longrightarrow> cells_err w \<Longrightarrow> taint hs w t \<Longrightarrow>
     cells_err (run_acks hs w) \<and> taint [] (run_acks hs w) t"
proof (induction hs w rule: run_acks.induct)
  case (1 w)
  then show ?case by simp
next
  case (2 err hs w)
  let ?w = "releaseInflight err w"
  have o: "owed ?w live hs' = owed w live hs'" for hs' by (simp add: owed_def held_def releaseInflight_def)
  have "wd_cells ?w = wd_cells w" by (simp add: releaseInflight_def)
  then have ok: "ack_ok ?w live tokens (map fst hs)" using 2(2) by (simp add: ack_ok_def owed_Cons o open_cell_def)
  have L: "leads ?w h t = leads w h t" for h
    using leads_cong [of w h t ?w] leads_cong [of ?w h t w] by (auto simp: releaseInflight_def)
  have "taint hs ?w t" using 2(4) unfolding taint_def L
    by (auto simp: releaseInflight_def open_cell_def elim: leads_HReleaseE)
  moreover have "cells_err ?w" using 2(3) by (simp add: cells_err_def releaseInflight_def)
  ultimately show ?case using 2(1) [OF ok] by simp
next
  case (3 src m err hs w)
  let ?w = "w\<lparr>wd_onacks := wd_onacks w @ [(src, m, err)]\<rparr>"
  have o: "owed ?w live hs' = owed w live hs'" for hs' by (simp add: owed_def held_def)
  have ok: "ack_ok ?w live tokens (map fst hs)" using 3(2) by (simp add: ack_ok_def owed_Cons o open_cell_def)
  have L: "leads ?w h t = leads w h t" for h
    using leads_cong [of w h t ?w] leads_cong [of ?w h t w] by auto
  have src: "t = (src, m)" if "leads w (HOnAck src m) t" using that by (rule leads_HOnAckE) simp
  have "taint hs ?w t" using 3(4) unfolding taint_def L by (fastforce simp: open_cell_def dest: src)
  moreover have "cells_err ?w" using 3(3) by (simp add: cells_err_def)
  ultimately show ?case using 3(1) [OF ok] by simp
next
  case (4 c err hs w)
  obtain fire w' where cd: "child_done c err w = (fire, w')" by (cases "child_done c err w")
  have ok: "ack_ok w live tokens (HChild c # map fst hs)" using 4(3) by simp
  note D = child_done_ok [OF ok cd]
  note T = child_done_taint [OF ok 4(4) cd 4(5)]
  show ?case
  proof (cases fire)
    case None
    with 4(1) [OF cd [symmetric] None] D(1) T show ?thesis using cd by simp
  next
    case (Some pe)
    obtain p e where pe: "pe = (p, e)" by (cases pe)
    have hs': "map fst (map (\<lambda>h. (h, e)) (ms_ackFn (wd_msgs w' p)) @ hs) = ms_ackFn (wd_msgs w p) @ map fst hs"
      using D(3) by (simp add: comp_def)
    have "ack_ok w' live tokens (map fst (map (\<lambda>h. (h, e)) (ms_ackFn (wd_msgs w' p)) @ hs))"
      using D(1) Some pe unfolding hs' by simp
    note IH = 4(2) [OF cd [symmetric] Some pe [symmetric] this]
    show ?thesis using IH T cd Some pe by simp
  qed
qed

section \<open>Every step keeps it\<close>

text \<open>The branch of an open cell is open, so what it leads to is decided by messages that are held.\<close>

lemma open_cell_up:
  assumes "ack_ok w live tokens []" and "open_cell w c"
    and "HChild d \<in> set (ms_ackFn (wd_msgs w (ce_parent (wd_cells w ! c))))"
  shows "open_cell w d"
proof (rule ack_ok_child_open [OF assms(1)])
  have "ce_parent (wd_cells w ! c) \<in> set (held w live)" using assms(2) by (auto simp: set_held)
  then show "HChild d \<in># owed w live []" using assms(3) by (auto simp: owed_def)
qed

definition same_open :: "world \<Rightarrow> world \<Rightarrow> bool" where
  "same_open w w' \<longleftrightarrow>
     (\<forall>c. open_cell w c \<longrightarrow> c < length (wd_cells w') \<and> wd_cells w' ! c = wd_cells w ! c \<and>
        ms_ackFn (wd_msgs w' (ce_parent (wd_cells w ! c))) = ms_ackFn (wd_msgs w (ce_parent (wd_cells w ! c))))"

lemma leads_keep:
  assumes ok: "ack_ok w live tokens []" and same: "same_open w w'"
  shows "leads w h t \<Longrightarrow> (\<And>c. h = HChild c \<Longrightarrow> open_cell w c) \<Longrightarrow> leads w' h t"
proof (induction rule: leads.induct)
  case (leads_source src m)
  show ?case by (rule leads.leads_source)
next
  case (leads_child c h t)
  have c: "open_cell w c" by (rule leads_child(5)) simp
  have "leads w' h t" using leads_child(4) open_cell_up [OF ok c] leads_child(2) by blast
  then show ?case
    using same [unfolded same_open_def, rule_format, OF c] leads_child(2) by (intro leads.leads_child) simp_all
qed

lemma taint_keep:
  assumes ok: "ack_ok w live tokens []" and same: "same_open w w'" and log: "set (wd_onacks w) \<subseteq> set (wd_onacks w')"
    and t: "taint [] w t"
  shows "taint [] w' t"
proof -
  consider e where "(fst t, snd t, Some e) \<in> set (wd_onacks w)"
    | d where "open_cell w d" "ce_firstErr (wd_cells w ! d) \<noteq> None" "leads w (HChild d) t"
    using t unfolding taint_def by auto
  then show ?thesis
  proof cases
    case 1
    then show ?thesis using log unfolding taint_def by blast
  next
    case (2 d)
    have "open_cell w' d \<and> wd_cells w' ! d = wd_cells w ! d"
      using same 2(1) by (simp add: same_open_def open_cell_def)
    moreover have "leads w' (HChild d) t" by (rule leads_keep [OF ok same 2(3)]) (use 2(1) in simp)
    ultimately show ?thesis using 2(2) unfolding taint_def by auto
  qed
qed

lemma same_open_held:
  assumes "wd_cells w' = wd_cells w"
    and "\<And>m. m \<in> set (held w live) \<Longrightarrow> ms_ackFn (wd_msgs w' m) = ms_ackFn (wd_msgs w m)"
  shows "same_open w w'"
  unfolding same_open_def using assms by (auto simp: open_cell_def set_held)

lemma run_acks_err: "cells_err w \<Longrightarrow> cells_err (run_acks hs w)"
proof (induction hs w rule: run_acks.induct)
  case (4 c err hs w)
  have cd: "cells_err (snd (child_done c err w))"
    using 4(3) set_update_subset_insert [of "wd_cells w" c] unfolding cells_err_def child_done_def Let_def
    by (fastforce split: if_splits)
  show ?case
  proof (cases "child_done c err w")
    case (Pair fire w')
    then show ?thesis using 4(1) [OF Pair [symmetric]] 4(2) [OF Pair [symmetric]] cd by (cases fire) auto
  qed
qed (simp_all add: cells_err_def releaseInflight_def)


lemma ack_step_err: "ack_step r r' \<Longrightarrow> cells_err (ar_world r) \<Longrightarrow> cells_err (ar_world r')"
proof (induction rule: ack_step.induct)
  case (as_emit src acking msg r m w)
  then show ?case
    by (auto simp: cells_err_def emit_source_def new_msg_def begin_lifecycle_def upd_msg_def split: if_splits)
next
  case (as_ack r us m vs err)
  then show ?case by (simp add: Ack_def run_acks_err)
qed (auto simp: cells_err_def new_cell_def fan_child_def new_msg_def upd_msg_def data_step_def)

text \<open>The acknowledgement of a live message with an error.\<close>

lemma failed_ack_taint:
  assumes ok: "ack_ok w (m # live) tokens []" and err: "cells_err w" and src: "source_of w m t"
  shows "taint [] (Ack m (Some e) w) t"
proof -
  let ?hs = "map (\<lambda>h. (h, Some e)) (ms_ackFn (wd_msgs w m))"
  have f: "map fst ?hs = ms_ackFn (wd_msgs w m)" by (simp add: comp_def)
  have "owed w (m # live) [] = owed w live (map fst ?hs)" unfolding f by (simp add: owed_def held_def)
  then have "ack_ok w live tokens (map fst ?hs)" using ok unfolding ack_ok_def by simp
  moreover have "taint ?hs w t" using src unfolding taint_def source_of_def by fastforce
  ultimately show ?thesis using run_acks_taint err by (auto simp: Ack_def)
qed

lemma ack_taint:
  assumes ok: "ack_ok w (m # live) tokens []" and err: "cells_err w" and t: "taint [] w t"
  shows "taint [] (Ack m e w) t"
proof -
  let ?hs = "map (\<lambda>h. (h, e)) (ms_ackFn (wd_msgs w m))"
  have f: "map fst ?hs = ms_ackFn (wd_msgs w m)" by (simp add: comp_def)
  have "owed w (m # live) [] = owed w live (map fst ?hs)" unfolding f by (simp add: owed_def held_def)
  then have "ack_ok w live tokens (map fst ?hs)" using ok unfolding ack_ok_def by simp
  moreover have "taint ?hs w t" using t unfolding taint_def by auto
  ultimately show ?thesis using run_acks_taint err by (auto simp: Ack_def)
qed

lemma taint_step:
  assumes "ack_step r r'" and inv: "acks_inv i0 r" and err: "cells_err (ar_world r)" and t: "taint [] (ar_world r) t"
  shows "taint [] (ar_world r') t"
proof -
  have ok: "ack_ok (ar_world r) (ar_live r) (ar_tokens r) []" and p: "parents_ok (ar_world r) (ar_live r)"
    using inv by (simp_all add: acks_inv_def)
  have keep: "taint [] w t" if "wd_cells w = wd_cells (ar_world r)" "wd_onacks w = wd_onacks (ar_world r)"
    "\<And>k. k \<in> set (held (ar_world r) (ar_live r)) \<Longrightarrow> ms_ackFn (wd_msgs w k) = ms_ackFn (wd_msgs (ar_world r) k)" for w
    by (rule taint_keep [OF ok same_open_held [OF that(1,3)] _ t]) (simp_all add: that(2))
  have alloc: "k < wd_next (ar_world r)" "wd_next (ar_world r) \<noteq> k" if "k \<in> set (held (ar_world r) (ar_live r))" for k
    using p that by (auto simp: parents_ok_def)
  show ?thesis
    using assms(1)
  proof cases
    case (as_emit src acking msg m w)
    have "taint [] w t"
      by (rule keep) (use as_emit(2) in \<open>auto dest: alloc simp: emit_source_def new_msg_def begin_lifecycle_def upd_msg_def split: if_splits\<close>)
    then show ?thesis by (simp add: as_emit(1))
  next
    case (as_ack us m vs e)
    have "ack_ok (ar_world r) (m # us @ vs) (ar_tokens r) []" using ok unfolding as_ack(2) live_perm .
    then have "taint [] (Ack m e (ar_world r)) t" by (rule ack_taint [OF _ err t])
    then show ?thesis by (simp add: as_ack(1))
  next
    case (as_fan us m vs n c w)
    have "same_open (ar_world r) w"
      using as_fan(4) by (auto simp: same_open_def new_cell_def open_cell_def nth_append)
    then have "taint [] w t" by (rule taint_keep [OF ok _ _ t]) (use as_fan(4) in \<open>auto simp: new_cell_def\<close>)
    then show ?thesis by (simp add: as_fan(1))
  next
    case (as_child us c vs m w)
    have "taint [] w t"
      by (rule keep) (use as_child(3) in \<open>auto dest: alloc simp: fan_child_def new_msg_def\<close>)
    then show ?thesis by (simp add: as_child(1))
  next
    case (as_adopt us c vs m)
    have "taint [] (upd_msg m (SetAckFn [HChild c]) (ar_world r)) t"
      by (rule keep) (use as_adopt(4) in \<open>auto simp: upd_msg_def\<close>)
    then show ?thesis by (simp add: as_adopt(1))
  next
    case (as_data w)
    have "taint [] w t" by (rule keep) (use as_data(2) alloc in \<open>auto simp: data_step_def\<close>)
    then show ?thesis by (simp add: as_data(1))
  next
    case (as_own m)
    then show ?thesis using t by simp
  qed
qed

lemma taint_reach:
  assumes "ack_reach r r'" and "acks_inv i0 r" and "cells_err (ar_world r)" and "taint [] (ar_world r) t"
  shows "acks_inv i0 r' \<and> cells_err (ar_world r') \<and> taint [] (ar_world r') t"
  by (rule acking.invariant [OF assms(1)]) (use assms(2-4) in \<open>auto intro: acks_inv_step ack_step_err taint_step\<close>)

section \<open>What the source is told\<close>

text \<open>Two source messages are never the same message.\<close>

definition sources_ok :: "ack_run \<Rightarrow> bool" where
  "sources_ok r \<longleftrightarrow>
     distinct (map (fst \<circ> snd) (ar_sources r)) \<and> (\<forall>(src, m, acking) \<in> set (ar_sources r). m < wd_next (ar_world r))"

lemma sources_ok_step:
  assumes "ack_step r r'" and "sources_ok r"
  shows "sources_ok r'"
  using assms(1)
proof cases
  case (as_emit src acking msg m w)
  then have "m = wd_next (ar_world r)" "wd_next w = Suc m"
    by (auto simp: emit_source_def new_msg_def begin_lifecycle_def upd_msg_def split: if_splits)
  then show ?thesis using assms(2) as_emit(1) by (fastforce simp: sources_ok_def less_Suc_eq)
qed (use assms(2) in \<open>auto simp: sources_ok_def new_cell_def fan_child_def new_msg_def upd_msg_def data_step_def
    dest!: bspec intro: less_le_trans less_SucI\<close>)

lemma sources_ok_reach: "ack_reach r r' \<Longrightarrow> sources_ok r \<Longrightarrow> sources_ok r'"
  by (rule acking.invariant) (auto intro: sources_ok_step)

lemma expected_once:
  assumes "sources_ok r"
  shows "count (expected_acks (ar_sources r)) (HOnAck src m) \<le> 1"
proof -
  have "distinct (map (\<lambda>(s, m, acking). HOnAck s m) xs)" if "distinct (map (fst \<circ> snd) xs)" for xs :: "(string \<times> mref \<times> bool) list"
    using that by (induction xs) force+
  then have "distinct (map (\<lambda>(s, m, acking). HOnAck s m) (filter (\<lambda>(s, m, acking). acking) (ar_sources r)))"
    using assms by (simp add: sources_ok_def distinct_map inj_on_def)
  then show ?thesis unfolding expected_acks_def by (simp add: distinct_count_atmost_1)
qed

lemma onack_owed:
  assumes ok: "ack_ok w live tokens []"
  shows "leads w h t \<Longrightarrow> h \<in># owed w live [] \<Longrightarrow> HOnAck (fst t) (snd t) \<in># owed w live []"
proof (induction rule: leads.induct)
  case (leads_child c h t)
  have c: "open_cell w c" by (rule ack_ok_child_open [OF ok leads_child(5)])
  then have "ce_parent (wd_cells w ! c) \<in> set (held w live)" by (auto simp: set_held)
  then have "h \<in># owed w live []" using leads_child(2) by (auto simp: owed_def)
  then show ?case by (rule leads_child(4))
qed simp

text \<open>Once tainted, the source is never told of a success, and in the end it is told of an error.\<close>

lemma taint_outcome:
  assumes inv: "acks_inv i0 r" and src: "sources_ok r" and t: "taint [] (ar_world r) (s, k)"
  shows "(s, k, None) \<notin> set (wd_onacks (ar_world r))"
    and "ar_live r = [] \<Longrightarrow> ar_tokens r = [] \<Longrightarrow> \<exists>e. (s, k, Some e) \<in> set (wd_onacks (ar_world r))"
proof -
  let ?w = "ar_world r"
  let ?log = "image_mset (\<lambda>(src, m, e). HOnAck src m) (mset (wd_onacks ?w))"
  have ok: "ack_ok ?w (ar_live r) (ar_tokens r) []" and p: "parents_ok ?w (ar_live r)"
    and acc: "?log + filter_mset is_onack (owed ?w (ar_live r) []) = expected_acks (ar_sources r)"
    using inv by (simp_all add: acks_inv_def source_acks_def)
  have one: "count ?log (HOnAck s k) + count (owed ?w (ar_live r) []) (HOnAck s k) \<le> 1"
    using expected_once [OF src, of s k] arg_cong [OF acc, of "\<lambda>M. count M (HOnAck s k)"] by (simp add: is_onack_def)
  consider e where "(s, k, Some e) \<in> set (wd_onacks ?w)"
    | c where "open_cell ?w c" "leads ?w (HChild c) (s, k)"
    using t unfolding taint_def by auto
  note cases = this
  show "(s, k, None) \<notin> set (wd_onacks ?w)"
    using cases
  proof cases
    case (1 e)
    show ?thesis
    proof
      assume "(s, k, None) \<in> set (wd_onacks ?w)"
      with 1 have "{#(s, k, None), (s, k, Some e)#} \<subseteq># mset (wd_onacks ?w)"
        by (simp add: insert_subset_eq_iff in_diff_count)
      then have "2 \<le> count ?log (HOnAck s k)"
        using mset_subset_eq_count [OF image_mset_subseteq_mono, of _ _ "\<lambda>(src, m, e). HOnAck src m" "HOnAck s k"] by fastforce
      then show False using one by simp
    qed
  next
    case (2 c)
    obtain h where h: "h \<in> set (ms_ackFn (wd_msgs ?w (ce_parent (wd_cells ?w ! c))))" "leads ?w h (s, k)"
      using 2(2) by (rule leads_HChildE)
    have "ce_parent (wd_cells ?w ! c) \<in> set (held ?w (ar_live r))" using 2(1) by (auto simp: set_held)
    then have "h \<in># owed ?w (ar_live r) []" using h(1) by (auto simp: owed_def)
    from onack_owed [OF ok h(2) this] have "0 < count (owed ?w (ar_live r) []) (HOnAck s k)" by simp
    then have "count ?log (HOnAck s k) = 0" using one by linarith
    then have "HOnAck s k \<notin># ?log" by (simp only: not_in_iff)
    then show ?thesis by force
  qed
  assume "ar_live r = []" "ar_tokens r = []"
  then have "\<not> open_cell ?w c" for c using ok p by (intro quiet_no_open) simp_all
  then show "\<exists>e. (s, k, Some e) \<in> set (wd_onacks ?w)" using cases by blast
qed

end
