(* ===== verification/FailedWrites.thy ===== *)
theory FailedWrites
  imports AckErrors Engine
begin

text \<open>
  A write that fails is never acknowledged as a success. The error of a flush goes up the tree of
  acknowledgements (\<^verbatim>\<open>AckErrors\<close>) whatever the other goroutines of the pipeline
  (\<^verbatim>\<open>Engine\<close>) do before and after.
\<close>

section \<open>A flush with an error\<close>

lemma source_of_data:
  assumes inv: "acks_inv i0 r" and d: "data_step (ar_world r) w" and m: "m \<in> set (ar_live r)"
    and src: "source_of (ar_world r) m t"
  shows "source_of w m t"
proof -
  have ok: "ack_ok (ar_world r) (ar_live r) (ar_tokens r) []" and p: "parents_ok (ar_world r) (ar_live r)"
    using inv by (simp_all add: acks_inv_def)
  have fn: "ms_ackFn (wd_msgs w k) = ms_ackFn (wd_msgs (ar_world r) k)" if "k \<in> set (held (ar_world r) (ar_live r))" for k
    using d p that by (simp add: data_step_def parents_ok_def)
  have same: "same_open (ar_world r) w" by (rule same_open_held [OF _ fn]) (use d in \<open>auto simp: data_step_def\<close>)
  have held: "m \<in> set (held (ar_world r) (ar_live r))" using m by (simp add: held_def)
  obtain h where h: "h \<in> set (ms_ackFn (wd_msgs (ar_world r) m))" "leads (ar_world r) h t"
    using src by (auto simp: source_of_def)
  have owed: "h \<in># owed (ar_world r) (ar_live r) []" using h(1) held by (auto simp: owed_def)
  have "leads w h t" by (rule leads_keep [OF ok same h(2)]) (use owed ack_ok_child_open [OF ok] in blast)
  then show ?thesis using h(1) fn [OF held] by (auto simp: source_of_def)
qed

lemma source_of_acks:
  assumes "source_of w m t"
  shows "source_of (foldl (\<lambda>w m. Ack m err w) w ms) m t"
  using assms
proof (induction ms arbitrary: w)
  case (Cons k ms)
  have "source_of (Ack k err w) m t"
    using Cons.prems leads_cong [of w _ t "Ack k err w"] by (auto simp: source_of_def Ack_def run_acks_parents run_acks_msgs)
  from Cons.IH [OF this] show ?case by simp
qed simp

lemma batch_taint:
  assumes inv: "acks_inv i0 r" and err: "cells_err (ar_world r)" and m: "m \<in> set batch"
    and live: "mset batch \<subseteq># mset (ar_live r)" and src: "source_of (ar_world r) m t"
  shows "taint [] (foldl (\<lambda>w m. Ack m (Some e) w) (ar_world r) batch) t"
proof -
  obtain us vs where b: "batch = us @ m # vs" using m by (meson split_list)
  have le: "mset us + mset (m # vs) \<subseteq># mset (ar_live r)" using live b by simp
  have us: "mset us \<subseteq># mset (ar_live r)" by (rule subset_mset.order_trans [OF mset_subset_eq_add_left le])
  then have left: "mset (m # vs) \<subseteq># mset (ar_live r) - mset us"
    using le by (simp only: subset_mset.le_diff_conv2 add.commute)
  from can_ack_batch [OF canI [OF ar_refl] us, of "Some e"] obtain r1 where r1: "ack_reach r r1"
    "ar_world r1 = foldl (\<lambda>w m. Ack m (Some e) w) (ar_world r) us" "mset (ar_live r1) = mset (ar_live r) - mset us"
    unfolding can_def by blast
  have rest: "mset (m # vs) \<subseteq># mset (ar_live r1)" unfolding r1(3) by (rule left)
  then have "m \<in># mset (ar_live r1)" by (simp add: insert_subset_eq_iff)
  from mset_split [OF this] obtain as bs where l: "ar_live r1 = as @ m # bs" "mset (ar_live r1) - {#m#} = mset (as @ bs)"
    by blast
  have inv1: "acks_inv i0 r1" using acks_inv_reach [OF r1(1) inv] .
  have err1: "cells_err (ar_world r1)" by (rule acking.invariant [OF r1(1), where I = "\<lambda>r. cells_err (ar_world r)"])
    (use err in \<open>auto intro: ack_step_err\<close>)
  have "ack_ok (ar_world r1) (m # as @ bs) (ar_tokens r1) []" using inv1 unfolding acks_inv_def l(1) live_perm by blast
  then have t2: "taint [] (Ack m (Some e) (ar_world r1)) t"
    by (rule failed_ack_taint [OF _ err1]) (use source_of_acks [OF src] in \<open>simp add: r1(2)\<close>)
  define r2 where "r2 = r1\<lparr>ar_world := Ack m (Some e) (ar_world r1), ar_live := as @ bs\<rparr>"
  have s2: "ack_step r1 r2" unfolding r2_def by (rule as_ack [OF l(1)])
  have "mset vs \<subseteq># mset (ar_live r2)" using rest l(2) by (simp add: r2_def l(1) insert_subset_eq_iff)
  from can_ack_batch [OF canI [OF ar_refl] this, of "Some e"] obtain r3 where r3: "ack_reach r2 r3"
    "ar_world r3 = foldl (\<lambda>w m. Ack m (Some e) w) (ar_world r2) vs"
    unfolding can_def by blast
  have "taint [] (ar_world r3) t"
    using taint_reach [OF r3(1) acks_inv_step [OF s2 inv1] ack_step_err [OF s2 err1]] t2 by (simp add: r2_def)
  then show ?thesis by (simp add: r3(2) r2_def r1(2) b)
qed

lemma flush_taint:
  assumes f: "flushSinkBatch p denv ctx conv sid wr batch (w, x) = (Some e, w', x')"
    and inv: "acks_inv i0 r" and r: "ar_world r = w" and err: "cells_err w" and m: "m \<in> set batch"
    and live: "mset batch \<subseteq># mset (ar_live r)" and src: "source_of w m t"
  shows "taint [] w' t"
proof -
  obtain k x1 where wr: "writeWithRetry (wr batch (reserialize_all p sid batch w)) ctx conv
      (findDeliveryForStage (pl_ir p) sid) x = (Some e, k, x1)"
    using f by (auto simp: flushSinkBatch_def Let_def split: prod.splits)
  obtain w2 x2 where d: "deliverToDLQ p denv batch e sid (reserialize_all p sid batch w, x1) = (w2, x2)" by (metis surj_pair)
  have o: "w' = foldl (\<lambda>w m. Ack m (Some e) w) w2 batch"
    using f wr d by (auto simp: flushSinkBatch_def Let_def)
  have "data_step (reserialize_all p sid batch w) w2"
    using d deliver_loop_ok by (fastforce simp: deliverToDLQ_def split: option.splits)
  then have s: "data_step (ar_world r) w2" unfolding r by (rule data_step_trans [OF data_step_reserialize_all])
  define r2 where "r2 = r\<lparr>ar_world := w2\<rparr>"
  have step: "ack_step r r2" unfolding r2_def by (rule as_data [OF s])
  have "m \<in> set (ar_live r)" using m live by (metis mset_subset_eqD set_mset_mset)
  from source_of_data [OF inv s this] have src2: "source_of w2 m t" using src r by simp
  have err2: "cells_err (ar_world r)" using err r by simp
  show ?thesis
    using batch_taint [OF acks_inv_step [OF step inv] ack_step_err [OF step err2] m, of t e] live src2
    by (simp add: r2_def o)
qed

section \<open>In the running pipeline\<close>

lemma engine_account:
  assumes "engine_inv p r0 bufs s"
  obtains r lost where "ack_reach r0 r" "ar_world r = en_world s" "mset (ar_live r) = owned s + lost"
    "mset (ar_tokens r) = run_toks s" "ar_sources r = en_sources s" "mem_only bufs \<longrightarrow> lost = {#}"
    "engine_inv p r bufs s"
proof -
  obtain lost where lost: "can r0 (en_world s) (owned s + lost) (run_toks s) (en_sources s)"
    "set (run_resv s) \<inter> held_set (en_world s) (owned s + lost) = {}" "mem_only bufs \<longrightarrow> lost = {#}"
    using assms by (auto simp: engine_inv_def)
  obtain r where r: "ack_reach r0 r" "ar_world r = en_world s" "mset (ar_live r) = owned s + lost"
    "mset (ar_tokens r) = run_toks s" "ar_sources r = en_sources s"
    using lost(1) unfolding can_def by blast
  have "can r (en_world s) (owned s + lost) (run_toks s) (en_sources s)"
    using canI [OF ar_refl [of r]] r by simp
  then have "engine_inv p r bufs s" using assms lost unfolding engine_inv_def by blast
  then show thesis using that r lost(3) by blast
qed

lemma failed_write_outcome:
  assumes start: "world_start w0" "bufs_own bufs = []" "engine_ok p (length bufs)"
    and run: "engine_reach p ev env denv (engine_start w0 bufs x0) s"
    and sink: "map_of (pl_stages p) sid = Some st" "sg_role st = SinkRole wr fl"
    and hands: "mset (en_hands s) = mset (map (Pair sid) batch) + mset rest"
    and flush: "flushSinkBatch p denv ctx conv sid wr batch (en_world s, en_outside s) = (Some e, w, x)"
    and m: "m \<in> set batch" and src: "source_of (en_world s) m (source, k)"
    and later: "engine_reach p ev env denv (s\<lparr>en_hands := rest, en_world := w, en_outside := x\<rparr>) s'"
  shows "(source, k, None) \<notin> set (wd_onacks (en_world s')) \<and>
    (mem_only bufs \<longrightarrow> drained s' \<longrightarrow> (\<exists>e'. (source, k, Some e') \<in> set (wd_onacks (en_world s'))))"
proof -
  let ?i0 = "wd_inflight w0" and ?s1 = "s\<lparr>en_hands := rest, en_world := w, en_outside := x\<rparr>"
  note inv0 = acks_inv_start [OF start(1)]
  have err0: "cells_err (ar_world (ack_start w0))" using start(1) by (simp add: cells_err_def ack_start_def world_start_def)
  have ok0: "sources_ok (ack_start w0)" by (simp add: sources_ok_def ack_start_def)
  have I: "engine_inv p (ack_start w0) bufs s" by (rule engine_inv_reach [OF run engine_inv_start [OF start] inv0])
  obtain r lost where r: "ack_reach (ack_start w0) r" "ar_world r = en_world s" "mset (ar_live r) = owned s + lost"
    by (rule engine_account [OF I])
  have err: "cells_err (en_world s)"
    using acking.invariant [OF r(1), where I = "\<lambda>r. cells_err (ar_world r)", OF err0] ack_step_err r(2) by auto
  have "mset (map snd (en_hands s)) = mset batch + mset (map snd rest)"
    using arg_cong [OF hands, of "image_mset snd"] by (simp add: image_mset.compositionality comp_def flip: mset_map)
  then have live: "mset batch \<subseteq># mset (ar_live r)" by (simp add: r(3) owned_def)
  have t: "taint [] w (source, k)" by (rule flush_taint [OF flush acks_inv_reach [OF r(1) inv0] r(2) err m live src])
  have I1: "engine_inv p (ack_start w0) bufs ?s1"
    by (rule engine_step_inv [OF es_flush [OF sink hands flush] I inv0])
  obtain r1 where r1: "ack_reach (ack_start w0) r1" "ar_world r1 = w" "engine_inv p r1 bufs ?s1"
    by (rule engine_account [OF I1]) simp
  have inv1: "acks_inv ?i0 r1" by (rule acks_inv_reach [OF r1(1) inv0])
  have err1: "cells_err (ar_world r1)"
    using acking.invariant [OF r1(1), where I = "\<lambda>r. cells_err (ar_world r)", OF err0] ack_step_err by auto
  have I2: "engine_inv p r1 bufs s'" by (rule engine_inv_reach [OF later r1(3) inv1])
  obtain r2 lost2 where r2: "ack_reach r1 r2" "ar_world r2 = en_world s'" "mset (ar_live r2) = owned s' + lost2"
    "mset (ar_tokens r2) = run_toks s'" "mem_only bufs \<longrightarrow> lost2 = {#}"
    by (rule engine_account [OF I2])
  have inv2: "acks_inv ?i0 r2" and t2: "taint [] (ar_world r2) (source, k)"
    using taint_reach [OF r2(1) inv1 err1] t by (simp_all add: r1(2))
  have ok2: "sources_ok r2" using sources_ok_reach [OF r2(1) sources_ok_reach [OF r1(1) ok0]] .
  have "ar_live r2 = [] \<and> ar_tokens r2 = []" if "mem_only bufs" "drained s'"
    using r2(3-5) that by (simp add: drained_def owned_def run_toks_def)
  then show ?thesis using taint_outcome [OF inv2 ok2 t2] r2(2) by simp
qed


section \<open>Witness\<close>

text \<open>The relay of \<^verbatim>\<open>Engine\<close> with a sink whose writes fail.\<close>

definition broken_write :: "mref list \<Rightarrow> world \<Rightarrow> nat \<Rightarrow> goerr option \<times> nat" where
  "broken_write batch w n = (Some (Err ''disk full'' []), n)"

definition broken :: "(string, nat) pipeline" where
  "broken = relay\<lparr>pl_stages := [(''s'', demo_inst (SourceRole True)),
     (''t'', demo_inst (TransformRole (\<lambda>batch w. (Inr batch, w)))),
     (''k'', demo_inst (SinkRole broken_write (\<lambda>n. (None, n))))]\<rparr>"

definition broken_steps :: "turn list \<Rightarrow> nat engine_run" where
  "broken_steps = foldl (take_turn broken (\<lambda>_ _ _ _. Inr True) demo_ev demo_denv)
     (engine_start demo_world (rg_buffers (pl_graph broken)) 0)"

definition broken_before :: "nat engine_run" where
  "broken_before = broken_steps (butlast (butlast relay_turns))"

lemma broken_ok: "engine_ok broken (length (rg_buffers (pl_graph broken)))"
proof -
  have "rg_outgoing (pl_graph relay) f = filter (\<lambda>e. ei_From e = f) (ir_Edges relay_ir)" for f
    using build_exact(1) [OF relay_graph] by (simp add: graph_exact_def)
  then have "quiet_conditions broken" by (simp add: quiet_conditions_def relay_ir_def demo_edge_def broken_def)
  moreover have "transforms_ok broken"
    by (simp add: transforms_ok_def broken_def demo_inst_def process_ok_def)
  moreover have "buffers_ok broken (length (rg_buffers (pl_graph broken)))"
    using relay_ok by (simp add: engine_ok_def buffers_ok_def broken_def)
  ultimately show ?thesis by (simp add: engine_ok_def)
qed


lemma broken_state:
  "en_hands broken_before = [(''k'', 2)]"
  "map (\<lambda>m. ms_ackFn (wd_msgs (en_world broken_before) m)) [0, 1, 2] = [[HRelease, HOnAck ''s'' 0], [HChild 0], [HChild 1]]"
  "map ce_parent (wd_cells (en_world broken_before)) = [0, 1]"
  by code_simp+

lemma broken_source: "source_of (en_world broken_before) 2 (''s'', 0)"
proof -
  let ?w = "en_world broken_before"
  have len: "length (wd_cells ?w) = 2" using arg_cong [OF broken_state(3), of length] by simp
  have par: "ce_parent (wd_cells ?w ! 0) = 0" "ce_parent (wd_cells ?w ! 1) = 1"
    using arg_cong [OF broken_state(3), of "\<lambda>xs. xs ! 0"] arg_cong [OF broken_state(3), of "\<lambda>xs. xs ! 1"] len by simp_all
  have "leads ?w (HChild 0) (''s'', 0)"
    by (rule leads_child [OF _ _ leads_source]) (use len par broken_state(2) in simp_all)
  then have "leads ?w (HChild 1) (''s'', 0)"
    by (rule leads_child [rotated 2]) (use len par broken_state(2) in simp_all)
  then show ?thesis using broken_state(2) by (auto simp: source_of_def)
qed


end
