(* ===== verification/Commits.thy ===== *)
theory Commits
  imports FailedWrites Connectors
begin

text \<open>
  The Kafka source in a running pipeline: what it is told of its messages is what the
  acknowledgements of the engine come to, so it commits no offset of a message whose write failed.
\<close>

section \<open>What the source is told\<close>

text \<open>The acknowledgements that reach \<^verbatim>\<open>OnAck\<close> of the source of a stage, by the ids of its messages.\<close>

definition acks_of :: "string \<Rightarrow> world \<Rightarrow> (string \<times> goerr option) list" where
  "acks_of sid w = map (\<lambda>(s, k, err). (ms_ID (wd_msgs w k), err)) (filter (\<lambda>(s, k, err). s = sid) (wd_onacks w))"

lemma onacks_sources:
  assumes "world_start w0" and "bufs_own bufs = []" and "engine_ok p (length bufs)"
    and "engine_reach p ev env denv (engine_start w0 bufs x) s" and "(src, k, err) \<in> set (wd_onacks (en_world s))"
  shows "\<exists>acking. (src, k, acking) \<in> set (en_sources s)"
proof -
  let ?log = "image_mset (\<lambda>(src, m, e). HOnAck src m) (mset (wd_onacks (en_world s)))"
  have "HOnAck src k \<in># ?log" using imageI [OF assms(5), of "\<lambda>(src, m, e). HOnAck src m"] by simp
  moreover have "?log \<subseteq># expected_acks (en_sources s)" using delivered_at_most_once [OF assms(1-4)] by (rule conjunct1)
  ultimately have "HOnAck src k \<in># expected_acks (en_sources s)" by (rule mset_subset_eqD [rotated])
  then obtain t where "t \<in> set (en_sources s)" "HOnAck src k = (\<lambda>(s, m, acking). HOnAck s m) t"
    by (auto simp: expected_acks_def)
  then show ?thesis by (cases t rule: prod_cases3) auto
qed



section \<open>Witness\<close>

definition broken_flush :: "goerr option \<times> world \<times> nat" where
  "broken_flush = flushSinkBatch broken demo_denv (\<lambda>_. None) int ''k'' broken_write [2]
     (en_world broken_before, en_outside broken_before)"

lemma broken_flush_state:
  "(case broken_flush of (err, w, x) \<Rightarrow> (err = None, map snd (acks_of ''s'' w) = [None], map fst (acks_of ''s'' w), ms_ID (wd_msgs w 0)))
     = (False, False, [''u''], ''u'')"
  by code_simp

lemma broken_sources: "en_sources broken_before = [(''s'', 0, True)]"
  by code_simp

text \<open>The record is read, and its message acknowledged with the error of the write.\<close>

definition refused_record :: "goerr option \<Rightarrow> kafka_run" where
  "refused_record err = \<lparr>kr_src = demo_ks\<lparr>ks_pending := [(''u'', demo_km 0)]\<rparr>, kr_read = [(''u'', demo_km 0)],
     kr_acks = [(''u'', err)], kr_commits = []\<rparr>"

lemma refused_reach: "err \<noteq> None \<Longrightarrow> kafka_reach (kafka_start demo_ks) (refused_record err)"
proof -
  assume err: "err \<noteq> None"
  let ?s1 = "(kafka_start demo_ks)\<lparr>kr_src := demo_ks\<lparr>ks_pending := [(''u'', demo_km 0)]\<rparr>, kr_read := [(''u'', demo_km 0)]\<rparr>"
  have "kafka_step (kafka_start demo_ks) ?s1"
    using kafka_consume [of "''u''" "demo_km 0" "kafka_start demo_ks"] by (simp add: kafka_read_def kafka_start_def demo_ks_def)
  moreover have "kafka_step ?s1 (refused_record err)"
    using kafka_ack [of "''u''" err ?s1] err by (simp add: kafka_OnAck_def kafka_start_def demo_ks_def refused_record_def)
  ultimately show ?thesis by (meson kafka_reach.intros)
qed


end
