(* ===== verification/DiskEdge.thy ===== *)
theory DiskEdge
  imports EdgeBuf "HOL-Library.Sublist"
begin

text \<open>
  A disk buffer as a queue: what the edge of \<^verbatim>\<open>internal/buffer/edge.go\<close> promises when its
  messages go through the log of \<^verbatim>\<open>disk.go\<close>, for every interleaving of its goroutines and
  across a restart of the process.
\<close>

section \<open>The log with a bound on its segments\<close>

text \<open>The log holds the messages \<open>q\<close>, and the number of its last segment is at most \<open>n\<close>.\<close>

definition wal_at :: "float_format \<Rightarrow> nat \<Rightarrow> disk_wal \<Rightarrow> message list \<Rightarrow> bool" where
  "wal_at nf n w q \<longleftrightarrow> (\<exists>segs k. wal_ok_state nf segs k w \<and> seg_top segs \<le> n \<and> pending segs k = q)"

lemma wal_atI: "wal_ok_state nf segs k w \<Longrightarrow> seg_top segs \<le> n \<Longrightarrow> wal_at nf n w (pending segs k)"
  by (auto simp: wal_at_def)

lemma wal_at_mono: "wal_at nf n w q \<Longrightarrow> n \<le> n' \<Longrightarrow> wal_at nf n' w q"
  by (fastforce simp: wal_at_def)

lemma wal_at_holds: "wal_at nf n w q \<Longrightarrow> wal_holds nf w q"
  by (auto simp: wal_at_def wal_holds_def)

lemma wal_at_append:
  assumes "wal_at nf n w q" and "Suc n < seg_limit" and "wal_ok nf uuid msg"
  obtains (accepted) w' where "WAL_Append nf uuid None msg w = (None, w')" "wal_at nf (Suc n) w' (q @ [wal_norm uuid msg])"
    | (full) err where "WAL_Append nf uuid None msg w = (Some err, w)"
proof -
  obtain segs k where ok: "wal_ok_state nf segs k w" "seg_top segs \<le> n" "pending segs k = q"
    using assms(1) by (auto simp: wal_at_def)
  show thesis
  proof (cases "dw_totalSize w < dw_maxSize w")
    case True
    have "Suc (seg_top segs) < seg_limit" using ok(2) assms(2) by simp
    from Append_ok [OF ok(1) this assms(3) True] obtain w' segs' where
      "WAL_Append nf uuid None msg w = (None, w')" "wal_ok_state nf segs' k w'"
      "pending segs' k = pending segs k @ [wal_norm uuid msg]" "seg_top segs' \<le> Suc (seg_top segs)" by blast
    then show thesis using accepted [of w'] wal_atI [of nf segs' k w' "Suc n"] ok by simp
  next
    case False
    then show thesis using full Append_full [of w nf uuid None msg] by simp
  qed
qed

lemma wal_at_read:
  assumes "wal_at nf n w q"
  obtains w' where "WAL_ReadNext nf w = (Inr (fst (read_result q)), w')" "wal_at nf n w' (snd (read_result q))"
proof -
  obtain segs k where ok: "wal_ok_state nf segs k w" "seg_top segs \<le> n" "pending segs k = q"
    using assms by (auto simp: wal_at_def)
  from ReadNext_ok [OF ok(1)] obtain r w' segs' k' where
    "WAL_ReadNext nf w = (Inr r, w')" "wal_ok_state nf segs' k' w'"
    "(r, pending segs' k') = read_result (pending segs k)" "seg_top segs' \<le> seg_top segs" by blast
  then show thesis using that [of w'] wal_atI [of nf segs' k' w' n] ok by (metis fst_conv le_trans snd_conv)
qed

section \<open>What an enqueue and a turn of the drainer do\<close>

lemma eb_disk_same: "eb_disk e = Some d \<Longrightarrow> e\<lparr>eb_disk := Some d\<rparr> = e"
  by (cases e) simp

text \<open>
  An enqueue appends the message, rejects it, or waits; with the strategy
  \<^verbatim>\<open>drop_oldest\<close> a full log first loses its oldest message.
\<close>

lemma Enqueue_disk_cases:
  assumes out: "(acks, res, e') \<in> set (Enqueue ev ctx e m)" and disk: "eb_disk e = Some d" "eb_bufType e = ''disk''"
    and at: "wal_at (ev_nf ev) n d q" and lim: "Suc n < seg_limit"
    and ok: "wal_ok (ev_nf ev) (ev_uuid ev) (ev_msg ev m)" "ev_room ev = None"
  obtains (accept) d' where "acks = []" "res \<noteq> None" "e' = e\<lparr>eb_disk := Some d'\<rparr>"
      "wal_at (ev_nf ev) (Suc n) d' (q @ [wal_norm (ev_uuid ev) (ev_msg ev m)])"
    | (reject) err where "acks = [(m, err)]" "res \<noteq> None" "e' = e"
    | (wait) "acks = []" "res = None" "e' = e"
    | (evict) d' where "eb_strategy e = ''drop_oldest''" "acks = []" "res \<noteq> None" "e' = e\<lparr>eb_disk := Some d'\<rparr>"
      "wal_at (ev_nf ev) (Suc n) d' (snd (read_result q) @ [wal_norm (ev_uuid ev) (ev_msg ev m)])"
    | (evict_reject) d' err where "eb_strategy e = ''drop_oldest''" "acks = [(m, err)]" "res \<noteq> None"
      "e' = e\<lparr>eb_disk := Some d'\<rparr>" "wal_at (ev_nf ev) n d' (snd (read_result q))"
proof (cases "eb_closed e")
  case True
  then show thesis using out reject by (auto simp: Enqueue_def)
next
  case open_edge: False
  note same = eb_disk_same [OF disk(1)]
  from at lim ok(1) show thesis
  proof (cases rule: wal_at_append)
    case (accepted w')
    then show thesis using out disk open_edge ok(2) accept [of w'] by (simp add: Enqueue_def disk_append_def)
  next
    case (full err)
    then have app: "disk_append ev e d m = (Some err, e)" by (simp add: disk_append_def ok(2) same)
    then have H: "(acks, res, e') \<in> set (handleDiskFull ev ctx e d m err)"
      using out disk open_edge by (simp add: Enqueue_def)
    consider "eb_strategy e = ''drop_newest''" | "eb_strategy e = ''drop_oldest''"
      | "eb_strategy e \<noteq> ''drop_newest''" "eb_strategy e \<noteq> ''drop_oldest''" by blast
    then show thesis
    proof cases
      case 1
      then show thesis using H reject by (simp add: handleDiskFull_def)
    next
      case 2
      obtain d1 where d1: "WAL_ReadNext (ev_nf ev) d = (Inr (fst (read_result q)), d1)" "wal_at (ev_nf ev) n d1 (snd (read_result q))"
        by (rule wal_at_read [OF at])
      from d1(2) lim ok(1) show thesis
      proof (cases rule: wal_at_append)
        case (accepted w')
        then show thesis using H 2 d1(1) ok(2) evict [of w'] by (simp add: handleDiskFull_def disk_append_def)
      next
        case (full err')
        then show thesis using H 2 d1 ok(2) evict_reject [of _ d1] by (simp add: handleDiskFull_def disk_append_def)
      qed
    next
      case 3
      then show thesis using H app reject wait by (auto simp: handleDiskFull_def split: option.splits)
    qed
  qed
qed

text \<open>A turn of the drainer takes the next message of the log, emits the one it holds, or ends.\<close>

lemma drain_disk_cases:
  assumes out: "(acks, e') \<in> set (drain_turn ev ctx e)" and disk: "eb_disk e = Some d" "eb_mem e = []"
    and at: "wal_at (ev_nf ev) n d q"
  obtains (take) msg q' d' where "eb_drainer e = DrainLoop" "acks = []" "q = msg # q'"
      "e' = e\<lparr>eb_disk := Some d', eb_drainer := DrainEmit (DiskMsg msg)\<rparr>" "wal_at (ev_nf ev) n d' q'"
    | (idle) d' where "eb_drainer e = DrainLoop" "acks = []" "e' = e\<lparr>eb_disk := Some d'\<rparr>" "wal_at (ev_nf ev) n d' q"
    | (stop) d' where "eb_drainer e = DrainLoop" "acks = []" "e' = e\<lparr>eb_disk := Some d', eb_drainer := DrainEnded\<rparr>"
      "wal_at (ev_nf ev) n d' q"
    | (sent) it where "eb_drainer e = DrainEmit it" "acks = []" "length (eb_out e) < eb_outcap e"
      "e' = e\<lparr>eb_out := eb_out e @ [it], eb_drainer := DrainLoop\<rparr>"
    | (lost) it err where "eb_drainer e = DrainEmit it" "acks = item_acks it (Some err)" "e' = e\<lparr>eb_drainer := DrainEnded\<rparr>"
proof (cases "eb_drainer e")
  case (DrainEmit it)
  then show thesis using out sent lost by (auto simp: drain_turn_def emit_def split: option.splits if_splits)
next
  case DrainLoop
  obtain d1 where d1: "WAL_ReadNext (ev_nf ev) d = (Inr (fst (read_result q)), d1)" "wal_at (ev_nf ev) n d1 (snd (read_result q))"
    by (rule wal_at_read [OF at])
  have stopped: thesis if "acks = []" "e' = e\<lparr>eb_drainer := DrainEnded\<rparr>"
    using stop [of d] that at DrainLoop disk(1) by (cases e) simp
  show thesis
  proof (cases q)
    case Nil
    then have at1: "wal_at (ev_nf ev) n d1 q" using d1(2) by (simp add: read_result_def)
    have "acks = [] \<and> (e' = e\<lparr>eb_drainer := DrainEnded\<rparr> \<or> e' = e\<lparr>eb_disk := Some d1\<rparr>
        \<or> e' = e\<lparr>eb_disk := Some d1, eb_drainer := DrainEnded\<rparr>)"
      using out DrainLoop disk d1(1) Nil by (auto simp: drain_turn_def read_result_def split: if_splits)
    then show thesis
      using stopped idle [OF DrainLoop _ _ at1] stop [OF DrainLoop _ _ at1] by blast
  next
    case (Cons msg q')
    then have at1: "wal_at (ev_nf ev) n d1 q'" using d1(2) by (simp add: read_result_def)
    have "acks = [] \<and> (e' = e\<lparr>eb_drainer := DrainEnded\<rparr>
        \<or> e' = e\<lparr>eb_disk := Some d1, eb_drainer := DrainEmit (DiskMsg msg)\<rparr>)"
      using out DrainLoop disk d1(1) Cons by (auto simp: drain_turn_def read_result_def split: if_splits)
    then show thesis using stopped take [OF DrainLoop _ Cons _ at1] by blast
  qed
next
  case DrainEnded
  then show thesis using out by (simp add: drain_turn_def)
qed

section \<open>A run of a disk buffer\<close>

text \<open>What the log accepted, as it comes back: the messages that went in and were not rejected.\<close>

definition written :: "edge_env \<Rightarrow> acks \<Rightarrow> mref list \<Rightarrow> edge_item list" where
  "written ev as ms = map (\<lambda>m. DiskMsg (wal_norm (ev_uuid ev) (ev_msg ev m))) (filter (not_acked as) ms)"

text \<open>What is on its way, oldest first: in the outgoing channel, in the hand of the drainer, in the log.\<close>

definition under_way :: "edge_inbound \<Rightarrow> message list \<Rightarrow> edge_item list" where
  "under_way e q = eb_out e @ in_hand e @ map DiskMsg q"

definition disk_inv :: "edge_env \<Rightarrow> message list \<Rightarrow> nat \<Rightarrow> edge_run \<Rightarrow> bool" where
  "disk_inv ev q0 n0 h \<longleftrightarrow>
     (\<exists>d q. eb_disk (er_edge h) = Some d \<and> wal_at (ev_nf ev) (n0 + length (er_in h)) d q \<and>
        subseq (er_delivered h @ under_way (er_edge h) q) (map DiskMsg q0 @ written ev (er_acks h) (er_in h)) \<and>
        (eb_strategy (er_edge h) \<noteq> ''drop_oldest'' \<and> eb_drainer (er_edge h) \<noteq> DrainEnded \<longrightarrow>
           er_delivered h @ under_way (er_edge h) q = map DiskMsg q0 @ written ev (er_acks h) (er_in h))) \<and>
     eb_mem (er_edge h) = [] \<and> eb_bufType (er_edge h) = ''disk'' \<and>
     distinct (map fst (er_acks h)) \<and> set (map fst (er_acks h)) \<subseteq> set (er_in h) \<and>
     length (eb_out (er_edge h)) \<le> eb_outcap (er_edge h)"

lemma subseq_tail: "subseq (xs @ map f (snd (read_result q))) (xs @ map f q)"
proof -
  have "subseq (map f (snd (read_result q))) (map f q)" by (cases q) (auto simp: read_result_def)
  then show ?thesis by (simp only: subseq_append')
qed

lemma subseq_snoc: "subseq xs ys \<Longrightarrow> subseq (xs @ [x]) (ys @ [x])"
  by (simp add: subseq_append)

lemma written_snoc:
  assumes "distinct (ms @ [m])" and "set (map fst as) \<subseteq> set ms"
  shows "written ev as (ms @ [m]) = written ev as ms @ [DiskMsg (wal_norm (ev_uuid ev) (ev_msg ev m))]"
  unfolding written_def filter_not_acked_snoc [OF assms] by simp

lemma written_reject:
  assumes "distinct (ms @ [m])"
  shows "written ev (as @ [(m, err)]) (ms @ [m]) = written ev as ms"
proof -
  have "filter (not_acked (as @ [(m, err)])) (ms @ [m]) = filter (not_acked as) ms"
    using assms by (auto simp: not_acked_def intro!: filter_cong)
  then show ?thesis by (simp add: written_def)
qed

lemma disk_inv_step:
  assumes inv: "disk_inv ev q0 n0 h" and step: "edge_step ev h h'" and dist: "distinct (er_in h')"
    and lim: "Suc (n0 + length (er_in h')) < seg_limit"
    and ok: "\<And>m. wal_ok (ev_nf ev) (ev_uuid ev) (ev_msg ev m)" "ev_room ev = None"
  shows "disk_inv ev q0 n0 h'"
proof -
  obtain d q where disk: "eb_disk (er_edge h) = Some d" "wal_at (ev_nf ev) (n0 + length (er_in h)) d q"
    and sub: "subseq (er_delivered h @ under_way (er_edge h) q) (map DiskMsg q0 @ written ev (er_acks h) (er_in h))"
    and eq: "eb_strategy (er_edge h) \<noteq> ''drop_oldest'' \<Longrightarrow> eb_drainer (er_edge h) \<noteq> DrainEnded \<Longrightarrow>
      er_delivered h @ under_way (er_edge h) q = map DiskMsg q0 @ written ev (er_acks h) (er_in h)"
    and e: "eb_mem (er_edge h) = []" "eb_bufType (er_edge h) = ''disk''"
      "length (eb_out (er_edge h)) \<le> eb_outcap (er_edge h)"
    and acked: "distinct (map fst (er_acks h))" "set (map fst (er_acks h)) \<subseteq> set (er_in h)"
    using inv unfolding disk_inv_def by blast
  let ?n = "n0 + length (er_in h)"
  let ?item = "\<lambda>m. DiskMsg (wal_norm (ev_uuid ev) (ev_msg ev m))"
  show ?thesis
    using step
  proof cases
    case (step_enqueue acks res e' m)
    have d: "distinct (er_in h @ [m])" using dist step_enqueue by simp
    have l: "Suc ?n < seg_limit" using lim step_enqueue by simp
    have fresh: "m \<notin> set (map fst (er_acks h))" using acked d by auto
    note snoc = written_snoc [OF d acked(2), of ev] and rej = written_reject [OF d, of ev "er_acks h"]
    show ?thesis
      using step_enqueue(2) disk(1) e(2) disk(2) l ok
    proof (cases rule: Enqueue_disk_cases)
      case (accept d')
      let ?q = "q @ [wal_norm (ev_uuid ev) (ev_msg ev m)]"
      have u: "er_delivered h @ under_way e' ?q = (er_delivered h @ under_way (er_edge h) q) @ [?item m]"
        by (simp add: under_way_def in_hand_def accept(3))
      have w: "map DiskMsg q0 @ written ev (er_acks h @ acks) (er_in h @ [m])
          = (map DiskMsg q0 @ written ev (er_acks h) (er_in h)) @ [?item m]"
        using snoc accept(1) by simp
      have "subseq (er_delivered h @ under_way e' ?q) (map DiskMsg q0 @ written ev (er_acks h @ acks) (er_in h @ [m]))"
        unfolding u w by (rule subseq_snoc [OF sub])
      moreover have "er_delivered h @ under_way e' ?q = map DiskMsg q0 @ written ev (er_acks h @ acks) (er_in h @ [m])"
        if "eb_strategy e' \<noteq> ''drop_oldest''" "eb_drainer e' \<noteq> DrainEnded"
        unfolding u w using eq that accept(3) by simp
      ultimately show ?thesis
        unfolding disk_inv_def step_enqueue(1)
        using accept e acked by (auto intro!: exI [of _ d'] exI [of _ ?q])
    next
      case (reject err)
      then show ?thesis
        unfolding disk_inv_def step_enqueue(1)
        using sub eq e acked fresh rej disk wal_at_mono [OF disk(2), of "Suc ?n"] by auto
    next
      case wait
      then show ?thesis by simp
    next
      case (evict d')
      let ?q1 = "snd (read_result q)" and ?q = "snd (read_result q) @ [wal_norm (ev_uuid ev) (ev_msg ev m)]"
      have u: "er_delivered h @ under_way e' ?q = (er_delivered h @ under_way (er_edge h) ?q1) @ [?item m]"
        by (simp add: under_way_def in_hand_def evict(4))
      have w: "map DiskMsg q0 @ written ev (er_acks h @ acks) (er_in h @ [m])
          = (map DiskMsg q0 @ written ev (er_acks h) (er_in h)) @ [?item m]"
        using snoc evict(2) by simp
      have "subseq (er_delivered h @ under_way (er_edge h) ?q1) (er_delivered h @ under_way (er_edge h) q)"
        unfolding under_way_def append_assoc [symmetric] by (rule subseq_tail)
      then have "subseq (er_delivered h @ under_way e' ?q) (map DiskMsg q0 @ written ev (er_acks h @ acks) (er_in h @ [m]))"
        unfolding u w using sub by (intro subseq_snoc) (rule subseq_order.order_trans)
      then show ?thesis
        unfolding disk_inv_def step_enqueue(1) using evict e acked by (auto intro!: exI [of _ d'] exI [of _ ?q])
    next
      case (evict_reject d' err)
      have same: "under_way e' (snd (read_result q)) = under_way (er_edge h) (snd (read_result q))"
        by (simp add: under_way_def in_hand_def evict_reject(4))
      have "subseq (er_delivered h @ under_way e' (snd (read_result q))) (er_delivered h @ under_way (er_edge h) q)"
        unfolding same unfolding under_way_def append_assoc [symmetric] by (rule subseq_tail)
      then have "subseq (er_delivered h @ under_way e' (snd (read_result q))) (map DiskMsg q0 @ written ev (er_acks h) (er_in h))"
        using sub by (rule subseq_order.order_trans)
      then show ?thesis
        unfolding disk_inv_def step_enqueue(1)
        using evict_reject e acked fresh rej wal_at_mono [OF evict_reject(5), of "Suc ?n"]
        by (auto intro!: exI [of _ d'] exI [of _ "snd (read_result q)"])
    qed
  next
    case (step_retry acks e' m)
    have l: "Suc ?n < seg_limit" using lim step_retry by simp
    have "acks = [] \<and> e' = er_edge h"
      using step_retry(2) disk(1) e(2) disk(2) l ok by (cases rule: Enqueue_disk_cases) auto
    then show ?thesis using inv step_retry(1) by (simp add: disk_inv_def written_def)
  next
    case (step_drain acks e')
    have items: "\<exists>msg. it = DiskMsg msg" if "eb_drainer (er_edge h) = DrainEmit it" for it
    proof -
      have "it \<in> set (er_delivered h @ under_way (er_edge h) q)" using that by (simp add: under_way_def in_hand_def)
      then have "it \<in> set (map DiskMsg q0 @ written ev (er_acks h) (er_in h))" using list_emb_set [OF sub] by blast
      then show ?thesis by (auto simp: written_def)
    qed
    show ?thesis
      using step_drain(2) disk(1) e(1) disk(2)
    proof (cases rule: drain_disk_cases)
      case (take msg q' d')
      then have "under_way e' q' = under_way (er_edge h) q" by (simp add: under_way_def in_hand_def)
      then show ?thesis
        unfolding disk_inv_def step_drain(1) using take sub eq e acked
        by (auto simp: written_def intro!: exI [of _ d'] exI [of _ q'])
    next
      case (idle d')
      then have "under_way e' q = under_way (er_edge h) q" by (simp add: under_way_def in_hand_def)
      then show ?thesis
        unfolding disk_inv_def step_drain(1) using idle sub eq e acked
        by (auto simp: written_def intro!: exI [of _ d'] exI [of _ q])
    next
      case (stop d')
      then have "under_way e' q = under_way (er_edge h) q" by (simp add: under_way_def in_hand_def)
      then show ?thesis
        unfolding disk_inv_def step_drain(1) using stop sub e acked
        by (auto simp: written_def intro!: exI [of _ d'] exI [of _ q])
    next
      case (sent it)
      then have "under_way e' q = under_way (er_edge h) q" by (simp add: under_way_def in_hand_def)
      then show ?thesis
        unfolding disk_inv_def step_drain(1) using sent sub eq e acked disk
        by (auto simp: written_def intro!: exI [of _ q])
    next
      case (lost it err)
      obtain msg where it: "it = DiskMsg msg" using items [OF lost(1)] by blast
      have "subseq (er_delivered h @ under_way e' q) (er_delivered h @ under_way (er_edge h) q)"
        using lost by (simp add: under_way_def in_hand_def subseq_append' list_emb_Cons)
      then have "subseq (er_delivered h @ under_way e' q) (map DiskMsg q0 @ written ev (er_acks h) (er_in h))"
        using sub by (rule subseq_order.order_trans)
      then show ?thesis
        unfolding disk_inv_def step_drain(1) using lost it e acked disk
        by (auto simp: written_def item_acks_def intro!: exI [of _ q])
    qed
  next
    case (step_deliver it rest)
    then have "er_delivered h' @ under_way (er_edge h') q = er_delivered h @ under_way (er_edge h) q"
      by (simp add: under_way_def in_hand_def)
    then show ?thesis
      unfolding disk_inv_def using step_deliver sub eq e acked disk
      by (auto simp: written_def intro!: exI [of _ q])
  next
    case (step_context ctx)
    then show ?thesis using inv by (simp add: disk_inv_def written_def)
  next
    case step_close
    then show ?thesis using inv by (simp add: disk_inv_def written_def under_way_def in_hand_def Edge_Close_begin_def)
  qed
qed

lemma disk_inv_start:
  assumes new: "NewEdgeInbound dirs pipeline from to config = Inr e" and isdisk: "eb_bufType e = ''disk''"
    and dir: "dir_ok (ev_nf ev) segs k (dirs (edge_dir (DefaultBuffer config) pipeline from to))"
  shows "disk_inv ev (pending segs k) (seg_top segs) (run_start e)"
proof -
  let ?opts = "\<lparr>do_SegmentSize = 0, do_MaxSize = bf_DiskMaxSize (DefaultBuffer config)\<rparr>"
  obtain w where w: "NewDiskWAL ?opts (dirs (edge_dir (DefaultBuffer config) pipeline from to)) = Inr w"
    "wal_ok_state (ev_nf ev) segs k w"
    using NewDiskWAL_ok [OF dir, of ?opts] by blast
  have "eb_disk e = Some w \<and> eb_mem e = [] \<and> eb_out e = [] \<and> eb_drainer e = DrainLoop"
    using new isdisk w(1) by (auto simp: NewEdgeInbound_def Let_def split: if_splits)
  then show ?thesis
    using wal_atI [OF w(2), of "seg_top segs"] isdisk
    by (auto simp: disk_inv_def run_start_def under_way_def in_hand_def written_def intro!: exI [of _ "pending segs k"])
qed

lemma disk_run:
  assumes new: "NewEdgeInbound dirs pipeline from to config = Inr e" and isdisk: "eb_bufType e = ''disk''"
    and dir: "dir_ok (ev_nf ev) segs k (dirs (edge_dir (DefaultBuffer config) pipeline from to))"
    and run: "edge_reach ev (run_start e) h" and dist: "distinct (er_in h)"
    and lim: "Suc (seg_top segs + length (er_in h)) < seg_limit"
    and ok: "\<And>m. wal_ok (ev_nf ev) (ev_uuid ev) (ev_msg ev m)" "ev_room ev = None"
  shows "disk_inv ev (pending segs k) (seg_top segs) h"
proof -
  let ?P = "\<lambda>t. distinct (er_in t) \<and> Suc (seg_top segs + length (er_in t)) < seg_limit \<longrightarrow>
    disk_inv ev (pending segs k) (seg_top segs) t"
  have "?P h" using run
  proof (rule edge.invariant)
    show "?P u" if step: "edge_step ev t u" and P: "?P t" for t u
    proof
      assume u: "distinct (er_in u) \<and> Suc (seg_top segs + length (er_in u)) < seg_limit"
      obtain xs where "er_in u = er_in t @ xs" using er_in_mono [OF step] by blast
      then have "disk_inv ev (pending segs k) (seg_top segs) t" using P u by simp
      then show "disk_inv ev (pending segs k) (seg_top segs) u" by (rule disk_inv_step [OF _ step]) (use u ok in auto)
    qed
  qed (simp add: disk_inv_start [OF new isdisk dir])
  then show ?thesis using dist lim by blast
qed

text \<open>
  C11: a disk buffer is an ordered queue on the files of its log, under every strategy and every
  interleaving of producers, drainer, consumer, cancellation and closing. What it delivers, holds
  and still has on disk is, in this order, the backlog that the files had when it was opened and
  the accepted messages, each at most once; and all of them, as long as the strategy does not drop
  the oldest message and the drainer has not been cancelled. Opening the files again at any moment
  gives a log with exactly the messages that were not taken out. Each rejected message is
  acknowledged by the edge, once. The assumptions are a well-formed directory, messages that fit
  the record format, room on the device and segment numbers of six digits.
\<close>

theorem disk_edge_order:
  assumes "NewEdgeInbound dirs pipeline from to config = Inr e" and "eb_bufType e = ''disk''"
    and "dir_ok (ev_nf ev) segs k (dirs (edge_dir (DefaultBuffer config) pipeline from to))"
    and "edge_reach ev (run_start e) h" and "distinct (er_in h)"
    and "Suc (seg_top segs + length (er_in h)) < seg_limit"
    and "\<And>m. wal_ok (ev_nf ev) (ev_uuid ev) (ev_msg ev m)" and "ev_room ev = None"
  shows "(\<exists>d q. eb_disk (er_edge h) = Some d \<and>
      subseq (er_delivered h @ under_way (er_edge h) q) (map DiskMsg (pending segs k) @ written ev (er_acks h) (er_in h)) \<and>
      (eb_strategy (er_edge h) \<noteq> ''drop_oldest'' \<longrightarrow> eb_drainer (er_edge h) \<noteq> DrainEnded \<longrightarrow>
         er_delivered h @ under_way (er_edge h) q = map DiskMsg (pending segs k) @ written ev (er_acks h) (er_in h)) \<and>
      (\<exists>d'. NewDiskWAL opts (dw_fs d) = Inr d' \<and> wal_holds (ev_nf ev) d' q)) \<and>
    distinct (map fst (er_acks h)) \<and> set (map fst (er_acks h)) \<subseteq> set (er_in h)"
proof -
  note I = disk_run [OF assms(1-8), unfolded disk_inv_def]
  then obtain d q where d: "eb_disk (er_edge h) = Some d" "wal_at (ev_nf ev) (seg_top segs + length (er_in h)) d q"
    and q: "subseq (er_delivered h @ under_way (er_edge h) q) (map DiskMsg (pending segs k) @ written ev (er_acks h) (er_in h))"
      "eb_strategy (er_edge h) \<noteq> ''drop_oldest'' \<and> eb_drainer (er_edge h) \<noteq> DrainEnded \<longrightarrow>
         er_delivered h @ under_way (er_edge h) q = map DiskMsg (pending segs k) @ written ev (er_acks h) (er_in h)"
    by blast
  show ?thesis using I d(1) q wal_log.reopen_holds [OF wal_at_holds [OF d(2)], of opts] by blast
qed

section \<open>Witness\<close>

text \<open>An edge on an empty directory that accepts a message and delivers it.\<close>

definition disk_cfg :: edge_buffer_config where
  "disk_cfg = zero_buffer\<lparr>bf_Type := ''disk'', bf_Size := 1\<rparr>"

definition no_files :: "string \<Rightarrow> wal_fs" where
  "no_files dir = \<lparr>fs_files = [], fs_offset = None\<rparr>"

definition demo_item :: edge_item where
  "demo_item = DiskMsg (wal_norm ''u'' demo_wal_msg)"

lemma no_files_ok: "dir_ok demo_nf [] 0 (no_files dir)"
  by (simp add: no_files_def dir_ok_def files_ok_def)

lemma disk_new: "\<exists>e d. NewEdgeInbound no_files ''p'' ''a'' ''b'' disk_cfg = Inr e \<and> eb_disk e = Some d \<and> eb_mem e = [] \<and>
   eb_bufType e = ''disk'' \<and> \<not> eb_closed e \<and> eb_drainer e = DrainLoop \<and> eb_out e = [] \<and> eb_outcap e = 1 \<and>
   wal_ok_state demo_nf [] 0 d \<and> dw_totalSize d < dw_maxSize d"
proof -
  let ?opts = "\<lparr>do_SegmentSize = 0, do_MaxSize = bf_DiskMaxSize (DefaultBuffer disk_cfg)\<rparr>"
  obtain w where w: "NewDiskWAL ?opts (no_files (edge_dir (DefaultBuffer disk_cfg) ''p'' ''a'' ''b'')) = Inr w"
    "wal_ok_state demo_nf [] 0 w" "dw_maxSize w = (if do_MaxSize ?opts \<le> 0 then DefaultDiskMaxSize else do_MaxSize ?opts)"
    using NewDiskWAL_ok [OF no_files_ok, of ?opts] by blast
  have "dw_totalSize w < dw_maxSize w" using w(2,3) by (auto simp: wal_ok_state_def segs_size_def DefaultDiskMaxSize_def)
  then show ?thesis using w(1,2)
    by (simp add: NewEdgeInbound_def disk_cfg_def DefaultBuffer_def zero_buffer_def Let_def)
qed

lemma demo_ev_fields: "ev_nf demo_ev = demo_nf" "ev_uuid demo_ev = ''u''" "ev_room demo_ev = None" "ev_msg demo_ev m = demo_wal_msg"
  by (simp_all add: demo_ev_def)

lemma disk_delivers:
  assumes e: "eb_disk e = Some d" "eb_bufType e = ''disk''" "\<not> eb_closed e" "eb_drainer e = DrainLoop"
      "eb_out e = []" "eb_outcap e = 1" and ok: "wal_ok_state demo_nf [] 0 d" "dw_totalSize d < dw_maxSize d"
  shows "\<exists>h. edge_reach demo_ev (run_start e) h \<and> er_in h = [7] \<and> er_acks h = [] \<and> er_delivered h = [demo_item]"
proof -
  note ev = demo_ev_fields
  have "pending [] 0 = []" "Suc (seg_top []) < seg_limit" by (simp_all add: pending_def seg_top_def)
  with Append_ok [OF ok(1) _ demo_wal_ok ok(2)] obtain d1 where d1:
    "WAL_Append demo_nf ''u'' None demo_wal_msg d = (None, d1)" "wal_holds demo_nf d1 [wal_norm ''u'' demo_wal_msg]"
    unfolding wal_holds_def by fastforce
  from wal_log.read_Cons [OF d1(2)] obtain d2 where
    d2: "WAL_ReadNext demo_nf d1 = (Inr (Some (wal_norm ''u'' demo_wal_msg)), d2)" by blast
  let ?h1 = "(run_start e)\<lparr>er_edge := e\<lparr>eb_disk := Some d1\<rparr>, er_in := [7]\<rparr>"
  let ?e2 = "e\<lparr>eb_disk := Some d2, eb_drainer := DrainEmit demo_item\<rparr>"
  let ?e3 = "e\<lparr>eb_disk := Some d2, eb_drainer := DrainLoop, eb_out := [demo_item]\<rparr>"
  have "Enqueue demo_ev None e 7 = [([], Some (False, '''', None), e\<lparr>eb_disk := Some d1\<rparr>)]"
    using e d1(1) by (simp add: Enqueue_def disk_append_def ev)
  then have s1: "edge_step demo_ev (run_start e) ?h1"
    using step_enqueue [of "[]" "(False, '''', None)" "e\<lparr>eb_disk := Some d1\<rparr>" demo_ev "run_start e" 7] by (simp add: run_start_def)
  have "drain_turn demo_ev None (e\<lparr>eb_disk := Some d1\<rparr>) = [([], ?e2)]"
    using drain_disk_emit [of "e\<lparr>eb_disk := Some d1\<rparr>" d1 None demo_ev] d2 e by (simp add: shouldStop_def ev demo_item_def)
  then have s2: "edge_step demo_ev ?h1 (?h1\<lparr>er_edge := ?e2\<rparr>)"
    using step_drain [of "[]" ?e2 demo_ev ?h1] by (simp add: run_start_def)
  have "drain_turn demo_ev None ?e2 = [([], ?e3)]" using e by (simp add: drain_turn_def emit_def)
  then have s3: "edge_step demo_ev (?h1\<lparr>er_edge := ?e2\<rparr>) (?h1\<lparr>er_edge := ?e3\<rparr>)"
    using step_drain [of "[]" ?e3 demo_ev "?h1\<lparr>er_edge := ?e2\<rparr>"] by (simp add: run_start_def)
  let ?h4 = "?h1\<lparr>er_edge := ?e3\<lparr>eb_out := []\<rparr>, er_delivered := [demo_item]\<rparr>"
  have s4: "edge_step demo_ev (?h1\<lparr>er_edge := ?e3\<rparr>) ?h4"
    using step_deliver [of "?h1\<lparr>er_edge := ?e3\<rparr>" demo_item "[]" demo_ev] by (simp add: run_start_def)
  have "edge_reach demo_ev (run_start e) ?h4"
    by (rule reach_step [OF reach_step [OF reach_step [OF reach_step [OF reach_refl s1] s2] s3] s4])
  moreover have "er_in ?h4 = [7]" "er_acks ?h4 = []" "er_delivered ?h4 = [demo_item]" by (simp_all add: run_start_def)
  ultimately show ?thesis by blast
qed

theorem disk_edge_order_witness:
  "\<exists>e h d q. NewEdgeInbound no_files ''p'' ''a'' ''b'' disk_cfg = Inr e \<and> edge_reach demo_ev (run_start e) h \<and>
     eb_disk (er_edge h) = Some d \<and> subseq (demo_item # under_way (er_edge h) q) [demo_item] \<and>
     (\<exists>d'. NewDiskWAL demo_opts (dw_fs d) = Inr d' \<and> wal_holds demo_nf d' q)"
proof -
  obtain e d0 where e: "NewEdgeInbound no_files ''p'' ''a'' ''b'' disk_cfg = Inr e" "eb_disk e = Some d0" "eb_mem e = []"
    "eb_bufType e = ''disk''" "\<not> eb_closed e" "eb_drainer e = DrainLoop" "eb_out e = []" "eb_outcap e = 1"
    "wal_ok_state demo_nf [] 0 d0" "dw_totalSize d0 < dw_maxSize d0"
    using disk_new by blast
  obtain h where h: "edge_reach demo_ev (run_start e) h" "er_in h = [7]" "er_acks h = []" "er_delivered h = [demo_item]"
    using disk_delivers [OF e(2,4-10)] by blast
  have dir: "dir_ok (ev_nf demo_ev) [] 0 (no_files (edge_dir (DefaultBuffer disk_cfg) ''p'' ''a'' ''b''))"
    unfolding demo_ev_fields by (rule no_files_ok)
  have lim: "Suc (seg_top [] + length (er_in h)) < seg_limit" by (simp add: h(2) seg_top_def)
  have wal: "wal_ok (ev_nf demo_ev) (ev_uuid demo_ev) (ev_msg demo_ev m)" for m
    unfolding demo_ev_fields by (rule demo_wal_ok)
  have "distinct (er_in h)" by (simp add: h(2))
  note O = disk_edge_order [OF e(1,4) dir h(1) this lim wal demo_ev_fields(3), of demo_opts]
  have w: "written demo_ev [] [7] = [demo_item]" by (simp add: written_def not_acked_def demo_ev_fields demo_item_def)
  obtain d q where "eb_disk (er_edge h) = Some d" "subseq ([demo_item] @ under_way (er_edge h) q) [demo_item]"
    "\<exists>d'. NewDiskWAL demo_opts (dw_fs d) = Inr d' \<and> wal_holds demo_nf d' q"
    using O unfolding h(2-4) w demo_ev_fields by (auto simp: pending_def)
  then show ?thesis using e(1) h(1) by auto
qed

end
