(* ===== verification/Metrics.thy ===== *)
theory Metrics
  imports Engine
begin

text \<open>
  The collectors of \<^verbatim>\<open>internal/observability/metrics.go\<close> and what the pipeline reports to
  them. The Prometheus client is not part of the program: a report is the call it receives, a
  collector with the values of its labels and an operation. Durations are those the clock gives.
\<close>

section \<open>Collectors\<close>

datatype metric_kind = CounterVec | GaugeVec | HistogramVec | SingleGauge

record collector =
  co_kind :: metric_kind
  co_name :: string
  co_labels :: "string list"

record metric_set =
  me_EventsTotal :: collector
  me_EventLatency :: collector
  me_InflightEvents :: collector
  me_StageDuration :: collector
  me_StageErrors :: collector
  me_EdgeBufferSize :: collector
  me_EdgeDropped :: collector
  me_DLQEnqueued :: collector
  me_EnginePipelines :: collector

definition NewMetrics :: metric_set where
  "NewMetrics = \<lparr>
     me_EventsTotal = \<lparr>co_kind = CounterVec, co_name = ''eventr_events_total'', co_labels = [''pipeline'', ''status'']\<rparr>,
     me_EventLatency = \<lparr>co_kind = HistogramVec, co_name = ''eventr_event_latency_seconds'', co_labels = [''pipeline'']\<rparr>,
     me_InflightEvents = \<lparr>co_kind = GaugeVec, co_name = ''eventr_inflight_events'', co_labels = [''pipeline'']\<rparr>,
     me_StageDuration = \<lparr>co_kind = HistogramVec, co_name = ''eventr_stage_duration_seconds'',
       co_labels = [''pipeline'', ''stage_id'', ''stage_kind'']\<rparr>,
     me_StageErrors = \<lparr>co_kind = CounterVec, co_name = ''eventr_stage_errors_total'',
       co_labels = [''pipeline'', ''stage_id'', ''error_type'']\<rparr>,
     me_EdgeBufferSize = \<lparr>co_kind = GaugeVec, co_name = ''eventr_edge_buffer_size'', co_labels = [''pipeline'', ''from'', ''to'']\<rparr>,
     me_EdgeDropped = \<lparr>co_kind = CounterVec, co_name = ''eventr_edge_dropped_total'',
       co_labels = [''pipeline'', ''from'', ''to'', ''reason'']\<rparr>,
     me_DLQEnqueued = \<lparr>co_kind = CounterVec, co_name = ''eventr_dlq_enqueued_total'',
       co_labels = [''pipeline'', ''dlq_stage_id'', ''error_type'']\<rparr>,
     me_EnginePipelines = \<lparr>co_kind = SingleGauge, co_name = ''eventr_engine_pipelines'', co_labels = []\<rparr>\<rparr>"

text \<open>What is passed to \<^verbatim>\<open>MustRegister\<close>.\<close>

definition registered :: "metric_set \<Rightarrow> collector list" where
  "registered m = [me_EventsTotal m, me_EventLatency m, me_InflightEvents m, me_StageDuration m, me_StageErrors m,
     me_EdgeBufferSize m, me_EdgeDropped m, me_DLQEnqueued m, me_EnginePipelines m]"

section \<open>Reports\<close>

datatype metric_op = OpInc | OpDec | OpSet int | OpObserve int

type_synonym metric_call = "collector \<times> string list \<times> metric_op"

definition SetPipelineCount :: "metric_set \<Rightarrow> nat \<Rightarrow> metric_call list" where
  "SetPipelineCount m n = [(me_EnginePipelines m, [], OpSet (int n))]"

definition IncInflight :: "metric_set \<Rightarrow> string \<Rightarrow> metric_call list" where
  "IncInflight m pipeline = [(me_InflightEvents m, [pipeline], OpInc)]"

definition DecInflight :: "metric_set \<Rightarrow> string \<Rightarrow> metric_call list" where
  "DecInflight m pipeline = [(me_InflightEvents m, [pipeline], OpDec)]"

definition RecordEvent :: "metric_set \<Rightarrow> string \<Rightarrow> string \<Rightarrow> int \<Rightarrow> metric_call list" where
  "RecordEvent m pipeline status d =
     [(me_EventsTotal m, [pipeline, status], OpInc), (me_EventLatency m, [pipeline], OpObserve d)]"

definition ObserveStage :: "metric_set \<Rightarrow> string \<Rightarrow> string \<Rightarrow> string \<Rightarrow> int \<Rightarrow> metric_call list" where
  "ObserveStage m pipeline stageID kind d = [(me_StageDuration m, [pipeline, stageID, kind], OpObserve d)]"

definition IncStageError :: "metric_set \<Rightarrow> string \<Rightarrow> string \<Rightarrow> string \<Rightarrow> metric_call list" where
  "IncStageError m pipeline stageID errorType = [(me_StageErrors m, [pipeline, stageID, errorType], OpInc)]"

definition SetEdgeBuffer :: "metric_set \<Rightarrow> string \<Rightarrow> string \<Rightarrow> string \<Rightarrow> int \<Rightarrow> metric_call list" where
  "SetEdgeBuffer m pipeline from to sz = [(me_EdgeBufferSize m, [pipeline, from, to], OpSet sz)]"

definition IncEdgeDropped :: "metric_set \<Rightarrow> string \<Rightarrow> string \<Rightarrow> string \<Rightarrow> string \<Rightarrow> metric_call list" where
  "IncEdgeDropped m pipeline from to reason = [(me_EdgeDropped m, [pipeline, from, to, reason], OpInc)]"

definition IncDLQ :: "metric_set \<Rightarrow> string \<Rightarrow> string \<Rightarrow> string \<Rightarrow> metric_call list" where
  "IncDLQ m pipeline dlqStageID errorType = [(me_DLQEnqueued m, [pipeline, dlqStageID, errorType], OpInc)]"

definition EventStatus :: "goerr option \<Rightarrow> string" where
  "EventStatus err = (if err \<noteq> None then ''error'' else ''ok'')"

section \<open>What the pipeline reports\<close>

text \<open>
  \<^verbatim>\<open>acquireInflight\<close> and \<^verbatim>\<open>releaseInflight\<close>, \<^verbatim>\<open>sendToInbound\<close> after the enqueue,
  \<^verbatim>\<open>deliverToDLQ\<close> for a batch, \<^verbatim>\<open>flushSinkBatch\<close>, the transform of a batch and
  \<^verbatim>\<open>handleEvalError\<close>. Without a metric set nothing is reported.
\<close>

definition acquire_report :: "metric_set option \<Rightarrow> string \<Rightarrow> metric_call list" where
  "acquire_report mo pipeline = (case mo of None \<Rightarrow> [] | Some m \<Rightarrow> IncInflight m pipeline)"

definition release_report :: "metric_set option \<Rightarrow> string \<Rightarrow> goerr option \<Rightarrow> int \<Rightarrow> metric_call list" where
  "release_report mo pipeline err d =
     (case mo of None \<Rightarrow> [] | Some m \<Rightarrow> DecInflight m pipeline @ RecordEvent m pipeline (EventStatus err) d)"

definition edge_report :: "metric_set option \<Rightarrow> string \<Rightarrow> edge_ir \<Rightarrow> bool \<Rightarrow> string \<Rightarrow> edge_inbound \<Rightarrow> metric_call list" where
  "edge_report mo pipeline edge dropped reason eb =
     (case mo of
        None \<Rightarrow> []
      | Some m \<Rightarrow>
          (if dropped then IncEdgeDropped m pipeline (ei_From edge) (ei_To edge) reason else []) @
          SetEdgeBuffer m pipeline (ei_From edge) (ei_To edge) (int (Edge_Len eb) + DiskBytes eb))"

definition dlq_report :: "metric_set option \<Rightarrow> string \<Rightarrow> string \<Rightarrow> metric_call list" where
  "dlq_report mo pipeline dlqSinkID =
     (case mo of None \<Rightarrow> [] | Some m \<Rightarrow> IncDLQ m pipeline dlqSinkID ''sink_error'')"

definition flush_report :: "metric_set option \<Rightarrow> ('p, 'x) pipeline \<Rightarrow> string \<Rightarrow> goerr option \<Rightarrow> int \<Rightarrow> metric_call list" where
  "flush_report mo p sid err d =
     (case mo of
        None \<Rightarrow> []
      | Some m \<Rightarrow>
          (if err \<noteq> None
           then IncStageError m (ir_Name (pl_ir p)) sid ''write'' @
             (case ir_DLQ (pl_ir p) of
                None \<Rightarrow> []
              | Some q \<Rightarrow> if dl_Sink q = '''' then [] else dlq_report mo (ir_Name (pl_ir p)) (dl_Sink q))
           else []) @
          ObserveStage m (ir_Name (pl_ir p)) sid ''sink'' d)"

definition process_report :: "metric_set option \<Rightarrow> string \<Rightarrow> string \<Rightarrow> goerr option \<Rightarrow> int \<Rightarrow> metric_call list" where
  "process_report mo pipeline sid err d =
     (case mo of
        None \<Rightarrow> []
      | Some m \<Rightarrow> ObserveStage m pipeline sid ''transform'' d @
          (if err \<noteq> None then IncStageError m pipeline sid ''process'' else []))"

definition eval_report :: "metric_set option \<Rightarrow> ('p, 'x) pipeline \<Rightarrow> string \<Rightarrow> goerr option \<Rightarrow> metric_call list" where
  "eval_report mo p sid err =
     (case mo of
        None \<Rightarrow> []
      | Some m \<Rightarrow>
          if err \<noteq> None \<and> errorModeForStage p sid = errModeIgnore
          then IncStageError m (ir_Name (pl_ir p)) sid ''dsl_ignore'' else [])"

section \<open>The reports fit the collectors\<close>

text \<open>
  The client panics when two collectors have one name, or when a collector is given more or fewer
  values than it has labels.
\<close>

definition call_fits :: "metric_call \<Rightarrow> bool" where
  "call_fits c = (case c of (co, vals, op) \<Rightarrow>
     length vals = length (co_labels co) \<and>
     (case op of
        OpInc \<Rightarrow> co_kind co = CounterVec \<or> co_kind co = GaugeVec
      | OpDec \<Rightarrow> co_kind co = GaugeVec
      | OpSet n \<Rightarrow> co_kind co = GaugeVec \<or> co_kind co = SingleGauge
      | OpObserve d \<Rightarrow> co_kind co = HistogramVec))"

lemmas metric_calls = SetPipelineCount_def IncInflight_def DecInflight_def RecordEvent_def ObserveStage_def
  IncStageError_def SetEdgeBuffer_def IncEdgeDropped_def IncDLQ_def

lemmas metric_reports = acquire_report_def release_report_def edge_report_def dlq_report_def flush_report_def
  process_report_def eval_report_def

lemma registered_distinct: "distinct (map co_name (registered NewMetrics))"
  by (simp add: registered_def NewMetrics_def)

lemma reports_fit:
  assumes "c \<in> set (acquire_report (Some NewMetrics) pl) \<union> set (release_report (Some NewMetrics) pl err d) \<union>
    set (edge_report (Some NewMetrics) pl edge dropped reason eb) \<union> set (flush_report (Some NewMetrics) p sid err d) \<union>
    set (process_report (Some NewMetrics) pl sid err d) \<union> set (eval_report (Some NewMetrics) p sid err) \<union>
    set (SetPipelineCount NewMetrics n)"
  shows "call_fits c \<and> fst c \<in> set (registered NewMetrics)"
  using assms by (auto simp: metric_reports metric_calls call_fits_def registered_def NewMetrics_def
      split: if_splits option.splits)

section \<open>The inflight gauge\<close>

text \<open>
  The reports of a running pipeline on its messages: one for each slot acquired and one for each
  released, in any order and with any durations. The value of a gauge is what has been added to it.
\<close>

definition lifecycle_reports :: "metric_set \<Rightarrow> string \<Rightarrow> (goerr option \<Rightarrow> int) \<Rightarrow> 'x engine_run \<Rightarrow> metric_call list" where
  "lifecycle_reports m pipeline dur s =
     concat (map (\<lambda>_. acquire_report (Some m) pipeline) (en_sources s)) @
     concat (map (\<lambda>err. release_report (Some m) pipeline err (dur err)) (wd_released (en_world s)))"

definition gauge_value :: "collector \<Rightarrow> string list \<Rightarrow> metric_call list \<Rightarrow> int" where
  "gauge_value co vals calls =
     int (length (filter (\<lambda>c. c = (co, vals, OpInc)) calls)) - int (length (filter (\<lambda>c. c = (co, vals, OpDec)) calls))"

lemma gauge_append: "gauge_value co vals (xs @ ys) = gauge_value co vals xs + gauge_value co vals ys"
  by (simp add: gauge_value_def)

lemma gauge_acquired: "gauge_value (me_InflightEvents NewMetrics) [pl]
    (concat (map (\<lambda>_. acquire_report (Some NewMetrics) pl) xs)) = int (length xs)"
  by (induction xs) (simp_all add: gauge_append, simp_all add: gauge_value_def metric_reports metric_calls)

lemma gauge_released: "gauge_value (me_InflightEvents NewMetrics) [pl]
    (concat (map (\<lambda>err. release_report (Some NewMetrics) pl err (dur err)) xs)) = - int (length xs)"
  by (induction xs) (simp_all add: gauge_append, simp_all add: gauge_value_def metric_reports metric_calls NewMetrics_def)

text \<open>
  The gauge is the number of slots in use: it is never negative, the counter is this number modulo
  \<open>2 ^ 32\<close>, and a pipeline with memory buffers that has nothing left to do is back at zero.
\<close>

theorem inflight_gauge:
  fixes pl :: string and dur :: "goerr option \<Rightarrow> int"
  assumes "world_start w0" and "bufs_own bufs = []" and "engine_ok p (length bufs)"
    and "engine_reach p ev env denv (engine_start w0 bufs x) s"
  defines "g \<equiv> gauge_value (me_InflightEvents NewMetrics) [pl] (lifecycle_reports NewMetrics pl dur s)"
  shows "0 \<le> g" and "wd_inflight (en_world s) = wd_inflight w0 + of_int g"
    and "mem_only bufs \<Longrightarrow> drained s \<Longrightarrow> g = 0"
proof -
  have g: "g = int (length (en_sources s)) - int (length (wd_released (en_world s)))"
    unfolding g_def lifecycle_reports_def gauge_append gauge_acquired gauge_released by simp
  obtain n where n: "wd_inflight (en_world s) = wd_inflight w0 + of_nat n"
    "n + length (wd_released (en_world s)) = length (en_sources s)"
    using delivered_at_most_once [OF assms(1-4)] by blast
  have gn: "g = int n" unfolding g using n(2) by simp
  show "0 \<le> g" "wd_inflight (en_world s) = wd_inflight w0 + of_int g" using n(1) gn by simp_all
  assume "mem_only bufs" "drained s"
  then show "g = 0" unfolding g using delivered_exactly_once [OF assms(1-3) _ assms(4)] by simp
qed

end
