(* ===== verification/Sources.thy ===== *)
theory Sources
  imports Connectors
begin

text \<open>
  The loops of the Kafka and the cron source (\<^verbatim>\<open>plugins/source/kafka/kafka.go\<close>,
  \<^verbatim>\<open>plugins/source/cron/cron.go\<close>) next to the goroutines they run with: the reader of the
  outgoing channel, and the jobs of the scheduler. The Kafka client and the scheduler are not part
  of the program.
\<close>

section \<open>The loop of the Kafka source\<close>

datatype consume_turn = ConsumeEnds goerr | ConsumeSent message

text \<open>
  A turn with what \<^verbatim>\<open>FetchMessage\<close> gave: the loop ends with its error; or the message is
  stored as pending and sent when the channel has room, or the context has ended.
\<close>

definition kafka_turn ::
  "goerr option \<Rightarrow> bool \<Rightarrow> string \<Rightarrow> kafka_message res \<Rightarrow> kafka_source \<Rightarrow> (consume_turn \<times> kafka_source) list" where
  "kafka_turn ctx room uuid fetched s =
     (case fetched of
        Inl err \<Rightarrow> [(ConsumeEnds err, s)]
      | Inr km \<Rightarrow>
          (case kafka_read uuid km s of
             (msg, s') \<Rightarrow>
               (case ctx of None \<Rightarrow> [] | Some err \<Rightarrow> [(ConsumeEnds err, s')]) @
               (if room then [(ConsumeSent msg, s')] else [])))"

definition kafka_Stop :: "(kafka_source \<Rightarrow> 'x \<Rightarrow> goerr option \<times> 'x) \<Rightarrow> kafka_source \<Rightarrow> 'x \<Rightarrow> goerr option \<times> 'x" where
  "kafka_Stop close s x = (if ks_reader s then close s x else (None, x))"

text \<open>
  A message that is sent is pending under its id before anybody can acknowledge it, so no
  acknowledgement without an error comes too early to be committed.
\<close>

lemma kafka_turn_pending:
  assumes "(ConsumeSent msg, s') \<in> set (kafka_turn ctx room uuid fetched s)" and "ks_reader s"
  shows "\<exists>km. fetched = Inr km \<and> ms_ID msg = uuid \<and> ms_Payload msg = km_Value km \<and>
    fst (kafka_OnAck (Some uuid) None s') = Some km"
  using assms
  by (auto simp: kafka_turn_def kafka_read_def kafka_OnAck_def message_New_def split: sum.splits option.splits if_splits)

section \<open>The cron source and its scheduler\<close>

text \<open>
  \<^verbatim>\<open>emit\<close> after its test of \<^verbatim>\<open>stopped\<close>; the flag may be set in between.
\<close>

definition cron_send :: "json_env \<Rightarrow> bool \<Rightarrow> bool \<Rightarrow> 'l cron_source \<Rightarrow> world \<Rightarrow> ('l cron_source \<times> world) list" where
  "cron_send je room ended s w =
     map (\<lambda>(s', w'). (s'\<lparr>cn_stopped := cn_stopped s\<rparr>, w')) (cron_emit je room ended (s\<lparr>cn_stopped := False\<rparr>) w)"

lemma cron_emit_split:
  "cron_emit je room ended s w = (if cn_stopped s then [(s, w)] else cron_send je room ended s w)"
proof (cases "cn_stopped s")
  case False
  then have same: "s\<lparr>cn_stopped := False\<rparr> = s" by (cases s) simp
  obtain msg h where m: "cron_message je s (wd_heap w) = (msg, h)" by (metis surj_pair)
  have "list_all (\<lambda>x. cn_stopped (fst x) = cn_stopped s) (cron_emit je room ended s w)"
    by (simp add: cron_emit_def m new_msg_def split: option.split)
  then have keep: "s'\<lparr>cn_stopped := cn_stopped s\<rparr> = s'" if "(s', w') \<in> set (cron_emit je room ended s w)" for s' w'
    using that by (cases s') (fastforce simp: list_all_iff)
  have "map (\<lambda>(s', w'). (s'\<lparr>cn_stopped := cn_stopped s\<rparr>, w')) (cron_emit je room ended s w) = cron_emit je room ended s w"
    by (rule map_idI) (use keep in \<open>auto split: prod.splits\<close>)
  then show ?thesis using False by (simp add: cron_send_def same)
qed (simp add: cron_emit_def)

text \<open>
  Where \<^verbatim>\<open>Consume\<close> is: waiting for the context, after setting \<^verbatim>\<open>stopped\<close>, waiting for
  the jobs that the scheduler has started, or returned, and whether the wait ran into its deadline.
\<close>

datatype cron_phase = CronRunning | CronMarked | CronStopping | CronReturned bool

record 'l cron_run =
  cu_src :: "'l cron_source"
  cu_world :: world
  cu_phase :: cron_phase
  cu_started :: nat
  cu_sending :: nat
  cu_late :: "mref list"

definition sent_by :: "'l cron_source \<Rightarrow> mref list" where
  "sent_by s = (case cn_out s of None \<Rightarrow> [] | Some ms \<Rightarrow> ms)"

definition returned :: "'l cron_run \<Rightarrow> bool" where
  "returned r = (case cu_phase r of CronReturned late \<Rightarrow> True | _ \<Rightarrow> False)"

text \<open>
  The scheduler starts a job until it is stopped; a job tests the flag, then sends; when the context
  has ended \<^verbatim>\<open>Consume\<close> sets the flag, stops the scheduler, and returns when no job is left, or
  when five seconds are over.
\<close>

inductive cron_step :: "json_env \<Rightarrow> 'l cron_run \<Rightarrow> 'l cron_run \<Rightarrow> bool" for je where
  cron_tick: "cu_phase r \<in> {CronRunning, CronMarked} \<Longrightarrow> cron_step je r (r\<lparr>cu_started := Suc (cu_started r)\<rparr>)"
| cron_check: "cu_started r = Suc n \<Longrightarrow>
     cron_step je r (r\<lparr>cu_started := n, cu_sending := (if cn_stopped (cu_src r) then cu_sending r else Suc (cu_sending r))\<rparr>)"
| cron_sends: "cu_sending r = Suc n \<Longrightarrow> (s, w) \<in> set (cron_send je room ended (cu_src r) (cu_world r)) \<Longrightarrow>
     cron_step je r (r\<lparr>cu_src := s, cu_world := w, cu_sending := n,
       cu_late := (if returned r then cu_late r @ drop (length (sent_by (cu_src r))) (sent_by s) else cu_late r)\<rparr>)"
| cron_mark: "cu_phase r = CronRunning \<Longrightarrow> cron_step je r (r\<lparr>cu_src := cron_end (cu_src r), cu_phase := CronMarked\<rparr>)"
| cron_stop: "cu_phase r = CronMarked \<Longrightarrow> cron_step je r (r\<lparr>cu_phase := CronStopping\<rparr>)"
| cron_wait: "cu_phase r = CronStopping \<Longrightarrow> cu_started r = 0 \<Longrightarrow> cu_sending r = 0 \<Longrightarrow>
     cron_step je r (r\<lparr>cu_phase := CronReturned False\<rparr>)"
| cron_deadline: "cu_phase r = CronStopping \<Longrightarrow> cron_step je r (r\<lparr>cu_phase := CronReturned True\<rparr>)"

inductive cron_reach :: "json_env \<Rightarrow> 'l cron_run \<Rightarrow> 'l cron_run \<Rightarrow> bool" for je r0 where
  cron_refl: "cron_reach je r0 r0"
| cron_more: "cron_reach je r0 r \<Longrightarrow> cron_step je r r' \<Longrightarrow> cron_reach je r0 r'"

interpretation ticking: transition_system "cron_step je" "cron_reach je" for je
  by unfold_locales (rule cron_refl, erule (1) cron_more, erule cron_reach.induct, assumption, blast)

definition cron_start :: "'l cron_source \<Rightarrow> world \<Rightarrow> 'l cron_run" where
  "cron_start s w = \<lparr>cu_src = cron_begin s, cu_world = w, cu_phase = CronRunning, cu_started = 0, cu_sending = 0, cu_late = []\<rparr>"

definition cron_inv :: "'l cron_run \<Rightarrow> bool" where
  "cron_inv r \<longleftrightarrow>
     (cu_phase r \<noteq> CronRunning \<longrightarrow> cn_stopped (cu_src r)) \<and>
     (cu_phase r = CronReturned False \<longrightarrow> cu_started r = 0 \<and> cu_sending r = 0) \<and>
     (cu_late r \<noteq> [] \<longrightarrow> cu_phase r = CronReturned True)"

lemma cron_inv_step: "cron_step je r r' \<Longrightarrow> cron_inv r \<Longrightarrow> cron_inv r'"
proof (induction rule: cron_step.induct)
  case (cron_sends r n s w room ended)
  have "cn_stopped s = cn_stopped (cu_src r)" using cron_sends(2) by (auto simp: cron_send_def)
  moreover have "cu_phase r = CronReturned True" if "returned r"
    using that cron_sends(1,3) by (auto simp: returned_def cron_inv_def split: cron_phase.splits)
  ultimately show ?case using cron_sends by (auto simp: cron_inv_def)
qed (auto simp: cron_inv_def cron_end_def)

text \<open>
  When the cron source has returned in time, it is quiet: no job is running, none will start, and
  nothing was or ever will be sent after it returned. Once \<^verbatim>\<open>stopped\<close> is set, the number of
  jobs that can still send only falls. Only a return at the deadline leaves jobs behind that may send
  later.
\<close>

theorem cron_quiet_after_return:
  assumes "cron_reach je (cron_start s w) r"
  shows "(cu_phase r = CronReturned False \<longrightarrow> \<not> cron_step je r r' \<and> cu_late r = []) \<and>
    (cu_phase r \<noteq> CronRunning \<and> cron_step je r r' \<longrightarrow> cu_sending r' \<le> cu_sending r) \<and>
    (cu_late r \<noteq> [] \<longrightarrow> cu_phase r = CronReturned True)"
proof -
  have "cron_inv (cron_start s w)" by (simp add: cron_inv_def cron_start_def)
  then have I: "cron_inv r" by (rule ticking.invariant [OF assms]) (rule cron_inv_step)
  moreover have "\<not> cron_step je r r'" if "cu_phase r = CronReturned False"
    using I that by (auto simp: cron_inv_def elim!: cron_step.cases)
  moreover have "cu_sending r' \<le> cu_sending r" if "cu_phase r \<noteq> CronRunning" "cron_step je r r'"
    using that(2) I that(1) by (cases rule: cron_step.cases) (auto simp: cron_inv_def)
  ultimately show ?thesis by (auto simp: cron_inv_def)
qed

definition demo_cron :: "unit cron_source" where
  "demo_cron = \<lparr>cn_schedule = ''@hourly'', cn_loc = (), cn_body = '''', cn_stopped = False, cn_out = None\<rparr>"

theorem cron_quiet_after_return_witness:
  "\<exists>r. cron_reach plain_json (cron_start demo_cron demo_world) r \<and> cu_phase r = CronReturned False \<and> cu_late r = []"
proof -
  let ?r0 = "cron_start demo_cron demo_world"
  let ?r1 = "?r0\<lparr>cu_src := cron_end (cu_src ?r0), cu_phase := CronMarked\<rparr>"
  let ?r2 = "?r1\<lparr>cu_phase := CronStopping\<rparr>"
  let ?r3 = "?r2\<lparr>cu_phase := CronReturned False\<rparr>"
  have s: "cron_step plain_json ?r0 ?r1" "cron_step plain_json ?r1 ?r2" "cron_step plain_json ?r2 ?r3"
    by (rule cron_mark cron_stop cron_wait; simp add: cron_start_def)+
  have "cron_reach plain_json ?r0 ?r3"
    by (rule cron_more [OF cron_more [OF cron_more [OF cron_refl s(1)] s(2)] s(3)])
  moreover have "cu_phase ?r3 = CronReturned False" by simp
  ultimately show ?thesis using cron_quiet_after_return by blast
qed

end
