(* ===== verification/Observe.thy ===== *)
theory Observe
  imports Pipeline
begin

text \<open>
  Health, logging and the HTTP servers of \<^verbatim>\<open>internal/observability\<close>, the merging of the
  observability settings of several pipelines, and \<^verbatim>\<open>Pipeline.CheckStages\<close>. The metrics are in
  \<^verbatim>\<open>Metrics\<close>.
\<close>

section \<open>Health\<close>

record stage_health =
  sh_Pipeline :: string
  sh_StageID :: string
  sh_Healthy :: bool
  sh_Message :: string

record health_report =
  hr_Healthy :: bool
  hr_Stages :: "stage_health list"

text \<open>\<^verbatim>\<open>st.HealthCheck\<close> gives whether the stage is healthy, and a message.\<close>

definition CheckStage :: "string \<Rightarrow> string \<Rightarrow> bool \<times> string \<Rightarrow> stage_health" where
  "CheckStage pipeline stageID status =
     \<lparr>sh_Pipeline = pipeline, sh_StageID = stageID, sh_Healthy = fst status, sh_Message = snd status\<rparr>"

definition CheckStages :: "((world, 'x) stage_inst \<Rightarrow> bool \<times> string) \<Rightarrow> ('p, 'x) pipeline \<Rightarrow> stage_health list" where
  "CheckStages check p = map (\<lambda>(sid, st). CheckStage (ir_Name (pl_ir p)) sid (check st)) (pl_stages p)"

text \<open>A pipeline of the checker is its name and what \<^verbatim>\<open>CheckStages\<close> returns.\<close>

fun readiness_loop :: "string \<Rightarrow> (string \<times> stage_health list) list \<Rightarrow> health_report \<Rightarrow> health_report" where
  "readiness_loop flt [] report = report"
| "readiness_loop flt ((name, stages) # rest) report =
     (if flt \<noteq> '''' \<and> name \<noteq> flt then readiness_loop flt rest report
      else readiness_loop flt rest
        (foldl (\<lambda>r s. r\<lparr>hr_Healthy := (if \<not> sh_Healthy s then False else hr_Healthy r), hr_Stages := hr_Stages r @ [s]\<rparr>)
           report stages))"

definition Readiness :: "(string \<times> stage_health list) list \<Rightarrow> string \<Rightarrow> health_report" where
  "Readiness pipelines flt = readiness_loop flt pipelines \<lparr>hr_Healthy = True, hr_Stages = []\<rparr>"

text \<open>The status code of a health response.\<close>

definition writeHealth :: "bool \<Rightarrow> 'b \<Rightarrow> int \<times> 'b" where
  "writeHealth healthy body = (if healthy then 200 else 503, body)"

definition handleReadiness :: "(string \<times> stage_health list) list \<Rightarrow> string \<Rightarrow> int \<times> health_report" where
  "handleReadiness pipelines query =
     (let report = Readiness pipelines (TrimSpace query) in writeHealth (hr_Healthy report) report)"

definition handleLiveness :: "int \<times> string" where
  "handleLiveness = writeHealth True ''alive''"

section \<open>Logging\<close>

text \<open>The levels of \<^verbatim>\<open>log/slog\<close>.\<close>

definition parseLevel :: "string \<Rightarrow> int" where
  "parseLevel s =
     (let l = ToLower (TrimSpace s) in
      if l = ''debug'' then - 4
      else if l = ''warn'' \<or> l = ''warning'' then 4
      else if l = ''error'' then 8
      else 0)"

record logging =
  lo_level :: int
  lo_text :: bool

definition InitLogging :: "logging_config \<Rightarrow> logging" where
  "InitLogging cfg = \<lparr>lo_level = parseLevel (lg_Level cfg), lo_text = (ToLower (lg_Format cfg) = ''text'')\<rparr>"

definition log_Enabled :: "logging \<Rightarrow> int \<Rightarrow> bool" where
  "log_Enabled lo level \<longleftrightarrow> lo_level lo \<le> level"

text \<open>The body of the request is the level it names, when it can be decoded.\<close>

definition handleLogLevel :: "string \<Rightarrow> string res \<Rightarrow> logging \<Rightarrow> (int \<times> string) \<times> logging" where
  "handleLogLevel verb body lo =
     (if verb \<noteq> ''PUT'' then ((405, ''method not allowed''), lo)
      else
        (case body of
           Inl err \<Rightarrow> ((400, ''invalid json''), lo)
         | Inr level \<Rightarrow> (writeHealth True level, lo\<lparr>lo_level := parseLevel level\<rparr>)))"

section \<open>The servers\<close>

datatype route_handler = HMetrics | HLiveness | HReadiness | HLogLevel | HAdmin

text \<open>\<^verbatim>\<open>ServeMux.Handle\<close> panics for a pattern without a slash and for one it already has.\<close>

definition mux_handle :: "string \<times> route_handler \<Rightarrow> (string \<times> route_handler) list \<Rightarrow> (string \<times> route_handler) list res" where
  "mux_handle entry mux =
     (if CHR ''/'' \<notin> set (fst entry) then Inl (Err ''panic: parsing %q: missing /'' [fst entry])
      else if map_of mux (fst entry) \<noteq> None then Inl (Err ''panic: pattern %q conflicts'' [fst entry])
      else Inr (mux @ [entry]))"

definition mux_all :: "(string \<times> route_handler) list \<Rightarrow> (string \<times> route_handler) list \<Rightarrow> (string \<times> route_handler) list res" where
  "mux_all mux entries = rfold (\<lambda>m e. mux_handle e m) mux entries"

record obs_server =
  os_cfg :: observability_config
  os_metricsMux :: "(string \<times> route_handler) list"
  os_healthMux :: "(string \<times> route_handler) list"
  os_metricsSrv :: "int option"
  os_healthSrv :: "int option"
  os_logging :: "logging option"

definition NewServer :: "observability_config \<Rightarrow> obs_server res" where
  "NewServer cfg0 =
     (let cfg = ApplyObservabilityDefaults cfg0 in
      case mux_all [] ((if mt_Enabled (ob_Metrics cfg) then [(mt_Path (ob_Metrics cfg), HMetrics)] else []) @ [(''/admin/'', HAdmin)]) of
        Inl err \<Rightarrow> Inl err
      | Inr mm \<Rightarrow>
          (case mux_all [] [(hc_Liveness (ob_Health cfg), HLiveness), (hc_Readiness (ob_Health cfg), HReadiness),
                            (''/debug/loglevel'', HLogLevel), (''/admin/'', HAdmin)] of
             Inl err \<Rightarrow> Inl err
           | Inr hm \<Rightarrow> Inr \<lparr>os_cfg = cfg, os_metricsMux = mm, os_healthMux = hm, os_metricsSrv = None, os_healthSrv = None,
                              os_logging = None\<rparr>))"

definition server_Start :: "obs_server \<Rightarrow> obs_server res" where
  "server_Start s0 =
     (let cfg = os_cfg s0; m = ob_Metrics cfg; h = ob_Health cfg;
          s = s0\<lparr>os_logging := Some (InitLogging (ob_Logging cfg))\<rparr> in
      case (if mt_Enabled m
            then map_sum id (\<lambda>mux. s\<lparr>os_metricsMux := mux, os_metricsSrv := Some (mt_Port m)\<rparr>)
                   (mux_all (os_metricsMux s) [(hc_Liveness h, HLiveness), (hc_Readiness h, HReadiness), (''/debug/loglevel'', HLogLevel)])
            else Inr s) of
        Inl err \<Rightarrow> Inl err
      | Inr s1 \<Rightarrow>
          Inr (if (hc_Enabled h \<or> mt_Enabled m) \<and> hc_Port h \<noteq> mt_Port m then s1\<lparr>os_healthSrv := Some (hc_Port h)\<rparr> else s1))"

text \<open>What answers a path on a port.\<close>

definition serves :: "obs_server \<Rightarrow> int \<Rightarrow> string \<Rightarrow> route_handler option" where
  "serves s port path =
     (if os_metricsSrv s = Some port then map_of (os_metricsMux s) path
      else if os_healthSrv s = Some port then map_of (os_healthMux s) path else None)"

section \<open>The checker and the end of the servers\<close>

text \<open>A checker keeps the pipelines it asks; \<^verbatim>\<open>SetPipelines\<close> of a server without one does nothing.\<close>

record checker =
  ch_pipelines :: "(string \<times> stage_health list) list"

definition NewChecker :: "(string \<times> stage_health list) list \<Rightarrow> checker" where
  "NewChecker pipes = \<lparr>ch_pipelines = pipes\<rparr>"

definition checker_SetPipelines :: "(string \<times> stage_health list) list \<Rightarrow> checker \<Rightarrow> checker" where
  "checker_SetPipelines pipes c = c\<lparr>ch_pipelines := pipes\<rparr>"

definition server_SetPipelines :: "(string \<times> stage_health list) list \<Rightarrow> checker option \<Rightarrow> checker option" where
  "server_SetPipelines pipes co = map_option (checker_SetPipelines pipes) co"

text \<open>
  \<^verbatim>\<open>Stop\<close> with what \<^verbatim>\<open>Shutdown\<close> of the server of a port returns: the error, and the
  ports that were shut down, in order.
\<close>

definition server_Stop :: "(int \<Rightarrow> goerr option) \<Rightarrow> obs_server \<Rightarrow> goerr option \<times> int list" where
  "server_Stop shutdown s =
     (let (e1, ps1) = (case os_metricsSrv s of None \<Rightarrow> (None, []) | Some port \<Rightarrow> (shutdown port, [port])) in
      case os_healthSrv s of
        None \<Rightarrow> (e1, ps1)
      | Some port \<Rightarrow> (if shutdown port \<noteq> None \<and> e1 = None then shutdown port else e1, ps1 @ [port]))"

definition StopObservability_server :: "(int \<Rightarrow> goerr option) \<Rightarrow> obs_server option \<Rightarrow> goerr option \<times> int list" where
  "StopObservability_server shutdown obs = (case obs of None \<Rightarrow> (None, []) | Some s \<Rightarrow> server_Stop shutdown s)"

lemma readiness_after_reload:
  "server_SetPipelines pipes (Some c) = Some c' \<Longrightarrow> handleReadiness (ch_pipelines c') query = handleReadiness pipes query"
  by (auto simp: server_SetPipelines_def checker_SetPipelines_def)

text \<open>Every port that serves something is shut down, and an error of the first does not keep the second.\<close>

lemma server_Stop_ports:
  "server_Stop shutdown s = (err, ports) \<Longrightarrow>
     (serves s port path \<noteq> None \<longrightarrow> port \<in> set ports) \<and> (err = None \<longleftrightarrow> (\<forall>port \<in> set ports. shutdown port = None))"
  by (auto simp: server_Stop_def serves_def split: option.splits if_splits)

section \<open>Merging the settings of the pipelines\<close>

definition merge_step :: "observability_config \<Rightarrow> observability_config \<Rightarrow> observability_config" where
  "merge_step merged obs =
     \<lparr>ob_Metrics = (ob_Metrics merged)
        \<lparr>mt_Enabled := (if mt_Enabled (ob_Metrics obs) then True else mt_Enabled (ob_Metrics merged)),
         mt_Port := (if mt_Port (ob_Metrics obs) \<noteq> 0 then mt_Port (ob_Metrics obs) else mt_Port (ob_Metrics merged)),
         mt_Path := (if mt_Path (ob_Metrics obs) \<noteq> '''' then mt_Path (ob_Metrics obs) else mt_Path (ob_Metrics merged))\<rparr>,
      ob_Health = (ob_Health merged)
        \<lparr>hc_Enabled := (if hc_Enabled (ob_Health obs) then True else hc_Enabled (ob_Health merged)),
         hc_Port := (if hc_Port (ob_Health obs) \<noteq> 0 then hc_Port (ob_Health obs) else hc_Port (ob_Health merged))\<rparr>,
      ob_Logging = (ob_Logging merged)
        \<lparr>lg_Level := (if lg_Level (ob_Logging obs) \<noteq> '''' then lg_Level (ob_Logging obs) else lg_Level (ob_Logging merged)),
         lg_Format := (if lg_Format (ob_Logging obs) \<noteq> '''' then lg_Format (ob_Logging obs) else lg_Format (ob_Logging merged))\<rparr>\<rparr>"

definition MergeObservability :: "observability_config list \<Rightarrow> observability_config" where
  "MergeObservability cfgs =
     (let merged = foldl merge_step zero_observability cfgs;
          m = ob_Metrics merged in
      ApplyObservabilityDefaults
        (if \<not> mt_Enabled m \<and> mt_Port m = 0 then merged\<lparr>ob_Metrics := m\<lparr>mt_Enabled := True\<rparr>\<rparr> else merged))"

section \<open>Readiness\<close>

lemma report_fold:
  "foldl (\<lambda>r s. r\<lparr>hr_Healthy := (if \<not> sh_Healthy s then False else hr_Healthy r), hr_Stages := hr_Stages r @ [s]\<rparr>) r ss =
     \<lparr>hr_Healthy = (hr_Healthy r \<and> list_all sh_Healthy ss), hr_Stages = hr_Stages r @ ss\<rparr>"
  by (induction ss arbitrary: r) auto

lemma readiness_loop_report:
  "readiness_loop flt ps r =
     (let ss = concat (map snd (filter (\<lambda>(name, _). flt = '''' \<or> name = flt) ps)) in
      \<lparr>hr_Healthy = (hr_Healthy r \<and> list_all sh_Healthy ss), hr_Stages = hr_Stages r @ ss\<rparr>)"
proof (induction ps arbitrary: r)
  case (Cons p ps)
  obtain name ss where p: "p = (name, ss)" by (cases p)
  show ?case
  proof (cases "flt = '''' \<or> name = flt")
    case True
    then have "\<not> (flt \<noteq> '''' \<and> name \<noteq> flt)" by blast
    then have "readiness_loop flt (p # ps) r = readiness_loop flt ps
        \<lparr>hr_Healthy = (hr_Healthy r \<and> list_all sh_Healthy ss), hr_Stages = hr_Stages r @ ss\<rparr>"
      unfolding p readiness_loop.simps report_fold by (rule if_not_P)
    then show ?thesis using True by (simp add: Cons.IH p Let_def)
  next
    case False
    then show ?thesis using Cons.IH [of r] by (simp add: p Let_def)
  qed
qed simp

text \<open>
  The readiness endpoint answers 200 exactly when every stage of the pipelines it looks at is
  healthy, and 503 otherwise, and lists those stages in order: all of them without a filter, and
  with one those of the pipelines of that name. A name that no pipeline has is therefore reported
  as ready, with no stages.
\<close>

theorem handleReadiness_exact:
  "handleReadiness pipelines query =
     (let flt = TrimSpace query;
          stages = concat (map snd (filter (\<lambda>(name, _). flt = '''' \<or> name = flt) pipelines)) in
      (if \<forall>s \<in> set stages. sh_Healthy s then 200 else 503,
       \<lparr>hr_Healthy = (\<forall>s \<in> set stages. sh_Healthy s), hr_Stages = stages\<rparr>)) \<and>
   (TrimSpace query \<notin> insert '''' (fst ` set pipelines) \<longrightarrow>
      handleReadiness pipelines query = (200, \<lparr>hr_Healthy = True, hr_Stages = []\<rparr>))"
proof -
  have "filter (\<lambda>(name, _). flt = '''' \<or> name = flt) pipelines = []" if "flt \<notin> insert '''' (fst ` set pipelines)" for flt
    using that by (force simp: filter_empty_conv)
  then show ?thesis
    by (simp add: handleReadiness_def Readiness_def readiness_loop_report writeHealth_def Let_def list_all_iff)
qed

section \<open>What is served\<close>

lemma ApplyObservabilityDefaults_id:
  "ApplyObservabilityDefaults (ApplyObservabilityDefaults obs) = ApplyObservabilityDefaults obs"
  by (simp add: ApplyObservabilityDefaults_def Let_def)

lemma mux_handle_Inr:
  "mux_handle e mux = Inr mux' \<longleftrightarrow> CHR ''/'' \<in> set (fst e) \<and> fst e \<notin> fst ` set mux \<and> mux' = mux @ [e]"
  by (auto simp: mux_handle_def map_of_eq_None_iff)

lemma mux_all_Inr:
  "mux_all mux es = Inr mux' \<Longrightarrow> distinct (map fst mux) \<Longrightarrow> mux' = mux @ es \<and> distinct (map fst (mux @ es))"
proof (induction es arbitrary: mux)
  case (Cons e es)
  then obtain m1 where m1: "mux_handle e mux = Inr m1" "mux_all m1 es = Inr mux'"
    by (auto simp: mux_all_def split: sum.splits)
  then have "m1 = mux @ [e]" "fst e \<notin> fst ` set mux" by (simp_all add: mux_handle_Inr)
  then show ?case using Cons.IH [OF m1(2)] Cons.prems(2) by simp
qed (simp add: mux_all_def)

text \<open>
  What the observability server serves once it has started. The metrics path is served exactly
  when metrics are enabled. Readiness is served on the metrics port when metrics are enabled, and
  on the health port when health or metrics are enabled and the two ports differ. So health that is
  enabled without metrics, on the port that metrics would have, is not served at all.
\<close>

theorem server_serves:
  assumes "NewServer cfg0 = Inr s0" and "server_Start s0 = Inr s" and "cfg = ApplyObservabilityDefaults cfg0"
  shows "(os_metricsSrv s = Some port \<longleftrightarrow> mt_Enabled (ob_Metrics cfg) \<and> port = mt_Port (ob_Metrics cfg)) \<and>
    (os_healthSrv s = Some port \<longleftrightarrow> (hc_Enabled (ob_Health cfg) \<or> mt_Enabled (ob_Metrics cfg)) \<and>
       port = hc_Port (ob_Health cfg) \<and> port \<noteq> mt_Port (ob_Metrics cfg)) \<and>
    (serves s port (mt_Path (ob_Metrics cfg)) = Some HMetrics \<longleftrightarrow>
       mt_Enabled (ob_Metrics cfg) \<and> port = mt_Port (ob_Metrics cfg)) \<and>
    (serves s port (hc_Readiness (ob_Health cfg)) = Some HReadiness \<longleftrightarrow>
       mt_Enabled (ob_Metrics cfg) \<and> port \<in> {mt_Port (ob_Metrics cfg), hc_Port (ob_Health cfg)} \<or>
       hc_Enabled (ob_Health cfg) \<and> port = hc_Port (ob_Health cfg) \<and> port \<noteq> mt_Port (ob_Metrics cfg)) \<and>
    (hc_Enabled (ob_Health cfg) \<and> \<not> mt_Enabled (ob_Metrics cfg) \<and> hc_Port (ob_Health cfg) = mt_Port (ob_Metrics cfg) \<longrightarrow>
       (\<forall>port path. serves s port path = None))"
proof -
  define m where "m = ob_Metrics cfg"
  define h where "h = ob_Health cfg"
  let ?hm = "[(hc_Liveness h, HLiveness), (hc_Readiness h, HReadiness), (''/debug/loglevel'', HLogLevel), (''/admin/'', HAdmin)]"
  let ?mm = "(if mt_Enabled m then [(mt_Path m, HMetrics)] else []) @ [(''/admin/'', HAdmin)]"
  obtain hm mm where mux: "mux_all [] ?mm = Inr mm" "mux_all [] ?hm = Inr hm"
    and s0: "s0 = \<lparr>os_cfg = cfg, os_metricsMux = mm, os_healthMux = hm, os_metricsSrv = None, os_healthSrv = None,
      os_logging = None\<rparr>"
    using assms(1) unfolding NewServer_def assms(3) [symmetric] m_def h_def Let_def by (auto split: sum.splits)
  have mm: "mm = ?mm" and hm: "hm = ?hm" "distinct (map fst ?hm)"
    using mux_all_Inr [OF mux(1)] mux_all_Inr [OF mux(2)] by simp_all
  show ?thesis
  proof (cases "mt_Enabled m")
    case True
    let ?new = "[(hc_Liveness h, HLiveness), (hc_Readiness h, HReadiness), (''/debug/loglevel'', HLogLevel)]"
    obtain mux where mux: "mux_all mm ?new = Inr mux"
      and s: "s = (let s0 = s0\<lparr>os_logging := Some (InitLogging (ob_Logging cfg))\<rparr> in if hc_Port h \<noteq> mt_Port m then s0\<lparr>os_metricsMux := mux, os_metricsSrv := Some (mt_Port m), os_healthSrv := Some (hc_Port h)\<rparr>
                   else s0\<lparr>os_metricsMux := mux, os_metricsSrv := Some (mt_Port m)\<rparr>)"
      using assms(2) True unfolding server_Start_def s0 by (cases "mux_all mm ?new") (auto simp: Let_def m_def h_def)
    have d: "distinct (map fst mm)" using mux_all_Inr [OF \<open>mux_all [] ?mm = Inr mm\<close>] by simp
    have M: "mux = mm @ ?new" "distinct (map fst (mm @ ?new))" using mux_all_Inr [OF mux d] by simp_all
    have "mt_Path m \<noteq> ''/admin/'' \<and> mt_Path m \<noteq> hc_Readiness h \<and> hc_Readiness h \<noteq> hc_Liveness h \<and> hc_Readiness h \<noteq> ''/admin/''"
      using M(2) mm True by auto
    then show ?thesis
      unfolding m_def [symmetric] h_def [symmetric] s Let_def serves_def M(1) mm using True hm by (auto simp: s0)
  next
    case False
    then have s: "s = (let s0 = s0\<lparr>os_logging := Some (InitLogging (ob_Logging cfg))\<rparr> in if hc_Enabled h \<and> hc_Port h \<noteq> mt_Port m then s0\<lparr>os_healthSrv := Some (hc_Port h)\<rparr> else s0)"
      using assms(2) unfolding server_Start_def s0 by (auto simp: Let_def m_def h_def)
    show ?thesis
      unfolding m_def [symmetric] h_def [symmetric] s Let_def serves_def using False hm by (auto simp: s0)
  qed
qed

section \<open>Merging\<close>

definition last_nonzero :: "int list \<Rightarrow> int" where
  "last_nonzero xs = foldl (\<lambda>a x. if x \<noteq> 0 then x else a) 0 xs"

lemma merge_fold:
  "let o' = foldl merge_step o0 cfgs in
     mt_Enabled (ob_Metrics o') = (mt_Enabled (ob_Metrics o0) \<or> (\<exists>c \<in> set cfgs. mt_Enabled (ob_Metrics c))) \<and>
     mt_Port (ob_Metrics o') = foldl (\<lambda>a x. if x \<noteq> 0 then x else a) (mt_Port (ob_Metrics o0)) (map (mt_Port \<circ> ob_Metrics) cfgs) \<and>
     hc_Enabled (ob_Health o') = (hc_Enabled (ob_Health o0) \<or> (\<exists>c \<in> set cfgs. hc_Enabled (ob_Health c))) \<and>
     hc_Port (ob_Health o') = foldl (\<lambda>a x. if x \<noteq> 0 then x else a) (hc_Port (ob_Health o0)) (map (hc_Port \<circ> ob_Health) cfgs) \<and>
     hc_Liveness (ob_Health o') = hc_Liveness (ob_Health o0) \<and> hc_Readiness (ob_Health o') = hc_Readiness (ob_Health o0)"
  by (induction cfgs arbitrary: o0) (auto simp: Let_def merge_step_def)

text \<open>
  The settings that \<^verbatim>\<open>run\<close> starts the server with. A port is the last one that a
  pipeline configures, or the default; metrics are enabled when some pipeline enables them or none
  configures a port; health when some pipeline enables it. The liveness and readiness paths are
  always the defaults: what the pipelines configure for them is ignored.
\<close>

theorem MergeObservability_exact:
  "let merged = MergeObservability cfgs; mport = last_nonzero (map (mt_Port \<circ> ob_Metrics) cfgs);
       hport = last_nonzero (map (hc_Port \<circ> ob_Health) cfgs) in
     mt_Enabled (ob_Metrics merged) = ((\<exists>c \<in> set cfgs. mt_Enabled (ob_Metrics c)) \<or> mport = 0) \<and>
     mt_Port (ob_Metrics merged) = (if mport = 0 then 9090 else mport) \<and>
     hc_Enabled (ob_Health merged) = (\<exists>c \<in> set cfgs. hc_Enabled (ob_Health c)) \<and>
     hc_Port (ob_Health merged) = (if hport = 0 then 8080 else hport) \<and>
     hc_Liveness (ob_Health merged) = ''/live'' \<and> hc_Readiness (ob_Health merged) = ''/ready''"
  using merge_fold [of zero_observability cfgs]
  by (simp add: MergeObservability_def Let_def ApplyObservabilityDefaults_def last_nonzero_def zero_observability_def)

section \<open>Witnesses\<close>

text \<open>Health alone, on the default port of metrics.\<close>

definition unserved_cfg :: observability_config where
  "unserved_cfg = zero_observability\<lparr>ob_Health := \<lparr>hc_Enabled = True, hc_Port = 9090, hc_Liveness = '''', hc_Readiness = ''''\<rparr>\<rparr>"

theorem server_serves_witness:
  "\<exists>s0 s. NewServer unserved_cfg = Inr s0 \<and> server_Start s0 = Inr s \<and> serves s 9090 ''/ready'' = None"
proof -
  have "is_ok (NewServer unserved_cfg) \<and> is_ok (server_Start (projr (NewServer unserved_cfg)))" by code_simp
  then obtain s0 s where s: "NewServer unserved_cfg = Inr s0" "server_Start s0 = Inr s" by (auto simp: is_ok_iff)
  have "hc_Enabled (ob_Health (ApplyObservabilityDefaults unserved_cfg)) \<and>
      \<not> mt_Enabled (ob_Metrics (ApplyObservabilityDefaults unserved_cfg)) \<and>
      hc_Port (ob_Health (ApplyObservabilityDefaults unserved_cfg)) = mt_Port (ob_Metrics (ApplyObservabilityDefaults unserved_cfg))"
    by (simp add: unserved_cfg_def ApplyObservabilityDefaults_def zero_observability_def)
  then show ?thesis using server_serves [OF s refl, of 9090] s by blast
qed

theorem handleReadiness_exact_witness:
  "handleReadiness [(''p'', [CheckStage ''p'' ''s'' (False, ''down'')])] ''q'' = (200, \<lparr>hr_Healthy = True, hr_Stages = []\<rparr>)"
  using handleReadiness_exact [of "[(''p'', [CheckStage ''p'' ''s'' (False, ''down'')])]" "''q''"]
  by (simp add: TrimSpace_def is_space_def)

end
