(* ===== verification/Logs.thy ===== *)
theory Logs
  imports Observe
begin

text \<open>
  The log handlers of \<^verbatim>\<open>internal/observability/log.go\<close>: which records are written, the
  JSON line of one, and the attributes of a derived logger. The text of a time is an argument, and
  so is the text handler of \<^verbatim>\<open>log/slog\<close>.
\<close>

section \<open>Records\<close>

record slog_record =
  sl_time :: string
  sl_level :: int
  sl_msg :: string
  sl_attrs :: "(string \<times> gval) list"

text \<open>\<^verbatim>\<open>slog.Level.String\<close>.\<close>

definition level_text :: "string \<Rightarrow> int \<Rightarrow> string" where
  "level_text base val = (if val = 0 then base else base @ (if val < 0 then Itoa val else ''+'' @ Itoa val))"

definition level_string :: "int \<Rightarrow> string" where
  "level_string l =
     (if l < 0 then level_text ''DEBUG'' (l + 4)
      else if l < 4 then level_text ''INFO'' l
      else if l < 8 then level_text ''WARN'' (l - 4)
      else level_text ''ERROR'' (l - 8))"

section \<open>Handlers\<close>

text \<open>\<^verbatim>\<open>jsonDynamicHandler.Handle\<close>: the map of attributes, and the line that is written.\<close>

definition log_attrs :: "slog_record \<Rightarrow> gmap" where
  "log_attrs r =
     foldl (\<lambda>m (k, v). AList.update k v m)
       [(''time'', GStr (sl_time r)), (''level'', GStr (level_string (sl_level r))), (''msg'', GStr (sl_msg r))] (sl_attrs r)"

definition json_Handle :: "(gfloat \<Rightarrow> string) \<Rightarrow> slog_record \<Rightarrow> string" where
  "json_Handle ff r = marshal ff (GMap (log_attrs r)) @ [CHR 0x0A]"

text \<open>A handler writes JSON, or the text form of a record; both look at the current level.\<close>

definition handler_Handle :: "(gfloat \<Rightarrow> string) \<Rightarrow> (slog_record \<Rightarrow> string) \<Rightarrow> logging \<Rightarrow> slog_record \<Rightarrow> string" where
  "handler_Handle ff as_text lo r = (if lo_text lo then as_text r else json_Handle ff r)"

text \<open>
  \<^verbatim>\<open>WithAttrs\<close> and \<^verbatim>\<open>WithGroup\<close> of the JSON handler return the handler itself, so
  the attributes of a derived logger reach no record.
\<close>

definition json_WithAttrs :: "(string \<times> gval) list \<Rightarrow> (slog_record \<Rightarrow> string) \<Rightarrow> slog_record \<Rightarrow> string" where
  "json_WithAttrs attrs h = h"

definition json_WithGroup :: "string \<Rightarrow> (slog_record \<Rightarrow> string) \<Rightarrow> slog_record \<Rightarrow> string" where
  "json_WithGroup name h = h"

text \<open>A call of the logger: the handler is asked whether the level is enabled, then given the record.\<close>

definition log_call :: "(gfloat \<Rightarrow> string) \<Rightarrow> (slog_record \<Rightarrow> string) \<Rightarrow> logging \<Rightarrow> slog_record \<Rightarrow> string list" where
  "log_call ff as_text lo r = (if log_Enabled lo (sl_level r) then [handler_Handle ff as_text lo r] else [])"

section \<open>What a line holds\<close>

lemma log_attrs_keys: "distinct (map fst (log_attrs r))"
proof -
  have "distinct (map fst m) \<Longrightarrow> distinct (map fst (foldl (\<lambda>m (k, v). AList.update k v m) m as))" for m :: gmap and as
    by (induction as arbitrary: m) (auto simp: distinct_update)
  then show ?thesis by (simp add: log_attrs_def)
qed

lemma log_attrs_lookup:
  "map_of (log_attrs r) k =
     (case map_of (rev (sl_attrs r)) k of
        Some v \<Rightarrow> Some v
      | None \<Rightarrow> map_of [(''time'', GStr (sl_time r)), (''level'', GStr (level_string (sl_level r))), (''msg'', GStr (sl_msg r))] k)"
proof -
  have "map_of (foldl (\<lambda>m (k, v). AList.update k v m) m as) k = (case map_of (rev as) k of Some v \<Rightarrow> Some v | None \<Rightarrow> map_of m k)"
    for m :: gmap and as
    by (induction as arbitrary: m) (auto simp: map_add_def split: option.splits)
  then show ?thesis by (simp add: log_attrs_def)
qed

lemma log_attrs_values: "v \<in> snd ` set (log_attrs r) \<Longrightarrow>
   v \<in> snd ` set (sl_attrs r) \<union> {GStr (sl_time r), GStr (level_string (sl_level r)), GStr (sl_msg r)}"
proof -
  assume "v \<in> snd ` set (log_attrs r)"
  then obtain k where "(k, v) \<in> set (log_attrs r)" by auto
  then have "map_of (log_attrs r) k = Some v" using log_attrs_keys by simp
  then show ?thesis unfolding log_attrs_lookup
    by (auto simp: image_iff split: option.splits if_splits dest!: map_of_SomeD) (metis snd_conv)
qed

text \<open>
  A line is one JSON object with a newline behind it. Reading it back gives the time, the level and
  the message of the record, and its attributes; but an attribute named \<^verbatim>\<open>time\<close>,
  \<^verbatim>\<open>level\<close> or \<^verbatim>\<open>msg\<close> replaces the record's own, the last of two attributes of a
  name wins, and attributes given to a derived logger are lost.
\<close>

theorem log_line_exact:
  assumes "\<forall>v \<in> snd ` set (sl_attrs r). json_ok ff pf v"
  shows "unmarshal pf (butlast (json_Handle ff r)) = Inr (json_norm (GMap (log_attrs r))) \<and>
    last (json_Handle ff r) = CHR 0x0A \<and>
    map_of (log_attrs r) ''msg'' = Some (case map_of (rev (sl_attrs r)) ''msg'' of Some v \<Rightarrow> v | None \<Rightarrow> GStr (sl_msg r)) \<and>
    json_WithAttrs attrs (json_Handle ff) r = json_Handle ff r"
proof -
  have "json_ok ff pf v" if "(k, v) \<in> set (log_attrs r)" for k v
  proof -
    have "v \<in> snd ` set (log_attrs r)" using that by force
    from log_attrs_values [OF this] show ?thesis using assms by auto
  qed
  then have "json_ok ff pf (GMap (log_attrs r))" using log_attrs_keys by (auto simp: list_all_iff)
  from unmarshal_marshal [OF this] show ?thesis
    by (simp add: json_Handle_def json_WithAttrs_def log_attrs_lookup del: marshal.simps json_norm.simps split: option.splits)
qed

theorem log_line_exact_witness:
  "map_of (log_attrs \<lparr>sl_time = ''t'', sl_level = 0, sl_msg = ''started'', sl_attrs = [(''msg'', GStr ''other'')]\<rparr>) ''msg''
     = Some (GStr ''other'')"
proof -
  let ?r = "\<lparr>sl_time = ''t'', sl_level = 0, sl_msg = ''started'', sl_attrs = [(''msg'', GStr ''other'')]\<rparr>"
  have "\<forall>v \<in> snd ` set (sl_attrs ?r). json_ok (\<lambda>_. ''0'') (\<lambda>_. None) v" by simp
  from log_line_exact [OF this] show ?thesis by simp
qed

text \<open>What the level decides: nothing below it is written, and a change of the level holds for all loggers at once.\<close>

lemma log_call_level:
  "log_call ff as_text lo r = [] \<longleftrightarrow> sl_level r < lo_level lo"
  "handleLogLevel ''PUT'' (Inr name) lo = (ans, lo') \<Longrightarrow>
     log_call ff as_text lo' r = [] \<longleftrightarrow> sl_level r < parseLevel name"
  by (auto simp: log_call_def log_Enabled_def handleLogLevel_def)

end
