(* ===== verification/CelEnv.thy ===== *)
theory CelEnv
  imports Plugins
begin

text \<open>
  What \<^verbatim>\<open>internal/eql\<close> tells the CEL library: the declarations of \<^verbatim>\<open>NewEnv\<close> and
  the bindings of an evaluation, as data. A CEL library is a function from such an environment to
  the compiler and evaluator that \<^verbatim>\<open>Eql\<close> takes as its argument.
\<close>

section \<open>The environment\<close>

datatype cel_type = CDyn | CString | CTimestamp | CMapOf cel_type cel_type

record cel_env =
  cn_vars :: "(string \<times> cel_type) list"
  cn_functions :: "(string \<times> cel_type list \<times> cel_type) list"

definition NewEnv :: cel_env where
  "NewEnv =
     \<lparr>cn_vars = [(''payload'', CDyn), (''metadata'', CMapOf CString CDyn), (''input'', CDyn)],
      cn_functions = [(''now'', [], CTimestamp)]\<rparr>"

definition eql_library :: "(cel_env \<Rightarrow> 'e cel) \<Rightarrow> 'e cel" where
  "eql_library lib = lib NewEnv"

section \<open>The bindings\<close>

text \<open>A bound value is a dynamic one, or a map from strings to dynamic values.\<close>

datatype binding = BoundValue jv | BoundMap gmap

fun has_type :: "cel_type \<Rightarrow> binding \<Rightarrow> bool" where
  "has_type CDyn _ = True"
| "has_type (CMapOf CString CDyn) (BoundMap _) = True"
| "has_type _ _ = False"

definition bindings :: "eval_ctx \<Rightarrow> world \<Rightarrow> (string \<times> binding) list" where
  "bindings ctx w =
     [(''payload'', BoundValue (ec_Payload ctx)),
      (''metadata'', BoundMap (ms_Metadata (wd_msgs w (ec_Msg ctx)))),
      (''input'', BoundValue (ec_Input ctx))]"

definition eval_bindings :: "'e cel \<Rightarrow> 'e \<Rightarrow> (string \<times> binding) list \<Rightarrow> goheap \<Rightarrow> (jv \<times> goheap) res" where
  "eval_bindings cl e bs h =
     (case (map_of bs ''payload'', map_of bs ''metadata'', map_of bs ''input'') of
        (Some (BoundValue payload), Some (BoundMap md), Some (BoundValue input)) \<Rightarrow> cl_Eval cl e payload md input h
      | _ \<Rightarrow> Inl (Err ''no such attribute'' []))"

lemma eval_uses_bindings: "eval cl e ctx w = eval_bindings cl e (bindings ctx w) (wd_heap w)"
  by (simp add: eval_def eval_bindings_def bindings_def)

text \<open>
  Every evaluation binds the declared variables, each once and with a value of its declared type:
  no expression that the environment accepts meets an unbound name.
\<close>

lemma bindings_declared:
  "list_all2 (\<lambda>(x, t) (y, b). x = y \<and> has_type t b) (cn_vars NewEnv) (bindings ctx w) \<and>
   distinct (map fst (bindings ctx w))"
  by (simp add: NewEnv_def bindings_def)

end
