(* ===== verification/Runner.thy ===== *)
theory Runner
  imports Reload Plugins
begin

text \<open>
  The command line (\<^verbatim>\<open>cmd/eventr/main.go\<close>): how \<^verbatim>\<open>run\<close> and
  \<^verbatim>\<open>validate\<close> load pipelines, and the test runner of \<^verbatim>\<open>internal/testrunner\<close>
  with its stages of \<^verbatim>\<open>internal/testutil\<close>. The flags and the exit codes are in \<^verbatim>\<open>Command\<close>.
\<close>

section \<open>Loading the configurations\<close>

text \<open>The directory listing, whether a path exists, and the rest of the loader's environment.\<close>

record cli_env =
  cl_loader :: loader_env
  cl_ReadDir :: "string \<Rightarrow> (string \<times> bool) list res"
  cl_exists :: "string \<Rightarrow> bool"

definition config_path :: "cli_env \<Rightarrow> string \<Rightarrow> pipeline_config \<Rightarrow> string" where
  "config_path ce dir cfg =
     (case filter (cl_exists ce) (map (\<lambda>ext. Join dir (PipelineName cfg @ ext)) [''.yaml'', ''.yml'', ''.conf'', ''.hocon'']) of
        [] \<Rightarrow> ''''
      | candidate # _ \<Rightarrow> candidate)"

definition loadConfigsWithPaths ::
  "cli_env \<Rightarrow> string \<Rightarrow> string \<Rightarrow> string \<Rightarrow> (pipeline_config \<times> string) list res" where
  "loadConfigsWithPaths ce path dir fmt =
     (let le = cl_loader ce in
      if path \<noteq> '''' then
        (if fmt \<noteq> '''' then
           (case DetectFormat path fmt of
              Inl err \<Rightarrow> Inl err
            | Inr FormatYAML \<Rightarrow> map_sum id (\<lambda>cfg. [(cfg, path)]) (LoadYAML le path)
            | Inr FormatHOCON \<Rightarrow> map_sum id (\<lambda>cfg. [(cfg, path)]) (LoadHOCON (le_FormatFloat le) (le_ParseHOCON le path)))
         else map_sum id (\<lambda>cfg. [(cfg, path)]) (LoadFile le path))
      else if dir \<noteq> '''' then
        map_sum id (map (\<lambda>cfg. (cfg, config_path ce dir cfg))) (LoadDir le dir (cl_ReadDir ce dir))
      else Inl (Err ''either --config or --config-dir is required'' []))"

text \<open>The loop of \<^verbatim>\<open>run\<close>; an error ends the program.\<close>

fun load_all ::
  "('p, 'x) engine_env \<Rightarrow> (pipeline_config \<times> string) list \<Rightarrow> ('p, 'x) eventr_engine \<Rightarrow> ('p, 'x) eventr_engine res" where
  "load_all env [] e = Inr e"
| "load_all env ((cfg, path) # rest) e =
     (case FromConfig (ge_orders env) cfg of
        Inl err \<Rightarrow> Inl err
      | Inr ir \<Rightarrow>
          (case engine_Load env ir e of
             (Some err, e1) \<Rightarrow> Inl err
           | (None, e1) \<Rightarrow> load_all env rest (if path \<noteq> '''' then SetConfigPath (ir_Name ir) path e1 else e1)))"

text \<open>\<^verbatim>\<open>validate\<close>: the error that ends the program, or the lines it prints.\<close>

fun validate_all :: "map_orders \<Rightarrow> pipeline_config list \<Rightarrow> (string \<times> nat \<times> nat) list res" where
  "validate_all ord [] = Inr []"
| "validate_all ord (cfg # rest) =
     (case FromConfig ord cfg of
        Inl err \<Rightarrow> Inl err
      | Inr ir \<Rightarrow> map_sum id (\<lambda>ls. (ir_Name ir, length (ir_Stages ir), length (ir_Edges ir)) # ls) (validate_all ord rest))"

text \<open>The suites of \<^verbatim>\<open>test\<close>.\<close>

definition test_files :: "cli_env \<Rightarrow> string \<Rightarrow> string \<Rightarrow> string list res" where
  "test_files ce path dir =
     (let found = (if path \<noteq> '''' then Inr [path]
          else if dir \<noteq> '''' then
            map_sum id (\<lambda>entries. map (\<lambda>(name, _). Join dir name)
               (filter (\<lambda>(name, is_dir). \<not> is_dir \<and> (Ext name = ''.yaml'' \<or> Ext name = ''.yml'')) entries)) (cl_ReadDir ce dir)
          else Inl (Err ''either --config or --dir is required'' [])) in
      case found of Inr [] \<Rightarrow> Inl (Err ''no test files found'' []) | r \<Rightarrow> r)"

text \<open>
  The commands \<^verbatim>\<open>run\<close>, up to the moment when the engine runs, and \<^verbatim>\<open>validate\<close>:
  the error they end with, or the engine and the lines printed.
\<close>

definition runCmd ::
  "('p, 'x) engine_env \<Rightarrow> cli_env \<Rightarrow> (world, 'x) registry \<Rightarrow> 'x \<Rightarrow> string \<Rightarrow> string \<Rightarrow> string \<Rightarrow> ('p, 'x) eventr_engine res" where
  "runCmd env ce reg x path dir fmt =
     (case loadConfigsWithPaths ce path dir fmt of
        Inl err \<Rightarrow> Inl err
      | Inr cfgs \<Rightarrow>
          (case load_all env cfgs (engine_New reg x) of
             Inl err \<Rightarrow> Inl err
           | Inr e \<Rightarrow>
               (case engine_Start env (StartObservability e) of
                  (Some err, e') \<Rightarrow> Inl err
                | (None, e') \<Rightarrow> Inr e')))"

definition validateCmd :: "map_orders \<Rightarrow> cli_env \<Rightarrow> string \<Rightarrow> string \<Rightarrow> string \<Rightarrow> (string \<times> nat \<times> nat) list res" where
  "validateCmd ord ce path dir fmt =
     (case loadConfigsWithPaths ce path dir fmt of
        Inl err \<Rightarrow> Inl err
      | Inr cfgs \<Rightarrow> validate_all ord (map fst cfgs))"

text \<open>
  \<^verbatim>\<open>main\<close>: the command that the arguments after the program's name select, with the
  arguments left for its flags, or the usage text and exit code 1.
\<close>

datatype command = CmdRun "string list" | CmdValidate "string list" | CmdTest "string list" | CmdUsage int

definition main_command :: "string list \<Rightarrow> command" where
  "main_command args =
     (case args of
        [] \<Rightarrow> CmdUsage 1
      | cmd # rest \<Rightarrow>
          if cmd = ''run'' then CmdRun rest
          else if cmd = ''validate'' then CmdValidate rest
          else if cmd = ''test'' then CmdTest rest
          else CmdUsage 1)"

text \<open>The signal \<^verbatim>\<open>SIGHUP\<close> while \<^verbatim>\<open>run\<close> is running: a reload of all, or an error that is only logged.\<close>

definition on_sighup :: "('p, 'x) eventr_engine \<Rightarrow> ('p, 'x) job res \<times> ('p, 'x) eventr_engine" where
  "on_sighup e = BeginReloadAll_claim e"

text \<open>So a signal is a step of the reload protocol, and what holds in every run of it holds with signals.\<close>

lemma sighup_step:
  "\<exists>s'. reload_step s s' \<and> rr_engine s' = snd (on_sighup (rr_engine s)) \<and>
     rr_jobs s' = (case fst (on_sighup (rr_engine s)) of Inl err \<Rightarrow> rr_jobs s | Inr j \<Rightarrow> j # rr_jobs s)"
proof (cases "on_sighup (rr_engine s)")
  case (Pair r e)
  show ?thesis
  proof (cases r)
    case (Inl err)
    have "BeginReloadAll_claim (rr_engine s) = (Inl err, e)" using Pair Inl by (simp add: on_sighup_def)
    from rl_refused [OF disjI2 [OF this]] show ?thesis using Pair Inl by fastforce
  next
    case (Inr j)
    have "BeginReloadAll_claim (rr_engine s) = (Inr j, e)" using Pair Inr by (simp add: on_sighup_def)
    from rl_claimed [OF disjI2 [OF this]] show ?thesis using Pair Inr by fastforce
  qed
qed

section \<open>Test stages\<close>

definition newGenerator :: "(gfloat \<Rightarrow> string) \<Rightarrow> gmap \<Rightarrow> string list res" where
  "newGenerator ff cfg =
     (case mget cfg ''messages'' of
        GList raw \<Rightarrow>
          if raw = [] then Inl (Err ''test_generator: messages is required'' [])
          else Inr (map (\<lambda>item. case item of GStr s \<Rightarrow> s | v \<Rightarrow> marshal ff v) raw)
      | _ \<Rightarrow> Inl (Err ''test_generator: messages is required'' []))"

definition generator_messages :: "string list \<Rightarrow> message list" where
  "generator_messages payloads = map (\<lambda>p. message_New p None) payloads"

record capture_sink =
  ca_msgs :: "message list"
  ca_done :: bool

definition capture_Write :: "mref list \<Rightarrow> world \<Rightarrow> capture_sink \<Rightarrow> goerr option \<times> capture_sink" where
  "capture_Write batch w s = (None, s\<lparr>ca_msgs := ca_msgs s @ map (\<lambda>m. ShallowCopy (wd_msgs w m)) batch, ca_done := True\<rparr>)"

text \<open>
  The package-level table of capture sinks, and the sinks by pointer: a new sink replaces the one of
  the same stage in the table, which is emptied before each case. A sink that is not in the table any
  more still takes messages, which nobody sees.
\<close>

record captures =
  cs_sinks :: "capture_sink list"
  cs_table :: "(string \<times> nat) list"

definition ResetCaptures :: "captures \<Rightarrow> captures" where
  "ResetCaptures t = t\<lparr>cs_table := []\<rparr>"

definition newCapture :: "string \<Rightarrow> captures \<Rightarrow> nat \<times> captures" where
  "newCapture sid t =
     (let sink = length (cs_sinks t) in
      (sink, t\<lparr>cs_sinks := cs_sinks t @ [\<lparr>ca_msgs = [], ca_done = False\<rparr>], cs_table := AList.update sid sink (cs_table t)\<rparr>))"

definition CaptureSinkFor :: "string \<Rightarrow> captures \<Rightarrow> nat option" where
  "CaptureSinkFor sid t = map_of (cs_table t) sid"

definition captures_Write :: "nat \<Rightarrow> mref list \<Rightarrow> world \<Rightarrow> captures \<Rightarrow> captures" where
  "captures_Write sink batch w t = t\<lparr>cs_sinks := (cs_sinks t)[sink := snd (capture_Write batch w (cs_sinks t ! sink))]\<rparr>"

definition capture_Messages :: "captures \<Rightarrow> nat \<Rightarrow> message list" where
  "capture_Messages t sink = ca_msgs (cs_sinks t ! sink)"

text \<open>The factories of the test stages; \<open>sink_at\<close> is the pointer that \<^verbatim>\<open>newCapture\<close> gave a stage.\<close>

definition testutil_Register ::
  "(gfloat \<Rightarrow> string) \<Rightarrow> (string \<Rightarrow> nat) \<Rightarrow> (world, captures) registry \<Rightarrow> (world, captures) registry" where
  "testutil_Register ff sink_at reg =
     RegisterSink ''test_capture''
       (\<lambda>(sid, cfg). Inr (base_stage
          (SinkRole (\<lambda>batch w t. (None, captures_Write (sink_at sid) batch w t)) (\<lambda>t. (None, t)))))
       (RegisterSource ''test_generator''
         (\<lambda>(sid, cfg). map_sum id (\<lambda>_. base_stage (SourceRole False)) (newGenerator ff (plain_config cfg))) reg)"

text \<open>
  After a reset and the creation of a stage's sink, the sink found for the stage has the messages
  written to it, in order, and none that an earlier case wrote.
\<close>

lemma captured_in_order:
  assumes "newCapture sid (ResetCaptures t0) = (sink, t)"
  shows "CaptureSinkFor sid t = Some sink \<and>
    capture_Messages (foldl (\<lambda>t (k, batch, w). captures_Write k batch w t) t ws) sink
      = concat (map (\<lambda>(k, batch, w). if k = sink then map (\<lambda>m. ShallowCopy (wd_msgs w m)) batch else []) ws)"
proof -
  have gen: "capture_Messages (foldl (\<lambda>t (k, batch, w). captures_Write k batch w t) u ws) sink = capture_Messages u sink @
      concat (map (\<lambda>(k, batch, w). if k = sink then map (\<lambda>m. ShallowCopy (wd_msgs w m)) batch else []) ws)"
    if "sink < length (cs_sinks u)" for u
    using that
    by (induction ws arbitrary: u) (auto simp: capture_Messages_def captures_Write_def capture_Write_def)
  have "sink < length (cs_sinks t)" "capture_Messages t sink = []" "CaptureSinkFor sid t = Some sink"
    using assms by (auto simp: newCapture_def ResetCaptures_def CaptureSinkFor_def capture_Messages_def Let_def)
  then show ?thesis using gen by simp
qed

section \<open>Running a case\<close>

record expectation =
  ex_Count :: int
  ex_Messages :: "gmap list"

record test_case =
  tc_Name :: string
  tc_Input :: "gval list"
  tc_Expect :: expectation

record test_result =
  tr_Suite :: string
  tr_Case :: string
  tr_Passed :: bool
  tr_Error :: "goerr option"

text \<open>The last stage of a kind.\<close>

definition last_index :: "string \<Rightarrow> stage_ir list \<Rightarrow> nat option" where
  "last_index kind stages =
     (case rev (filter (\<lambda>i. st_Kind (stages ! i) = kind) [0..<length stages]) of [] \<Rightarrow> None | i # _ \<Rightarrow> Some i)"

definition wireTestStages :: "gval list \<Rightarrow> topology_ir \<Rightarrow> (string \<times> topology_ir) res" where
  "wireTestStages inputs ir =
     (case (last_index ''source'' (ir_Stages ir), last_index ''sink'' (ir_Stages ir)) of
        (Some src, Some sink) \<Rightarrow>
          let ss = ir_Stages ir;
              ss1 = ss[src := (ss ! src)\<lparr>st_Type := ''test_generator'', st_Config := Some [(''messages'', GList inputs)]\<rparr>];
              ss2 = ss1[sink := (ss1 ! sink)\<lparr>st_Type := ''test_capture'', st_Config := None\<rparr>] in
          Inr (st_ID (ss ! sink), ir\<lparr>ir_Stages := ss2\<rparr>)
      | _ \<Rightarrow> Inl (Err ''pipeline must have source and sink'' []))"

text \<open>What was seen at each poll before the deadline: the messages captured and the inflight count.\<close>

definition waitForResult :: "(nat \<times> int) list \<Rightarrow> int \<Rightarrow> goerr option" where
  "waitForResult polls expected =
     (if \<exists>(n, inflight) \<in> set polls. int n = expected \<and> inflight = 0 then None
      else Some (Err ''timed out waiting for %d output messages'' [Itoa expected]))"

record json_texts =
  jt_format :: "gfloat \<Rightarrow> string"
  jt_parse :: "string \<Rightarrow> gfloat option"

definition match_entry :: "json_texts \<Rightarrow> gmap \<Rightarrow> string \<times> gval \<Rightarrow> goerr option" where
  "match_entry jt got entry =
     (case entry of (k, v) \<Rightarrow>
        (case map_of got k of
           None \<Rightarrow> Some (Err ''payload missing key %q'' [k])
         | Some gv \<Rightarrow>
             if marshal (jt_format jt) gv \<noteq> marshal (jt_format jt) v
             then Some (Err ''payload[%q] = %v, want %v'' [k, sprint (jt_format jt) gv, sprint (jt_format jt) v]) else None))"

definition matchPayload :: "json_texts \<Rightarrow> string \<Rightarrow> gmap \<Rightarrow> goerr option" where
  "matchPayload jt payload want =
     (if want = [] then None
      else
        (case unmarshal_map (jt_parse jt) payload of
           Inl err \<Rightarrow> Some (Wrap ''decode payload: %w'' [] err)
         | Inr got \<Rightarrow> first_err (match_entry jt (case got of None \<Rightarrow> [] | Some m \<Rightarrow> m)) want))"

text \<open>The loop over the matchers from index \<open>i\<close>; \<^verbatim>\<open>got[i]\<close> panics out of range.\<close>

definition index_panic :: goerr where
  "index_panic = Err ''panic: index out of range'' []"

fun match_loop_from :: "json_texts \<Rightarrow> string list \<Rightarrow> nat \<Rightarrow> gmap list \<Rightarrow> goerr option" where
  "match_loop_from jt got i [] = None"
| "match_loop_from jt got i (want # rest) =
     (if length got \<le> i then Some index_panic
      else
        (case matchPayload jt (got ! i) want of
           Some err \<Rightarrow> Some (Wrap ''message[%d]: %w'' [Itoa (int i)] err)
         | None \<Rightarrow> match_loop_from jt got (Suc i) rest))"

definition runCase_check :: "json_texts \<Rightarrow> string list \<Rightarrow> expectation \<Rightarrow> goerr option" where
  "runCase_check jt got wanted =
     (if int (length got) \<noteq> ex_Count wanted
      then Some (Err ''message count = %d, want %d'' [Itoa (int (length got)), Itoa (ex_Count wanted)])
      else match_loop_from jt got 0 (ex_Messages wanted))"

text \<open>A case, with what the polls saw and the payloads captured in the end.\<close>

definition runCase ::
  "('p, 'x) engine_env \<Rightarrow> json_texts \<Rightarrow> (world, 'x) registry \<Rightarrow> 'x \<Rightarrow> string \<Rightarrow> test_case
     \<Rightarrow> (string \<Rightarrow> bool) \<Rightarrow> (nat \<times> int) list \<Rightarrow> string list \<Rightarrow> goerr option" where
  "runCase env jt reg x pipelinePath tc captured polls got =
     (case LoadFile (ge_loader env) pipelinePath of
        Inl err \<Rightarrow> Some err
      | Inr cfg \<Rightarrow>
          (case FromConfig (ge_orders env) cfg of
             Inl err \<Rightarrow> Some err
           | Inr ir0 \<Rightarrow>
               (case wireTestStages (tc_Input tc) ir0 of
                  Inl err \<Rightarrow> Some err
                | Inr (sinkID, ir) \<Rightarrow>
                    (case engine_Load env ir (engine_New reg x) of
                       (Some err, e) \<Rightarrow> Some err
                     | (None, e) \<Rightarrow>
                         (case engine_Start env e of
                            (Some err, e1) \<Rightarrow> Some err
                          | (None, e1) \<Rightarrow>
                              if \<not> captured sinkID then Some (Err ''capture sink %q not found'' [sinkID])
                              else
                                (case waitForResult polls (ex_Count (tc_Expect tc)) of
                                   Some err \<Rightarrow> Some err
                                 | None \<Rightarrow> runCase_check jt got (tc_Expect tc)))))))"

definition case_result :: "string \<Rightarrow> test_case \<Rightarrow> goerr option \<Rightarrow> test_result" where
  "case_result suite tc outcome =
     \<lparr>tr_Suite = suite, tr_Case = tc_Name tc, tr_Passed = (outcome = None), tr_Error = outcome\<rparr>"

text \<open>
  A suite, as the YAML library decodes it, for a runner of its cases; \<open>dir\<close> is the directory
  of the suite's file.
\<close>

record test_suite =
  ts_Name :: string
  ts_Pipeline :: string
  ts_Cases :: "test_case list"

definition RunFile :: "(string \<Rightarrow> test_case \<Rightarrow> goerr option) \<Rightarrow> string \<Rightarrow> test_suite res \<Rightarrow> test_result list res" where
  "RunFile run dir parsed =
     (case parsed of
        Inl err \<Rightarrow> Inl (Wrap ''parse test suite: %w'' [] err)
      | Inr suite \<Rightarrow>
          if ts_Pipeline suite = '''' then Inl (Err ''test suite: pipeline path is required'' [])
          else
            let path = (if HasPrefix (ts_Pipeline suite) ''/'' then ts_Pipeline suite else Join dir (ts_Pipeline suite)) in
            Inr (map (\<lambda>tc. case_result (ts_Name suite) tc (run path tc)) (ts_Cases suite)))"

definition result_line :: "(goerr \<Rightarrow> string) \<Rightarrow> test_result \<Rightarrow> string" where
  "result_line text r =
     (if tr_Passed r then ''PASS '' @ tr_Suite r @ ''/'' @ tr_Case r @ [CHR 0x0A]
      else ''FAIL '' @ tr_Suite r @ ''/'' @ tr_Case r @ '': ''
             @ (case tr_Error r of None \<Rightarrow> '''' | Some err \<Rightarrow> text err) @ [CHR 0x0A])"

definition FormatResults :: "(goerr \<Rightarrow> string) \<Rightarrow> test_result list \<Rightarrow> string" where
  "FormatResults text results =
     (let passed = length (filter tr_Passed results) in
      concat (map (result_line text) results)
      @ [CHR 0x0A] @ Itoa (int passed) @ '' passed, '' @ Itoa (int (length results) - int passed) @ '' failed'' @ [CHR 0x0A])"

definition AllPassed :: "test_result list \<Rightarrow> bool" where
  "AllPassed results = list_all tr_Passed results"

text \<open>
  \<^verbatim>\<open>test\<close>: the suites one after the other, with a runner of one file; the results it
  prints and whether the exit code is zero.
\<close>

definition run_suites :: "(string \<Rightarrow> test_result list res) \<Rightarrow> string list \<Rightarrow> test_result list res" where
  "run_suites runFile files = rfold (\<lambda>all f. map_sum id (\<lambda>results. all @ results) (runFile f)) [] files"

definition testCmd ::
  "cli_env \<Rightarrow> (goerr \<Rightarrow> string) \<Rightarrow> (string \<Rightarrow> test_result list res) \<Rightarrow> string \<Rightarrow> string \<Rightarrow> (string \<times> bool) res" where
  "testCmd ce text runFile path dir =
     (case test_files ce path dir of
        Inl err \<Rightarrow> Inl err
      | Inr files \<Rightarrow> map_sum id (\<lambda>all. (FormatResults text all, AllPassed all)) (run_suites runFile files))"

section \<open>What a case checks\<close>

lemma match_loop_exact:
  "(match_loop_from jt got i ms = None \<longleftrightarrow>
      (\<forall>k < length ms. i + k < length got \<and> matchPayload jt (got ! (i + k)) (ms ! k) = None)) \<and>
   (length got < i + length ms \<and> i \<le> length got \<and>
      (\<forall>k < length got - i. matchPayload jt (got ! (i + k)) (ms ! k) = None) \<longrightarrow>
    match_loop_from jt got i ms = Some index_panic)"
proof (induction ms arbitrary: i)
  case (Cons m ms)
  have A: "(\<forall>k < length (m # ms). P k) \<longleftrightarrow> P 0 \<and> (\<forall>k < length ms. P (Suc k))" for P :: "nat \<Rightarrow> bool"
    using less_Suc_eq_0_disj by auto
  have B: "(\<forall>k < length got - i. P k) \<longleftrightarrow> P 0 \<and> (\<forall>k < length got - Suc i. P (Suc k))" if "i < length got" for P :: "nat \<Rightarrow> bool"
  proof -
    have "length got - i = Suc (length got - Suc i)" using that by simp
    then show ?thesis using less_Suc_eq_0_disj by auto
  qed
  show ?case
  proof (cases "i < length got")
    case True
    then show ?thesis
      unfolding A B [OF True] using Cons.IH [of "Suc i"] by (cases "matchPayload jt (got ! i) m") auto
  qed (auto simp: A)
qed auto

text \<open>
  A test case passes its comparison exactly when the number of messages is the expected one and
  each matcher finds a message at its index that it accepts. A suite with more matchers than
  messages makes the runner panic when the messages it has are accepted, instead of failing.
\<close>

theorem runCase_check_exact:
  "(runCase_check jt got wanted = None \<longleftrightarrow>
      int (length got) = ex_Count wanted \<and> length (ex_Messages wanted) \<le> length got \<and>
      (\<forall>k < length (ex_Messages wanted). matchPayload jt (got ! k) (ex_Messages wanted ! k) = None)) \<and>
   (int (length got) = ex_Count wanted \<and> length got < length (ex_Messages wanted) \<and>
      (\<forall>k < length got. matchPayload jt (got ! k) (ex_Messages wanted ! k) = None) \<longrightarrow>
    runCase_check jt got wanted = Some index_panic)"
proof -
  have "(\<forall>k < n. k < m) \<longleftrightarrow> n \<le> m" for n m :: nat by (meson leI less_le_trans not_less_iff_gr_or_eq)
  then show ?thesis
    using match_loop_exact [of jt got 0 "ex_Messages wanted"] unfolding runCase_check_def by auto
qed

text \<open>
  The runner puts its generator and capture stages in the place of exactly one source and one
  sink, the last of each; names, kinds and edges stay as they are, and every other stage, so also
  every other source and sink, runs with the plugin it is configured with.
\<close>

theorem wireTestStages_exact:
  assumes "wireTestStages inputs ir = Inr (sinkID, ir')"
  shows "\<exists>i j. i < length (ir_Stages ir) \<and> j < length (ir_Stages ir) \<and>
    st_Kind (ir_Stages ir ! i) = ''source'' \<and> (\<forall>k < length (ir_Stages ir). i < k \<longrightarrow> st_Kind (ir_Stages ir ! k) \<noteq> ''source'') \<and>
    st_Kind (ir_Stages ir ! j) = ''sink'' \<and> (\<forall>k < length (ir_Stages ir). j < k \<longrightarrow> st_Kind (ir_Stages ir ! k) \<noteq> ''sink'') \<and>
    st_Type (ir_Stages ir' ! i) = ''test_generator'' \<and> st_Type (ir_Stages ir' ! j) = ''test_capture'' \<and>
    st_ID (ir_Stages ir' ! j) = sinkID \<and> ir_Edges ir' = ir_Edges ir \<and>
    map (\<lambda>s. (st_ID s, st_Kind s)) (ir_Stages ir') = map (\<lambda>s. (st_ID s, st_Kind s)) (ir_Stages ir) \<and>
    (\<forall>k < length (ir_Stages ir). k \<noteq> i \<and> k \<noteq> j \<longrightarrow> ir_Stages ir' ! k = ir_Stages ir ! k)"
proof -
  let ?ss = "ir_Stages ir"
  have last: "i < length ss \<and> st_Kind (ss ! i) = kind \<and> (\<forall>k < length ss. i < k \<longrightarrow> st_Kind (ss ! k) \<noteq> kind)"
    if "last_index kind ss = Some i" for kind i and ss :: "stage_ir list"
  proof -
    let ?is = "filter (\<lambda>i. st_Kind (ss ! i) = kind) [0..<length ss]"
    from that have r: "?is \<noteq> []" "i = last ?is"
      by (auto simp: last_index_def hd_rev [symmetric] split: list.splits)
    have i: "i \<in> set ?is" unfolding r(2) using r(1) by (rule last_in_set)
    have "k \<le> i" if "k \<in> set ?is" for k
    proof -
      have split_is: "?is = butlast ?is @ [i]" unfolding r(2) using r(1) by (rule append_butlast_last_id [symmetric])
      have "sorted ?is" by (rule sorted_wrt_filter) simp
      then have "\<forall>n \<in> set (butlast ?is). n \<le> i" by (subst (asm) split_is) (simp add: sorted_append)
      moreover have "k \<in> set (butlast ?is) \<or> k = i" using that by (subst (asm) split_is) auto
      ultimately show ?thesis by auto
    qed
    then show ?thesis using i by fastforce
  qed
  obtain i j where ij: "last_index ''source'' ?ss = Some i" "last_index ''sink'' ?ss = Some j"
    and id: "sinkID = st_ID (?ss ! j)"
    and ir': "ir' = ir\<lparr>ir_Stages := (?ss[i := (?ss ! i)\<lparr>st_Type := ''test_generator'', st_Config := Some [(''messages'', GList inputs)]\<rparr>])
        [j := (?ss[i := (?ss ! i)\<lparr>st_Type := ''test_generator'', st_Config := Some [(''messages'', GList inputs)]\<rparr>] ! j)
           \<lparr>st_Type := ''test_capture'', st_Config := None\<rparr>]\<rparr>"
    using assms by (auto simp: wireTestStages_def Let_def split: option.splits)
  note I = last [OF ij(1)] and J = last [OF ij(2)]
  have ne: "i \<noteq> j" using I J by auto
  have "map (\<lambda>s. (st_ID s, st_Kind s)) (ir_Stages ir') = map (\<lambda>s. (st_ID s, st_Kind s)) ?ss"
  proof (rule nth_equalityI)
    fix k assume "k < length (map (\<lambda>s. (st_ID s, st_Kind s)) (ir_Stages ir'))"
    then show "map (\<lambda>s. (st_ID s, st_Kind s)) (ir_Stages ir') ! k = map (\<lambda>s. (st_ID s, st_Kind s)) ?ss ! k"
      using I J ne by (cases "k = i"; cases "k = j") (simp_all add: ir')
  qed (simp add: ir')
  then show ?thesis
    using I J ne by (intro exI [of _ i] exI [of _ j]) (simp add: ir' id nth_list_update)
qed

section \<open>What the command line loads\<close>

lemma FromConfig_name: "FromConfig ord cfg = Inr ir \<Longrightarrow> ir_Name ir = PipelineName cfg"
  unfolding FromConfig_def Let_def BuildTopologyIR_def by (auto split: sum.splits option.splits prod.splits)

lemma engine_Load_new:
  "engine_Load env ir e = (None, e') \<Longrightarrow>
     ir_Name ir \<notin> set (map fst (eg_pipelines e)) \<and> map fst (eg_pipelines e') = map fst (eg_pipelines e) @ [ir_Name ir] \<and>
     eg_configPaths e' = eg_configPaths e \<and> eg_reloading e' = eg_reloading e"
  by (auto simp: engine_Load_def map_of_eq_None_iff update_keys split: if_splits sum.splits)

lemma load_all_paths:
  assumes "load_all env cfgs e = Inr e'" and "set (map fst (eg_configPaths e)) \<subseteq> set (map fst (eg_pipelines e))"
  shows "map fst (eg_pipelines e') = map fst (eg_pipelines e) @ map (PipelineName \<circ> fst) cfgs \<and>
    distinct (map (PipelineName \<circ> fst) cfgs) \<and> set (map (PipelineName \<circ> fst) cfgs) \<inter> set (map fst (eg_pipelines e)) = {} \<and>
    eg_reloading e' = eg_reloading e \<and>
    (\<forall>n. map_of (eg_configPaths e') n =
       (case map_of (map (\<lambda>(cfg, path). (PipelineName cfg, path)) (filter (\<lambda>(_, path). path \<noteq> '''') cfgs)) n of
          None \<Rightarrow> map_of (eg_configPaths e) n | Some path \<Rightarrow> Some path))"
  using assms
proof (induction cfgs arbitrary: e)
  case (Cons c cfgs)
  obtain cfg path where c: "c = (cfg, path)" by (cases c)
  obtain ir e1 where ir: "FromConfig (ge_orders env) cfg = Inr ir" "engine_Load env ir e = (None, e1)"
    and rest: "load_all env cfgs (if path \<noteq> '''' then SetConfigPath (ir_Name ir) path e1 else e1) = Inr e'"
    using Cons.prems(1) by (auto simp: c split: sum.splits prod.splits option.splits)
  let ?e2 = "if path \<noteq> '''' then SetConfigPath (ir_Name ir) path e1 else e1"
  note N = FromConfig_name [OF ir(1)] and L = engine_Load_new [OF ir(2)]
  have e2: "map fst (eg_pipelines ?e2) = map fst (eg_pipelines e) @ [PipelineName cfg]" "eg_reloading ?e2 = eg_reloading e"
    "map_of (eg_configPaths ?e2) = (if path \<noteq> '''' then (map_of (eg_configPaths e))(PipelineName cfg \<mapsto> path) else map_of (eg_configPaths e))"
    using L N by (simp_all add: SetConfigPath_def)
  have sub: "set (map fst (eg_configPaths ?e2)) \<subseteq> set (map fst (eg_pipelines ?e2))"
  proof
    fix n assume "n \<in> set (map fst (eg_configPaths ?e2))"
    then have "map_of (eg_configPaths ?e2) n \<noteq> None" by (simp add: map_of_eq_None_iff)
    then have "n = PipelineName cfg \<or> map_of (eg_configPaths e) n \<noteq> None" unfolding e2(3) by (auto split: if_splits)
    then show "n \<in> set (map fst (eg_pipelines ?e2))" unfolding e2(1) using Cons.prems(2) by (auto simp: map_of_eq_None_iff)
  qed
  note IH = Cons.IH [OF rest sub]
  have new: "PipelineName cfg \<notin> set (map fst (eg_pipelines e))" using L N by simp
  have fresh: "PipelineName cfg \<notin> set (map (PipelineName \<circ> fst) cfgs)" using IH unfolding e2(1) by auto
  then have none: "map_of (map (\<lambda>(cfg, path). (PipelineName cfg, path)) (filter (\<lambda>(_, path). path \<noteq> '''') cfgs)) (PipelineName cfg) = None"
    by (force simp: map_of_eq_None_iff)
  show ?case
    using IH new fresh none unfolding e2 by (auto simp: c split: option.splits)
qed simp

text \<open>
  When the command line has loaded its configurations, the engine has the pipelines of exactly
  those names, each once, and for each the path that was found for it. A configuration of a
  directory whose file is not named after its pipeline has none: its pipeline is loaded, but a
  reload of it is answered with \<^verbatim>\<open>not found\<close>, and the check of a reload of all
  pipelines, also the one of \<^verbatim>\<open>SIGHUP\<close>, fails when it comes to it.
\<close>

theorem cli_load_paths:
  assumes "load_all env cfgs (engine_New reg x) = Inr e" and "(cfg, path) \<in> set cfgs"
  shows "map fst (eg_pipelines e) = map (PipelineName \<circ> fst) cfgs \<and> distinct (map fst (eg_pipelines e)) \<and>
    ConfigPath (PipelineName cfg) e = path \<and>
    (path = '''' \<longrightarrow>
       fst (BeginReload_claim (PipelineName cfg) e) = Inl (Err ''pipeline %q not found'' [PipelineName cfg]) \<and>
       fst (BeginReloadAll_check env' names (PipelineName cfg # todo) e)
         = Some (Inl (Err ''pipeline %q has no config path for reload'' [PipelineName cfg])))"
proof -
  let ?ps = "map (\<lambda>(cfg, path). (PipelineName cfg, path)) (filter (\<lambda>(_, path). path \<noteq> '''') cfgs)"
  have L: "map fst (eg_pipelines e) = map (PipelineName \<circ> fst) cfgs" "distinct (map (PipelineName \<circ> fst) cfgs)"
    "\<And>n. map_of (eg_configPaths e) n = map_of ?ps n"
    using load_all_paths [OF assms(1)] by (auto simp: engine_New_def split: option.splits)
  have keys: "inj_on (\<lambda>c. PipelineName (fst c)) (set cfgs)" using L(2) by (simp add: distinct_map comp_def)
  have "map_of ?ps (PipelineName cfg) = (if path = '''' then None else Some path)"
  proof (cases "path = ''''")
    case True
    have "PipelineName cfg \<notin> fst ` set ?ps"
    proof
      assume "PipelineName cfg \<in> fst ` set ?ps"
      then obtain c' p' where "(c', p') \<in> set cfgs" "p' \<noteq> ''''" "PipelineName c' = PipelineName cfg" by auto
      then show False using inj_onD [OF keys, of "(c', p')" "(cfg, path)"] assms(2) True by auto
    qed
    then show ?thesis using True by (simp add: map_of_eq_None_iff del: set_map)
  next
    case False
    have d: "distinct (map fst ?ps)"
    proof -
      have "map fst ?ps = map (PipelineName \<circ> fst) (filter (\<lambda>(_, path). path \<noteq> '''') cfgs)"
        by (simp add: comp_def case_prod_beta)
      then show ?thesis by (simp only: distinct_map_filter [OF L(2)])
    qed
    have "(PipelineName cfg, path) \<in> set ?ps" using assms(2) False by force
    then show ?thesis using map_of_is_SomeI [OF d] False by simp
  qed
  then show ?thesis
    using L by (auto simp: ConfigPath_def map_str_def BeginReload_claim_def BeginReloadAll_check_def)
qed

section \<open>What validate says about run\<close>

lemma is_ok_map: "is_ok (map_sum id f r) \<longleftrightarrow> is_ok r"
  by (cases r) simp_all

text \<open>Loading succeeds exactly when each configuration is valid, can be built and has a name of its own.\<close>

lemma load_all_ok:
  "is_ok (load_all env cfgs e) \<longleftrightarrow>
     is_ok (validate_all (ge_orders env) (map fst cfgs)) \<and> distinct (map (PipelineName \<circ> fst) cfgs) \<and>
     set (map (PipelineName \<circ> fst) cfgs) \<inter> set (map fst (eg_pipelines e)) = {} \<and>
     (\<forall>(cfg, path) \<in> set cfgs. \<forall>ir. FromConfig (ge_orders env) cfg = Inr ir \<longrightarrow>
        is_ok (NewPipeline (ge_cp env) (ge_dirs env) (eg_reg e) ir))"
proof (induction cfgs arbitrary: e)
  case (Cons c cfgs)
  obtain cfg path where c: "c = (cfg, path)" by (cases c)
  show ?case
  proof (cases "FromConfig (ge_orders env) cfg")
    case (Inl err)
    then show ?thesis by (simp add: c)
  next
    case (Inr ir)
    note N = FromConfig_name [OF Inr]
    show ?thesis
    proof (cases "PipelineName cfg \<in> set (map fst (eg_pipelines e))")
      case True
      then have "map_of (eg_pipelines e) (ir_Name ir) \<noteq> None" by (auto simp: N map_of_eq_None_iff)
      then have "\<not> is_ok (load_all env (c # cfgs) e)" by (auto simp: c Inr engine_Load_def)
      then show ?thesis using True by (auto simp: c)
    next
      case new: False
      then have none: "map_of (eg_pipelines e) (ir_Name ir) = None" by (simp add: N map_of_eq_None_iff)
      show ?thesis
      proof (cases "NewPipeline (ge_cp env) (ge_dirs env) (eg_reg e) ir")
        case (Inl err)
        then show ?thesis by (auto simp: c Inr engine_Load_def none)
      next
        case p: (Inr p)
        let ?e1 = "e\<lparr>eg_pipelines := AList.update (ir_Name ir) (eg_next e, p) (eg_pipelines e), eg_next := Suc (eg_next e)\<rparr>"
        let ?e2 = "if path \<noteq> '''' then SetConfigPath (ir_Name ir) path ?e1 else ?e1"
        have e2: "map fst (eg_pipelines ?e2) = map fst (eg_pipelines e) @ [PipelineName cfg]" "eg_reg ?e2 = eg_reg e"
          using new by (auto simp: SetConfigPath_def update_keys N)
        have eq: "load_all env (c # cfgs) e = load_all env cfgs ?e2"
          by (simp add: c Inr engine_Load_def none p)
        show ?thesis unfolding eq Cons.IH e2 using new by (auto simp: c Inr p is_ok_map comp_def)
      qed
    qed
  qed
qed simp

lemma runCmd_validated:
  assumes ok: "is_ok (runCmd env ce reg x path dir fmt)"
  shows "is_ok (validateCmd (ge_orders env) ce path dir fmt)"
proof -
  obtain cfgs where c: "loadConfigsWithPaths ce path dir fmt = Inr cfgs"
    using ok by (cases "loadConfigsWithPaths ce path dir fmt") (simp_all add: runCmd_def)
  have "is_ok (load_all env cfgs (engine_New reg x))"
    using ok by (cases "load_all env cfgs (engine_New reg x)") (simp_all add: runCmd_def c)
  then show ?thesis unfolding load_all_ok by (simp add: validateCmd_def c)
qed

text \<open>
  C38: \<^verbatim>\<open>validate\<close> accepts every set of configurations that \<^verbatim>\<open>run\<close> starts. What it accepts
  can still fail to run, but only when two configurations have the same name, when a plugin, a
  codec, an expression or a buffer cannot be made, or when a stage does not start.
\<close>

theorem run_loads_exact:
  "(is_ok (runCmd env ce reg x path dir fmt) \<longrightarrow> is_ok (validateCmd (ge_orders env) ce path dir fmt)) \<and>
   (loadConfigsWithPaths ce path dir fmt = Inr cfgs \<longrightarrow>
     (is_ok (load_all env cfgs (engine_New reg x)) \<longleftrightarrow>
        is_ok (validateCmd (ge_orders env) ce path dir fmt) \<and> distinct (map (PipelineName \<circ> fst) cfgs) \<and>
        (\<forall>(cfg, p) \<in> set cfgs. \<forall>ir. FromConfig (ge_orders env) cfg = Inr ir \<longrightarrow>
           is_ok (NewPipeline (ge_cp env) (ge_dirs env) reg ir))))"
proof -
  have n: "eg_pipelines (engine_New reg x) = []" "eg_reg (engine_New reg x) = reg" by (simp_all add: engine_New_def)
  have "is_ok (load_all env cfgs (engine_New reg x)) \<longleftrightarrow>
      is_ok (validateCmd (ge_orders env) ce path dir fmt) \<and> distinct (map (PipelineName \<circ> fst) cfgs) \<and>
      (\<forall>(cfg, p) \<in> set cfgs. \<forall>ir. FromConfig (ge_orders env) cfg = Inr ir \<longrightarrow>
         is_ok (NewPipeline (ge_cp env) (ge_dirs env) reg ir))"
    if "loadConfigsWithPaths ce path dir fmt = Inr cfgs"
    unfolding load_all_ok n by (simp add: validateCmd_def that)
  then show ?thesis using runCmd_validated [of env ce reg x path dir fmt] by blast
qed

section \<open>Witnesses\<close>

definition plain_texts :: json_texts where
  "plain_texts = \<lparr>jt_format = (\<lambda>_. ''''), jt_parse = (\<lambda>_. None)\<rparr>"

definition greedy :: expectation where
  "greedy = \<lparr>ex_Count = 1, ex_Messages = [[], []]\<rparr>"

theorem runCase_check_exact_witness:
  "runCase_check plain_texts [''x''] greedy = Some index_panic"
  using runCase_check_exact [of plain_texts "[''x'']" greedy] by (simp add: greedy_def matchPayload_def)

text \<open>A second source keeps its plugin.\<close>

definition two_sources :: topology_ir where
  "two_sources = demo_ir\<lparr>ir_Stages := [demo_stage ''a'' ''source'', demo_stage ''b'' ''source'', demo_stage ''k'' ''sink'']\<rparr>"

theorem wireTestStages_exact_witness:
  "\<exists>ir'. wireTestStages [GStr ''x''] two_sources = Inr (''k'', ir') \<and> ir_Edges ir' = ir_Edges two_sources \<and>
     map st_Type (ir_Stages ir') = [''drop'', ''test_generator'', ''test_capture'']"
proof -
  have w: "map_sum id (\<lambda>(k, ir'). (k, map st_Type (ir_Stages ir'))) (wireTestStages [GStr ''x''] two_sources)
      = Inr (''k'', [''drop'', ''test_generator'', ''test_capture''])"
    by (simp add: wireTestStages_def last_index_def two_sources_def demo_stage_def upt_rec)
  obtain ir' where ir': "wireTestStages [GStr ''x''] two_sources = Inr (''k'', ir')"
    "map st_Type (ir_Stages ir') = [''drop'', ''test_generator'', ''test_capture'']"
    using w by (cases "wireTestStages [GStr ''x''] two_sources") auto
  have "ir_Edges ir' = ir_Edges two_sources"
    using wireTestStages_exact [OF ir'(1)] by (elim exE conjE)
  then show ?thesis using ir' by (intro exI [of _ ir'] conjI)
qed

text \<open>A configuration without a path.\<close>

definition cli_demo_env :: "(string, nat) engine_env" where
  "cli_demo_env = demo_env\<lparr>ge_orders := declared_order\<rparr>"

theorem cli_load_paths_witness:
  "\<exists>e. load_all cli_demo_env [(demo_pipeline, '''')] (engine_New cron_registry 0) = Inr e \<and>
     fst (BeginReload_claim (PipelineName demo_pipeline) e)
       = Inl (Err ''pipeline %q not found'' [PipelineName demo_pipeline])"
proof -
  have "is_ok (load_all cli_demo_env [(demo_pipeline, '''')] (engine_New cron_registry 0))" by code_simp
  then obtain e where e: "load_all cli_demo_env [(demo_pipeline, '''')] (engine_New cron_registry 0) = Inr e"
    by (auto simp: is_ok_iff)
  show ?thesis using cli_load_paths [OF e, of demo_pipeline "''''"] e by auto
qed

text \<open>A file with one pipeline.\<close>

definition cli_file :: cli_env where
  "cli_file = \<lparr>cl_loader = ge_loader file_env, cl_ReadDir = (\<lambda>_. Inr []), cl_exists = (\<lambda>_. False)\<rparr>"

theorem run_loads_exact_witness:
  "is_ok (validateCmd (ge_orders file_env) cli_file ''p.yaml'' '''' '''') \<and>
   is_ok (load_all file_env [(demo_pipeline, ''p.yaml'')] (engine_New cron_registry 0))"
proof -
  have l: "loadConfigsWithPaths cli_file ''p.yaml'' '''' '''' = Inr [(demo_pipeline, ''p.yaml'')]"
    by code_simp
  have "is_ok (load_all file_env [(demo_pipeline, ''p.yaml'')] (engine_New cron_registry 0))" by code_simp
  then show ?thesis
    using run_loads_exact [of file_env cli_file cron_registry 0 "''p.yaml''" "''''" "''''" "[(demo_pipeline, ''p.yaml'')]"] l
    by simp
qed

end
