(* ===== verification/Command.thy ===== *)
theory Command
  imports Runner Observe
begin

text \<open>
  The program as a command (\<^verbatim>\<open>cmd/eventr/main.go\<close>): the arguments as Go's package
  \<^verbatim>\<open>flag\<close> reads them, the three commands, the end of \<^verbatim>\<open>run\<close> and the exit codes.
\<close>

section \<open>Flags\<close>

text \<open>
  A word of the command line: not a flag, the word that ends the flags, a malformed one, or a flag
  with the value behind its equals sign, if it has one.
\<close>

datatype flag_word = WordArg | WordEnd | WordBad | WordFlag string "string option"

definition split_value :: "string \<Rightarrow> string \<times> string option" where
  "split_value s =
     (takeWhile (\<lambda>c. c \<noteq> CHR ''='') s,
      case dropWhile (\<lambda>c. c \<noteq> CHR ''='') s of [] \<Rightarrow> None | _ # v \<Rightarrow> Some v)"

definition read_name :: "string \<Rightarrow> flag_word" where
  "read_name s =
     (if s = '''' \<or> hd s = CHR ''-'' \<or> hd s = CHR ''='' then WordBad
      else (case split_value s of (name, v) \<Rightarrow> WordFlag name v))"

definition read_word :: "string \<Rightarrow> flag_word" where
  "read_word s =
     (if length s < 2 \<or> hd s \<noteq> CHR ''-'' then WordArg
      else if s ! 1 = CHR ''-'' then (if length s = 2 then WordEnd else read_name (drop 2 s))
      else read_name (drop 1 s))"

datatype flag_error = ErrHelp | FlagError goerr

text \<open>
  \<^verbatim>\<open>FlagSet.Parse\<close> for flags that are strings: the values set, the last one of a name counts,
  and the arguments after the flags.
\<close>

fun parse_flags ::
  "string list \<Rightarrow> (string \<times> string) list \<Rightarrow> string list \<Rightarrow> flag_error + ((string \<times> string) list \<times> string list)" where
  "parse_flags names vals [] = Inr (vals, [])"
| "parse_flags names vals (s # rest) =
     (case read_word s of
        WordArg \<Rightarrow> Inr (vals, s # rest)
      | WordEnd \<Rightarrow> Inr (vals, rest)
      | WordBad \<Rightarrow> Inl (FlagError (Err ''bad flag syntax: %s'' [s]))
      | WordFlag name v \<Rightarrow>
          if name \<notin> set names then
            (if name = ''help'' \<or> name = ''h'' then Inl ErrHelp
             else Inl (FlagError (Err ''flag provided but not defined: -%s'' [name])))
          else
            (case v of
               Some x \<Rightarrow> parse_flags names (AList.update name x vals) rest
             | None \<Rightarrow>
                 (case rest of
                    [] \<Rightarrow> Inl (FlagError (Err ''flag needs an argument: -%s'' [name]))
                  | x # rest' \<Rightarrow> parse_flags names (AList.update name x vals) rest')))"

text \<open>\<^verbatim>\<open>ExitOnError\<close>: asking for help is not a failure.\<close>

definition flag_exit :: "flag_error \<Rightarrow> int" where
  "flag_exit err = (case err of ErrHelp \<Rightarrow> 0 | FlagError _ \<Rightarrow> 2)"

definition config_flags :: "string list" where
  "config_flags = [''config'', ''config-dir'', ''format'']"

definition suite_flags :: "string list" where
  "suite_flags = [''config'', ''dir'']"

section \<open>The commands\<close>

text \<open>A command ends with an exit code, or it serves: the engine runs, with its HTTP servers.\<close>

datatype ('p, 'x) outcome = Exit int | Serving "('p, 'x) eventr_engine" obs_server

text \<open>
  \<^verbatim>\<open>run\<close>. An error is fatal, with exit code 1; a pattern that the HTTP multiplexer refuses is
  a panic, with exit code 2.
\<close>

definition run_main ::
  "('p, 'x) engine_env \<Rightarrow> cli_env \<Rightarrow> (world, 'x) registry \<Rightarrow> 'x \<Rightarrow> string list \<Rightarrow> ('p, 'x) outcome" where
  "run_main env ce reg x args =
     (case parse_flags config_flags [] args of
        Inl err \<Rightarrow> Exit (flag_exit err)
      | Inr (vals, _) \<Rightarrow>
          (case loadConfigsWithPaths ce (map_str vals ''config'') (map_str vals ''config-dir'') (map_str vals ''format'') of
             Inl err \<Rightarrow> Exit 1
           | Inr cfgs \<Rightarrow>
               (case load_all env cfgs (engine_New reg x) of
                  Inl err \<Rightarrow> Exit 1
                | Inr e \<Rightarrow>
                    (case NewServer (MergeObservability (map (pc_Observability \<circ> fst) cfgs)) of
                       Inl panic \<Rightarrow> Exit 2
                     | Inr srv0 \<Rightarrow>
                         (case server_Start srv0 of
                            Inl panic \<Rightarrow> Exit 2
                          | Inr srv \<Rightarrow>
                              (case engine_Start env (StartObservability e) of
                                 (Some err, _) \<Rightarrow> Exit 1
                               | (None, e') \<Rightarrow> Serving e' srv))))))"

text \<open>
  The end of \<^verbatim>\<open>run\<close> after SIGINT or SIGTERM, when the context of the signals is done: both
  errors are dropped.
\<close>

definition run_shutdown ::
  "('p, 'x) engine_env \<Rightarrow> (string \<Rightarrow> goerr option) \<Rightarrow> (int \<Rightarrow> goerr option) \<Rightarrow> ('p, 'x) eventr_engine \<Rightarrow> obs_server
     \<Rightarrow> int \<times> ('p, 'x) eventr_engine \<times> int list" where
  "run_shutdown env timeout shutdown e srv =
     (case engine_Stop env timeout e of
        (_, e') \<Rightarrow> (case StopObservability_server shutdown (Some srv) of (_, ports) \<Rightarrow> (0, e', ports)))"

definition validate_main :: "map_orders \<Rightarrow> cli_env \<Rightarrow> string list \<Rightarrow> int" where
  "validate_main ord ce args =
     (case parse_flags config_flags [] args of
        Inl err \<Rightarrow> flag_exit err
      | Inr (vals, _) \<Rightarrow>
          (case validateCmd ord ce (map_str vals ''config'') (map_str vals ''config-dir'') (map_str vals ''format'') of
             Inl err \<Rightarrow> 1
           | Inr printed \<Rightarrow> 0))"

definition test_main ::
  "cli_env \<Rightarrow> (goerr \<Rightarrow> string) \<Rightarrow> (string \<Rightarrow> test_result list res) \<Rightarrow> string list \<Rightarrow> int" where
  "test_main ce text runFile args =
     (case parse_flags suite_flags [] args of
        Inl err \<Rightarrow> flag_exit err
      | Inr (vals, _) \<Rightarrow>
          (case testCmd ce text runFile (map_str vals ''config'') (map_str vals ''dir'') of
             Inl err \<Rightarrow> 1
           | Inr (printed, ok) \<Rightarrow> if ok then 0 else 1))"

definition main ::
  "('p, 'x) engine_env \<Rightarrow> cli_env \<Rightarrow> (world, 'x) registry \<Rightarrow> 'x \<Rightarrow> (goerr \<Rightarrow> string) \<Rightarrow>
     (string \<Rightarrow> test_result list res) \<Rightarrow> string list \<Rightarrow> ('p, 'x) outcome" where
  "main env ce reg x text runFile args =
     (case main_command args of
        CmdRun rest \<Rightarrow> run_main env ce reg x rest
      | CmdValidate rest \<Rightarrow> Exit (validate_main (ge_orders env) ce rest)
      | CmdTest rest \<Rightarrow> Exit (test_main ce text runFile rest)
      | CmdUsage code \<Rightarrow> Exit code)"

section \<open>What the flags mean\<close>

text \<open>The three ways to write a flag: \<^verbatim>\<open>-name=value\<close>, \<^verbatim>\<open>--name=value\<close>, and in two words.\<close>

datatype flag_style = OneDash | TwoDashes | TwoWords

fun write_flag :: "flag_style \<times> string \<times> string \<Rightarrow> string list" where
  "write_flag (OneDash, name, v) = [''-'' @ name @ ''='' @ v]"
| "write_flag (TwoDashes, name, v) = [''--'' @ name @ ''='' @ v]"
| "write_flag (TwoWords, name, v) = [''-'' @ name, v]"

definition flag_name :: "string \<Rightarrow> bool" where
  "flag_name name \<longleftrightarrow> name \<noteq> [] \<and> hd name \<noteq> CHR ''-'' \<and> CHR ''='' \<notin> set name"

lemma split_value_eq: "CHR ''='' \<notin> set name \<Longrightarrow> split_value (name @ CHR ''='' # v) = (name, Some v)"
  and split_value_none: "CHR ''='' \<notin> set name \<Longrightarrow> split_value name = (name, None)"
  by (induction name) (auto simp: split_value_def)

lemma read_name_flag:
  assumes "flag_name name"
  shows "read_name (name @ CHR ''='' # v) = WordFlag name (Some v)" and "read_name name = WordFlag name None"
proof -
  have "hd name \<noteq> CHR ''=''" using assms by (cases name) (auto simp: flag_name_def)
  then show "read_name (name @ CHR ''='' # v) = WordFlag name (Some v)" and "read_name name = WordFlag name None"
    using assms split_value_eq [of name v] split_value_none [of name] by (simp_all add: read_name_def flag_name_def)
qed

lemma read_word_one: "name \<noteq> [] \<Longrightarrow> hd name \<noteq> CHR ''-'' \<Longrightarrow> read_word (CHR ''-'' # name) = read_name name"
  by (cases name) (simp_all add: read_word_def)

lemma read_word_two: "name \<noteq> [] \<Longrightarrow> read_word (CHR ''-'' # CHR ''-'' # name) = read_name name"
  by (cases name) (simp_all add: read_word_def)

lemma parse_write_flag:
  assumes "flag_name name" and "name \<in> set names"
  shows "parse_flags names vals (write_flag (style, name, v) @ rest) = parse_flags names (AList.update name v vals) rest"
proof -
  have n: "name \<noteq> []" "hd name \<noteq> CHR ''-''" using assms(1) by (auto simp: flag_name_def)
  then have "read_word (CHR ''-'' # name @ CHR ''='' # v) = WordFlag name (Some v)"
    "read_word (CHR ''-'' # CHR ''-'' # name @ CHR ''='' # v) = WordFlag name (Some v)"
    "read_word (CHR ''-'' # name) = WordFlag name None"
    using read_name_flag [OF assms(1)] by (simp_all add: read_word_one read_word_two)
  then show ?thesis using assms(2) by (cases style) simp_all
qed

text \<open>
  Written flags are read back, whatever the style and the values; the last value of a name counts,
  and the first word that is no flag ends the reading with everything behind it kept as arguments.
\<close>

lemma parse_flags_roundtrip:
  assumes "\<forall>(style, name, v) \<in> set fs. flag_name name \<and> name \<in> set names"
    and "rest = [] \<or> read_word (hd rest) = WordArg"
  shows "parse_flags names vals (concat (map write_flag fs) @ rest) =
     Inr (foldl (\<lambda>m (style, name, v). AList.update name v m) vals fs, rest)"
  using assms(1)
proof (induction fs arbitrary: vals)
  case Nil
  then show ?case using assms(2) by (cases rest) simp_all
next
  case (Cons f fs)
  obtain style name v where f: "f = (style, name, v)" by (cases f)
  have "flag_name name" "name \<in> set names" using Cons.prems f by auto
  then show ?case using Cons.IH [of "AList.update name v vals"] Cons.prems
    parse_write_flag [of name names vals style v "concat (map write_flag fs) @ rest"] f by simp
qed

section \<open>What the exit codes mean\<close>

text \<open>A file name that is not the value of a flag is ignored, and so are the flags behind it.\<close>

lemma run_needs_flags:
  "read_word path = WordArg \<Longrightarrow> run_main env ce reg x (path # args) = Exit 1 \<and>
     validate_main ord ce (path # args) = 1 \<and> test_main ce text runFile (path # args) = 1"
  by (simp add: run_main_def validate_main_def test_main_def testCmd_def validateCmd_def test_files_def
      loadConfigsWithPaths_def map_str_def Let_def)

lemma validate_main_exact:
  "validate_main ord ce args = 0 \<longleftrightarrow>
     parse_flags config_flags [] args = Inl ErrHelp \<or>
     (\<exists>vals rest. parse_flags config_flags [] args = Inr (vals, rest) \<and>
        is_ok (validateCmd ord ce (map_str vals ''config'') (map_str vals ''config-dir'') (map_str vals ''format'')))"
  by (auto simp: validate_main_def flag_exit_def is_ok_def split: sum.splits flag_error.splits)

lemma test_main_exact:
  "test_main ce text runFile args = 0 \<longleftrightarrow>
     parse_flags suite_flags [] args = Inl ErrHelp \<or>
     (\<exists>vals rest files all. parse_flags suite_flags [] args = Inr (vals, rest) \<and>
        test_files ce (map_str vals ''config'') (map_str vals ''dir'') = Inr files \<and>
        run_suites runFile files = Inr all \<and> (\<forall>r \<in> set all. tr_Passed r))"
  by (auto simp: test_main_def testCmd_def flag_exit_def AllPassed_def list_all_iff map_sum_Inr
      split: sum.splits flag_error.splits if_splits)

text \<open>
  A process that serves has loaded and started what \<^verbatim>\<open>run\<close> describes, and its configurations
  are ones that \<^verbatim>\<open>validate\<close> accepts with the same arguments.
\<close>

lemma run_main_serves:
  assumes "run_main env ce reg x args = Serving e srv"
  obtains vals rest cfgs srv0 where "parse_flags config_flags [] args = Inr (vals, rest)"
    and "loadConfigsWithPaths ce (map_str vals ''config'') (map_str vals ''config-dir'') (map_str vals ''format'') = Inr cfgs"
    and "runCmd env ce reg x (map_str vals ''config'') (map_str vals ''config-dir'') (map_str vals ''format'') = Inr e"
    and "NewServer (MergeObservability (map (pc_Observability \<circ> fst) cfgs)) = Inr srv0" and "server_Start srv0 = Inr srv"
  using assms by (auto simp: run_main_def runCmd_def split: sum.splits prod.splits option.splits)

lemma main_serves_valid:
  assumes "main env ce reg x text runFile (''run'' # args) = Serving e srv"
  shows "main env ce reg x text runFile (''validate'' # args) = Exit 0"
proof -
  have "run_main env ce reg x args = Serving e srv" using assms by (simp add: main_def main_command_def)
  then obtain vals rest where p: "parse_flags config_flags [] args = Inr (vals, rest)"
    and r: "runCmd env ce reg x (map_str vals ''config'') (map_str vals ''config-dir'') (map_str vals ''format'') = Inr e"
    by (rule run_main_serves)
  have "is_ok (validateCmd (ge_orders env) ce (map_str vals ''config'') (map_str vals ''config-dir'') (map_str vals ''format''))"
    by (rule runCmd_validated [where env = env and reg = reg and x = x]) (simp add: r is_ok_def)
  then have "validate_main (ge_orders env) ce args = 0" using p validate_main_exact by blast
  then show ?thesis by (simp add: main_def main_command_def)
qed

text \<open>The exit codes are 0, 1 and 2, and only \<^verbatim>\<open>run\<close> serves.\<close>

lemma main_codes:
  "main env ce reg x text runFile args = Exit c \<Longrightarrow> c \<in> {0, 1, 2}"
  "main env ce reg x text runFile args = Serving e srv \<Longrightarrow> \<exists>rest. args = ''run'' # rest"
  by (auto simp: main_def main_command_def run_main_def validate_main_def test_main_def flag_exit_def
      split: command.splits list.splits sum.splits flag_error.splits option.splits prod.splits if_splits)

text \<open>
  The end of a served process: its engine is stopped and every port that answered is shut down, and
  the exit code is 0 even when a pipeline did not stop in its time.
\<close>

lemma run_shutdown_exact:
  "run_shutdown env timeout shutdown e srv = (code, e', ports) \<Longrightarrow>
     code = 0 \<and> e' = snd (engine_Stop env timeout e) \<and> (serves srv port path \<noteq> None \<longrightarrow> port \<in> set ports)"
  using server_Stop_ports [of shutdown srv]
  by (auto simp: run_shutdown_def StopObservability_server_def split: prod.splits)

end
