(* ===== verification/Runtime.thy ===== *)
theory Runtime
  imports Workers Pipeline
begin

text \<open>
  Which goroutines \<^verbatim>\<open>Pipeline.run\<close> starts, and the loop of \<^verbatim>\<open>runSource\<close> with
  the channel between a source and the engine (\<^verbatim>\<open>internal/engine/pipeline.go\<close>).
\<close>

section \<open>The goroutines of a pipeline\<close>

datatype goroutine =
    GDrain nat
  | GFanIn string nat
  | GSink string
  | GTransform string
  | GSource string

definition nodes_of :: "string \<Rightarrow> 'p runtime_graph \<Rightarrow> (string \<times> 'p runtime_node) list" where
  "nodes_of kind g = filter (\<lambda>(_, n). rn_kind n = kind) (rg_nodes g)"

definition startTransformFanIn :: "string \<times> 'p runtime_node \<Rightarrow> goroutine list" where
  "startTransformFanIn entry = (case entry of (sid, n) \<Rightarrow> map (GFanIn sid) (rn_inboundEdges n))"

definition worker_goroutines :: "(string \<times> int) list \<Rightarrow> string \<times> 'p runtime_node \<Rightarrow> goroutine list" where
  "worker_goroutines alloc entry =
     (case entry of (sid, n) \<Rightarrow>
        let workers = (case map_of alloc sid of None \<Rightarrow> 0 | Some w \<Rightarrow> w) in
        if workers < 1 then [] else replicate (nat workers) (GTransform sid))"

definition run_goroutines :: "('p, 'x) pipeline \<Rightarrow> goroutine list" where
  "run_goroutines p =
     (let g = pl_graph p;
          transforms = nodes_of ''transform'' g;
          alloc = allocateTransformWorkers (map snd transforms) (en_MaxWorkers (ir_Engine (pl_ir p))) in
      map GDrain (allEdgeInbounds g)
      @ concat (map startTransformFanIn transforms)
      @ map (GSink \<circ> fst) (nodes_of ''sink'' g)
      @ concat (map (worker_goroutines alloc) transforms)
      @ map (GSource \<circ> fst) (nodes_of ''source'' g))"

section \<open>The loop of a source\<close>

text \<open>
  \<^verbatim>\<open>Consume\<close> runs in a goroutine of its own: the messages it will still send, the channel
  and its capacity, whether it has returned, whether the loop runs, whether the context has ended,
  and what the loop has taken.
\<close>

record source_run =
  so_todo :: "message list"
  so_out :: "message list"
  so_cap :: nat
  so_returned :: bool
  so_loop :: bool
  so_ctx :: bool
  so_taken :: "message list"

text \<open>
  The select of the loop takes any case that is ready: the end of the context, the return of
  \<^verbatim>\<open>Consume\<close>, or a message.
\<close>

inductive source_step :: "source_run \<Rightarrow> source_run \<Rightarrow> bool" where
  so_send: "so_todo s = m # rest \<Longrightarrow> \<not> so_returned s \<Longrightarrow> length (so_out s) < so_cap s \<Longrightarrow>
     source_step s (s\<lparr>so_todo := rest, so_out := so_out s @ [m]\<rparr>)"
| so_return: "so_todo s = [] \<Longrightarrow> source_step s (s\<lparr>so_returned := True\<rparr>)"
| so_cancel: "source_step s (s\<lparr>so_ctx := True\<rparr>)"
| so_abort: "so_ctx s \<Longrightarrow> source_step s (s\<lparr>so_returned := True\<rparr>)"
| so_stop: "so_loop s \<Longrightarrow> so_ctx s \<Longrightarrow> source_step s (s\<lparr>so_loop := False\<rparr>)"
| so_end: "so_loop s \<Longrightarrow> so_returned s \<Longrightarrow> source_step s (s\<lparr>so_loop := False\<rparr>)"
| so_take: "so_loop s \<Longrightarrow> so_out s = m # rest \<Longrightarrow>
     source_step s (s\<lparr>so_out := rest, so_taken := so_taken s @ [m]\<rparr>)"

inductive source_reach :: "source_run \<Rightarrow> source_run \<Rightarrow> bool" for s0 where
  so_refl: "source_reach s0 s0"
| so_more: "source_reach s0 s \<Longrightarrow> source_step s s' \<Longrightarrow> source_reach s0 s'"

interpretation consuming: transition_system "source_step" "source_reach"
  by unfold_locales (rule so_refl, erule (1) so_more, erule source_reach.induct, assumption, blast)

inductive_cases source_stepE: "source_step s s'"

definition source_start :: "message list \<Rightarrow> nat \<Rightarrow> source_run" where
  "source_start ms cap = \<lparr>so_todo = ms, so_out = [], so_cap = cap, so_returned = False, so_loop = True,
     so_ctx = False, so_taken = []\<rparr>"

lemma source_reach_order:
  "source_reach s0 s \<Longrightarrow>
     so_taken s @ so_out s @ so_todo s = so_taken s0 @ so_out s0 @ so_todo s0 \<and> so_cap s = so_cap s0 \<and>
     (length (so_out s0) \<le> so_cap s0 \<longrightarrow> length (so_out s) \<le> so_cap s)"
proof (induction rule: source_reach.induct)
  case (so_more s s')
  from so_more(2,3) show ?case by (cases rule: source_step.cases) auto
qed simp

lemma source_sends:
  "source_reach s0 s \<Longrightarrow> so_todo s = ms @ rest \<Longrightarrow> \<not> so_returned s \<Longrightarrow> length (so_out s) + length ms \<le> so_cap s \<Longrightarrow>
     source_reach s0 (s\<lparr>so_todo := rest, so_out := so_out s @ ms\<rparr>)"
proof (induction ms arbitrary: s)
  case Nil
  have e: "s\<lparr>so_todo := rest, so_out := so_out s @ []\<rparr> = s" using Nil(2) by (cases s) simp
  show ?case unfolding e by (rule Nil(1))
next
  case (Cons m ms)
  have "source_reach s0 (s\<lparr>so_todo := ms @ rest, so_out := so_out s @ [m]\<rparr>)"
    by (rule source_reach.so_more [OF Cons.prems(1) so_send]) (use Cons.prems in auto)
  from Cons.IH [OF this] show ?case using Cons.prems by simp
qed

text \<open>
  C40: the engine takes the messages of a source in the order in which it sends them, without loss
  while its loop runs. But the loop does not drain the channel when \<^verbatim>\<open>Consume\<close> returns: a
  source that sends messages that fit into the channel and returns without an error can, with the
  context alive, lose every one of them, because the return may be seen first.
\<close>

theorem source_end_drops_messages:
  assumes "length ms \<le> cap"
  shows "(\<forall>s. source_reach (source_start ms cap) s \<longrightarrow> so_taken s @ so_out s @ so_todo s = ms) \<and>
    (\<exists>s. source_reach (source_start ms cap) s \<and> so_returned s \<and> \<not> so_loop s \<and> \<not> so_ctx s \<and>
       so_taken s = [] \<and> so_out s = ms \<and> so_todo s = [])"
proof (intro conjI allI impI)
  show "so_taken s @ so_out s @ so_todo s = ms" if "source_reach (source_start ms cap) s" for s
    using source_reach_order [OF that] by (simp add: source_start_def)
  let ?s1 = "(source_start ms cap)\<lparr>so_todo := [], so_out := ms\<rparr>"
  have "source_reach (source_start ms cap) ?s1"
    using source_sends [OF so_refl, of "source_start ms cap" ms "[]"] assms by (simp add: source_start_def)
  then have "source_reach (source_start ms cap) (?s1\<lparr>so_returned := True\<rparr>)"
    by (rule source_reach.so_more) (rule so_return, simp)
  moreover have "source_step (?s1\<lparr>so_returned := True\<rparr>) (?s1\<lparr>so_returned := True, so_loop := False\<rparr>)"
    using so_end [of "?s1\<lparr>so_returned := True\<rparr>"] by (simp add: source_start_def)
  ultimately have "source_reach (source_start ms cap) (?s1\<lparr>so_returned := True, so_loop := False\<rparr>)"
    by (rule source_reach.so_more)
  then show "\<exists>s. source_reach (source_start ms cap) s \<and> so_returned s \<and> \<not> so_loop s \<and> \<not> so_ctx s \<and>
      so_taken s = [] \<and> so_out s = ms \<and> so_todo s = []"
    by (intro exI [of _ "?s1\<lparr>so_returned := True, so_loop := False\<rparr>"]) (simp add: source_start_def)
qed

section \<open>How many goroutines\<close>

lemma count_workers:
  "distinct (map fst ns) \<Longrightarrow> sid \<in> fst ` set ns \<Longrightarrow>
     count_list (concat (map (worker_goroutines alloc) ns)) (GTransform sid)
       = nat (case map_of alloc sid of None \<Rightarrow> 0 | Some w \<Rightarrow> w)"
proof (induction ns)
  case (Cons e ns)
  obtain k n where e: "e = (k, n)" by (cases e)
  have c: "count_list (worker_goroutines alloc (k, n)) (GTransform sid) =
      (if sid = k then nat (case map_of alloc k of None \<Rightarrow> 0 | Some w \<Rightarrow> w) else 0)" for k and n :: "'a runtime_node"
  proof -
    have "count_list (replicate m (GTransform k)) (GTransform sid) = (if sid = k then m else 0)" for m
      by (induction m) auto
    from this [of "nat (case map_of alloc k of None \<Rightarrow> 0 | Some w \<Rightarrow> w)"] show ?thesis
      by (auto simp: worker_goroutines_def Let_def)
  qed
  have none: "count_list (concat (map (worker_goroutines alloc) ns)) (GTransform sid) = 0" if "sid \<notin> fst ` set ns"
    using that by (induction ns) (auto simp: c)
  show ?case using Cons none c by (cases "sid = k") (auto simp: e)
qed simp

lemma count_list_map_inj:
  "inj c \<Longrightarrow> distinct (map fst ns) \<Longrightarrow> count_list (map (\<lambda>e. c (fst e)) ns) (c x) = (if x \<in> fst ` set ns then 1 else 0)"
  by (induction ns) (auto simp: inj_eq count_notin image_iff)

lemma count_drains: "distinct is \<Longrightarrow> count_list (map GDrain is) (GDrain i) = (if i \<in> set is then 1 else 0)"
  by (induction "is") (auto simp: count_notin)

text \<open>
  \<^verbatim>\<open>run\<close> starts one goroutine for each source, each sink and the drainer of each
  edge, one fan-in for each edge into a transform, and for each transform as many workers as the
  allocation gives it. A transform that gets none has a fan-in but nobody who processes what it
  receives.
\<close>

theorem run_goroutines_exact:
  assumes "distinct (map fst (rg_nodes (pl_graph p)))" and "(sid, n) \<in> set (rg_nodes (pl_graph p))"
    and "alloc = allocateTransformWorkers (map snd (nodes_of ''transform'' (pl_graph p))) (en_MaxWorkers (ir_Engine (pl_ir p)))"
  shows "count_list (run_goroutines p) (GSource sid) = (if rn_kind n = ''source'' then 1 else 0) \<and>
    count_list (run_goroutines p) (GSink sid) = (if rn_kind n = ''sink'' then 1 else 0) \<and>
    count_list (run_goroutines p) (GTransform sid)
      = (if rn_kind n = ''transform'' then nat (case map_of alloc sid of None \<Rightarrow> 0 | Some w \<Rightarrow> w) else 0) \<and>
    {i. GFanIn sid i \<in> set (run_goroutines p)} = (if rn_kind n = ''transform'' then set (rn_inboundEdges n) else {}) \<and>
    (\<forall>i. count_list (run_goroutines p) (GDrain i) = (if i \<in> set (allEdgeInbounds (pl_graph p)) then 1 else 0))"
proof -
  let ?g = "pl_graph p"
  have d: "distinct (map fst (nodes_of kind ?g))" for kind
    using assms(1) by (simp add: nodes_of_def distinct_map_filter)
  have node: "sid \<in> fst ` set (nodes_of kind ?g) \<longleftrightarrow> rn_kind n = kind" for kind
  proof -
    have "m = n" if "(sid, m) \<in> set (rg_nodes ?g)" for m using eq_key_imp_eq_value [OF assms(1,2) that] by simp
    then have "(\<exists>m. (sid, m) \<in> set (rg_nodes ?g) \<and> rn_kind m = kind) \<longleftrightarrow> rn_kind n = kind" using assms(2) by blast
    then show ?thesis by (auto simp: nodes_of_def image_iff)
  qed
  have G: "run_goroutines p = map GDrain (allEdgeInbounds ?g)
      @ concat (map startTransformFanIn (nodes_of ''transform'' ?g)) @ map (GSink \<circ> fst) (nodes_of ''sink'' ?g)
      @ concat (map (worker_goroutines alloc) (nodes_of ''transform'' ?g)) @ map (GSource \<circ> fst) (nodes_of ''source'' ?g)"
    by (simp add: run_goroutines_def Let_def assms(3))
  have fan: "set (startTransformFanIn e) = GFanIn (fst e) ` set (rn_inboundEdges (snd e))" for e :: "string \<times> 'a runtime_node"
    by (cases e) (simp add: startTransformFanIn_def)
  have work: "set (worker_goroutines alloc e) \<subseteq> {GTransform (fst e)}" for e :: "string \<times> 'a runtime_node"
    by (cases e) (auto simp: worker_goroutines_def Let_def)
  have one: "count_list (map (c \<circ> fst) (nodes_of kind ?g)) (c sid) = (if rn_kind n = kind then 1 else 0)"
    if "inj c" for c :: "string \<Rightarrow> goroutine" and kind
    using count_list_map_inj [OF that d] node by (simp add: comp_def)
  have no: "count_list (map (c \<circ> fst) ns) x = 0" if "\<And>k. c k \<noteq> x"
    for c :: "string \<Rightarrow> goroutine" and ns :: "(string \<times> 'a runtime_node) list" and x
    using that by (intro count_notin) auto
  have nofan: "count_list (concat (map startTransformFanIn ns)) x = 0" if "\<And>k i. x \<noteq> GFanIn k i"
    for ns :: "(string \<times> 'a runtime_node) list" and x
    using that fan by (intro count_notin) auto
  have nowork: "count_list (concat (map (worker_goroutines alloc) ns)) x = 0" if "\<And>k. x \<noteq> GTransform k"
    for ns :: "(string \<times> 'a runtime_node) list" and x
    using that work by (intro count_notin) fastforce
  have nodrain: "count_list (map GDrain is) x = 0" if "\<And>i. x \<noteq> GDrain i" for "is" x
    using that by (intro count_notin) auto
  have "count_list (run_goroutines p) (GSource sid) = (if rn_kind n = ''source'' then 1 else 0)"
    by (simp add: G one no nofan nowork nodrain inj_def del: map_map)
  moreover have "count_list (run_goroutines p) (GSink sid) = (if rn_kind n = ''sink'' then 1 else 0)"
    by (simp add: G one no nofan nowork nodrain inj_def del: map_map)
  moreover have "count_list (run_goroutines p) (GTransform sid)
      = (if rn_kind n = ''transform'' then nat (case map_of alloc sid of None \<Rightarrow> 0 | Some w \<Rightarrow> w) else 0)"
  proof (cases "rn_kind n = ''transform''")
    case True
    then show ?thesis using count_workers [OF d, of sid "''transform''" alloc] node
      by (simp add: G no nofan nodrain del: map_map)
  next
    case False
    then have "sid \<notin> fst ` set (nodes_of ''transform'' ?g)" using node by blast
    then have "count_list (concat (map (worker_goroutines alloc) (nodes_of ''transform'' ?g))) (GTransform sid) = 0"
      by (intro count_notin) (auto dest!: subsetD [OF work])
    then show ?thesis using False by (simp add: G no nofan nodrain del: map_map)
  qed
  moreover have "{i. GFanIn sid i \<in> set (run_goroutines p)} = (if rn_kind n = ''transform'' then set (rn_inboundEdges n) else {})"
  proof -
    have "GFanIn sid i \<in> set (run_goroutines p) \<longleftrightarrow>
        (\<exists>m. (sid, m) \<in> set (nodes_of ''transform'' ?g) \<and> i \<in> set (rn_inboundEdges m))" for i
    proof -
      have nw: "GFanIn sid i \<notin> set (worker_goroutines alloc e)" for e :: "string \<times> 'a runtime_node"
        using subsetD [OF work [of e], of "GFanIn sid i"] by blast
      show ?thesis by (auto simp: G fan nw image_iff) force
    qed
    moreover have "(sid, m) \<in> set (nodes_of ''transform'' ?g) \<longleftrightarrow> m = n \<and> rn_kind n = ''transform''" for m
    proof -
      have "(sid, m) \<in> set (rg_nodes ?g) \<longleftrightarrow> m = n" using assms(2) eq_key_imp_eq_value [OF assms(1,2)] by metis
      then show ?thesis by (auto simp: nodes_of_def)
    qed
    ultimately have "GFanIn sid i \<in> set (run_goroutines p) \<longleftrightarrow> rn_kind n = ''transform'' \<and> i \<in> set (rn_inboundEdges n)" for i
      by simp
    then show ?thesis by (cases "rn_kind n = ''transform''") simp_all
  qed
  moreover have "count_list (run_goroutines p) (GDrain i) = (if i \<in> set (allEdgeInbounds ?g) then 1 else 0)" for i
    using count_drains [of "allEdgeInbounds ?g" i] by (simp add: G no nofan nowork allEdgeInbounds_def del: map_map)
  ultimately show ?thesis by (intro conjI allI)
qed

section \<open>Witnesses\<close>

theorem source_end_drops_messages_witness:
  "\<exists>s. source_reach (source_start [message_New ''a'' None, message_New ''b'' None] 64) s \<and> \<not> so_loop s \<and> \<not> so_ctx s \<and>
     so_taken s = [] \<and> map ms_Payload (so_out s) = [''a'', ''b'']"
proof -
  obtain s where "source_reach (source_start [message_New ''a'' None, message_New ''b'' None] 64) s" "\<not> so_loop s" "\<not> so_ctx s"
    "so_taken s = []" "so_out s = [message_New ''a'' None, message_New ''b'' None]"
    using source_end_drops_messages [of "[message_New ''a'' None, message_New ''b'' None]" 64] by auto
  then show ?thesis by (intro exI [of _ s]) (simp add: message_New_def)
qed

text \<open>Two transforms and a budget of one worker.\<close>

definition two_transforms :: topology_ir where
  "two_transforms = two_routes\<lparr>ir_Engine := (ir_Engine two_routes)\<lparr>en_MaxWorkers := 1\<rparr>,
     ir_Stages := [demo_stage ''s'' ''source'', demo_stage ''a'' ''transform'', demo_stage ''b'' ''transform'', demo_stage ''k'' ''sink''],
     ir_Edges := [demo_edge ''s'' ''a'', demo_edge ''a'' ''b'', demo_edge ''b'' ''k'']\<rparr>"

theorem run_goroutines_exact_witness:
  "\<exists>p. NewPipeline demo_compiler no_dirs demo_registry two_transforms = Inr p \<and>
     count_list (run_goroutines p) (GTransform ''b'') = 0 \<and> {i. GFanIn ''b'' i \<in> set (run_goroutines p)} = {1}"
proof -
  have ok: "is_ok (NewPipeline demo_compiler no_dirs demo_registry two_transforms)" by code_simp
  define p where "p = projr (NewPipeline demo_compiler no_dirs demo_registry two_transforms)"
  have p: "NewPipeline demo_compiler no_dirs demo_registry two_transforms = Inr p" using ok by (auto simp: p_def is_ok_iff)
  let ?alloc = "allocateTransformWorkers (map snd (nodes_of ''transform'' (pl_graph p))) (en_MaxWorkers (ir_Engine (pl_ir p)))"
  have "(distinct (map fst (rg_nodes (pl_graph p))),
      map_option (\<lambda>n. (rn_kind n, rn_inboundEdges n)) (map_of (rg_nodes (pl_graph p)) ''b''), map_of ?alloc ''b'')
      = (True, Some (''transform'', [1]), Some 0)"
    unfolding p_def by code_simp
  then obtain n where "distinct (map fst (rg_nodes (pl_graph p)))" "map_of (rg_nodes (pl_graph p)) ''b'' = Some n"
    "rn_kind n = ''transform''" "rn_inboundEdges n = [1]" "map_of ?alloc ''b'' = Some 0" by auto
  then show ?thesis using run_goroutines_exact [OF _ map_of_SomeD refl, of p "''b''" n] p by auto
qed

end
