(* ===== verification/Spec2Isabelle.thy ===== *)
theory Spec2Isabelle
  imports Yaml Topology Loader Inflight Admin Composition Commits DiskEdge Metrics Sources Logs CelEnv Command Runtime
begin

text \<open>
  EventR (\<^verbatim>\<open>github.com/deeploop-ai/eventr\<close>): a verification library for the Go sources under
  \<^verbatim>\<open>src/\<close>.

  \<^bold>\<open>The program.\<close> EventR runs event pipelines. A configuration (YAML or HOCON, as a
  \<^verbatim>\<open>steps\<close> map or a \<^verbatim>\<open>pipeline\<close> list) is normalised to stages and edges, validated,
  and turned into a topology. The engine builds a graph from it: a node for each stage, a buffer for
  each edge, compiled conditions on edges. Sources emit messages, which are copied along the edges
  that match, changed by transforms and written by sinks in batches, with retries and a dead letter
  queue. Each copy carries an acknowledgement that counts down a fan-out; the last one acknowledges
  the source's message and gives back an inflight slot. Buffers are channels, disk logs or both. An
  admin API and a signal reload pipelines while the others run.

  \<^bold>\<open>Theories and sources.\<close>
  \<^item> \<^verbatim>\<open>Prelude\<close>, \<^verbatim>\<open>GoValue\<close>, \<^verbatim>\<open>GoTime\<close>, \<^verbatim>\<open>Json\<close>: errors and results, Go's
    maps, strings, dynamic values, durations and \<^verbatim>\<open>encoding/json\<close>; the locales
    \<open>transition_system\<close> and \<open>simulation\<close> that every step relation uses.
  \<^item> \<^verbatim>\<open>Config\<close>, \<^verbatim>\<open>Normalize\<close>, \<^verbatim>\<open>Yaml\<close>, \<^verbatim>\<open>Hocon\<close>, \<^verbatim>\<open>Loader\<close>:
    \<^verbatim>\<open>internal/config\<close> (\<^verbatim>\<open>config.go\<close>, \<^verbatim>\<open>normalize.go\<close>, its YAML decoders,
    \<^verbatim>\<open>hocon.go\<close>, \<^verbatim>\<open>loader.go\<close>).
  \<^item> \<^verbatim>\<open>TopologyIR\<close>, \<^verbatim>\<open>Topology\<close>: \<^verbatim>\<open>internal/topology\<close> (\<^verbatim>\<open>ir.go\<close>,
    \<^verbatim>\<open>validate.go\<close>, \<^verbatim>\<open>build.go\<close>).
  \<^item> \<^verbatim>\<open>Message\<close>, \<^verbatim>\<open>Ack\<close>: \<^verbatim>\<open>internal/message\<close> as a store of messages and a heap of
    payloads, and the acknowledgement callbacks the engine chains on them.
  \<^item> \<^verbatim>\<open>WalRecord\<close>, \<^verbatim>\<open>DiskWal\<close>, \<^verbatim>\<open>EdgeBuf\<close>: \<^verbatim>\<open>internal/buffer\<close>
    (\<^verbatim>\<open>wal.go\<close>, \<^verbatim>\<open>disk.go\<close>, \<^verbatim>\<open>edge.go\<close>). \<^verbatim>\<open>DiskEdge\<close> proves what a disk
    buffer promises, from the queue the log is and the steps of the edge.
  \<^item> \<^verbatim>\<open>Registry\<close>, \<^verbatim>\<open>Graph\<close>, \<^verbatim>\<open>Workers\<close>, \<^verbatim>\<open>Pipeline\<close>, \<^verbatim>\<open>Dispatch\<close>,
    \<^verbatim>\<open>Inflight\<close>, \<^verbatim>\<open>Retry\<close>, \<^verbatim>\<open>Sink\<close>, \<^verbatim>\<open>Runtime\<close>, \<^verbatim>\<open>Engine\<close>:
    \<^verbatim>\<open>internal/registry\<close> and \<^verbatim>\<open>internal/engine\<close> (\<^verbatim>\<open>graph.go\<close>,
    \<^verbatim>\<open>workers.go\<close>, \<^verbatim>\<open>pipeline.go\<close>, \<^verbatim>\<open>errormode.go\<close>, \<^verbatim>\<open>dispatch.go\<close>,
    \<^verbatim>\<open>inflight.go\<close>). \<^verbatim>\<open>Flow\<close>, \<^verbatim>\<open>Accounts\<close>, \<^verbatim>\<open>Delivery\<close>,
    \<^verbatim>\<open>Composition\<close>, \<^verbatim>\<open>AckErrors\<close> and \<^verbatim>\<open>FailedWrites\<close> hold the proofs that
    connect them.
  \<^item> \<^verbatim>\<open>Reload\<close>, \<^verbatim>\<open>Admin\<close>, \<^verbatim>\<open>Observe\<close>, \<^verbatim>\<open>Logs\<close>, \<^verbatim>\<open>Metrics\<close>: \<^verbatim>\<open>engine.go\<close>, \<^verbatim>\<open>reload.go\<close>,
    \<^verbatim>\<open>admin.go\<close> and \<^verbatim>\<open>internal/observability\<close>.
  \<^item> \<^verbatim>\<open>Eql\<close>, \<^verbatim>\<open>CelEnv\<close>, \<^verbatim>\<open>Plugins\<close>, \<^verbatim>\<open>Connectors\<close>, \<^verbatim>\<open>Sources\<close>: \<^verbatim>\<open>internal/eql\<close>,
    \<^verbatim>\<open>internal/basestage\<close> and \<^verbatim>\<open>plugins\<close>. \<^verbatim>\<open>Commits\<close> joins the Kafka source to a
    running pipeline.
  \<^item> \<^verbatim>\<open>Runner\<close>, \<^verbatim>\<open>Command\<close>: \<^verbatim>\<open>cmd/eventr\<close>, \<^verbatim>\<open>internal/testrunner\<close> and
    \<^verbatim>\<open>internal/testutil\<close>.

  \<^bold>\<open>How code becomes definitions.\<close> A struct is a record, whose fields carry a prefix for the
  struct. A function that can fail returns \<open>goerr + 'a\<close>; a panic is such an error too. A Go map
  is an association list whose order is the order in which a \<^verbatim>\<open>range\<close> loop visits it, so a
  theorem over all lists covers every iteration order; where the code ranges over several maps the
  orders are arguments. Pointers to messages, payloads, fan-out cells, buffers and pipelines are
  numbers, so that sharing is visible. Goroutines are step relations or lists of pending actions;
  a blocking operation gives the list of its possible outcomes, and the empty list waits. The
  inflight counter is a \<open>32 word\<close>, WAL headers are \<open>32 word\<close>, \<^verbatim>\<open>time.Duration\<close> and
  \<^verbatim>\<open>int\<close> arithmetic that can overflow wraps at 64 bits.

  \<^bold>\<open>What the theorems show.\<close>
  \<^item> Delivery: a refinement from the goroutines of \<^verbatim>\<open>Engine\<close> to the accounts of
    \<^verbatim>\<open>Ack\<close> gives at most one acknowledgement of each source message under every interleaving,
    error and cancellation, and exactly one when the buffers are memory and nothing is left to do;
    \<open>eventr_delivers\<close> states it of the program with its own plugins. The error of a failed write reaches the source whatever else
    happens to the message's other copies (\<open>failed_write_never_acked\<close>), so that the Kafka source
    keeps its record and never commits it (\<open>failed_write_never_committed\<close>). A simulation gives each memory
    edge of a running pipeline the order and bounds of the edge by itself. Beside them stand the
    places where the code does not deliver: disk edges, required edges, sources that return.
  \<^item> Storage: the WAL answers as a queue across roll-over, deletion and restarts; its records
    round trip and torn ones are never taken for messages; what happens when the log is full or a
    crash comes in the middle of a removal. A disk edge delivers the backlog and what it accepted in
    order, with nothing lost while it drains alive, and what it has not delivered is in the files
    (\<open>disk_edge_order\<close>).
  \<^item> Configuration: the HOCON reader inverts a printer; normalisation does not depend on the map
    order; validation accepts exactly the well-formed topologies; the cycle search is exact.
  \<^item> Resources: the inflight limit, the allocation of workers, batches, retries.
  \<^item> Reload: exclusion in every interleaving, flags nobody clears, swaps that are not transactions,
    reloads that outlive a shutdown; the admin API changes the engine only by claims.
  \<^item> Plugins: the built-in transforms keep the contract delivery needs; the codec round trip; what
    a mapping shares; what Kafka commits and what an HTTP retry posts again.

  \<^bold>\<open>Fuel and bounds.\<close> \<^verbatim>\<open>ReadNext_loop\<close>, the depth-first search and the reading of shared
  payloads have a step bound: two turns more than the directory has files, the number of stages, and
  the number of objects in the heap. Theorems show that these are enough (\<open>ReadNext_returns\<close>,
  \<open>detectCycle_exact\<close>, \<open>freeze_mono\<close>). All other loops are recursion with a termination proof.

  \<^bold>\<open>Arguments of the model.\<close> The CEL library behind \<^verbatim>\<open>internal/eql\<close>, the YAML and HOCON
  parsers, the Kafka and HTTP clients, the cron scheduler, the text of floats, random ids, clocks,
  files and the environment. Theorems hold for every value of them, or name what they need.

  \<^bold>\<open>Not modelled.\<close> The Prometheus client (a report to it is the call it receives) and the empty
  tracer; the text handler of \<^verbatim>\<open>log/slog\<close>; what the commands print besides the test report; listening sockets and the JSON text
  of HTTP answers; the OS goroutine scheduler beyond interleaving; I/O faults of the disk other than
  running out of space; UTF-8 (strings are bytes, and case mapping is that of ASCII); the deadline
  of \<^verbatim>\<open>Pipeline.Stop\<close>, which is an argument.
\<close>

section \<open>Delivery by the program as it is shipped\<close>


definition shipped_ir :: topology_ir where
  "shipped_ir = two_routes\<lparr>
     ir_Stages := [(demo_stage ''s'' ''source'')\<lparr>st_Type := ''kafka'',
         st_Config := Some [(''brokers'', GStr ''b''), (''topics'', GStr ''t'')]\<rparr>,
       (demo_stage ''t'' ''transform'')\<lparr>st_Type := ''filter'', st_Config := Some [(''dsl'', GStr ''true'')]\<rparr>,
       demo_stage ''k'' ''sink''],
     ir_Edges := [demo_edge ''s'' ''t'', demo_edge ''t'' ''k'']\<rparr>"

definition shipped_env :: "(unit, nat) plugin_env" where
  "shipped_env = \<lparr>pe_float = (\<lambda>_. ''''), pe_cron = \<lparr>ce_LoadLocation = (\<lambda>_. Inr ()), ce_UTC = (), ce_Parse = (\<lambda>_. None)\<rparr>,
     pe_http = \<lparr>ht_NewRequest = (\<lambda>_ _. None), ht_Do = (\<lambda>_ _ _ n. (Inr 200, n))\<rparr>,
     pe_WriteMessages = (\<lambda>_ _ n. (None, n)), pe_CloseReader = (\<lambda>_ n. (None, n)), pe_CloseWriter = (\<lambda>_ n. (None, n)),
     pe_Listen = (\<lambda>_ n. n), pe_Shutdown = (\<lambda>_ n. (None, n))\<rparr>"

abbreviation shipped_cel :: "unit cel" where
  "shipped_cel \<equiv> const_cel (JBool True)"

definition shipped :: "(unit program, nat) pipeline" where
  "shipped = (case NewPipeline (eql_compiler shipped_cel) no_dirs (plugins_all shipped_cel plain_json shipped_env) shipped_ir of
     Inr p \<Rightarrow> p
   | Inl _ \<Rightarrow> \<lparr>pl_ir = shipped_ir, pl_stages = [], pl_stageErrorMode = [], pl_graph = empty_graph, pl_decoders = [],
          pl_encoders = [], pl_started = False, pl_cancelled = False\<rparr>)"

lemma shipped_built:
  "NewPipeline (eql_compiler shipped_cel) no_dirs (plugins_all shipped_cel plain_json shipped_env) shipped_ir = Inr shipped"
proof -
  have "is_ok (NewPipeline (eql_compiler shipped_cel) no_dirs (plugins_all shipped_cel plain_json shipped_env) shipped_ir)"
    by code_simp
  then show ?thesis by (auto simp: shipped_def is_ok_iff)
qed

definition shipped_run :: "nat engine_run" where
  "shipped_run = foldl (take_turn shipped (\<lambda>_ _ _ _. Inr True) demo_ev demo_denv)
     (engine_start demo_world (rg_buffers (pl_graph shipped)) 0) relay_turns"

lemma shipped_reach:
  "engine_reach shipped (\<lambda>_ _ _ _. Inr True) demo_ev demo_denv (engine_start demo_world (rg_buffers (pl_graph shipped)) 0) shipped_run"
  unfolding shipped_run_def by (rule schedule_reach)

lemma shipped_end: "run_summary shipped_run = (True, [(''s'', 0, None)], 0, [(''s'', 0, True)])"
  by code_simp


end
